(* ===== verification/Prelude.thy ===== *)
theory Prelude
  imports Main "HOL-Library.Word"
begin

text \<open>
  Shared vocabulary of the development: names for the machine integers of the C sources
  (\<^verbatim>\<open>src/trunk/src/common.h\<close>), the reading of a C string through a pointer, and the generic
  facts on lists, options and words that the component theories use.

  A pointer into a NUL terminated text is modelled by the suffix of the text that starts at
  the pointer; the terminating NUL is not an element of the list.  Dereferencing such a
  pointer is \<open>peek\<close>, which answers NUL at the end of the text.
\<close>

unbundle bit_operations_syntax

named_theorems scan_simps \<open>rewrite rules for the text scanners\<close>
named_theorems scan_len \<open>scanners never lengthen the text that remains\<close>

section \<open>Machine integers\<close>

type_synonym u8 = "8 word"
type_synonym u16 = "16 word"
type_synonym u32 = "32 word"
type_synonym u64 = "64 word"

section \<open>Characters and texts\<close>

text \<open>The value of a character as an \<open>int\<close> or \<open>nat\<close>; texts are 7 bit, see the header.\<close>

abbreviation chr_nat :: "char \<Rightarrow> nat" where
  "chr_nat c \<equiv> of_char c"

abbreviation NUL :: char where
  "NUL \<equiv> CHR 0x00"

abbreviation NL :: char where
  "NL \<equiv> CHR 0x0A"

abbreviation TAB :: char where
  "TAB \<equiv> CHR 0x09"

abbreviation CR :: char where
  "CR \<equiv> CHR 0x0D"

fun peek :: "string \<Rightarrow> char" where
  "peek [] = NUL"
| "peek (c # s) = c"

definition no_nul :: "string \<Rightarrow> bool" where
  "no_nul s \<longleftrightarrow> NUL \<notin> set s"

lemma no_nul_simps [simp]:
  "no_nul []" "no_nul (c # s) \<longleftrightarrow> c \<noteq> NUL \<and> no_nul s" "no_nul (s @ t) \<longleftrightarrow> no_nul s \<and> no_nul t"
  by (auto simp: no_nul_def)

lemma no_nul_drop [simp]: "no_nul s \<Longrightarrow> no_nul (drop n s)"
  by (auto simp: no_nul_def dest: in_set_dropD)

lemma no_nul_dropWhile [simp]: "no_nul s \<Longrightarrow> no_nul (dropWhile P s)"
  by (auto simp: no_nul_def dest: set_dropWhileD)

lemma peek_append [simp]: "peek (s @ t) = (if s = [] then peek t else peek s)"
  by (cases s) auto

lemma peek_NUL_iff: "no_nul s \<Longrightarrow> peek s = NUL \<longleftrightarrow> s = []"
  by (cases s) auto

section \<open>Lists\<close>

lemma dropWhile_length [simp]: "length (dropWhile P xs) \<le> length xs"
  by (rule length_dropWhile_le)

lemma length_dropWhile_less: "s \<noteq> [] \<Longrightarrow> P (hd s) \<Longrightarrow> length (dropWhile P s) < length s"
  by (cases s) (simp_all add: le_imp_less_Suc)

lemma length_dropWhile_peek: "P (peek s) \<Longrightarrow> \<not> P NUL \<Longrightarrow> length (dropWhile P s) < length s"
  by (cases s) (simp_all add: le_imp_less_Suc)

lemma dropWhile_suffix_ex: "\<exists>p. xs = p @ dropWhile P xs"
  by (metis takeWhile_dropWhile_id)

lemma drop_takeWhile_length: "drop (length (takeWhile P xs)) xs = dropWhile P xs"
  by (metis append_eq_conv_conj takeWhile_dropWhile_id)

lemma takeWhile_append_stop:
  "\<forall>x \<in> set xs. P x \<Longrightarrow> ys = [] \<or> \<not> P (hd ys) \<Longrightarrow> takeWhile P (xs @ ys) = xs"
  by (induction xs) (auto simp: takeWhile_eq_Nil_iff)

lemma dropWhile_append_stop:
  "\<forall>x \<in> set xs. P x \<Longrightarrow> ys = [] \<or> \<not> P (hd ys) \<Longrightarrow> dropWhile P (xs @ ys) = ys"
  by (induction xs) (auto simp: dropWhile_eq_self_iff)

lemma dropWhile_stop: "ys = [] \<or> \<not> P (hd ys) \<Longrightarrow> dropWhile P ys = ys"
  by (cases ys) auto

lemma nth_append_mid: "(xs @ y # zs) ! length xs = y"
  by simp

section \<open>Words\<close>

lemma unat_lt2p32: "unat (x :: u32) < 4294967296"
  using unsigned_less [of x, where ?'a = nat] by simp

lemma unat_lt2p64: "unat (x :: u64) < 18446744073709551616"
  using unsigned_less [of x, where ?'a = nat] by simp

lemma uint_lt2p32: "uint (x :: u32) < 4294967296" and uint_ge0_32: "0 \<le> uint (x :: u32)"
  using unsigned_less [of x, where ?'a = int] by simp_all

lemma unat_ucast_32_64 [simp]: "unat (ucast (x :: u32) :: u64) = unat x"
  using unat_lt2p32 [of x] by (simp add: unsigned_ucast_eq take_bit_eq_mod)

lemma unat_ucast_64_32: "unat (ucast (x :: u64) :: u32) = unat x mod 2 ^ 32"
  by (simp add: unsigned_ucast_eq take_bit_eq_mod)

lemma unat_drop_bit_word: "unat (drop_bit n (x :: 'a::len word)) = unat x div 2 ^ n"
proof -
  have "unat (drop_bit n x) = drop_bit n (take_bit LENGTH('a) (unat x))"
    by (rule unsigned_drop_bit_eq)
  moreover have "take_bit LENGTH('a) (unat x) = unat x"
    by (simp add: take_bit_nat_eq_self)
  ultimately show ?thesis by (simp add: drop_bit_eq_div)
qed

lemma unat_push_bit_word:
  "unat (push_bit n (x :: 'a::len word)) = (unat x * 2 ^ n) mod 2 ^ LENGTH('a)"
proof -
  have "unat (push_bit n x) = take_bit LENGTH('a) (push_bit n (unat x))"
    by (rule unsigned_push_bit_eq)
  then show ?thesis by (simp only: take_bit_eq_mod push_bit_eq_mult)
qed

lemma unat_add_32: "unat (a + b :: u32) = (unat a + unat b) mod 4294967296"
  by (simp add: unat_word_ariths)

lemma unat_add_64: "unat (a + b :: u64) = (unat a + unat b) mod 18446744073709551616"
  by (simp add: unat_word_ariths)

lemma unat_sub_carry:
  fixes a b :: u32
  shows "unat (a - b) + unat b = unat a + (if a < b then 4294967296 else 0)"
proof -
  have "unat a = (unat (a - b) + unat b) mod 4294967296"
    by (metis diff_add_cancel unat_add_32)
  then show ?thesis
    using unat_lt2p32 [of a] unat_lt2p32 [of b] unat_lt2p32 [of "a - b"]
    by (auto simp: word_less_nat_alt mod_if split: if_splits)
qed

lemma unat_sub_ex: "\<exists>i. unat (a - b :: u32) + unat b = unat a + i * 4294967296"
  by (rule exI [of _ "if a < b then 1 else 0"]) (use unat_sub_carry [of a b] in auto)

lemma divmod_unique_nat: "N = q * D + r \<Longrightarrow> r < D \<Longrightarrow> N div D = q \<and> N mod D = (r :: nat)"
  by simp

end
