(* ===== verification/Math64.thy ===== *)
theory Math64
  imports Prelude
begin

text \<open>
  The 64 bit division of the x86 kernel (\<^verbatim>\<open>src/trunk/src/x86_math64.c\<close>), which builds an
  unsigned 64 by 64 bit division out of the 64 by 32 bit \<^verbatim>\<open>divl\<close> instruction.

  The inline assembler macros are modelled by what the instructions compute on 32 bit words:
  \<^verbatim>\<open>divl\<close> faults when the quotient does not fit (\<open>None\<close>), \<^verbatim>\<open>mull\<close> yields the double word
  product, \<^verbatim>\<open>subl\<close>/\<^verbatim>\<open>sbbl\<close> subtract with borrow, \<^verbatim>\<open>bsrl\<close> finds the highest set bit.  The file
  defines \<^verbatim>\<open>W_TYPE_SIZE\<close> as 64 although \<^verbatim>\<open>UWtype\<close> has 32 bits, so the shift counts
  \<^verbatim>\<open>W_TYPE_SIZE - bm\<close> exceed 32; the shift instructions of the processor take the count modulo
  32, which is what \<open>shll\<close> and \<open>shrl\<close> do.
\<close>

section \<open>Instructions\<close>

definition shll :: "u32 \<Rightarrow> nat \<Rightarrow> u32" where
  "shll x n = push_bit (n mod 32) x"

definition shrl :: "u32 \<Rightarrow> nat \<Rightarrow> u32" where
  "shrl x n = drop_bit (n mod 32) x"

definition udiv_qrnnd :: "u32 \<Rightarrow> u32 \<Rightarrow> u32 \<Rightarrow> (u32 \<times> u32) option" where
  "udiv_qrnnd n1 n0 dv =
     (let n = unat n1 * 2 ^ 32 + unat n0 in
      if n div unat dv < 2 ^ 32 \<and> dv \<noteq> 0
      then Some (of_nat (n div unat dv), of_nat (n mod unat dv)) else None)"

definition umul_ppmm :: "u32 \<Rightarrow> u32 \<Rightarrow> u32 \<times> u32" where
  "umul_ppmm u v = (let m = unat u * unat v in (of_nat (m div 2 ^ 32), of_nat (m mod 2 ^ 32)))"

definition sub_ddmmss :: "u32 \<Rightarrow> u32 \<Rightarrow> u32 \<Rightarrow> u32 \<Rightarrow> u32 \<times> u32" where
  "sub_ddmmss ah al bh bl = (ah - bh - (if al < bl then 1 else 0), al - bl)"

fun bsr_nat :: "nat \<Rightarrow> nat" where
  "bsr_nat n = (if n < 2 then 0 else Suc (bsr_nat (n div 2)))"

declare bsr_nat.simps [simp del]

definition count_leading_zeros :: "u32 \<Rightarrow> nat" where
  "count_leading_zeros x = 31 - bsr_nat (unat x)"

definition W_TYPE_SIZE :: nat where
  "W_TYPE_SIZE = 64"

section \<open>Double words\<close>

text \<open>The union \<^verbatim>\<open>DWunion\<close>: a 64 bit value and its two halves.\<close>

definition dw :: "u32 \<Rightarrow> u32 \<Rightarrow> u64" where
  "dw high low = push_bit 32 (ucast high) OR ucast low"

definition dw_low :: "u64 \<Rightarrow> u32" where
  "dw_low x = ucast x"

definition dw_high :: "u64 \<Rightarrow> u32" where
  "dw_high x = ucast (drop_bit 32 x)"

section \<open>The division\<close>

text \<open>The branch for a divisor with a high word (\<^verbatim>\<open>d1 != 0\<close>).\<close>

definition udivmod_long :: "u32 \<Rightarrow> u32 \<Rightarrow> u32 \<Rightarrow> u32 \<Rightarrow> bool \<Rightarrow> (u64 \<times> u64 option) option" where
  "udivmod_long n1 n0 d1 d0 rp =
     (if n1 < d1 then Some (dw 0 0, if rp then Some (dw n1 n0) else None)
      else
        (let bm = count_leading_zeros d1 in
         if bm = 0 then
           (if d1 < n1 \<or> d0 \<le> n0 then
              (let (n1, n0) = sub_ddmmss n1 n0 d1 d0 in
               Some (dw 0 1, if rp then Some (dw n1 n0) else None))
            else Some (dw 0 0, if rp then Some (dw n1 n0) else None))
         else
           (let b = W_TYPE_SIZE - bm;
                d1 = shll d1 bm OR shrl d0 b;
                d0 = shll d0 bm;
                n2 = shrl n1 b;
                n1 = shll n1 bm OR shrl n0 b;
                n0 = shll n0 bm in
            (case udiv_qrnnd n2 n1 d1 of
               None \<Rightarrow> None
             | Some (q0, n1) \<Rightarrow>
                (let (m1, m0) = umul_ppmm q0 d0;
                     (q0, m1, m0) =
                       (if n1 < m1 \<or> (m1 = n1 \<and> n0 < m0)
                        then (q0 - 1, sub_ddmmss m1 m0 d1 d0) else (q0, m1, m0)) in
                 Some (dw 0 q0,
                   if rp then
                     (let (n1, n0) = sub_ddmmss n1 n0 m1 m0 in
                      Some (dw (shrl n1 bm) (shll n1 b OR shrl n0 bm)))
                   else None))))))"

text \<open>
  \<^verbatim>\<open>__udivmoddi4\<close> returns the quotient and, when the pointer \<^verbatim>\<open>rp\<close> is not null, stores the
  remainder.  \<open>None\<close> is the divide fault; a divisor of zero is divided by deliberately.
\<close>

definition udivmoddi4 :: "u64 \<Rightarrow> u64 \<Rightarrow> bool \<Rightarrow> (u64 \<times> u64 option) option" where
  "udivmoddi4 n d rp =
     (let d0 = dw_low d; d1 = dw_high d; n0 = dw_low n; n1 = dw_high n in
      if d1 = 0 then
        (if n1 < d0 then
           (case udiv_qrnnd n1 n0 d0 of
              None \<Rightarrow> None
            | Some (q0, n0) \<Rightarrow> Some (dw 0 q0, if rp then Some (dw 0 n0) else None))
         else if d0 = 0 then None
         else
           (case udiv_qrnnd 0 n1 d0 of
              None \<Rightarrow> None
            | Some (q1, n1) \<Rightarrow>
               (case udiv_qrnnd n1 n0 d0 of
                  None \<Rightarrow> None
                | Some (q0, n0) \<Rightarrow> Some (dw q1 q0, if rp then Some (dw 0 n0) else None))))
      else udivmod_long n1 n0 d1 d0 rp)"

definition udivdi3 :: "u64 \<Rightarrow> u64 \<Rightarrow> u64 option" where
  "udivdi3 n d = map_option fst (udivmoddi4 n d False)"

definition umoddi3 :: "u64 \<Rightarrow> u64 \<Rightarrow> u64 option" where
  "umoddi3 u v = Option.bind (udivmoddi4 u v True) snd"

section \<open>Facts on double words\<close>

lemma unat_dw: "unat (dw h l) = unat h * 2 ^ 32 + unat l"
proof -
  have "push_bit 32 (ucast h :: u64) AND ucast l = 0"
    by (rule bit_word_eqI) (auto simp: bit_simps dest: bit_imp_le_length)
  then have "dw h l = push_bit 32 (ucast h) + ucast l"
    unfolding dw_def by (simp add: disjunctive_add_eq_or)
  moreover have "unat (push_bit 32 (ucast h :: u64)) = unat h * 2 ^ 32"
    using unat_lt2p32 [of h]
    by (simp add: unat_push_bit_word)
  moreover have "unat (ucast l :: u64) = unat l"
    by simp
  moreover have "unat h * 2 ^ 32 + unat l < 2 ^ 64"
    using unat_lt2p32 [of h] unat_lt2p32 [of l] by simp
  ultimately show ?thesis
    by (simp add: unat_word_ariths)
qed

lemma unat_dw_low: "unat (dw_low x) = unat x mod 2 ^ 32"
  by (simp add: dw_low_def unsigned_ucast_eq take_bit_eq_mod)

lemma unat_dw_high: "unat (dw_high x) = unat x div 2 ^ 32"
proof -
  have "unat (drop_bit 32 x) = unat x div 2 ^ 32"
    by (rule unat_drop_bit_word)
  moreover have "unat x div 2 ^ 32 < 2 ^ 32"
    using unat_lt2p64 [of x] by simp
  ultimately show ?thesis
    by (simp add: dw_high_def unsigned_ucast_eq take_bit_eq_mod)
qed

lemma dw_halves: "dw (dw_high x) (dw_low x) = x"
  by (rule bit_word_eqI) (auto simp: dw_def dw_low_def dw_high_def bit_simps)

lemma unat_halves: "unat x = unat (dw_high x) * 2 ^ 32 + unat (dw_low x)"
  by (metis dw_halves unat_dw)

lemma dw_inject: "dw h l = dw h' l' \<longleftrightarrow> h = h' \<and> l = l'"
proof
  assume eq: "dw h l = dw h' l'"
  have "h = dw_high (dw h l)" "l = dw_low (dw h l)" for h l
    by (rule bit_word_eqI;
        auto simp: dw_def dw_low_def dw_high_def bit_simps dest: bit_imp_le_length)+
  with eq show "h = h' \<and> l = l'" by metis
qed simp

lemma dw_sub:
  assumes "sub_ddmmss ah al bh bl = (h, l)"
  shows "dw h l = dw ah al - dw bh bl"
proof -
  define c :: u32 where "c = (if al < bl then 1 else 0)"
  have h: "h = ah - bh - c" and l: "l = al - bl"
    using assms by (auto simp: sub_ddmmss_def c_def)
  have ll: "unat l + unat bl = unat al + unat c * 4294967296"
    using unat_sub_carry [of al bl] by (simp add: l c_def)
  obtain i where i: "unat (ah - bh) + unat bh = unat ah + i * 4294967296"
    using unat_sub_ex [of ah bh] by blast
  obtain j where j: "unat h + unat c = unat (ah - bh) + j * 4294967296"
    using unat_sub_ex [of "ah - bh" c] unfolding h by blast
  have "unat (dw h l) + unat (dw bh bl) = unat (dw ah al) + (i + j) * 18446744073709551616"
    using ll i j by (simp add: unat_dw algebra_simps)
  then have "unat (dw h l + dw bh bl) = unat (dw ah al)"
    using unat_lt2p64 [of "dw ah al"] by (simp only: unat_add_64 mod_mult_self1 mod_less)
  then have "dw h l + dw bh bl = dw ah al" by (simp only: word_unat_eq_iff)
  then show ?thesis by (simp add: algebra_simps)
qed

section \<open>Normalized division\<close>

text \<open>
  The heart of the routine, on natural numbers in base \<open>B = 2 ^ 32\<close>: dividing the upper part of
  the shifted dividend by the upper digit of the shifted divisor gives a quotient digit that is
  the right one or one too large, which one comparison decides.
\<close>

lemma quotient_digit_off_by_one:
  fixes B k X n0 d1 d0 :: nat
  assumes B: "B = 2 ^ 32" and k: "k < 32"
    and d1: "2 ^ 31 \<le> d1" and d0: "d0 < B" and d0k: "2 ^ k dvd d0"
    and X: "X < 2 ^ k * B"
  shows "(X div d1) * d0 \<le> d1 * B + d0"
proof -
  have sq: "2 ^ k * d0 \<le> d1 * d1"
  proof -
    have "2 ^ k * d0 \<le> (2 :: nat) ^ 62"
    proof (cases "k = 31")
      case True
      obtain j where j: "d0 = 2 ^ 31 * j" using d0k True by auto
      with d0 B have "j \<le> 1" by simp
      with j True show ?thesis by simp
    next
      case False
      with k have "(2 :: nat) ^ k \<le> 2 ^ 30" by (intro power_increasing) auto
      with d0 B have "2 ^ k * d0 \<le> (2 :: nat) ^ 30 * 2 ^ 32" by (intro mult_mono) auto
      then show ?thesis by simp
    qed
    also have "(2 :: nat) ^ 62 = 2 ^ 31 * 2 ^ 31" by simp
    also have "\<dots> \<le> d1 * d1" using d1 by (intro mult_mono) auto
    finally show ?thesis .
  qed
  have "(X div d1) * d0 * d1 \<le> X * d0"
    by (metis div_times_less_eq_dividend mult.assoc mult.commute mult_le_mono1)
  also have "\<dots> \<le> 2 ^ k * B * d0" using X by (intro mult_mono) auto
  also have "\<dots> = (2 ^ k * d0) * B" by simp
  also have "\<dots> \<le> d1 * d1 * B" using sq by (rule mult_le_mono1)
  also have "\<dots> \<le> (d1 * B + d0) * d1" by (simp add: algebra_simps)
  finally have "(X div d1) * d0 * d1 \<le> (d1 * B + d0) * d1" .
  moreover have "0 < d1" using d1 by simp
  ultimately show ?thesis by (simp add: mult_le_cancel2)
qed

lemma normalized_division:
  fixes B k X n0 d1 d0 q r :: nat
  assumes B: "B = 2 ^ 32" and k: "k < 32"
    and d1: "2 ^ 31 \<le> d1" and d0: "d0 < B" and d0k: "2 ^ k dvd d0"
    and X: "X < 2 ^ k * B" and n0: "n0 < B"
    and q: "q = X div d1" and r: "r = X mod d1"
  defines "D \<equiv> d1 * B + d0" and "N \<equiv> X * B + n0"
  shows "if r * B + n0 < q * d0
         then 0 < q \<and> q * d0 \<le> D \<and> N div D = q - 1 \<and> N mod D = r * B + n0 + D - q * d0
         else N div D = q \<and> N mod D = r * B + n0 - q * d0"
proof -
  have pos: "0 < d1" using d1 by simp
  have X_eq: "X = q * d1 + r" using q r by (simp add: mult.commute)
  have N_eq: "N + q * d0 = q * D + (r * B + n0)"
    unfolding N_def D_def by (simp add: X_eq algebra_simps)
  have "r < d1" using r pos by simp
  then have "(r + 1) * B \<le> d1 * B" by (intro mult_le_mono1) simp
  then have rest: "r * B + n0 < D" unfolding D_def using n0 by simp
  have small: "q * d0 \<le> D"
    unfolding q D_def by (rule quotient_digit_off_by_one [OF B k d1 d0 d0k X])
  show ?thesis
  proof (cases "r * B + n0 < q * d0")
    case True
    then have "0 < q" by (cases q) auto
    then have qD: "q * D = (q - 1) * D + D" by (cases q) auto
    have N: "N = (q - 1) * D + (r * B + n0 + D - q * d0)"
      using N_eq qD True small rest by linarith
    moreover have "r * B + n0 + D - q * d0 < D" using True rest by linarith
    ultimately have "N div D = q - 1 \<and> N mod D = r * B + n0 + D - q * d0"
      by (rule divmod_unique_nat)
    then show ?thesis using True \<open>0 < q\<close> small by simp
  next
    case False
    have "N = q * D + (r * B + n0 - q * d0)" using N_eq False by linarith
    moreover have "r * B + n0 - q * d0 < D" using rest by simp
    ultimately show ?thesis using False divmod_unique_nat by (simp del: add_diff_assoc)
  qed
qed

section \<open>Shifts, leading zeros and the divide instruction\<close>

lemma bsr_nat_bounds: "0 < n \<Longrightarrow> 2 ^ bsr_nat n \<le> n \<and> n < 2 ^ Suc (bsr_nat n)"
proof (induction n rule: bsr_nat.induct)
  case (1 n)
  show ?case
  proof (cases "n < 2")
    case True
    with "1.prems" show ?thesis by (simp add: bsr_nat.simps [of n])
  next
    case False
    then have "2 ^ bsr_nat (n div 2) \<le> n div 2 \<and> n div 2 < 2 ^ Suc (bsr_nat (n div 2))"
      using "1.IH" by simp
    then show ?thesis using False by (simp add: bsr_nat.simps [of n]; linarith)
  qed
qed

lemma clz_bounds:
  assumes "x \<noteq> 0"
  shows "count_leading_zeros x < 32"
    and "2 ^ 31 \<le> unat x * 2 ^ count_leading_zeros x"
    and "unat x * 2 ^ count_leading_zeros x < 2 ^ 32"
proof -
  let ?k = "bsr_nat (unat x)"
  have "0 < unat x" using assms by (simp add: unat_gt_0)
  then have b: "2 ^ ?k \<le> unat x" "unat x < 2 ^ Suc ?k" using bsr_nat_bounds by blast+
  then have "(2 :: nat) ^ ?k < 2 ^ 32" using unat_lt2p32 [of x] by simp
  then have k: "?k < 32" by (rule power_less_imp_less_exp [rotated]) simp
  show "count_leading_zeros x < 32" by (simp add: count_leading_zeros_def)
  have "(2 :: nat) ^ 31 = 2 ^ ?k * 2 ^ (31 - ?k)" using k by (simp flip: power_add)
  also have "\<dots> \<le> unat x * 2 ^ (31 - ?k)" using b by simp
  finally show "2 ^ 31 \<le> unat x * 2 ^ count_leading_zeros x"
    by (simp add: count_leading_zeros_def)
  have "unat x * 2 ^ (31 - ?k) < 2 ^ Suc ?k * 2 ^ (31 - ?k)" using b by simp
  also have "\<dots> = 2 ^ 32" using k by (simp flip: power_add power_Suc)
  finally show "unat x * 2 ^ count_leading_zeros x < 2 ^ 32"
    by (simp add: count_leading_zeros_def)
qed

lemma shift_count_wraps: "0 < k \<Longrightarrow> k < 32 \<Longrightarrow> (W_TYPE_SIZE - k) mod 32 = 32 - k"
  by (simp add: W_TYPE_SIZE_def mod_if)

lemma dw_shift_left:
  assumes "0 < k" "k < 32"
  shows "dw (shll h k OR shrl l (W_TYPE_SIZE - k)) (shll l k) = push_bit k (dw h l)"
proof (rule bit_word_eqI)
  fix n :: nat
  have "n - 32 - k = n - k - 32" "\<not> n < k + 32 \<Longrightarrow> n - k \<ge> 32"
    "32 \<le> n \<Longrightarrow> n < k + 32 \<Longrightarrow> 32 - k + (n - 32) = n - k" using assms by auto
  then show "bit (dw (shll h k OR shrl l (W_TYPE_SIZE - k)) (shll l k)) n = bit (push_bit k (dw h l)) n"
    using assms
    by (cases "n < 32"; cases "n < k + 32")
       (auto simp: dw_def shll_def shrl_def shift_count_wraps bit_simps dest: bit_imp_le_length)
qed

lemma dw_shift_right:
  assumes "0 < k" "k < 32"
  shows "dw (shrl h k) (shll h (W_TYPE_SIZE - k) OR shrl l k) = drop_bit k (dw h l)"
proof (rule bit_word_eqI)
  fix n :: nat
  have "32 \<le> n \<Longrightarrow> k + (n - 32) = k + n - 32"
    "n < 32 \<Longrightarrow> \<not> k + n < 32 \<Longrightarrow> n - (32 - k) = k + n - 32" using assms by auto
  then show "bit (dw (shrl h k) (shll h (W_TYPE_SIZE - k) OR shrl l k)) n = bit (drop_bit k (dw h l)) n"
    using assms
    by (cases "n < 32"; cases "k + n < 32")
       (auto simp: dw_def shll_def shrl_def shift_count_wraps bit_simps dest: bit_imp_le_length)
qed

lemma udiv_qrnnd_Some:
  assumes "n1 < dv"
  obtains q r where "udiv_qrnnd n1 n0 dv = Some (q, r)"
    and "unat q = (unat n1 * 2 ^ 32 + unat n0) div unat dv"
    and "unat r = (unat n1 * 2 ^ 32 + unat n0) mod unat dv"
proof -
  let ?X = "unat n1 * 2 ^ 32 + unat n0"
  have pos: "0 < unat dv" using assms by (simp add: word_less_nat_alt)
  have "?X < (unat n1 + 1) * 2 ^ 32" using unat_lt2p32 [of n0] by simp
  also have "\<dots> \<le> unat dv * 2 ^ 32" using assms by (intro mult_le_mono1) (simp add: word_less_nat_alt)
  finally have q: "?X div unat dv < 2 ^ 32" using pos by (simp add: div_less_iff_less_mult mult.commute)
  have r: "?X mod unat dv < 2 ^ 32"
    using less_trans [OF mod_less_divisor [OF pos, of ?X] unat_lt2p32 [of dv]] by simp
  show thesis
    by (rule that [of "of_nat (?X div unat dv)" "of_nat (?X mod unat dv)"])
       (use q r pos in \<open>auto simp: udiv_qrnnd_def Let_def unat_of_nat\<close>)
qed

section \<open>The cases of the division\<close>

lemma unat_div_eqI: "unat q = unat n div unat d \<Longrightarrow> (q :: u64) = n div d"
  by (simp add: word_unat_eq_iff unat_div)

lemma unat_mod_eqI: "unat r = unat n mod unat d \<Longrightarrow> (r :: u64) = n mod d"
  by (simp add: word_unat_eq_iff unat_mod)

lemma divide_one_step:
  assumes "dw_high d = 0" "dw_high n < dw_low d"
  shows "udivmoddi4 n d rp = Some (n div d, if rp then Some (n mod d) else None)"
proof -
  obtain q r where qr: "udiv_qrnnd (dw_high n) (dw_low n) (dw_low d) = Some (q, r)"
    and "unat q = unat n div unat (dw_low d)" "unat r = unat n mod unat (dw_low d)"
    using udiv_qrnnd_Some [OF assms(2), of "dw_low n"] by (metis unat_halves)
  moreover have "unat (dw_low d) = unat d" using unat_halves [of d] assms(1) by simp
  ultimately have "dw 0 q = n div d" "dw 0 r = n mod d"
    by (auto intro!: unat_div_eqI unat_mod_eqI simp: unat_dw)
  with qr assms show ?thesis by (simp add: udivmoddi4_def udivmod_long_def Let_def)
qed

lemma divide_two_steps:
  assumes "dw_high d = 0" "\<not> dw_high n < dw_low d" "dw_low d \<noteq> 0"
  shows "udivmoddi4 n d rp = Some (n div d, if rp then Some (n mod d) else None)"
proof -
  let ?d = "unat (dw_low d)" and ?B = "4294967296 :: nat"
  have pos: "0 < ?d" and "0 < dw_low d" using assms(3) by (simp_all add: unat_gt_0 word_gt_0)
  then obtain q1 r1 where 1: "udiv_qrnnd 0 (dw_high n) (dw_low d) = Some (q1, r1)"
    and q1: "unat q1 = unat (dw_high n) div ?d" and r1: "unat r1 = unat (dw_high n) mod ?d"
    using udiv_qrnnd_Some [of 0 "dw_low d" "dw_high n"] by (metis add_0 mult_zero_left unat_0)
  have "r1 < dw_low d" using r1 pos by (simp add: word_less_nat_alt)
  then obtain q0 r0 where 0: "udiv_qrnnd r1 (dw_low n) (dw_low d) = Some (q0, r0)"
    and q0: "unat q0 = (unat r1 * ?B + unat (dw_low n)) div ?d"
    and r0: "unat r0 = (unat r1 * ?B + unat (dw_low n)) mod ?d"
    by (rule udiv_qrnnd_Some [of r1 "dw_low d" "dw_low n"]) simp
  have d: "unat d = ?d" using unat_halves [of d] assms(1) by simp
  have "unat n = (unat q1 * ?d + unat r1) * ?B + unat (dw_low n)"
    unfolding q1 r1 using unat_halves [of n] by simp
  also have "\<dots> = unat q1 * ?B * ?d + (unat r1 * ?B + unat (dw_low n))"
    by (simp add: algebra_simps)
  finally have "unat n = (unat q1 * ?B + unat q0) * ?d + unat r0"
    unfolding q0 r0 by (simp add: algebra_simps)
  moreover have "unat r0 < ?d" unfolding r0 using pos by simp
  ultimately have "unat n div ?d = unat q1 * ?B + unat q0 \<and> unat n mod ?d = unat r0"
    using divmod_unique_nat by blast
  then have "dw q1 q0 = n div d" "dw 0 r0 = n mod d"
    by (auto intro!: unat_div_eqI unat_mod_eqI simp: unat_dw d)
  with 0 1 assms show ?thesis by (simp add: udivmoddi4_def udivmod_long_def Let_def)
qed

lemma divide_top_bit_set:
  assumes "\<not> dw_high n < dw_high d" "count_leading_zeros (dw_high d) = 0" "dw_high d \<noteq> 0"
  shows "udivmoddi4 n d rp = Some (n div d, if rp then Some (n mod d) else None)"
proof -
  let ?d1 = "dw_high d" and ?d0 = "dw_low d" and ?n1 = "dw_high n" and ?n0 = "dw_low n"
  have big: "2147483648 \<le> unat ?d1" using clz_bounds(2) [OF assms(3)] assms(2) by simp
  have N: "unat n = unat ?n1 * 4294967296 + unat ?n0" and D: "unat d = unat ?d1 * 4294967296 + unat ?d0"
    using unat_halves [of n] unat_halves [of d] by simp_all
  have le: "?d1 < ?n1 \<or> ?d0 \<le> ?n0 \<longleftrightarrow> unat d \<le> unat n"
    using assms(1) unat_lt2p32 [of ?d0] unat_lt2p32 [of ?n0]
    by (auto simp: N D word_less_nat_alt word_le_nat_alt)
  have "unat n < 2 * unat d" using big D unat_lt2p64 [of n] by simp
  then have dm: "unat n div unat d = (if unat d \<le> unat n then 1 else 0)"
    "unat n mod unat d = (if unat d \<le> unat n then unat n - unat d else unat n)"
    using divmod_unique_nat [of "unat n" 1 "unat d" "unat n - unat d"] by auto
  obtain h l where s: "sub_ddmmss ?n1 ?n0 ?d1 ?d0 = (h, l)" by fastforce
  then have "dw h l = n - d" using dw_sub [OF s] by (simp add: dw_halves)
  then have "unat d \<le> unat n \<Longrightarrow> dw h l = n mod d"
    using dm(2) by (intro unat_mod_eqI) (simp add: unat_sub word_le_nat_alt)
  moreover have "dw 0 (if unat d \<le> unat n then 1 else 0) = n div d"
    using dm(1) by (intro unat_div_eqI) (simp add: unat_dw)
  moreover have "\<not> unat d \<le> unat n \<Longrightarrow> dw ?n1 ?n0 = n mod d"
    using dm(2) by (intro unat_mod_eqI) (simp add: dw_halves)
  ultimately show ?thesis
    using assms le s by (auto simp: udivmoddi4_def udivmod_long_def Let_def)
qed

text \<open>The shifted operands of the last case.\<close>

lemma shifted_divisor:
  assumes "dw_high d \<noteq> 0" and k: "k = count_leading_zeros (dw_high d)" "0 < k"
    and "d1 = shll (dw_high d) k OR shrl (dw_low d) (W_TYPE_SIZE - k)" "d0 = shll (dw_low d) k"
  shows "unat (dw d1 d0) = unat d * 2 ^ k" "2147483648 \<le> unat d1" "2 ^ k dvd unat d0"
proof -
  have k32: "k < 32" using clz_bounds(1) [OF assms(1)] k by simp
  have top: "2147483648 \<le> unat (dw_high d) * 2 ^ k" "unat (dw_high d) * 2 ^ k < 4294967296"
    using clz_bounds(2,3) [OF assms(1)] k by simp_all
  have eq: "dw d1 d0 = push_bit k d"
    using dw_shift_left [OF k(2) k32, of "dw_high d" "dw_low d"] assms by (simp add: dw_halves)
  have "(4294967296 :: nat) = 2 ^ (32 - k) * 2 ^ k" using k32 by (simp flip: power_add)
  with top have "unat (dw_high d) + 1 \<le> 2 ^ (32 - k)" by simp
  then have "(unat (dw_high d) + 1) * 4294967296 \<le> 2 ^ (32 - k) * 4294967296" by (rule mult_le_mono1)
  then have "unat d < 2 ^ (32 - k) * 4294967296"
    using unat_halves [of d] unat_lt2p32 [of "dw_low d"] by simp
  then have "unat d * 2 ^ k < 2 ^ (32 - k) * 4294967296 * 2 ^ k" by simp
  also have "\<dots> = 18446744073709551616"
    using \<open>4294967296 = 2 ^ (32 - k) * 2 ^ k\<close> by (simp add: mult.commute)
  finally show D: "unat (dw d1 d0) = unat d * 2 ^ k" using eq by (simp add: unat_push_bit_word)
  have "unat (dw_high d) * 2 ^ k * 4294967296 \<le> unat d * 2 ^ k"
    using unat_halves [of d] by (simp add: algebra_simps)
  with D have "unat (dw_high d) * 2 ^ k * 4294967296 \<le> unat d1 * 4294967296 + unat d0"
    by (simp add: unat_dw)
  with mult_le_mono1 [OF top(1), of 4294967296]
  have "2147483648 * 4294967296 \<le> unat d1 * 4294967296 + unat d0" by linarith
  then show "2147483648 \<le> unat d1" using unat_lt2p32 [of d0] by simp
  have "unat d0 = unat (dw_low d) * 2 ^ k mod 2 ^ 32"
    using assms k32 by (simp add: shll_def unat_push_bit_word)
  moreover have "2 ^ k dvd (2 :: nat) ^ 32" using k32 by (intro le_imp_power_dvd) simp
  ultimately show "2 ^ k dvd unat d0" by (simp add: dvd_mod)
qed

lemma shifted_dividend:
  assumes k: "0 < k" "k < 32"
    and "n1 = shll (dw_high n) k OR shrl (dw_low n) (W_TYPE_SIZE - k)" "n0 = shll (dw_low n) k"
    and n2: "n2 = shrl (dw_high n) (W_TYPE_SIZE - k)"
  shows "unat n * 2 ^ k = (unat n2 * 4294967296 + unat n1) * 4294967296 + unat n0"
    and "unat n2 < 2 ^ k"
proof -
  have "dw n1 n0 = push_bit k n"
    using dw_shift_left [OF k, of "dw_high n" "dw_low n"] assms by (simp add: dw_halves)
  then have low: "unat n * 2 ^ k mod 2 ^ 64 = unat n1 * 4294967296 + unat n0"
    using unat_dw [of n1 n0] by (simp add: unat_push_bit_word)
  have n2': "unat n2 = unat n div 2 ^ 32 div 2 ^ (32 - k)"
    using k n2 by (simp add: shrl_def shift_count_wraps unat_drop_bit_word unat_dw_high)
  also have "\<dots> = unat n div 2 ^ (64 - k)"
    using k by (simp only: div_mult2_eq [symmetric] power_add [symmetric]) simp
  also have "\<dots> = unat n * 2 ^ k div (2 ^ (64 - k) * 2 ^ k)" by (simp add: div_mult_mult2)
  also have "(2 :: nat) ^ (64 - k) * 2 ^ k = 2 ^ 64" using k by (simp flip: power_add)
  finally have high: "unat n2 = unat n * 2 ^ k div 2 ^ 64" .
  show "unat n * 2 ^ k = (unat n2 * 4294967296 + unat n1) * 4294967296 + unat n0"
    using div_mult_mod_eq [of "unat n * 2 ^ k" "2 ^ 64"] unfolding low high [symmetric] by simp
  have "unat n div 2 ^ 32 < 2 ^ 32" using unat_lt2p64 [of n] by simp
  also have "(2 :: nat) ^ 32 = 2 ^ k * 2 ^ (32 - k)" using k by (simp flip: power_add)
  finally show "unat n2 < 2 ^ k" unfolding n2' by (simp add: div_less_iff_less_mult)
qed

lemma umul_ppmm_dw: "umul_ppmm u v = (h, l) \<Longrightarrow> unat (dw h l) = unat u * unat v"
proof -
  assume eq: "umul_ppmm u v = (h, l)"
  have "unat u * unat v \<le> 4294967295 * 4294967295"
    using unat_lt2p32 [of u] unat_lt2p32 [of v] by (intro mult_mono) auto
  then have "unat u * unat v div 4294967296 < 4294967296" by simp
  then have "unat h = unat u * unat v div 4294967296" "unat l = unat u * unat v mod 4294967296"
    using eq by (auto simp: umul_ppmm_def Let_def unat_of_nat)
  then show ?thesis by (simp add: unat_dw)
qed

lemma dw_less: "dw h l < dw h' l' \<longleftrightarrow> h < h' \<or> (h' = h \<and> l < l')"
  using unat_lt2p32 [of l] unat_lt2p32 [of l']
  by (auto simp: word_less_nat_alt unat_dw word_unat_eq_iff)

lemma unat_sub_if: "b \<le> a \<Longrightarrow> unat (a - b :: u64) = unat a - unat b"
  by (simp add: unat_sub word_le_nat_alt)

lemma normalized_words:
  assumes d1: "dw_high d \<noteq> 0" and k: "k = count_leading_zeros (dw_high d)" "0 < k"
    and e1: "e1 = shll (dw_high d) k OR shrl (dw_low d) (W_TYPE_SIZE - k)"
    and e0: "e0 = shll (dw_low d) k"
    and n2: "n2 = shrl (dw_high n) (W_TYPE_SIZE - k)"
    and n1: "n1 = shll (dw_high n) k OR shrl (dw_low n) (W_TYPE_SIZE - k)"
    and n0: "n0 = shll (dw_low n) k"
  obtains q r m1 m0 where "udiv_qrnnd n2 n1 e1 = Some (q, r)" "umul_ppmm q e0 = (m1, m0)"
    "if dw r n0 < dw m1 m0
     then 0 < unat q \<and> dw m1 m0 \<le> dw e1 e0 \<and> unat n div unat d = unat q - 1 \<and>
          unat n mod unat d * 2 ^ k = unat (dw r n0) + unat (dw e1 e0) - unat (dw m1 m0)
     else unat n div unat d = unat q \<and>
          unat n mod unat d * 2 ^ k = unat (dw r n0) - unat (dw m1 m0)"
proof -
  have k32: "k < 32" using clz_bounds(1) [OF d1] k by simp
  note E = shifted_divisor [OF d1 k e1 e0]
  note N = shifted_dividend [OF k(2) k32 n1 n0 n2]
  have "unat n2 < 2 ^ 31"
    using N(2) power_increasing [of k 31 "2 :: nat"] k32 by simp
  then have "n2 < e1" using E(2) by (simp add: word_less_nat_alt)
  then obtain q r where qr: "udiv_qrnnd n2 n1 e1 = Some (q, r)"
    and q: "unat q = (unat n2 * 2 ^ 32 + unat n1) div unat e1"
    and r: "unat r = (unat n2 * 2 ^ 32 + unat n1) mod unat e1"
    by (rule udiv_qrnnd_Some)
  obtain m1 m0 where m: "umul_ppmm q e0 = (m1, m0)" by fastforce
  have X: "unat n2 * 4294967296 + unat n1 < 2 ^ k * 4294967296"
    using N(2) unat_lt2p32 [of n1] mult_le_mono1 [of "unat n2 + 1" "2 ^ k" "2 ^ 32"] by simp
  have D: "unat e1 * 4294967296 + unat e0 = unat d * 2 ^ k" using E(1) by (simp add: unat_dw)
  have hi: "unat r * 4294967296 + unat n0 = unat (dw r n0)" by (simp add: unat_dw)
  have "if unat r * 4294967296 + unat n0 < unat q * unat e0
      then 0 < unat q \<and> unat q * unat e0 \<le> unat d * 2 ^ k \<and>
           unat n * 2 ^ k div (unat d * 2 ^ k) = unat q - 1 \<and>
           unat n * 2 ^ k mod (unat d * 2 ^ k) =
           unat r * 4294967296 + unat n0 + unat d * 2 ^ k - unat q * unat e0
      else unat n * 2 ^ k div (unat d * 2 ^ k) = unat q \<and>
           unat n * 2 ^ k mod (unat d * 2 ^ k) = unat r * 4294967296 + unat n0 - unat q * unat e0"
    unfolding N(1) D [symmetric]
    by (rule normalized_division [OF _ k32]) (use E X q r unat_lt2p32 in simp_all)
  then show thesis
    by (intro that [OF qr m], simp add: hi E(1) umul_ppmm_dw [OF m] word_less_nat_alt
          word_le_nat_alt div_mult_mult2 cong: if_cong flip: mult_mod_left)
qed

lemma unshift_remainder:
  assumes "0 < k" "k < 32" "unat (dw h l) = unat n mod unat d * 2 ^ k"
  shows "dw (shrl h k) (shll h (W_TYPE_SIZE - k) OR shrl l k) = n mod d"
  unfolding dw_shift_right [OF assms(1,2)]
  by (rule unat_mod_eqI) (simp add: unat_drop_bit_word assms(3))

lemma divide_normalized:
  assumes d1: "dw_high d \<noteq> 0" and k: "k = count_leading_zeros (dw_high d)" "0 < k"
    and le: "\<not> dw_high n < dw_high d"
  shows "udivmoddi4 n d rp = Some (n div d, if rp then Some (n mod d) else None)"
proof -
  have k32: "k < 32" using clz_bounds(1) [OF d1] k by simp
  note unshift = unshift_remainder [OF k(2) k32]
  let ?b = "W_TYPE_SIZE - k"
  let ?e1 = "shll (dw_high d) k OR shrl (dw_low d) ?b" and ?e0 = "shll (dw_low d) k"
  let ?n0 = "shll (dw_low n) k"
  obtain q r m1 m0 where
    qr: "udiv_qrnnd (shrl (dw_high n) ?b) (shll (dw_high n) k OR shrl (dw_low n) ?b) ?e1 = Some (q, r)"
    and m: "umul_ppmm q ?e0 = (m1, m0)"
    and norm: "if dw r ?n0 < dw m1 m0
     then 0 < unat q \<and> dw m1 m0 \<le> dw ?e1 ?e0 \<and> unat n div unat d = unat q - 1 \<and>
          unat n mod unat d * 2 ^ k = unat (dw r ?n0) + unat (dw ?e1 ?e0) - unat (dw m1 m0)
     else unat n div unat d = unat q \<and>
          unat n mod unat d * 2 ^ k = unat (dw r ?n0) - unat (dw m1 m0)"
    by (rule normalized_words [OF d1 k refl refl refl refl refl])
  note code = d1 k(1) [symmetric] k(2) le qr m
  show ?thesis
  proof (cases "dw r ?n0 < dw m1 m0")
    case True
    obtain c1 c0 where c: "sub_ddmmss m1 m0 ?e1 ?e0 = (c1, c0)" by fastforce
    obtain h l where s: "sub_ddmmss r ?n0 c1 c0 = (h, l)" by fastforce
    have "dw h l = dw ?e1 ?e0 - (dw m1 m0 - dw r ?n0)"
      using dw_sub [OF c] dw_sub [OF s] by simp
    moreover have x: "unat (dw m1 m0 - dw r ?n0) = unat (dw m1 m0) - unat (dw r ?n0)"
      using True by (simp add: unat_sub_if)
    moreover have "dw m1 m0 - dw r ?n0 \<le> dw ?e1 ?e0"
      using norm True x by (simp add: word_le_nat_alt le_diff_conv)
    ultimately have "unat (dw h l) = unat n mod unat d * 2 ^ k"
      using norm True by (simp add: unat_sub_if) (simp add: word_le_nat_alt word_less_nat_alt)
    moreover have "dw 0 (q - 1) = n div d"
      using norm True by (intro unat_div_eqI) (simp add: unat_dw unat_minus_one unat_gt_0)
    ultimately show ?thesis
      using code c s True by (simp add: udivmoddi4_def udivmod_long_def Let_def unshift dw_less [symmetric])
  next
    case False
    obtain h l where s: "sub_ddmmss r ?n0 m1 m0 = (h, l)" by fastforce
    have "unat (dw h l) = unat n mod unat d * 2 ^ k"
      using dw_sub [OF s] norm False by (simp add: unat_sub_if)
    moreover have "dw 0 q = n div d"
      using norm False by (intro unat_div_eqI) (simp add: unat_dw)
    ultimately show ?thesis
      using code s False by (simp add: udivmoddi4_def udivmod_long_def Let_def unshift dw_less [symmetric])
  qed
qed

section \<open>Correctness\<close>

lemma divide_small:
  assumes "dw_high d \<noteq> 0" "dw_high n < dw_high d"
  shows "udivmoddi4 n d rp = Some (n div d, if rp then Some (n mod d) else None)"
proof -
  have "(unat (dw_high n) + 1) * 4294967296 \<le> unat (dw_high d) * 4294967296"
    using assms(2) by (intro mult_le_mono1) (simp add: word_less_nat_alt)
  then have "unat n < unat d"
    using unat_halves [of n] unat_halves [of d] unat_lt2p32 [of "dw_low n"] by simp
  then have "dw 0 0 = n div d" "n = n mod d"
    by (auto intro!: unat_div_eqI unat_mod_eqI simp: unat_dw)
  then show ?thesis using assms by (simp add: udivmoddi4_def udivmod_long_def Let_def dw_halves)
qed

lemma udivmoddi4_divides:
  assumes "d \<noteq> 0"
  shows "udivmoddi4 n d rp = Some (n div d, if rp then Some (n mod d) else None)"
proof (cases "dw_high d = 0")
  case True
  then have "dw_low d \<noteq> 0" using assms dw_halves [of d] by (auto simp: dw_def)
  with True show ?thesis using divide_one_step divide_two_steps by blast
next
  case False
  then show ?thesis
    using divide_small divide_top_bit_set divide_normalized by (cases "count_leading_zeros (dw_high d) = 0") blast+
qed

text \<open>C14: \<^verbatim>\<open>__udivmoddi4\<close> is the unsigned 64 bit division: for every divisor except zero it ends without
  a divide fault, its result is the quotient and the remainder is stored exactly when asked for;
  for a divisor of zero it faults.\<close>

theorem udivmoddi4_correct:
  "udivmoddi4 n d rp =
     (if d = 0 then None else Some (n div d, if rp then Some (n mod d) else None))"
proof (cases "d = 0")
  case True
  then show ?thesis
    by (simp add: udivmoddi4_def udivmod_long_def Let_def dw_low_def dw_high_def udiv_qrnnd_def)
qed (simp add: udivmoddi4_divides)

text \<open>The compiler's 64 bit operators \<^verbatim>\<open>/\<close> and \<^verbatim>\<open>%\<close> fit together: whenever \<^verbatim>\<open>__udivdi3\<close> and
  \<^verbatim>\<open>__umoddi3\<close> return, the dividend is quotient times divisor plus remainder, the remainder is below
  the divisor and nothing overflows on the way.\<close>

theorem udivdi3_umoddi3:
  assumes "udivdi3 n d = Some q" and "umoddi3 n d = Some r"
  shows "unat n = unat q * unat d + unat r \<and> r < d"
proof -
  have "d \<noteq> 0"
    using assms by (auto simp: udivdi3_def udivmoddi4_def udivmod_long_def Let_def dw_low_def dw_high_def udiv_qrnnd_def)
  then have "q = n div d" "r = n mod d"
    using assms by (simp_all add: udivdi3_def umoddi3_def udivmoddi4_divides)
  with \<open>d \<noteq> 0\<close> show ?thesis
    by (simp add: unat_div unat_mod word_less_nat_alt unat_gt_0)
qed

theorem udivdi3_umoddi3_witness:
  "unat (18446744073709551615 :: u64) = unat (4294967295 :: u64) * unat (4294967296 :: u64) + unat (4294967295 :: u64)"
proof -
  have "udivdi3 18446744073709551615 4294967296 = Some 4294967295"
    and "umoddi3 18446744073709551615 4294967296 = Some 4294967295"
    by (simp_all add: udivdi3_def umoddi3_def udivmoddi4_divides)
  from udivdi3_umoddi3 [OF this] show ?thesis by blast
qed

end
