(* ===== verification/Common_Types.thy ===== *)
theory Common_Types
  imports Prelude
begin

text \<open>
  The data model of \<^verbatim>\<open>src/trunk/src/common.h\<close>: the enumerations of the operation
  parameters, the operation codes, and the argument structure that every operation of every
  brick receives.  Enumerations are datatypes with the constructors of the source; the value
  an enumerator has in C is given by \<open>op_index\<close> where the code computes with it.
\<close>

section \<open>Scalar types\<close>

type_synonym addr_t = u64
type_synonym len_t = u64
type_synonym offs_t = u64
type_synonym paddr_t = u32
type_synonym plen_t = u32
type_synonym mand_t = u32
type_synonym index_t = int

datatype direction_t = direct_read | direct_write | direct_stop

datatype prio_t = prio_none | prio_background | prio_normal | prio_urgent

datatype version_t = vers_undef | vers_old | vers_newest

datatype lock_t = lock_none | lock_read | lock_write

datatype action_t = action_ask | action_try | action_wait

text \<open>\<^verbatim>\<open>args->version < vers_newest\<close> compares the enumerators' values.\<close>

fun version_index :: "version_t \<Rightarrow> nat" where
  "version_index vers_undef = 0"
| "version_index vers_old = 1"
| "version_index vers_newest = 2"

instantiation version_t :: linorder
begin

definition less_eq_version_t :: "version_t \<Rightarrow> version_t \<Rightarrow> bool" where
  "less_eq_version_t a b \<longleftrightarrow> version_index a \<le> version_index b"

definition less_version_t :: "version_t \<Rightarrow> version_t \<Rightarrow> bool" where
  "less_version_t a b \<longleftrightarrow> version_index a < version_index b"

instance
proof
  fix a b :: version_t
  show "a \<le> b \<Longrightarrow> b \<le> a \<Longrightarrow> a = b"
    by (cases a; cases b) (auto simp: less_eq_version_t_def)
qed (auto simp: less_eq_version_t_def less_version_t_def)

end

section \<open>Operation codes\<close>

datatype op_t =
    opcode_output_init
  | opcode_trans | opcode_wait | opcode_get | opcode_put
  | opcode_lock | opcode_unlock | opcode_gadr | opcode_padr
  | opcode_create | opcode_delete | opcode_move
  | opcode_instbrick | opcode_deinstbrick | opcode_instconn | opcode_deinstconn
  | opcode_connect | opcode_disconnect | opcode_getconn | opcode_findconn
  | opcode_transwait | opcode_gettranswait | opcode_transwaitput | opcode_putwait
  | opcode_createget | opcode_gadrcreate | opcode_gadrcreateget | opcode_gadrgettranswait
  | opcode_putpadr | opcode_putdelete | opcode_deletepadr | opcode_putdeletepadr
  | opcode_gadrtranswaitdeletepadr | opcode_gadrcreatetranswaitpadr
  | opcode_output_max
  | opcode_input_init | opcode_retract | opcode_input_max
  | opcode_brick_init | opcode_brick_max

text \<open>The enumerators in declaration order; an enumerator's C value is its position.\<close>

definition all_ops :: "op_t list" where
  "all_ops = [
     opcode_output_init,
     opcode_trans, opcode_wait, opcode_get, opcode_put,
     opcode_lock, opcode_unlock, opcode_gadr, opcode_padr,
     opcode_create, opcode_delete, opcode_move,
     opcode_instbrick, opcode_deinstbrick, opcode_instconn, opcode_deinstconn,
     opcode_connect, opcode_disconnect, opcode_getconn, opcode_findconn,
     opcode_transwait, opcode_gettranswait, opcode_transwaitput, opcode_putwait,
     opcode_createget, opcode_gadrcreate, opcode_gadrcreateget, opcode_gadrgettranswait,
     opcode_putpadr, opcode_putdelete, opcode_deletepadr, opcode_putdeletepadr,
     opcode_gadrtranswaitdeletepadr, opcode_gadrcreatetranswaitpadr,
     opcode_output_max,
     opcode_input_init, opcode_retract, opcode_input_max,
     opcode_brick_init, opcode_brick_max]"

fun index_of :: "'a \<Rightarrow> 'a list \<Rightarrow> nat" where
  "index_of x [] = 0"
| "index_of x (y # ys) = (if x = y then 0 else Suc (index_of x ys))"

definition op_index :: "op_t \<Rightarrow> nat" where
  "op_index c = index_of c all_ops"

lemma index_of_less: "x \<in> set xs \<Longrightarrow> index_of x xs < length xs"
  by (induction xs) auto

lemma nth_index_of: "x \<in> set xs \<Longrightarrow> xs ! index_of x xs = x"
  by (induction xs) auto

lemma all_ops_complete: "c \<in> set all_ops"
  by (cases c) (simp_all add: all_ops_def)

lemma all_ops_nth: "all_ops ! op_index c = c"
  unfolding op_index_def by (rule nth_index_of [OF all_ops_complete])

lemma op_index_inj: "op_index c = op_index d \<Longrightarrow> c = d"
  by (metis all_ops_nth)

section \<open>The argument structure\<close>

text \<open>\<^verbatim>\<open>struct conn_info\<close>: a connector named by brick address, name and index.\<close>

record conn_info =
  conn_addr :: addr_t
  conn_index :: index_t
  conn_name :: string

text \<open>\<^verbatim>\<open>struct args\<close>; the pointers to \<^verbatim>\<open>conn_info\<close> are options of the pointed-to value.\<close>

record args =
  log_addr :: addr_t
  log_len :: len_t
  try_addr :: addr_t
  try_len :: len_t
  offset :: offs_t
  offset_max :: offs_t
  phys_addr :: paddr_t
  phys_len :: plen_t
  mandate :: mand_t
  forwrite :: bool
  clear :: bool
  melt :: bool
  direction :: direction_t
  prio :: prio_t
  reader :: bool
  exclu :: bool
  data_lock :: lock_t
  addr_lock :: lock_t
  action :: action_t
  destr :: bool
  constr :: bool
  success :: bool
  version :: version_t
  op_code :: op_t
  sect_code :: index_t
  name :: string
  conn1 :: "conn_info option"
  conn2 :: "conn_info option"
  res_conn :: "conn_info option"
  conn_len :: index_t

text \<open>The all-zero structure that a C initializer with no designators leaves.\<close>

definition zero_args :: args where
  "zero_args = \<lparr> log_addr = 0, log_len = 0, try_addr = 0, try_len = 0, offset = 0,
     offset_max = 0, phys_addr = 0, phys_len = 0, mandate = 0, forwrite = False,
     clear = False, melt = False, direction = direct_read, prio = prio_none, reader = False,
     exclu = False, data_lock = lock_none, addr_lock = lock_none, action = action_ask,
     destr = False, constr = False, success = False, version = vers_undef,
     op_code = opcode_output_init, sect_code = 0, name = [], conn1 = None, conn2 = None,
     res_conn = None, conn_len = 0 \<rparr>"

end
