(* ===== verification/Numerals.thy ===== *)
theory Numerals
  imports Prelude
begin

text \<open>
  Numbers in positional notation, as the scanners and printers of the sources read and write
  them: digit values, the digits of a number, and what the conversions \<^verbatim>\<open>%d\<close> and \<^verbatim>\<open>%llx\<close> of the C
  library function \<^verbatim>\<open>sscanf\<close> read.
\<close>

section \<open>Digits\<close>

definition digit_char :: "nat \<Rightarrow> char" where
  "digit_char d = char_of (if d < 10 then 48 + d else 87 + d)"

definition digit_val :: "char \<Rightarrow> nat" where
  "digit_val c =
     (let v = chr_nat c in
      if 48 \<le> v \<and> v \<le> 57 then v - 48
      else if 97 \<le> v \<and> v \<le> 102 then v - 87
      else if 65 \<le> v \<and> v \<le> 70 then v - 55
      else 16)"

definition is_dec :: "char \<Rightarrow> bool" where
  "is_dec c \<longleftrightarrow> digit_val c < 10"

definition is_hex :: "char \<Rightarrow> bool" where
  "is_hex c \<longleftrightarrow> digit_val c < 16"

fun digits :: "nat \<Rightarrow> nat \<Rightarrow> nat list" where
  "digits b n = (if n < b \<or> b < 2 then [n] else digits b (n div b) @ [n mod b])"

declare digits.simps [simp del]

definition show_nat :: "nat \<Rightarrow> nat \<Rightarrow> string" where
  "show_nat b n = map digit_char (digits b n)"

definition show_int :: "int \<Rightarrow> string" where
  "show_int i = (if i < 0 then CHR ''-'' # show_nat 10 (nat (- i)) else show_nat 10 (nat i))"

definition num_val :: "nat \<Rightarrow> string \<Rightarrow> nat" where
  "num_val b s = foldl (\<lambda>a c. a * b + digit_val c) 0 s"

lemma digits_less: "2 \<le> b \<Longrightarrow> d \<in> set (digits b n) \<Longrightarrow> d < b"
proof (induction b n rule: digits.induct)
  case (1 b n)
  then show ?case by (cases "n < b") (auto simp: digits.simps [of b n])
qed

lemma digits_nonempty [simp]: "digits b n \<noteq> []"
  by (subst digits.simps) auto

lemma digit_val_char: "d < 16 \<Longrightarrow> digit_val (digit_char d) = d"
proof -
  assume "d < 16"
  then have "d = 0 \<or> d = 1 \<or> d = 2 \<or> d = 3 \<or> d = 4 \<or> d = 5 \<or> d = 6 \<or> d = 7 \<or> d = 8 \<or> d = 9 \<or>
    d = 10 \<or> d = 11 \<or> d = 12 \<or> d = 13 \<or> d = 14 \<or> d = 15" by arith
  then show ?thesis by (elim disjE) (simp_all add: digit_val_def digit_char_def)
qed

lemma digit_char_simps [simp]:
  "digit_char 0 = CHR ''0''" "digit_char (Suc 0) = CHR ''1''" "digit_char 1 = CHR ''1''"
  "digit_char 2 = CHR ''2''" "digit_char 3 = CHR ''3''" "digit_char 4 = CHR ''4''"
  "digit_char 5 = CHR ''5''" "digit_char 6 = CHR ''6''" "digit_char 7 = CHR ''7''"
  "digit_char 8 = CHR ''8''" "digit_char 9 = CHR ''9''" "digit_char 10 = CHR ''a''"
  "digit_char 11 = CHR ''b''" "digit_char 12 = CHR ''c''" "digit_char 13 = CHR ''d''"
  "digit_char 14 = CHR ''e''" "digit_char 15 = CHR ''f''"
  by (simp_all add: digit_char_def char_of_eq_iff take_bit_eq_mod)

lemma num_val_snoc: "num_val b (s @ [c]) = num_val b s * b + digit_val c"
  by (simp add: num_val_def)

lemma num_val_show_nat: "2 \<le> b \<Longrightarrow> b \<le> 16 \<Longrightarrow> num_val b (show_nat b n) = n"
proof (induction b n rule: digits.induct)
  case (1 b n)
  show ?case
  proof (cases "n < b")
    case True
    then show ?thesis using 1
      by (simp add: show_nat_def digits.simps [of b n] num_val_def digit_val_char)
  next
    case False
    have "digit_val (digit_char (n mod b)) = n mod b"
      using 1(2,3) less_le_trans [OF mod_less_divisor [of b n]] by (intro digit_val_char) simp
    with False 1 show ?thesis
      by (simp add: show_nat_def digits.simps [of b n] num_val_snoc)
  qed
qed

lemma show_nat_digits: "2 \<le> b \<Longrightarrow> b \<le> 16 \<Longrightarrow> c \<in> set (show_nat b n) \<Longrightarrow> digit_val c < b"
  using digits_less [of b _ n] by (fastforce simp: show_nat_def digit_val_char)

lemma show_nat_dec: "c \<in> set (show_nat 10 n) \<Longrightarrow> is_dec c"
  using show_nat_digits [of 10] by (simp add: is_dec_def)

lemma show_nat_hex: "c \<in> set (show_nat 16 n) \<Longrightarrow> is_hex c"
  using show_nat_digits [of 16] by (simp add: is_hex_def)

lemma show_nat_nonempty [simp]: "show_nat b n \<noteq> []"
  by (simp add: show_nat_def)

lemma digits_snoc: "b \<le> n \<Longrightarrow> 2 \<le> b \<Longrightarrow> digits b n = digits b (n div b) @ [n mod b]"
  by (subst digits.simps) simp

lemma length_digits: "2 \<le> b \<Longrightarrow> n < b ^ k \<Longrightarrow> 0 < k \<Longrightarrow> length (digits b n) \<le> k"
proof (induction k arbitrary: n)
  case (Suc k)
  show ?case
  proof (cases "n < b")
    case False
    then have "0 < k" using Suc.prems by (cases k) auto
    moreover have "n div b < b ^ k" using Suc.prems by (simp add: div_less_iff_less_mult mult.commute)
    ultimately show ?thesis using Suc.IH [of "n div b"] False Suc.prems by (simp add: digits_snoc)
  qed (simp add: digits.simps)
qed simp

section \<open>The library function sscanf\<close>

text \<open>White space in the sense of \<^verbatim>\<open>isspace\<close>.\<close>

definition is_space :: "char \<Rightarrow> bool" where
  "is_space c \<longleftrightarrow> c = CHR '' '' \<or> (9 \<le> chr_nat c \<and> chr_nat c \<le> 13)"

definition scan_sign :: "string \<Rightarrow> bool \<times> string" where
  "scan_sign s =
     (if peek s = CHR ''-'' then (True, tl s)
      else if peek s = CHR ''+'' then (False, tl s) else (False, s))"

text \<open>
  \<^verbatim>\<open>sscanf(s, "%d", &i)\<close>: \<open>None\<close> when nothing is converted, else the value stored.  Out of range
  numbers are clamped to the range of \<^verbatim>\<open>long\<close>, as \<^verbatim>\<open>strtol\<close> does.
\<close>

definition sscanf_d :: "string \<Rightarrow> int option" where
  "sscanf_d s =
     (let (neg, t) = scan_sign (dropWhile is_space s);
          ds = takeWhile is_dec t;
          v = int (num_val 10 ds);
          v = (if neg then - v else v) in
      if ds = [] then None
      else Some (max (- (2 ^ 31)) (min (2 ^ 31 - 1) v)))"

text \<open>\<^verbatim>\<open>sscanf(s, "%llx", &a)\<close>, clamped as \<^verbatim>\<open>strtoull\<close> does; a prefix \<^verbatim>\<open>0x\<close> is skipped.\<close>

definition sscanf_llx :: "string \<Rightarrow> u64 option" where
  "sscanf_llx s =
     (let (neg, t) = scan_sign (dropWhile is_space s);
          t = (if peek t = CHR ''0'' \<and> (peek (tl t) = CHR ''x'' \<or> peek (tl t) = CHR ''X'')
               then drop 2 t else t);
          ds = takeWhile is_hex t;
          v = num_val 16 ds in
      if ds = [] then None
      else if 2 ^ 64 \<le> v then Some (- 1)
      else Some (if neg then - of_nat v else of_nat v))"

lemma is_dec_not_space: "is_dec c \<Longrightarrow> \<not> is_space c \<and> c \<noteq> CHR ''-'' \<and> c \<noteq> CHR ''+'' \<and> c \<noteq> NUL"
  by (auto simp: is_dec_def is_space_def digit_val_def Let_def split: if_splits)

lemma is_hex_not_space:
  "is_hex c \<Longrightarrow> \<not> is_space c \<and> c \<noteq> CHR ''-'' \<and> c \<noteq> CHR ''+'' \<and> c \<noteq> NUL \<and> c \<noteq> CHR ''x'' \<and> c \<noteq> CHR ''X''"
  by (auto simp: is_hex_def is_space_def digit_val_def Let_def split: if_splits)

lemma hd_show_nat: "2 \<le> b \<Longrightarrow> b \<le> 16 \<Longrightarrow> digit_val (hd (show_nat b n)) < b"
  by (rule show_nat_digits [of b _ n]) auto

lemma peek_hd: "s \<noteq> [] \<Longrightarrow> peek s = hd s"
  by (cases s) auto

lemma sscanf_d_show_int:
  assumes "- (2 ^ 31) \<le> i" "i < 2 ^ 31" "rest = [] \<or> \<not> is_dec (hd rest)"
  shows "sscanf_d (show_int i @ rest) = Some i"
proof -
  have hd: "is_dec (hd (show_nat 10 n))" for n using hd_show_nat [of 10] by (simp add: is_dec_def)
  have tw: "takeWhile is_dec (show_nat 10 n @ rest) = show_nat 10 n" for n
    using assms(3) show_nat_dec by (intro takeWhile_append_stop) auto
  have dw: "dropWhile is_space (show_nat 10 n @ rest) = show_nat 10 n @ rest" for n
    using is_dec_not_space [OF hd] by (intro dropWhile_stop) simp
  have sign: "scan_sign (show_nat 10 n @ rest) = (False, show_nat 10 n @ rest)" for n
    using is_dec_not_space [OF hd] by (simp add: scan_sign_def peek_hd)
  show ?thesis
  proof (cases "i < 0")
    case True
    then have "scan_sign (dropWhile is_space (show_int i @ rest)) = (True, show_nat 10 (nat (- i)) @ rest)"
      by (simp add: show_int_def is_space_def scan_sign_def)
    with True assms(1,2) show ?thesis by (simp add: sscanf_d_def tw num_val_show_nat)
  next
    case False
    then have "scan_sign (dropWhile is_space (show_int i @ rest)) = (False, show_nat 10 (nat i) @ rest)"
      by (simp add: show_int_def dw sign)
    with False assms(1,2) show ?thesis by (simp add: sscanf_d_def tw num_val_show_nat)
  qed
qed

lemma sscanf_llx_show_nat:
  assumes "rest = [] \<or> \<not> is_hex (hd rest)" "peek rest \<noteq> CHR ''x''" "peek rest \<noteq> CHR ''X''"
  shows "sscanf_llx (show_nat 16 (unat a) @ rest) = Some a"
proof -
  let ?s = "show_nat 16 (unat a)"
  have hd: "is_hex (hd ?s)" using hd_show_nat [of 16] by (simp add: is_hex_def)
  have tw: "takeWhile is_hex (?s @ rest) = ?s"
    using assms(1) show_nat_hex by (intro takeWhile_append_stop) auto
  have dw: "dropWhile is_space (?s @ rest) = ?s @ rest"
    using is_hex_not_space [OF hd] by (intro dropWhile_stop) simp
  have sign: "scan_sign (?s @ rest) = (False, ?s @ rest)"
    using is_hex_not_space [OF hd] by (simp add: scan_sign_def peek_hd)
  have "peek (tl (?s @ rest)) \<noteq> CHR ''x'' \<and> peek (tl (?s @ rest)) \<noteq> CHR ''X''"
  proof (cases "tl ?s = []")
    case True
    then show ?thesis using assms(2,3) by simp
  next
    case False
    then have "hd (tl ?s) \<in> set ?s" by (meson hd_in_set list.set_sel(2) show_nat_nonempty)
    from is_hex_not_space [OF show_nat_hex [OF this]] False show ?thesis by (simp add: peek_hd)
  qed
  with unat_lt2p64 [of a] show ?thesis
    by (simp add: sscanf_llx_def dw sign tw num_val_show_nat)
qed

end
