(* ===== verification/Strat_Scan.thy ===== *)
theory Strat_Scan
  imports Common_Types Numerals
begin

text \<open>
  The scanners for strategy texts (\<^verbatim>\<open>src/trunk/src/strat.c\<close>, \<^verbatim>\<open>src/trunk/src/strat.h\<close>).

  A text is the list of its characters without the terminating NUL, a pointer into it is the
  suffix it points at.  Routines that may read beyond the terminator return an option whose
  \<open>None\<close> is that out-of-bounds access.  The character tables are indexed with \<^verbatim>\<open>char\<close> values;
  they are modelled on 7 bit characters (for the others the index is out of range).  Output
  parameters are passed in with their old value and returned with the new one.
\<close>

section \<open>Basic scanners\<close>

text \<open>\<^verbatim>\<open>copy_str\<close>: the C string left in \<^verbatim>\<open>dst\<close>; \<open>None\<close> when \<^verbatim>\<open>maxlen\<close> leaves no room.\<close>

definition copy_str :: "int \<Rightarrow> string \<Rightarrow> int \<Rightarrow> int \<Rightarrow> string option" where
  "copy_str maxlen src start en =
     (let len = en - start in
      if start < 0 \<or> len < 0 then Some []
      else
        let len = (if maxlen \<le> len then maxlen - 1 else len) in
        if len < 0 then None
        else Some (take (nat len) (drop (nat start) src)))"

fun skip_line :: "string \<Rightarrow> string" where
  "skip_line [] = []"
| "skip_line (c # s) = (if c = NL then s else skip_line s)"

definition skip_blanks :: "string \<Rightarrow> string" where
  "skip_blanks s = dropWhile (\<lambda>c. c = CHR '' '') s"

text \<open>\<^verbatim>\<open>!strncmp(s, t, n)\<close>\<close>

definition strncmp_eq :: "string \<Rightarrow> string \<Rightarrow> nat \<Rightarrow> bool" where
  "strncmp_eq s t n \<longleftrightarrow> take n s = take n t"

lemma length_skip_line_le: "length (skip_line s) \<le> length s"
  by (induction s) auto

lemma length_skip_line: "s \<noteq> [] \<Longrightarrow> length (skip_line s) < length s"
  using length_skip_line_le [of "tl s"] by (cases s) auto

lemma length_skip_blanks: "length (skip_blanks s) \<le> length s"
  by (simp add: skip_blanks_def)

text \<open>The inner loop of \<^verbatim>\<open>scan_multi\<close> over the parallel arrays \<^verbatim>\<open>search\<close> and \<^verbatim>\<open>lens\<close>.\<close>

fun scan_keys :: "string \<Rightarrow> (string \<times> nat) list \<Rightarrow> int \<Rightarrow> (int \<times> nat) option" where
  "scan_keys tmp [] i = None"
| "scan_keys tmp ((key, len) # ks) i =
     (if strncmp_eq tmp key len then Some (i, len) else scan_keys tmp ks (i + 1))"

function scan_multi :: "(string \<times> nat) list \<Rightarrow> string \<Rightarrow> int \<times> string" where
  "scan_multi keys s =
     (let tmp = skip_blanks s in
      if tmp = [] then (- 1, tmp)
      else case scan_keys tmp keys 0 of
        Some (i, len) \<Rightarrow> (i, skip_blanks (drop len tmp))
      | None \<Rightarrow> scan_multi keys (skip_line tmp))"
  by pat_completeness auto

termination scan_multi
  by (relation "measure (\<lambda>(_, s). length s)")
     (auto intro: less_le_trans [OF length_skip_line length_skip_blanks])

declare scan_multi.simps [simp del]

function scan_single :: "string \<Rightarrow> nat \<Rightarrow> string \<Rightarrow> string option" where
  "scan_single search searchlen s =
     (let tmp = skip_blanks s in
      if tmp = [] then None
      else if strncmp_eq tmp search searchlen then Some (skip_blanks (drop searchlen tmp))
      else scan_single search searchlen (skip_line tmp))"
  by pat_completeness auto

termination scan_single
  by (relation "measure (\<lambda>(_, _, s). length s)")
     (auto intro: less_le_trans [OF length_skip_line length_skip_blanks])

declare scan_single.simps [simp del]

section \<open>Character tables\<close>

definition in_range :: "char \<Rightarrow> char \<Rightarrow> char \<Rightarrow> bool" where
  "in_range a b c \<longleftrightarrow> chr_nat a \<le> chr_nat c \<and> chr_nat c \<le> chr_nat b"

definition id_table :: "char \<Rightarrow> bool" where
  "id_table c \<longleftrightarrow> in_range CHR ''a'' CHR ''z'' c \<or> in_range CHR ''A'' CHR ''Z'' c \<or>
     in_range CHR ''0'' CHR ''9'' c \<or> c = CHR ''_''"

definition num_table :: "char \<Rightarrow> bool" where
  "num_table c \<longleftrightarrow> in_range CHR ''0'' CHR ''9'' c"

definition hex_table :: "char \<Rightarrow> bool" where
  "hex_table c \<longleftrightarrow> in_range CHR ''0'' CHR ''9'' c \<or> in_range CHR ''a'' CHR ''f'' c \<or>
     in_range CHR ''A'' CHR ''F'' c \<or> c = CHR ''x''"

definition op_table :: "char \<Rightarrow> bool" where
  "op_table c \<longleftrightarrow> c \<in> {CHR ''='', CHR '':'', CHR ''/'', CHR ''+'', CHR ''-''}"

definition ws_table :: "char \<Rightarrow> bool" where
  "ws_table c \<longleftrightarrow> c \<in> {CHR '' '', TAB, NL}"

definition bl_table :: "char \<Rightarrow> bool" where
  "bl_table c \<longleftrightarrow> c \<in> {CHR '' '', TAB}"

definition nl_table :: "char \<Rightarrow> bool" where
  "nl_table c \<longleftrightarrow> c = NL"

section \<open>Table driven scanners\<close>

text \<open>The body \<^verbatim>\<open>SCAN_BODY\<close>: the count, the new \<^verbatim>\<open>*str\<close> and the start \<^verbatim>\<open>*res\<close>.\<close>

definition scan_body :: "(char \<Rightarrow> bool) \<Rightarrow> string \<Rightarrow> int \<times> string \<times> string" where
  "scan_body P str =
     (let tmp = skip_blanks str; i = length (takeWhile P tmp) in (int i, drop i tmp, tmp))"

definition scan_table :: "(char \<Rightarrow> bool) \<Rightarrow> string \<Rightarrow> int \<times> string \<times> string" where
  "scan_table table str = scan_body table str"

definition scan_not_table :: "(char \<Rightarrow> bool) \<Rightarrow> string \<Rightarrow> int \<times> string \<times> string" where
  "scan_not_table table str = scan_body (\<lambda>c. \<not> table c) str"

text \<open>The body \<^verbatim>\<open>SCAN_BODY2\<close>: the result, the new \<^verbatim>\<open>*str\<close> and the contents of \<^verbatim>\<open>res\<close>.\<close>

definition scan_body2 :: "(char \<Rightarrow> bool) \<Rightarrow> string \<Rightarrow> string \<Rightarrow> int \<Rightarrow> int \<times> string \<times> string" where
  "scan_body2 P str res reslen =
     (let tmp = skip_blanks str; i = length (takeWhile P tmp) in
      if reslen \<le> int i then (- 1, str, res) else (int i, drop i tmp, take i tmp))"

definition scan_table_copy :: "(char \<Rightarrow> bool) \<Rightarrow> string \<Rightarrow> string \<Rightarrow> int \<Rightarrow> int \<times> string \<times> string" where
  "scan_table_copy table str res reslen = scan_body2 table str res reslen"

definition scan_not_table_copy :: "(char \<Rightarrow> bool) \<Rightarrow> string \<Rightarrow> string \<Rightarrow> int \<Rightarrow> int \<times> string \<times> string" where
  "scan_not_table_copy table str res reslen = scan_body2 (\<lambda>c. \<not> table c) str res reslen"

definition scan_op :: "string \<Rightarrow> (char \<times> string) option" where
  "scan_op str =
     (case str of
        [] \<Rightarrow> None
      | res # tmp \<Rightarrow>
          let res = (if op_table res then res else CHR ''?'') in
          if peek tmp = CHR ''='' then Some (res, tl tmp)
          else Some (if res \<noteq> CHR ''='' then CHR ''?'' else res, tmp))"

definition strat_keywords :: "(string \<times> nat) list" where
  "strat_keywords = [(''brick'', 5), (''input'', 5), (''output'', 6), (''connect'', 7)]"

section \<open>Connector specifiers\<close>

text \<open>The loop \<^verbatim>\<open>while(*p && *p++ != c)\<close>.\<close>

fun skip_past :: "char \<Rightarrow> string \<Rightarrow> string" where
  "skip_past e [] = []"
| "skip_past e (c # s) = (if c = e then s else skip_past e s)"

text \<open>\<^verbatim>\<open>sizeof(conn->conn_name)\<close>\<close>

definition sizeof_sname :: int where
  "sizeof_sname = 8"

definition scan_connstr :: "string \<Rightarrow> conn_info \<Rightarrow> bool \<times> string \<times> conn_info" where
  "scan_connstr str conn =
     (let str = skip_blanks str;
          (count, str, nm) = scan_table_copy id_table str (conn_name conn) sizeof_sname;
          conn = conn\<lparr>conn_name := nm\<rparr>;
          finish = (\<lambda>str conn.
            let str = (if peek str = CHR '','' then tl str else str) in
            (\<not> (str = [] \<and> count \<le> 0), str, conn)) in
      if peek str = CHR ''['' then
        (let str = tl str in
         case sscanf_d str of
           None \<Rightarrow> (False, str, conn)
         | Some i \<Rightarrow> finish (skip_past CHR '']'' str) (conn\<lparr>conn_index := i\<rparr>))
      else finish str (conn\<lparr>conn_index := 0\<rparr>))"

definition scan_connstraddr :: "string \<Rightarrow> conn_info \<Rightarrow> bool \<times> string \<times> conn_info" where
  "scan_connstraddr str conn =
     (let str = skip_blanks str;
          conn = (case sscanf_llx str of None \<Rightarrow> conn | Some a \<Rightarrow> conn\<lparr>conn_addr := a\<rparr>);
          (_, str, _) = scan_table hex_table str in
      if peek str \<noteq> CHR '':'' then (False, str, conn)
      else scan_connstr (tl str) conn)"

section \<open>The deprecated parsers\<close>

text \<open>
  \<open>scan_op_char\<close> is the code the parsers share: read the operator character, skip an optional
  \<^verbatim>\<open>=\<close> and blanks.  It reads one character beyond the terminator when the text ends before the
  operator.
\<close>

definition scan_op_char :: "string \<Rightarrow> (char \<times> string) option" where
  "scan_op_char found =
     (case found of
        [] \<Rightarrow> None
      | c # found \<Rightarrow>
          Some (if c = CHR '':'' \<or> c = CHR ''/'' then c else NUL,
                skip_blanks (if peek found = CHR ''='' then tl found else found)))"

definition line_len :: "string \<Rightarrow> nat" where
  "line_len found = length (takeWhile (\<lambda>c. c \<noteq> NL) found)"

record brick_result =
  br_op :: char
  br_name :: string

definition parse_brick :: "string \<Rightarrow> int \<Rightarrow> brick_result \<Rightarrow> (int \<times> brick_result) option" where
  "parse_brick buf len_name out =
     (case scan_single ''brick'' 5 buf of
        None \<Rightarrow> Some (- 1, out)
      | Some found \<Rightarrow>
         (case scan_op_char found of
            None \<Rightarrow> None
          | Some (opc, found) \<Rightarrow>
              let out = out\<lparr>br_op := opc\<rparr> in
              if found = [] then Some (- 1, out)
              else case copy_str len_name found 0 (int (line_len found)) of
                None \<Rightarrow> None
              | Some nm \<Rightarrow>
                  Some (int (length buf) - int (length found) + int (line_len found),
                        out\<lparr>br_name := nm\<rparr>)))"

definition lower_table :: "char \<Rightarrow> bool" where
  "lower_table c \<longleftrightarrow> in_range CHR ''a'' CHR ''z'' c \<or> c = CHR ''_''"

text \<open>\<^verbatim>\<open>p[i]\<close>, \<open>None\<close> beyond the terminator.\<close>

definition char_at :: "string \<Rightarrow> nat \<Rightarrow> char option" where
  "char_at p i = (if i \<le> length p then Some (peek (drop i p)) else None)"

record connector_result =
  co_name :: string
  co_index :: int
  co_op :: char
  co_other :: string
  co_len :: int

text \<open>\<^verbatim>\<open>atoi\<close>: zero when there is no number.\<close>

definition hosted_atoi :: "string \<Rightarrow> int" where
  "hosted_atoi s = (case sscanf_d s of None \<Rightarrow> 0 | Some i \<Rightarrow> i)"

definition parse_connector ::
  "string \<Rightarrow> int \<Rightarrow> int \<Rightarrow> connector_result \<Rightarrow> (int \<times> connector_result) option" where
  "parse_connector buf len_name len_other out =
     (case scan_single ''connect'' 7 buf of
        None \<Rightarrow> Some (- 1, out)
      | Some found \<Rightarrow>
         let pos = length (takeWhile lower_table found) in
         (case copy_str len_name found 0 (int pos) of
            None \<Rightarrow> None
          | Some nm \<Rightarrow>
             let out = out\<lparr>co_name := nm, co_index := 0\<rparr>; found = drop pos found in
             (case char_at found pos of
                None \<Rightarrow> None
              | Some c \<Rightarrow>
                 let (out, found) =
                   (if c = CHR ''['' then
                      (out\<lparr>co_index := hosted_atoi (tl found)\<rparr>, skip_past CHR '']'' (tl found))
                    else (out, found)) in
                 (case scan_op_char (skip_blanks found) of
                    None \<Rightarrow> None
                  | Some (opc, found) \<Rightarrow>
                      let out = out\<lparr>co_op := opc\<rparr> in
                      if found = [] then Some (- 1, out)
                      else case copy_str len_other found 0 (int (line_len found)) of
                        None \<Rightarrow> None
                      | Some other \<Rightarrow>
                          Some (int (length buf) - int (length found) + int (line_len found),
                                out\<lparr>co_len := int (line_len found), co_other := other\<rparr>)))))"

text \<open>\<^verbatim>\<open>parse_connstr\<close>: the name is cut to the size of the field, the index kept without brackets.\<close>

definition parse_connstr :: "string \<Rightarrow> conn_info \<Rightarrow> (string \<times> conn_info) option" where
  "parse_connstr ptr conn =
     (let i = length (takeWhile lower_table ptr) in
      case copy_str sizeof_sname ptr 0 (int i) of
        None \<Rightarrow> None
      | Some nm \<Rightarrow>
          let conn = conn\<lparr>conn_name := nm\<rparr>; ptr = drop i ptr in
          if peek ptr = CHR ''['' then
            (let ptr = tl ptr;
                 conn = (case sscanf_d ptr of None \<Rightarrow> conn | Some i \<Rightarrow> conn\<lparr>conn_index := i\<rparr>) in
             Some (skip_past CHR '']'' ptr, conn))
          else Some (ptr, conn))"

definition parse_elem :: "string \<Rightarrow> conn_info \<Rightarrow> (int \<times> conn_info) option" where
  "parse_elem buf conn =
     (let ptr = skip_blanks buf in
      if ptr = [] then Some (- 1, conn)
      else
        let conn = (case sscanf_llx ptr of None \<Rightarrow> conn | Some a \<Rightarrow> conn\<lparr>conn_addr := a\<rparr>);
            ptr = skip_past CHR '':'' ptr in
        if ptr = [] then Some (- 1, conn)
        else case parse_connstr ptr conn of
          None \<Rightarrow> None
        | Some (ptr, conn) \<Rightarrow>
            let ptr = skip_blanks (if peek ptr = CHR '','' then tl ptr else ptr) in
            Some (int (length buf) - int (length ptr), conn))"

record inout_result =
  io_type :: int
  io_op :: char

definition parse_inout ::
  "string \<Rightarrow> inout_result \<Rightarrow> conn_info \<Rightarrow> (int \<times> inout_result \<times> conn_info) option" where
  "parse_inout buf out conn =
     (let (code, found) = scan_multi [(''input'', 5), (''output'', 6)] buf in
      if code < 0 then Some (- 1, out, conn)
      else
        let out = out\<lparr>io_type := code\<rparr> in
        case scan_op_char found of
          None \<Rightarrow> None
        | Some (opc, found) \<Rightarrow>
            let out = out\<lparr>io_op := opc\<rparr> in
            if found = [] then Some (- 1, out, conn)
            else case parse_connstr found conn of
              None \<Rightarrow> None
            | Some (found, conn) \<Rightarrow> Some (int (length buf) - int (length found), out, conn))"

section \<open>Facts on the scanners\<close>

lemma skip_blanks_Nil [simp]: "skip_blanks [] = []"
  by (simp add: skip_blanks_def)

lemma skip_blanks_Cons [simp]: "skip_blanks (c # s) = (if c = CHR '' '' then skip_blanks s else c # s)"
  by (simp add: skip_blanks_def)

lemma skip_blanks_idem [simp]: "skip_blanks (skip_blanks s) = skip_blanks s"
  by (induction s) auto

lemma skip_blanks_stop: "peek s \<noteq> CHR '' '' \<Longrightarrow> skip_blanks s = s"
  by (cases s) auto

lemma skip_line_blanks: "skip_line (skip_blanks s) = skip_line s"
  by (induction s) auto

lemma skip_past_append: "e \<notin> set s \<Longrightarrow> skip_past e (s @ e # t) = t"
  by (induction s) auto

lemma takeWhile_peek_stop:
  "\<forall>x \<in> set xs. P x \<Longrightarrow> \<not> P NUL \<Longrightarrow> \<not> P (peek ys) \<Longrightarrow> takeWhile P (xs @ ys) = xs"
  by (rule takeWhile_append_stop) (cases ys; auto)+

lemma scan_single_multi:
  "scan_single k n s =
     (case scan_multi [(k, n)] s of (r, t) \<Rightarrow> if r < 0 then None else Some t)"
proof (induction k n s rule: scan_single.induct)
  case (1 k n s)
  then show ?case
    by (subst scan_single.simps, subst scan_multi.simps) (simp add: Let_def)
qed

lemmas table_defs = id_table_def num_table_def hex_table_def op_table_def ws_table_def
  bl_table_def nl_table_def lower_table_def in_range_def

lemma hex_digit_table: "is_hex c \<Longrightarrow> hex_table c"
  by (auto simp: is_hex_def digit_val_def table_defs Let_def split: if_splits)

lemma lower_id_table: "lower_table c \<Longrightarrow> id_table c"
  by (auto simp: table_defs)

lemma id_table_plain:
  "id_table c \<Longrightarrow> c \<noteq> CHR '' '' \<and> c \<noteq> CHR ''['' \<and> c \<noteq> CHR '','' \<and> c \<noteq> CHR '':'' \<and> c \<noteq> NUL"
  by (auto simp: table_defs)

section \<open>The keyword search\<close>

text \<open>The positions in a text where a line starts.\<close>

function line_starts :: "string \<Rightarrow> string list" where
  "line_starts s = (if s = [] then [] else s # line_starts (skip_line s))"
  by pat_completeness auto

termination line_starts
  by (relation "measure length") (auto intro: length_skip_line)

declare line_starts.simps [simp del]

lemma line_starts_Nil [simp]: "line_starts [] = []"
  by (subst line_starts.simps) simp

text \<open>\<open>line_starts\<close> lists the suffixes that begin the text or follow a newline.\<close>

lemma skip_line_split: "s \<noteq> [] \<Longrightarrow> \<exists>p. s = p @ skip_line s \<and> p \<noteq> [] \<and> NL \<notin> set (butlast p)"
proof (induction s)
  case (Cons c s)
  show ?case
  proof (cases "c = NL \<or> s = []")
    case True
    then show ?thesis by (intro exI [of _ "[c]"]) auto
  next
    case False
    then obtain p where "s = p @ skip_line s" "p \<noteq> []" "NL \<notin> set (butlast p)"
      using Cons.IH by blast
    with False show ?thesis by (intro exI [of _ "c # p"]) auto
  qed
qed simp

definition key_at :: "string list \<Rightarrow> nat \<Rightarrow> string \<Rightarrow> bool" where
  "key_at ks i l \<longleftrightarrow> take (length (ks ! i)) (skip_blanks l) = ks ! i"

lemma scan_keys_spec:
  "case scan_keys l (map (\<lambda>k. (k, length k)) ks) i of
     None \<Rightarrow> \<forall>k \<in> set ks. take (length k) l \<noteq> k
   | Some (r, n) \<Rightarrow>
       (\<exists>j < length ks. r = i + int j \<and> n = length (ks ! j) \<and> take n l = ks ! j \<and>
          (\<forall>j' < j. take (length (ks ! j')) l \<noteq> ks ! j'))"
proof (induction ks arbitrary: i)
  case (Cons k ks)
  show ?case
  proof (cases "take (length k) l = k")
    case True
    then show ?thesis by (auto simp: strncmp_eq_def intro: exI [of _ 0])
  next
    case False
    show ?thesis
    proof (cases "scan_keys l (map (\<lambda>k. (k, length k)) ks) (i + 1)")
      case None
      then show ?thesis using Cons.IH [of "i + 1"] False by (simp add: strncmp_eq_def)
    next
      case (Some rn)
      then obtain r n where rn: "rn = (r, n)" by (cases rn)
      with Some Cons.IH [of "i + 1"] obtain j where "j < length ks" "r = i + 1 + int j"
        "n = length (ks ! j)" "take n l = ks ! j" "\<forall>j' < j. take (length (ks ! j')) l \<noteq> ks ! j'"
        by auto
      then have "\<exists>j < length (k # ks). r = i + int j \<and> n = length ((k # ks) ! j) \<and>
          take n l = (k # ks) ! j \<and> (\<forall>j' < j. take (length ((k # ks) ! j')) l \<noteq> (k # ks) ! j')"
        using False by (intro exI [of _ "Suc j"]) (auto simp: less_Suc_eq_0_disj)
      then show ?thesis using False Some rn by (simp add: strncmp_eq_def)
    qed
  qed
qed simp

text \<open>
  What a keyword search promises: \<open>finds_first ks ls r t\<close> says that \<open>r\<close> is the index of the
  keyword that starts one of the lines \<open>ls\<close>, none of the earlier lines starts with a keyword, no
  keyword earlier in the table starts that line, and \<open>t\<close> is what follows keyword and blanks.
\<close>

definition no_key :: "string list \<Rightarrow> string \<Rightarrow> bool" where
  "no_key ks l \<longleftrightarrow> (\<forall>i < length ks. \<not> key_at ks i l)"

definition finds_first :: "string list \<Rightarrow> string list \<Rightarrow> int \<Rightarrow> string \<Rightarrow> bool" where
  "finds_first ks ls r t \<longleftrightarrow>
     (\<exists>i pre l post. ls = pre @ l # post \<and> r = int i \<and> i < length ks \<and>
        key_at ks i l \<and> t = skip_blanks (drop (length (ks ! i)) (skip_blanks l)) \<and>
        (\<forall>j < i. \<not> key_at ks j l) \<and> (\<forall>l' \<in> set pre. no_key ks l'))"

definition search_result :: "string list \<Rightarrow> string list \<Rightarrow> int \<times> string \<Rightarrow> bool" where
  "search_result ks ls = (\<lambda>(r, t).
     if r = - 1 then t = [] \<and> (\<forall>l \<in> set ls. no_key ks l) else finds_first ks ls r t)"

lemma finds_first_later: "no_key ks l \<Longrightarrow> finds_first ks ls r t \<Longrightarrow> finds_first ks (l # ls) r t"
  unfolding finds_first_def by (metis append_Cons set_ConsD)

lemma search_result_later:
  "no_key ks l \<Longrightarrow> search_result ks ls p \<Longrightarrow> search_result ks (l # ls) p"
  by (auto simp: search_result_def finds_first_later split: prod.splits if_splits)

lemma search_result_here:
  assumes "scan_keys (skip_blanks l) (map (\<lambda>k. (k, length k)) ks) 0 = Some (r, n)"
  shows "search_result ks (l # ls) (r, skip_blanks (drop n (skip_blanks l)))"
proof -
  from scan_keys_spec [where l = "skip_blanks l" and ks = ks and i = 0] assms
  obtain j where j: "j < length ks" "r = int j" "n = length (ks ! j)" "key_at ks j l"
    "\<forall>j' < j. \<not> key_at ks j' l"
    by (auto simp: key_at_def)
  then have "finds_first ks (l # ls) r (skip_blanks (drop n (skip_blanks l)))"
    unfolding finds_first_def by (intro exI [of _ j] exI [of _ "[]"] exI [of _ l] exI [of _ ls]) simp
  with j show ?thesis by (simp add: search_result_def)
qed

lemma no_key_None:
  "scan_keys (skip_blanks l) (map (\<lambda>k. (k, length k)) ks) 0 = None \<Longrightarrow> no_key ks l"
  using scan_keys_spec [where l = "skip_blanks l" and ks = ks and i = 0]
  by (auto simp: no_key_def key_at_def)

lemma line_starts_Cons: "s \<noteq> [] \<Longrightarrow> line_starts s = s # line_starts (skip_line s)"
  by (subst line_starts.simps) simp

lemma no_key_blank:
  assumes "[] \<notin> set ks" "skip_blanks s = []" "l \<in> set (line_starts s)"
  shows "no_key ks l"
proof -
  have "skip_line s = []" using skip_line_blanks [of s] assms(2) by simp
  then have "l = s" using assms(3) by (cases "s = []") (auto simp: line_starts_Cons)
  then show ?thesis using assms(1,2) by (auto simp: no_key_def key_at_def in_set_conv_nth)
qed

text \<open>C28: \<^verbatim>\<open>scan_multi\<close> returns for every text.  It answers -1, at the end of the text, when no line
  starts (after blanks) with a keyword; else its result is the index of the keyword that starts the
  first line which starts with any of them, the earliest such keyword in the table, and the
  remaining text follows that keyword and blanks.\<close>

theorem scan_multi_first_line:
  assumes "[] \<notin> set ks"
  shows "search_result ks (line_starts s) (scan_multi (map (\<lambda>k. (k, length k)) ks) s)"
proof (induction "length s" arbitrary: s rule: less_induct)
  case less
  let ?keys = "map (\<lambda>k. (k, length k)) ks"
  consider "skip_blanks s = []"
    | r n where "skip_blanks s \<noteq> []" "scan_keys (skip_blanks s) ?keys 0 = Some (r, n)"
    | "skip_blanks s \<noteq> []" "scan_keys (skip_blanks s) ?keys 0 = None"
    by (cases "scan_keys (skip_blanks s) ?keys 0") auto
  then show ?case
  proof cases
    case 1
    with no_key_blank [OF assms 1] show ?thesis
      by (subst scan_multi.simps) (simp add: search_result_def)
  next
    case 2
    then have "s \<noteq> []" by auto
    with search_result_here [OF 2(2)] 2 show ?thesis
      by (subst scan_multi.simps) (simp add: line_starts_Cons)
  next
    case 3
    then have ne: "s \<noteq> []" by auto
    from search_result_later [OF no_key_None [OF 3(2)] less [OF length_skip_line [OF ne]]] 3
    show ?thesis
      by (subst scan_multi.simps) (simp add: line_starts_Cons [OF ne] skip_line_blanks)
  qed
qed

theorem scan_multi_first_line_witness:
  "search_result [''input'', ''output''] (line_starts (''brick'' @ [NL] @ '' output:=x''))
     (1, '':=x'')"
proof -
  have "[] \<notin> set [''input'', ''output'']" by simp
  from scan_multi_first_line [OF this, of "''brick'' @ [NL] @ '' output:=x''"] show ?thesis
    by (simp add: scan_multi.simps strncmp_eq_def)
qed

section \<open>Printed connector specifiers\<close>

definition show_conn :: "conn_info \<Rightarrow> string" where
  "show_conn c = conn_name c @ ''['' @ show_int (conn_index c) @ '']''"

definition show_connaddr :: "conn_info \<Rightarrow> string" where
  "show_connaddr c = show_nat 16 (unat (conn_addr c)) @ '':'' @ show_conn c"

definition good_conn :: "(char \<Rightarrow> bool) \<Rightarrow> conn_info \<Rightarrow> bool" where
  "good_conn P c \<longleftrightarrow> conn_name c \<noteq> [] \<and> length (conn_name c) < 8 \<and> (\<forall>x \<in> set (conn_name c). P x) \<and>
     - (2 ^ 31) \<le> conn_index c \<and> conn_index c < 2 ^ 31"

lemma show_int_chars: "x \<in> set (show_int i) \<Longrightarrow> x = CHR ''-'' \<or> is_dec x"
  by (auto simp: show_int_def show_nat_dec split: if_splits)

lemma skip_past_index: "skip_past CHR '']'' (show_int i @ CHR '']'' # rest) = rest"
  by (rule skip_past_append) (auto dest!: show_int_chars simp: is_dec_def digit_val_def)

lemma sscanf_index:
  "- (2 ^ 31) \<le> i \<Longrightarrow> i < 2 ^ 31 \<Longrightarrow> sscanf_d (show_int i @ CHR '']'' # rest) = Some i"
  by (rule sscanf_d_show_int) (simp_all add: is_dec_def digit_val_def)

definition after_comma :: "string \<Rightarrow> string" where
  "after_comma rest = (if peek rest = CHR '','' then tl rest else rest)"

lemma scan_connstr_show:
  assumes "good_conn id_table c"
  shows "scan_connstr (show_conn c @ rest) d =
     (True, after_comma rest, d\<lparr>conn_name := conn_name c, conn_index := conn_index c\<rparr>)"
proof -
  let ?tl = "CHR ''['' # show_int (conn_index c) @ CHR '']'' # rest"
  have blanks: "skip_blanks (conn_name c @ ?tl) = conn_name c @ ?tl"
    using assms id_table_plain
    by (intro skip_blanks_stop) (auto simp: good_conn_def peek_hd)
  have "takeWhile id_table (conn_name c @ ?tl) = conn_name c"
    using assms by (intro takeWhile_append_stop) (auto simp: good_conn_def table_defs)
  then have "scan_table_copy id_table (conn_name c @ ?tl) (conn_name d) sizeof_sname =
      (int (length (conn_name c)), ?tl, conn_name c)"
    using assms blanks by (simp add: scan_table_copy_def scan_body2_def sizeof_sname_def good_conn_def)
  then show ?thesis
    using assms blanks
    by (simp add: scan_connstr_def show_conn_def sscanf_index skip_past_index good_conn_def
        after_comma_def Let_def)
qed

lemma scan_connstraddr_prefix:
  "scan_connstraddr (show_nat 16 (unat a) @ CHR '':'' # t) d = scan_connstr t (d\<lparr>conn_addr := a\<rparr>)"
proof -
  let ?hex = "show_nat 16 (unat a)" and ?tl = "CHR '':'' # t"
  have "peek ?hex \<noteq> CHR '' ''"
    using is_hex_not_space [of "hd ?hex"] hd_show_nat [of 16]
    by (auto simp: is_hex_def is_space_def peek_hd)
  then have blanks: "skip_blanks (?hex @ ?tl) = ?hex @ ?tl"
    by (intro skip_blanks_stop) simp
  have "takeWhile hex_table (?hex @ ?tl) = ?hex"
    using show_nat_hex hex_digit_table by (intro takeWhile_append_stop) (auto simp: table_defs)
  then have "scan_table hex_table (?hex @ ?tl) = (int (length ?hex), ?tl, ?hex @ ?tl)"
    by (simp add: scan_table_def scan_body_def blanks)
  moreover have "sscanf_llx (?hex @ ?tl) = Some a"
    by (rule sscanf_llx_show_nat) (simp_all add: is_hex_def digit_val_def)
  ultimately show ?thesis using blanks by (simp add: scan_connstraddr_def Let_def)
qed

lemma scan_connstraddr_show:
  assumes "good_conn id_table c"
  shows "scan_connstraddr (show_connaddr c @ rest) d =
     (True, after_comma rest,
      d\<lparr>conn_addr := conn_addr c, conn_name := conn_name c, conn_index := conn_index c\<rparr>)"
  using scan_connstr_show [OF assms] by (simp add: show_connaddr_def scan_connstraddr_prefix)

text \<open>C29: Round trip: a connector printed as \<^verbatim>\<open>addr:name[index]\<close> (address in hexadecimal) is read back
  by \<^verbatim>\<open>scan_connstraddr\<close> with the same address, name and index, and one following comma is consumed.\<close>

theorem scan_connstraddr_roundtrip:
  assumes "good_conn id_table c"
  shows "scan_connstraddr (show_connaddr c @ rest) d =
     (True, after_comma rest,
      d\<lparr>conn_addr := conn_addr c, conn_name := conn_name c, conn_index := conn_index c\<rparr>)"
  by (rule scan_connstraddr_show [OF assms])

theorem scan_connstraddr_roundtrip_witness:
  "scan_connstraddr ''1f0:inp[-3],2:b'' \<lparr>conn_addr = 0, conn_index = 0, conn_name = []\<rparr> =
     (True, ''2:b'', \<lparr>conn_addr = 496, conn_index = - 3, conn_name = ''inp''\<rparr>)"
proof -
  let ?c = "\<lparr>conn_addr = 496, conn_index = - 3, conn_name = ''inp''\<rparr>"
  have good: "good_conn id_table ?c" by (simp add: good_conn_def table_defs)
  have "show_connaddr ?c = ''1f0:inp[-3]''"
    by (simp add: show_connaddr_def show_conn_def show_int_def show_nat_def digits.simps)
  with scan_connstraddr_roundtrip [OF good, of "'',2:b''"] show ?thesis
    by (simp add: after_comma_def)
qed

text \<open>A connector name that does not fit into \<^verbatim>\<open>conn_name\<close> (eight bytes with the NUL) is not
  reported: \<^verbatim>\<open>scan_connstr\<close> returns TRUE, keeps the old name, sets the index to zero and does not
  advance over the name.\<close>

theorem scan_connstr_long_name:
  assumes "8 \<le> length (takeWhile id_table (skip_blanks str))"
  shows "scan_connstr str conn = (True, skip_blanks str, conn\<lparr>conn_index := 0\<rparr>)"
proof -
  let ?s = "skip_blanks str"
  have "?s \<noteq> []" and "id_table (hd ?s)"
    using assms by (cases ?s; auto split: if_splits)+
  with id_table_plain [of "hd ?s"] have "peek ?s \<noteq> CHR ''[''" "peek ?s \<noteq> CHR '',''" "?s \<noteq> []"
    by (simp_all add: peek_hd)
  then show ?thesis
    using assms
    by (simp add: scan_connstr_def scan_table_copy_def scan_body2_def sizeof_sname_def Let_def)
qed

theorem scan_connstr_long_name_witness:
  "scan_connstr ''controller[2]'' \<lparr>conn_addr = 7, conn_index = 5, conn_name = ''old''\<rparr> =
     (True, ''controller[2]'', \<lparr>conn_addr = 7, conn_index = 0, conn_name = ''old''\<rparr>)"
proof -
  have "8 \<le> length (takeWhile id_table (skip_blanks ''controller[2]''))"
    by (simp add: table_defs)
  from scan_connstr_long_name [OF this] show ?thesis by simp
qed

section \<open>The deprecated parsers on printed texts\<close>

lemma parse_connstr_show:
  assumes "good_conn lower_table c"
  shows "parse_connstr (show_conn c @ rest) d =
     Some (rest, d\<lparr>conn_name := conn_name c, conn_index := conn_index c\<rparr>)"
proof -
  let ?tl = "CHR ''['' # show_int (conn_index c) @ CHR '']'' # rest"
  have "takeWhile lower_table (conn_name c @ ?tl) = conn_name c"
    using assms by (intro takeWhile_append_stop) (auto simp: good_conn_def table_defs)
  then show ?thesis
    using assms
    by (simp add: parse_connstr_def show_conn_def copy_str_def sizeof_sname_def good_conn_def
        sscanf_index skip_past_index Let_def)
qed

text \<open>The deprecated \<^verbatim>\<open>parse_elem\<close> agrees with \<^verbatim>\<open>scan_connstraddr\<close> on every printed connector whose
  name consists of lower case letters and underscores: the same connector is stored, and its
  result is the number of characters up to the next element.\<close>

theorem parse_elem_agrees:
  assumes "good_conn lower_table c"
  shows "parse_elem (show_connaddr c @ rest) d =
     Some (int (length (show_connaddr c @ rest)) - int (length (skip_blanks (after_comma rest))),
           snd (snd (scan_connstraddr (show_connaddr c @ rest) d)))"
proof -
  let ?hex = "show_nat 16 (unat (conn_addr c))" and ?tl = "CHR '':'' # show_conn c @ rest"
  have id: "good_conn id_table c" using assms lower_id_table by (auto simp: good_conn_def)
  have ne: "show_conn c @ rest \<noteq> []" by (simp add: show_conn_def)
  have hd: "peek ?hex \<noteq> CHR '' ''"
    using is_hex_not_space [of "hd ?hex"] hd_show_nat [of 16]
    by (auto simp: is_hex_def is_space_def peek_hd)
  then have blanks: "skip_blanks (?hex @ ?tl) = ?hex @ ?tl"
    by (intro skip_blanks_stop) simp
  have x: "sscanf_llx (?hex @ ?tl) = Some (conn_addr c)"
    by (rule sscanf_llx_show_nat) (simp_all add: is_hex_def digit_val_def)
  have "skip_past CHR '':'' (?hex @ ?tl) = show_conn c @ rest"
    by (rule skip_past_append) (auto dest!: show_nat_hex simp: is_hex_def digit_val_def)
  then have elem: "parse_elem (show_connaddr c @ rest) d =
      Some (int (length (show_connaddr c @ rest)) - int (length (skip_blanks (after_comma rest))),
        d\<lparr>conn_addr := conn_addr c, conn_name := conn_name c, conn_index := conn_index c\<rparr>)"
    using blanks x ne parse_connstr_show [OF assms]
    by (simp add: parse_elem_def show_connaddr_def after_comma_def Let_def)
  have "takeWhile hex_table (?hex @ ?tl) = ?hex"
    using show_nat_hex hex_digit_table by (intro takeWhile_append_stop) (auto simp: table_defs)
  then show ?thesis
    using elem blanks x scan_connstr_show [OF id]
    by (simp add: scan_connstraddr_def show_connaddr_def scan_table_def scan_body_def Let_def)
qed

theorem parse_elem_agrees_witness:
  "parse_elem ''1f0:inp[3], 2:b'' \<lparr>conn_addr = 0, conn_index = 0, conn_name = []\<rparr> =
     Some (12, \<lparr>conn_addr = 496, conn_index = 3, conn_name = ''inp''\<rparr>)"
proof -
  let ?c = "\<lparr>conn_addr = 496, conn_index = 3, conn_name = ''inp''\<rparr>"
  have good: "good_conn lower_table ?c" and id: "good_conn id_table ?c"
    by (simp_all add: good_conn_def table_defs)
  have printed: "show_connaddr ?c = ''1f0:inp[3]''"
    by (simp add: show_connaddr_def show_conn_def show_int_def show_nat_def digits.simps)
  have "scan_connstraddr (''1f0:inp[3]'' @ '', 2:b'') \<lparr>conn_addr = 0, conn_index = 0, conn_name = []\<rparr> =
      (True, '' 2:b'', ?c)"
    using scan_connstr_show [OF id, of "'', 2:b''"]
    by (simp add: scan_connstraddr_def scan_table_def scan_body_def table_defs sscanf_llx_def
        scan_sign_def is_space_def is_hex_def digit_val_def num_val_def show_conn_def show_int_def
        show_nat_def digits.simps after_comma_def Let_def)
  with parse_elem_agrees [OF good, of "'', 2:b''" "\<lparr>conn_addr = 0, conn_index = 0, conn_name = []\<rparr>"]
  show ?thesis by (simp add: printed after_comma_def)
qed

lemma peek_drop_in_set: "peek (drop n s) \<in> set s \<union> {NUL}"
  by (metis UnI1 UnI2 hd_in_set in_set_dropD insertI1 peek.simps(1) peek_hd)

lemma scan_single_here:
  assumes "take n s = take n k" "s \<noteq> []" "peek s \<noteq> CHR '' ''"
  shows "scan_single k n s = Some (skip_blanks (drop n s))"
  using assms skip_blanks_stop [of s] by (subst scan_single.simps) (simp add: strncmp_eq_def Let_def)

lemma copy_str_line: "0 < m \<Longrightarrow> copy_str m s 0 (int n) = Some (take (min n (nat (m - 1))) s)"
  by (simp add: copy_str_def Let_def min_def nat_diff_distrib) (auto simp: nat_le_iff)

lemma take_line_len: "take (line_len s) s = takeWhile (\<lambda>c. c \<noteq> NL) s"
  unfolding line_len_def by (metis append_eq_conv_conj takeWhile_dropWhile_id)

text \<open>On a line \<^verbatim>\<open>brick:=name\<close> (or \<^verbatim>\<open>brick/=name\<close>) \<^verbatim>\<open>parse_brick\<close> reports the operator, copies the
  rest of the line into the result buffer cut to its size with the NUL, and returns the offset of
  the end of that line.\<close>

theorem parse_brick_line:
  assumes "opc = CHR '':'' \<or> opc = CHR ''/''" "nm \<noteq> []" "NL \<notin> set nm" "hd nm \<noteq> CHR '' ''"
    "rest = [] \<or> hd rest = NL" "0 < len_name"
  shows "parse_brick (''brick'' @ opc # CHR ''='' # nm @ rest) len_name out =
     Some (int (7 + length nm), \<lparr>br_op = opc, br_name = take (nat (len_name - 1)) nm\<rparr>)"
proof -
  let ?f = "nm @ rest"
  have single: "scan_single ''brick'' 5 (''brick'' @ opc # CHR ''='' # ?f) = Some (opc # CHR ''='' # ?f)"
    using assms(1) by (subst scan_single_here) (auto simp: skip_blanks_stop)
  have opchar: "scan_op_char (opc # CHR ''='' # ?f) = Some (opc, ?f)"
    using assms by (auto simp: scan_op_char_def peek_hd intro!: skip_blanks_stop)
  have "takeWhile (\<lambda>c. c \<noteq> NL) ?f = nm"
    using assms(3,5) by (intro takeWhile_append_stop) auto
  then have len: "line_len ?f = length nm" by (simp add: line_len_def)
  have "copy_str len_name ?f 0 (int (line_len ?f)) = Some (take (nat (len_name - 1)) nm)"
    using assms(6) by (simp add: copy_str_line len min_def)
  then show ?thesis using assms(2) single opchar len by (simp add: parse_brick_def)
qed

theorem parse_brick_line_witness:
  "parse_brick (''brick:=device_file'' @ [NL]) 8 \<lparr>br_op = NUL, br_name = []\<rparr> =
     Some (18, \<lparr>br_op = CHR '':'', br_name = ''device_''\<rparr>)"
  using parse_brick_line [of "CHR '':''" "''device_file''" "[NL]" 8 "\<lparr>br_op = NUL, br_name = []\<rparr>"]
  by simp

text \<open>\<^verbatim>\<open>parse_connector\<close> never sees an index: it tests \<^verbatim>\<open>found[pos]\<close> after \<^verbatim>\<open>found\<close> has already been
  advanced by \<^verbatim>\<open>pos\<close>.  For \<^verbatim>\<open>connect name[i]:=target\<close> the index is reported as 0, the bracket is taken
  for the operator (so \<^verbatim>\<open>:=\<close> is not recognized) and the index and the operator end up in the text of
  the other side.\<close>

theorem parse_connector_ignores_index:
  assumes "nm \<noteq> []" "\<forall>c \<in> set nm. lower_table c" "int (length nm) < len_name"
    and "ds \<noteq> []" "\<forall>c \<in> set ds. is_dec c" "CHR ''['' \<notin> set rest"
    and "length nm \<le> length ds + length rest" "0 < len_other"
  shows "\<exists>r. parse_connector (''connect '' @ nm @ CHR ''['' # ds @ CHR '']'' # rest) len_name len_other out =
     Some (r, \<lparr>co_name = nm, co_index = 0, co_op = NUL,
       co_other = take (nat (len_other - 1)) (takeWhile (\<lambda>c. c \<noteq> NL) (ds @ CHR '']'' # rest)),
       co_len = int (line_len (ds @ CHR '']'' # rest))\<rparr>)"
proof -
  let ?f = "ds @ CHR '']'' # rest" and ?g = "CHR ''['' # ds @ CHR '']'' # rest"
  have "id_table (hd nm)" using assms(1,2) lower_id_table by auto
  then have hd: "skip_blanks (nm @ ?g) = nm @ ?g"
    using id_table_plain [of "hd nm"] assms(1) by (intro skip_blanks_stop) (auto simp: peek_hd)
  have single: "scan_single ''connect'' 7 (''connect '' @ nm @ ?g) = Some (nm @ ?g)"
    using hd by (subst scan_single_here) auto
  have pos: "takeWhile lower_table (nm @ ?g) = nm"
    using assms(2) by (intro takeWhile_append_stop) (auto simp: table_defs)
  obtain c where c: "char_at ?g (length nm) = Some c" "c \<noteq> CHR ''[''"
  proof -
    have "peek (drop (length nm) ?g) \<in> set ?f \<union> {NUL}"
      using assms(1) peek_drop_in_set [of "length nm - 1" ?f] by (cases nm) auto
    moreover have "CHR ''['' \<notin> set ?f" using assms(5,6) by (auto simp: is_dec_def digit_val_def)
    ultimately have "peek (drop (length nm) ?g) \<noteq> CHR ''[''" by (cases "peek (drop (length nm) ?g) = CHR ''[''") auto
    then show thesis using assms(7) that by (simp add: char_at_def)
  qed
  have "is_dec (hd ds)" using assms(4,5) by simp
  then have "hd ds \<noteq> CHR ''=''" "hd ds \<noteq> CHR '' ''" by (auto simp: is_dec_def digit_val_def)
  then have opchar: "scan_op_char ?g = Some (NUL, ?f)"
    using assms(4) by (auto simp: scan_op_char_def peek_hd intro!: skip_blanks_stop)
  have other: "copy_str len_other ?f 0 (int (line_len ?f)) =
      Some (take (nat (len_other - 1)) (takeWhile (\<lambda>c. c \<noteq> NL) ?f))"
    using assms(8) by (simp only: copy_str_line take_line_len [symmetric] take_take min.commute)
  have "copy_str len_name (nm @ ?g) 0 (int (length nm)) = Some nm"
    using assms(3) by (simp add: copy_str_def)
  then show ?thesis
    using single pos c opchar other by (simp add: parse_connector_def Let_def)
qed

theorem parse_connector_ignores_index_witness:
  "\<exists>r. parse_connector ''connect in[3]:=10:out'' 24 32
        \<lparr>co_name = [], co_index = 0, co_op = NUL, co_other = [], co_len = 0\<rparr> =
     Some (r, \<lparr>co_name = ''in'', co_index = 0, co_op = NUL, co_other = ''3]:=10:out'', co_len = 10\<rparr>)"
  using parse_connector_ignores_index [of "''in''" 24 "''3''" "'':=10:out''" 32
      "\<lparr>co_name = [], co_index = 0, co_op = NUL, co_other = [], co_len = 0\<rparr>"]
  by (simp add: table_defs is_dec_def digit_val_def line_len_def)

end
