(* ===== verification/Bin_Strat.thy ===== *)
theory Bin_Strat
  imports Strat_Scan
begin

text \<open>
  The conversion of strategy texts into linked binary records (\<^verbatim>\<open>src/trunk/src/binstrat.c\<close>,
  \<^verbatim>\<open>src/trunk/src/binstrat.h\<close>).

  The buffer that receives the records is an explicit store: a partial map from addresses to the
  value stored there.  A string occupies one cell per byte, a record one cell per field, at the
  field offsets of the i386 layout.  Every routine returns the store it leaves, also when it
  fails (partial writes stay), and on success the new \<^verbatim>\<open>*textbuf\<close>, \<^verbatim>\<open>*binbuf\<close> and \<^verbatim>\<open>*binbuf_size\<close>;
  on failure the caller's three variables are unchanged.  Sizes are 32 bit words and wrap.
\<close>

section \<open>The store and the records\<close>

datatype bval = B_char char | B_ptr nat | B_addr u64 | B_flags u16

type_synonym mem = "nat \<Rightarrow> bval option"
type_synonym cursor = "string \<times> nat \<times> u32"

datatype strat_action_t =
  STRAT_READ | STRAT_CREATE | STRAT_DESTROY | STRAT_INIT | STRAT_SHUTDOWN | STRAT_REINIT

fun action_code :: "strat_action_t \<Rightarrow> u16" where
  "action_code STRAT_READ = 0"
| "action_code STRAT_CREATE = 1"
| "action_code STRAT_DESTROY = 2"
| "action_code STRAT_INIT = 3"
| "action_code STRAT_SHUTDOWN = 4"
| "action_code STRAT_REINIT = 5"

text \<open>\<^verbatim>\<open>struct attr_rec\<close>\<close>

abbreviation (input) "attr_next a \<equiv> (a :: nat)"
abbreviation (input) "attr_name a \<equiv> (a :: nat) + 4"
abbreviation (input) "attr_value a \<equiv> (a :: nat) + 8"

definition sizeof_attr :: nat where "sizeof_attr = 12"

text \<open>\<^verbatim>\<open>struct conn_target_rec\<close>\<close>

abbreviation (input) "target_next a \<equiv> (a :: nat)"
abbreviation (input) "target_addr a \<equiv> (a :: nat) + 4"
abbreviation (input) "target_name a \<equiv> (a :: nat) + 12"

definition sizeof_target :: nat where "sizeof_target = 16"

text \<open>\<^verbatim>\<open>struct conn_rec\<close>\<close>

abbreviation (input) "conn_next a \<equiv> (a :: nat)"
abbreviation (input) "conn_flags a \<equiv> (a :: nat) + 4"
abbreviation (input) "conn_nm a \<equiv> (a :: nat) + 8"
abbreviation (input) "conn_attr a \<equiv> (a :: nat) + 12"
abbreviation (input) "conn_target a \<equiv> (a :: nat) + 16"

definition sizeof_conn :: nat where "sizeof_conn = 20"

text \<open>\<^verbatim>\<open>struct brick_rec\<close>\<close>

abbreviation (input) "brick_flags a \<equiv> (a :: nat)"
abbreviation (input) "brick_nm a \<equiv> (a :: nat) + 4"
abbreviation (input) "brick_attr a \<equiv> (a :: nat) + 8"
abbreviation (input) "brick_conn a \<equiv> (a :: nat) + 12"

definition sizeof_brick :: nat where "sizeof_brick = 16"

text \<open>The masks of \<^verbatim>\<open>binstrat.c\<close> and the access macros of \<^verbatim>\<open>binstrat.h\<close>.\<close>

definition MASK_BRICK_ACTIVE :: u16 where "MASK_BRICK_ACTIVE = 0x08"
definition MASK_CONN_TYPE :: u16 where "MASK_CONN_TYPE = 0x08"
definition MASK_CONN_ACTIVE :: u16 where "MASK_CONN_ACTIVE = 0x10"

definition GET_BRICK_ACTION :: "u16 \<Rightarrow> u16" where "GET_BRICK_ACTION f = f AND 0x07"
definition IS_BRICK_ACTIVE :: "u16 \<Rightarrow> bool" where "IS_BRICK_ACTIVE f \<longleftrightarrow> f AND 0x08 \<noteq> 0"
definition GET_CONN_ACTION :: "u16 \<Rightarrow> u16" where "GET_CONN_ACTION f = f AND 0x07"
definition GET_CONN_TYPE :: "u16 \<Rightarrow> u16" where "GET_CONN_TYPE f = drop_bit 3 (f AND 0x08)"
definition GET_CONN_TARGET_ACTION :: "u16 \<Rightarrow> u16" where
  "GET_CONN_TARGET_ACTION f = drop_bit 4 f AND 0x07"
definition IS_CONN_INPUT :: "u16 \<Rightarrow> bool" where "IS_CONN_INPUT f \<longleftrightarrow> f AND 0x08 = 0"
definition IS_CONN_OUTPUT :: "u16 \<Rightarrow> bool" where "IS_CONN_OUTPUT f \<longleftrightarrow> f AND 0x08 \<noteq> 0"
definition IS_CONN_ACTIVE :: "u16 \<Rightarrow> bool" where "IS_CONN_ACTIVE f \<longleftrightarrow> f AND 0x10 \<noteq> 0"

section \<open>Skipping\<close>

definition skip_whitespace :: "string \<Rightarrow> string" where
  "skip_whitespace s = dropWhile ws_table s"

definition skip_end_of_line :: "string \<Rightarrow> string option" where
  "skip_end_of_line s = (let s = dropWhile bl_table s in if peek s = NL then Some s else None)"

definition skip_rest_of_line :: "string \<Rightarrow> string" where
  "skip_rest_of_line s = (let s = dropWhile (\<lambda>c. c \<noteq> NL) s in if s \<noteq> [] then tl s else s)"

text \<open>\<^verbatim>\<open>convert_op\<close>; the table \<^verbatim>\<open>actionsub\<close> holds the difference of the character and its action.\<close>

definition op_action :: "char \<Rightarrow> strat_action_t option" where
  "op_action c =
     (if c = CHR ''='' then Some STRAT_READ else if c = CHR '':'' then Some STRAT_CREATE
      else if c = CHR ''/'' then Some STRAT_DESTROY else if c = CHR ''+'' then Some STRAT_INIT
      else if c = CHR ''-'' then Some STRAT_SHUTDOWN else if c = CHR ''^'' then Some STRAT_REINIT
      else None)"

definition convert_op :: "string \<Rightarrow> (strat_action_t \<times> string) option" where
  "convert_op s =
     (case op_action (peek s) of
        None \<Rightarrow> None
      | Some a \<Rightarrow>
          let s = tl s in
          if peek s = CHR ''='' then Some (a, tl s)
          else if a \<noteq> STRAT_READ then None
          else Some (a, s))"

fun skip_str :: "string \<Rightarrow> string \<Rightarrow> string option" where
  "skip_str s [] = Some s"
| "skip_str s (p # ps) =
     (if p = CHR '' '' then skip_str (skip_whitespace s) ps
      else if p = peek s then skip_str (tl s) ps
      else None)"

fun match_word :: "string \<Rightarrow> string \<Rightarrow> string \<times> string" where
  "match_word (c # s) (m # ms) = (if id_table c \<and> c = m then match_word s ms else (c # s, m # ms))"
| "match_word s ms = (s, ms)"

definition skip_word :: "string \<Rightarrow> string option \<Rightarrow> string option" where
  "skip_word s match_str =
     (case match_str of
        Some ms \<Rightarrow>
          let (s, ms) = match_word s ms in
          if id_table (peek s) \<or> ms \<noteq> [] then None else Some s
      | None \<Rightarrow> if \<not> id_table (peek s) then None else Some (dropWhile id_table s))"

section \<open>Converting words, strings and addresses\<close>

fun word_loop :: "mem \<Rightarrow> string \<Rightarrow> nat \<Rightarrow> u32 \<Rightarrow> mem \<times> cursor option" where
  "word_loop m [] bin bin_size = (m, Some ([], bin, bin_size))"
| "word_loop m (c # s) bin bin_size =
     (if id_table c then
        (if bin_size = 0 then (m, None)
         else word_loop (m(bin \<mapsto> B_char c)) s (bin + 1) (bin_size - 1))
      else (m, Some (c # s, bin, bin_size)))"

definition convert_word :: "mem \<Rightarrow> string \<Rightarrow> nat \<Rightarrow> u32 \<Rightarrow> mem \<times> cursor option" where
  "convert_word m s bin bin_size =
     (if \<not> id_table (peek s) then (m, None)
      else case word_loop m s bin bin_size of
        (m, None) \<Rightarrow> (m, None)
      | (m, Some (s, bin, bin_size)) \<Rightarrow>
          if bin_size = 0 then (m, None)
          else (m(bin \<mapsto> B_char NUL), Some (s, bin + 1, bin_size - 1)))"

text \<open>The characters with \<^verbatim>\<open>c > ' '\<close>.\<close>

definition printable :: "char \<Rightarrow> bool" where
  "printable c \<longleftrightarrow> 32 < chr_nat c \<and> chr_nat c < 128"

fun convert_string :: "mem \<Rightarrow> string \<Rightarrow> nat \<Rightarrow> u32 \<Rightarrow> mem \<times> cursor option" where
  "convert_string m [] bin bin_size = (m(bin \<mapsto> B_char NUL), Some ([], bin + 1, bin_size - 1))"
| "convert_string m (c # s) bin bin_size =
     (if printable c then
        (if bin_size \<le> 1 then (m, None)
         else convert_string (m(bin \<mapsto> B_char c)) s (bin + 1) (bin_size - 1))
      else (m(bin \<mapsto> B_char NUL), Some (c # s, bin + 1, bin_size - 1)))"

lemma word_loop_shortens: "word_loop m s b n = (m', Some (s', b', n')) \<Longrightarrow> s' = dropWhile id_table s"
  by (induction m s b n arbitrary: rule: word_loop.induct) (auto split: if_splits)

lemma convert_word_rest:
  "convert_word m s b n = (m', Some (s', b', n')) \<Longrightarrow> id_table (peek s) \<and> s' = dropWhile id_table s"
  by (auto simp: convert_word_def dest: word_loop_shortens split: if_splits prod.splits option.splits)

text \<open>The loop of \<^verbatim>\<open>convert_composed_identifier\<close>, which restarts at the caller's buffer for each word.\<close>

function composed_loop :: "mem \<Rightarrow> string \<Rightarrow> nat \<Rightarrow> u32 \<Rightarrow> mem \<times> cursor option" where
  "composed_loop m s bin bin_size =
     (case convert_word m s bin bin_size of
        (m, None) \<Rightarrow> (m, None)
      | (m, Some (s', bin', bin_size')) \<Rightarrow>
          if peek s' = CHR ''.'' then composed_loop m (tl s') bin bin_size
          else (m, Some (s', bin', bin_size')))"
  by pat_completeness auto

lemma not_id_NUL [simp]: "\<not> id_table NUL"
  by (simp add: table_defs)

lemma length_tl_dropWhile: "id_table (peek s) \<Longrightarrow> length (tl (dropWhile id_table s)) < length s"
  using length_dropWhile_peek [of id_table s] by (simp add: not_id_NUL)

termination composed_loop
  by (relation "measure (\<lambda>(m, s, b, n). length s)")
     (auto dest!: convert_word_rest [OF sym] simp del: length_tl simp: length_tl_dropWhile)

declare composed_loop.simps [simp del]

definition convert_composed_identifier :: "mem \<Rightarrow> string \<Rightarrow> nat \<Rightarrow> u32 \<Rightarrow> mem \<times> cursor option" where
  "convert_composed_identifier m s bin bin_size = composed_loop m s bin bin_size"

text \<open>\<^verbatim>\<open>convert_logaddr\<close>: the value left in \<^verbatim>\<open>*laddr\<close> and, on success, the new text.\<close>

fun logaddr_loop :: "u64 \<Rightarrow> string \<Rightarrow> u64 \<times> string option" where
  "logaddr_loop a [] = (a, Some [])"
| "logaddr_loop a (c # s) =
     (if is_hex c then
        (if 2 ^ 63 \<le> a then (a, None) else logaddr_loop (a * 16 + of_nat (digit_val c)) s)
      else (a, Some (c # s)))"

definition convert_logaddr :: "string \<Rightarrow> u64 \<times> string option" where
  "convert_logaddr s =
     (let s = (if peek s = CHR ''0'' \<and> (peek (tl s) = CHR ''x'' \<or> peek (tl s) = CHR ''X'')
               then drop 2 s else s) in
      if \<not> is_hex (peek s) then (0, None) else logaddr_loop 0 s)"

section \<open>Converting records\<close>

definition convert_attr :: "mem \<Rightarrow> string \<Rightarrow> nat \<Rightarrow> u32 \<Rightarrow> mem \<times> cursor option" where
  "convert_attr m s attr bin_size =
     (let bin = attr + sizeof_attr in
      case skip_word (skip_whitespace s) (Some ''attr'') of
        None \<Rightarrow> (m, None)
      | Some s \<Rightarrow>
     (let s = skip_whitespace s; m = m(attr_name attr \<mapsto> B_ptr bin) in
      case convert_composed_identifier m s bin bin_size of
        (m, None) \<Rightarrow> (m, None)
      | (m, Some (s, bin, bin_size)) \<Rightarrow>
     (case convert_op s of
        None \<Rightarrow> (m, None)
      | Some (_, s) \<Rightarrow>
     (let m = m(attr_value attr \<mapsto> B_ptr bin) in
      case convert_string m s bin bin_size of
        (m, None) \<Rightarrow> (m, None)
      | (m, Some (s, bin, bin_size)) \<Rightarrow>
     (case skip_end_of_line s of
        None \<Rightarrow> (m, None)
      | Some s \<Rightarrow> (m(attr_next attr \<mapsto> B_ptr bin), Some (s, bin, bin_size)))))))"

definition convert_conn_target :: "mem \<Rightarrow> string \<Rightarrow> nat \<Rightarrow> u32 \<Rightarrow> mem \<times> cursor option" where
  "convert_conn_target m s target bin_size =
     (let bin = target + sizeof_target; (a, r) = convert_logaddr s;
          m = m(target_addr target \<mapsto> B_addr a) in
      case r of
        None \<Rightarrow> (m, None)
      | Some s \<Rightarrow>
          if peek s \<noteq> CHR '':'' then (m, None)
          else
            let s = tl s; m = m(target_name target \<mapsto> B_ptr bin) in
            case convert_word m s bin bin_size of
              (m, None) \<Rightarrow> (m, None)
            | (m, Some (s, bin, bin_size)) \<Rightarrow>
                (m(target_next target \<mapsto> B_ptr bin), Some (s, bin, bin_size)))"

section \<open>Scanned text is consumed\<close>

lemma skip_whitespace_len [scan_len]: "length (skip_whitespace s) \<le> length s"
  by (simp add: skip_whitespace_def)

lemma match_word_split: "match_word s ms = (s', ms') \<Longrightarrow> \<exists>p. s = p @ s' \<and> ms = p @ ms'"
proof (induction s ms rule: match_word.induct)
  case (1 c s m ms)
  show ?case
  proof (cases "id_table c \<and> c = m")
    case True
    then obtain p where "s = p @ s'" "ms = p @ ms'" using 1 by auto
    with True show ?thesis by (intro exI [of _ "c # p"]) simp
  qed (use 1 in auto)
qed auto

lemma skip_word_Some: "skip_word s (Some ms) = Some s' \<Longrightarrow> s = ms @ s' \<and> \<not> id_table (peek s')"
  using match_word_split [of s ms] by (fastforce simp: skip_word_def split: prod.splits if_splits)

lemma convert_op_len [scan_len]: "convert_op s = Some (a, s') \<Longrightarrow> length s' < length s"
  by (cases s; cases "tl s") (auto simp: convert_op_def op_action_def Let_def split: if_splits)

lemma convert_string_rest:
  "convert_string m s b n = (m', Some (s', b', n')) \<Longrightarrow> s' = dropWhile printable s"
  by (induction m s b n rule: convert_string.induct) (auto split: if_splits)

lemma skip_end_of_line_rest: "skip_end_of_line s = Some s' \<Longrightarrow> s' = dropWhile bl_table s \<and> peek s' = NL"
  by (auto simp: skip_end_of_line_def Let_def split: if_splits)

lemma composed_loop_len:
  "composed_loop m s b n = (m', Some (s', b', n')) \<Longrightarrow> length s' < length s"
proof (induction m s b n rule: composed_loop.induct)
  case (1 m s b n)
  obtain m1 r where w: "convert_word m s b n = (m1, r)" by fastforce
  with "1.prems" obtain s1 b1 n1 where r: "r = Some (s1, b1, n1)"
    by (subst (asm) composed_loop.simps) (auto split: option.splits)
  from convert_word_rest [of m s b n] w r have s1: "id_table (peek s)" "s1 = dropWhile id_table s" by auto
  then have len: "length (tl s1) < length s" "length s1 < length s"
    using length_tl_dropWhile [of s] length_dropWhile_peek [of id_table s] by simp_all
  show ?case
  proof (cases "peek s1 = CHR ''.''")
    case True
    with "1.prems" w r have "composed_loop m1 (tl s1) b n = (m', Some (s', b', n'))"
      by (subst (asm) composed_loop.simps) simp
    from "1.IH" [OF w [symmetric] r refl refl True this] len show ?thesis by simp
  next
    case False
    with "1.prems" w r len show ?thesis by (subst (asm) composed_loop.simps) simp
  qed
qed

lemma convert_attr_len: "convert_attr m s b n = (m', Some (s', b', n')) \<Longrightarrow> length s' < length s"
proof -
  assume a: "convert_attr m s b n = (m', Some (s', b', n'))"
  then obtain s1 s2 m2 b2 n2 s3 act m4 s4 b4 n4 where
    1: "skip_word (skip_whitespace s) (Some ''attr'') = Some s1"
    and 2: "convert_composed_identifier (m(attr_name b \<mapsto> B_ptr (b + sizeof_attr)))
       (skip_whitespace s1) (b + sizeof_attr) n = (m2, Some (s2, b2, n2))"
    and 3: "convert_op s2 = Some (act, s3)"
    and 4: "convert_string (m2(attr_value b \<mapsto> B_ptr b2)) s3 b2 n2 = (m4, Some (s4, b4, n4))"
    and 5: "skip_end_of_line s4 = Some s'"
    by (auto simp: convert_attr_def Let_def split: option.splits prod.splits)
  have "length s' \<le> length s3"
    using skip_end_of_line_rest [OF 5] convert_string_rest [OF 4]
    by (metis dropWhile_length le_trans)
  also have "length s3 < length s2" by (rule convert_op_len [OF 3])
  also have "length s2 < length (skip_whitespace s1)"
    using composed_loop_len 2 unfolding convert_composed_identifier_def by blast
  also have "\<dots> \<le> length s1" by (rule skip_whitespace_len)
  also have "length s1 \<le> length s"
    using skip_word_Some [OF 1] skip_whitespace_len [of s] by simp
  finally show ?thesis .
qed

lemma logaddr_loop_rest: "logaddr_loop a s = (a', Some s') \<Longrightarrow> s' = dropWhile is_hex s"
  by (induction a s rule: logaddr_loop.induct) (auto split: if_splits)

lemma convert_logaddr_len: "convert_logaddr s = (a, Some s') \<Longrightarrow> length s' < length s"
proof -
  assume a: "convert_logaddr s = (a, Some s')"
  define t where "t = (if peek s = CHR ''0'' \<and> (peek (tl s) = CHR ''x'' \<or> peek (tl s) = CHR ''X'')
               then drop 2 s else s)"
  have "is_hex (peek t)" "logaddr_loop 0 t = (a, Some s')"
    using a by (auto simp: convert_logaddr_def t_def Let_def split: if_splits)
  then have "s' = dropWhile is_hex t" "t \<noteq> []"
    using logaddr_loop_rest by (auto simp: is_hex_def digit_val_def)
  then have "length s' < length t"
    using \<open>is_hex (peek t)\<close> length_dropWhile_peek [of is_hex t] by (simp add: is_hex_def digit_val_def)
  also have "\<dots> \<le> length s" by (simp add: t_def)
  finally show ?thesis .
qed

lemma convert_conn_target_len:
  "convert_conn_target m s b n = (m', Some (s', b', n')) \<Longrightarrow> length s' < length s"
proof -
  assume a: "convert_conn_target m s b n = (m', Some (s', b', n'))"
  then obtain a s1 m2 where 1: "convert_logaddr s = (a, Some s1)"
    and 2: "convert_word (m(target_addr b \<mapsto> B_addr a, target_name b \<mapsto> B_ptr (b + sizeof_target)))
      (tl s1) (b + sizeof_target) n = (m2, Some (s', b', n'))"
    by (auto simp: convert_conn_target_def Let_def split: option.splits prod.splits if_splits)
  have "length s' \<le> length (tl s1)"
    using convert_word_rest [OF 2] by (metis dropWhile_length)
  also have "\<dots> \<le> length s1" by simp
  also have "\<dots> < length s" by (rule convert_logaddr_len [OF 1])
  finally show ?thesis .
qed

section \<open>Lists of records\<close>

text \<open>
  Lists of records are read by a loop over the converter \<open>conv\<close> of one record: the first record's
  address goes into a pointer \<open>field\<close> (null when there is none), each record points to the next one
  and the last one is terminated with a null pointer.  Attributes and connectors are both read
  this way; the laws of such a reader are stated once.
\<close>

locale record_list =
  fixes conv :: "mem \<Rightarrow> string \<Rightarrow> nat \<Rightarrow> u32 \<Rightarrow> mem \<times> cursor option"
    and loop :: "mem \<Rightarrow> string \<Rightarrow> nat \<Rightarrow> u32 \<Rightarrow> nat \<Rightarrow> mem \<times> cursor"
    and read_list :: "mem \<Rightarrow> string \<Rightarrow> nat \<Rightarrow> u32 \<Rightarrow> nat \<Rightarrow> mem \<times> cursor"
  assumes conv_len: "conv m s b n = (m', Some (s', b', n')) \<Longrightarrow> length s' < length s"
    and loop_eq: "loop m s b n a =
      (case conv m s b n of
         (m, Some (s', b', n')) \<Rightarrow> loop m s' b' n' b
       | (m, None) \<Rightarrow> (m(a \<mapsto> B_ptr 0), s, b, n))"
    and list_eq: "read_list m s b n f =
      (case conv (m(f \<mapsto> B_ptr b)) s b n of
         (m, Some (s', b', n')) \<Rightarrow> loop m s' b' n' b
       | (m, None) \<Rightarrow> (m(f \<mapsto> B_ptr 0), s, b, n))"
begin

lemma conv_cases:
  obtains m1 where "conv m s b n = (m1, None)"
    | m1 s1 b1 n1 where "conv m s b n = (m1, Some (s1, b1, n1))"
  by (cases "conv m s b n"; cases "snd (conv m s b n)") auto

lemma loop_len: "loop m s b n a = (m', s', b', n') \<Longrightarrow> length s' \<le> length s"
proof (induction "length s" arbitrary: m s b n a rule: less_induct)
  case less
  show ?case
  proof (cases rule: conv_cases [of m s b n])
    case (2 m1 s1 b1 n1)
    with less.prems have "loop m1 s1 b1 n1 b = (m', s', b', n')" by (subst (asm) loop_eq) simp
    from less.hyps [OF conv_len [OF 2] this] conv_len [OF 2] show ?thesis by simp
  qed (use less.prems in \<open>subst (asm) loop_eq, simp\<close>)
qed

lemma list_len: "read_list m s b n f = (m', s', b', n') \<Longrightarrow> length s' \<le> length s"
  using loop_len conv_len
  by (cases rule: conv_cases [of "m(f \<mapsto> B_ptr b)" s b n]) (fastforce simp: list_eq)+

end

text \<open>
  The loop that reads further attributes; \<open>attr\<close> is the last record linked, which the code
  terminates with a null pointer.  The same code stands in \<^verbatim>\<open>convert_conn\<close> and \<^verbatim>\<open>convert_brick\<close>;
  \<open>field\<close> is the pointer \<^verbatim>\<open>conn->attr\<close> or \<^verbatim>\<open>brick->attr\<close>.
\<close>

function attr_loop :: "mem \<Rightarrow> string \<Rightarrow> nat \<Rightarrow> u32 \<Rightarrow> nat \<Rightarrow> mem \<times> cursor" where
  "attr_loop m s bin bin_size attr =
     (case convert_attr m s bin bin_size of
        (m, Some (s', bin', bin_size')) \<Rightarrow> attr_loop m s' bin' bin_size' bin
      | (m, None) \<Rightarrow> (m(attr_next attr \<mapsto> B_ptr 0), s, bin, bin_size))"
  by pat_completeness auto

termination attr_loop
  by (relation "measure (\<lambda>(m, s, b, n, a). length s)") (auto dest: convert_attr_len [OF sym])

declare attr_loop.simps [simp del]

definition convert_attr_list :: "mem \<Rightarrow> string \<Rightarrow> nat \<Rightarrow> u32 \<Rightarrow> nat \<Rightarrow> mem \<times> cursor" where
  "convert_attr_list m s bin bin_size field =
     (let m = m(field \<mapsto> B_ptr bin) in
      case convert_attr m s bin bin_size of
        (m, Some (s', bin', bin_size')) \<Rightarrow> attr_loop m s' bin' bin_size' bin
      | (m, None) \<Rightarrow> (m(field \<mapsto> B_ptr 0), s, bin, bin_size))"

text \<open>The targets after the first; only outputs may have more than one.\<close>

function target_loop :: "bool \<Rightarrow> mem \<Rightarrow> string \<Rightarrow> nat \<Rightarrow> u32 \<Rightarrow> nat \<Rightarrow> mem \<times> cursor option" where
  "target_loop input m s bin bin_size target =
     (if peek s = CHR '','' then
        (if input then (m, None)
         else case convert_conn_target m (tl s) bin bin_size of
           (m, None) \<Rightarrow> (m, None)
         | (m, Some (s', bin', bin_size')) \<Rightarrow> target_loop input m s' bin' bin_size' bin)
      else (m(target_next target \<mapsto> B_ptr 0), Some (s, bin, bin_size)))"
  by pat_completeness auto

termination target_loop
  by (relation "measure (\<lambda>(i, m, s, b, n, a). length s)")
     (fastforce dest: convert_conn_target_len [OF sym])+

declare target_loop.simps [simp del]

definition convert_targets :: "bool \<Rightarrow> mem \<Rightarrow> string \<Rightarrow> nat \<Rightarrow> u32 \<Rightarrow> nat \<Rightarrow> mem \<times> cursor option" where
  "convert_targets input m s bin bin_size field =
     (let m = m(field \<mapsto> B_ptr bin) in
      case convert_conn_target m s bin bin_size of
        (m, Some (s', bin', bin_size')) \<Rightarrow> target_loop input m s' bin' bin_size' bin
      | (m, None) \<Rightarrow> (m(field \<mapsto> B_ptr 0), Some (s, bin, bin_size)))"

section \<open>Connectors and bricks\<close>

text \<open>
  The head of a connector: \<open>conn_open\<close> yields the flags left in the record and, on success, the
  text behind the operator.
\<close>

definition conn_open :: "string \<Rightarrow> u16 \<times> string option" where
  "conn_open s =
     (let s = skip_whitespace s;
          (fl, s) = (if peek s = CHR ''('' then (0, tl s) else (MASK_CONN_ACTIVE, s));
          (fl, r) = (case skip_word s (Some ''output'') of
                       Some s \<Rightarrow> (fl OR MASK_CONN_TYPE, Some s)
                     | None \<Rightarrow> (fl, skip_word s (Some ''input''))) in
      case r of
        None \<Rightarrow> (fl, None)
      | Some s \<Rightarrow>
          if \<not> IS_CONN_ACTIVE fl \<and> peek s \<noteq> CHR '')'' then (fl, None)
          else
            let s = (if \<not> IS_CONN_ACTIVE fl then tl s else s) in
            case convert_op (skip_whitespace s) of
              None \<Rightarrow> (fl, None)
            | Some (a, s) \<Rightarrow> (fl OR action_code a, Some s))"

text \<open>The \<^verbatim>\<open>connect\<close> line of a connector.\<close>

definition convert_connect :: "mem \<Rightarrow> string \<Rightarrow> nat \<Rightarrow> u32 \<Rightarrow> nat \<Rightarrow> u16 \<Rightarrow> mem \<times> cursor option" where
  "convert_connect m s bin bin_size conn fl =
     (case skip_word s (Some ''connect'') of
        None \<Rightarrow> (m, Some (s, bin, bin_size))
      | Some s \<Rightarrow>
         (case skip_word (skip_whitespace s) None of
            None \<Rightarrow> (m, None)
          | Some s \<Rightarrow>
             (case convert_op s of
                None \<Rightarrow> (m, None)
              | Some (a, s) \<Rightarrow>
                  let fl = fl OR push_bit 4 (action_code a);
                      m = m(conn_flags conn \<mapsto> B_flags fl) in
                  convert_targets (IS_CONN_INPUT fl) m (skip_whitespace s) bin bin_size
                    (conn_target conn))))"

text \<open>The text after the optional brace and parameter line of a connector.\<close>

definition conn_body :: "string \<Rightarrow> string" where
  "conn_body s =
     (let s = (case skip_str s '' { '' of None \<Rightarrow> s | Some s \<Rightarrow> s) in
      case skip_word s (Some ''c_param'') of None \<Rightarrow> s | Some s \<Rightarrow> skip_rest_of_line s)"

definition convert_conn :: "mem \<Rightarrow> string \<Rightarrow> nat \<Rightarrow> u32 \<Rightarrow> mem \<times> cursor option" where
  "convert_conn m s conn bin_size =
     (let bin = conn + sizeof_conn; bin_size = bin_size - of_nat sizeof_conn;
          (fl, r) = conn_open s; m = m(conn_flags conn \<mapsto> B_flags fl) in
      case r of
        None \<Rightarrow> (m, None)
      | Some s \<Rightarrow>
     (let m = m(conn_nm conn \<mapsto> B_ptr bin) in
      case convert_composed_identifier m s bin bin_size of
        (m, None) \<Rightarrow> (m, None)
      | (m, Some (s, bin, bin_size)) \<Rightarrow>
     (let (m, s, bin, bin_size) = convert_attr_list m (conn_body s) bin bin_size (conn_attr conn);
          s = skip_whitespace s; m = m(conn_target conn \<mapsto> B_ptr 0) in
      case convert_connect m s bin bin_size conn fl of
        (m, None) \<Rightarrow> (m, None)
      | (m, Some (s, bin, bin_size)) \<Rightarrow>
     (case skip_str s '' } '' of
        None \<Rightarrow> (m, None)
      | Some s \<Rightarrow> (m(conn_next conn \<mapsto> B_ptr bin), Some (s, bin, bin_size))))))"

lemma conn_open_len: "conn_open s = (fl, Some s') \<Longrightarrow> length s' < length s"
proof -
  assume a: "conn_open s = (fl, Some s')"
  define t where "t = skip_whitespace s"
  define u where "u = (if peek t = CHR ''('' then tl t else t)"
  obtain v act where v: "skip_word u (Some ''output'') = Some v \<or> skip_word u (Some ''input'') = Some v"
    and op: "convert_op (skip_whitespace v) = Some (act, s') \<or>
             convert_op (skip_whitespace (tl v)) = Some (act, s')"
    using a by (auto simp: conn_open_def t_def u_def Let_def split: option.splits prod.splits if_splits)
  have "length s' < length v"
    using op convert_op_len skip_whitespace_len [of v] skip_whitespace_len [of "tl v"]
    by (fastforce simp: less_le_trans)
  also have "length v \<le> length u" using v skip_word_Some by fastforce
  also have "\<dots> \<le> length t" by (simp add: u_def)
  also have "\<dots> \<le> length s" unfolding t_def by (rule skip_whitespace_len)
  finally show ?thesis .
qed

interpretation attr_read: record_list convert_attr attr_loop convert_attr_list
proof unfold_locales
  show "convert_attr m s b n = (m', Some (s', b', n')) \<Longrightarrow> length s' < length s" for m s b n m' s' b' n'
    by (rule convert_attr_len)
qed (rule attr_loop.simps, simp add: convert_attr_list_def Let_def)

lemma target_loop_len:
  "target_loop i m s b n a = (m', Some (s', b', n')) \<Longrightarrow> length s' \<le> length s"
proof (induction i m s b n a rule: target_loop.induct)
  case (1 i m s b n a)
  show ?case
  proof (cases "peek s = CHR '','' \<and> \<not> i")
    case True
    obtain m1 r where w: "convert_conn_target m (tl s) b n = (m1, r)" by fastforce
    with True "1.prems" obtain s1 b1 n1 where c: "r = Some (s1, b1, n1)"
      by (subst (asm) target_loop.simps) (auto split: option.splits)
    with w True "1.prems" have l: "target_loop i m1 s1 b1 n1 b = (m', Some (s', b', n'))"
      by (subst (asm) target_loop.simps) simp
    have "length s' \<le> length s1" using "1.IH" True w c l by metis
    also have "\<dots> \<le> length (tl s)" using convert_conn_target_len w c by (metis less_imp_le)
    finally show ?thesis by simp
  next
    case False
    with "1.prems" show ?thesis by (subst (asm) target_loop.simps) (auto split: if_splits)
  qed
qed

lemma convert_targets_len:
  "convert_targets i m s b n f = (m', Some (s', b', n')) \<Longrightarrow> length s' \<le> length s"
  by (fastforce simp: convert_targets_def Let_def
      dest: target_loop_len convert_conn_target_len split: prod.splits option.splits)

lemma convert_connect_len:
  assumes "convert_connect m s b n c fl = (m', Some (s', b', n'))"
  shows "length s' \<le> length s"
proof (cases "skip_word s (Some ''connect'')")
  case None
  with assms show ?thesis by (simp add: convert_connect_def)
next
  case (Some s1)
  with assms obtain s2 a s3 i m2 f where 2: "skip_word (skip_whitespace s1) None = Some s2"
    and 3: "convert_op s2 = Some (a, s3)"
    and 4: "convert_targets i m2 (skip_whitespace s3) b n f = (m', Some (s', b', n'))"
    by (auto simp: convert_connect_def Let_def split: option.splits)
  have "length s' \<le> length s3"
    using convert_targets_len [OF 4] skip_whitespace_len le_trans by blast
  also have "\<dots> \<le> length s2" using convert_op_len [OF 3] by simp
  also have "\<dots> \<le> length (skip_whitespace s1)"
    using 2 by (auto simp: skip_word_def split: if_splits)
  also have "\<dots> \<le> length s1" by (rule skip_whitespace_len)
  also have "\<dots> \<le> length s" using skip_word_Some [OF Some] by simp
  finally show ?thesis .
qed

lemma skip_str_len: "skip_str s ps = Some s' \<Longrightarrow> length s' \<le> length s"
proof (induction s ps rule: skip_str.induct)
  case (2 s p ps)
  then show ?case using skip_whitespace_len [of s] by (fastforce split: if_splits)
qed simp

lemma skip_rest_of_line_len: "length (skip_rest_of_line s) \<le> length s"
  by (simp add: skip_rest_of_line_def Let_def le_diff_conv le_SucI)

declare skip_str.simps [simp del]

lemma conn_body_len: "length (conn_body s) \<le> length s"
proof -
  have "length (case skip_str s '' { '' of None \<Rightarrow> s | Some s \<Rightarrow> s) \<le> length s"
    using skip_str_len [of s] by (auto split: option.splits)
  moreover have "length (case skip_word s (Some ''c_param'') of None \<Rightarrow> s | Some s \<Rightarrow> skip_rest_of_line s)
      \<le> length s" for s
    using skip_rest_of_line_len by (fastforce dest!: skip_word_Some intro: le_trans split: option.splits)
  ultimately show ?thesis unfolding conn_body_def Let_def using le_trans by blast
qed

text \<open>The successful run of \<^verbatim>\<open>convert_conn\<close>, step by step.\<close>

lemma convert_conn_Some:
  assumes "convert_conn m s b n = (m', Some (s', b', n'))"
  obtains fl s1 m2 s2 b2 n2 m3 s3 b3 n3 m4 s4 where
    "conn_open s = (fl, Some s1)"
    "convert_composed_identifier (m(conn_flags b \<mapsto> B_flags fl, conn_nm b \<mapsto> B_ptr (b + sizeof_conn)))
       s1 (b + sizeof_conn) (n - of_nat sizeof_conn) = (m2, Some (s2, b2, n2))"
    "convert_attr_list m2 (conn_body s2) b2 n2 (conn_attr b) = (m3, s3, b3, n3)"
    "convert_connect (m3(conn_target b \<mapsto> B_ptr 0)) (skip_whitespace s3) b3 n3 b fl =
       (m4, Some (s4, b', n'))"
    "skip_str s4 '' } '' = Some s'" "m' = m4(conn_next b \<mapsto> B_ptr b')"
  using assms
  by (auto simp: convert_conn_def Let_def split: option.splits prod.splits)

lemma convert_conn_len: "convert_conn m s b n = (m', Some (s', b', n')) \<Longrightarrow> length s' < length s"
proof (erule convert_conn_Some)
  fix fl s1 m2 s2 b2 n2 m3 s3 b3 n3 m4 s4
  assume 1: "conn_open s = (fl, Some s1)"
    and 2: "convert_composed_identifier (m(conn_flags b \<mapsto> B_flags fl, conn_nm b \<mapsto> B_ptr (b + sizeof_conn)))
       s1 (b + sizeof_conn) (n - of_nat sizeof_conn) = (m2, Some (s2, b2, n2))"
    and 3: "convert_attr_list m2 (conn_body s2) b2 n2 (conn_attr b) = (m3, s3, b3, n3)"
    and 4: "convert_connect (m3(conn_target b \<mapsto> B_ptr 0)) (skip_whitespace s3) b3 n3 b fl =
       (m4, Some (s4, b', n'))"
    and 5: "skip_str s4 '' } '' = Some s'"
  have "length s' \<le> length s4" by (rule skip_str_len [OF 5])
  also have "\<dots> \<le> length (skip_whitespace s3)" by (rule convert_connect_len [OF 4])
  also have "\<dots> \<le> length s3" by (rule skip_whitespace_len)
  also have "\<dots> \<le> length (conn_body s2)" by (rule attr_read.list_len [OF 3])
  also have "\<dots> \<le> length s2" by (rule conn_body_len)
  also have "\<dots> < length s1" using composed_loop_len 2 unfolding convert_composed_identifier_def by blast
  also have "\<dots> < length s" by (rule conn_open_len [OF 1])
  finally show ?thesis .
qed

function conn_loop :: "mem \<Rightarrow> string \<Rightarrow> nat \<Rightarrow> u32 \<Rightarrow> nat \<Rightarrow> mem \<times> cursor" where
  "conn_loop m s bin bin_size conn =
     (case convert_conn m s bin bin_size of
        (m, Some (s', bin', bin_size')) \<Rightarrow> conn_loop m s' bin' bin_size' bin
      | (m, None) \<Rightarrow> (m(conn_next conn \<mapsto> B_ptr 0), s, bin, bin_size))"
  by pat_completeness auto

termination conn_loop
  by (relation "measure (\<lambda>(m, s, b, n, a). length s)") (auto dest: convert_conn_len [OF sym])

declare conn_loop.simps [simp del]

definition convert_conn_list :: "mem \<Rightarrow> string \<Rightarrow> nat \<Rightarrow> u32 \<Rightarrow> nat \<Rightarrow> mem \<times> cursor" where
  "convert_conn_list m s bin bin_size field =
     (let m = m(field \<mapsto> B_ptr bin) in
      case convert_conn m s bin bin_size of
        (m, Some (s', bin', bin_size')) \<Rightarrow> conn_loop m s' bin' bin_size' bin
      | (m, None) \<Rightarrow> (m(field \<mapsto> B_ptr 0), s, bin, bin_size))"

text \<open>The head of a brick, with the flags left in the record.\<close>

definition brick_open :: "string \<Rightarrow> u16 \<times> string option" where
  "brick_open s =
     (let s = skip_whitespace s;
          (fl, s) = (if peek s = CHR ''('' then (0, tl s) else (MASK_BRICK_ACTIVE, s)) in
      case skip_word s (Some ''brick'') of
        None \<Rightarrow> (fl, None)
      | Some s \<Rightarrow>
          if \<not> IS_BRICK_ACTIVE fl \<and> peek s \<noteq> CHR '')'' then (fl, None)
          else
            let s = (if \<not> IS_BRICK_ACTIVE fl then tl s else s) in
            case convert_op (skip_whitespace s) of
              None \<Rightarrow> (fl, None)
            | Some (a, s) \<Rightarrow> (fl OR action_code a, Some s))"

definition convert_brick :: "mem \<Rightarrow> string \<Rightarrow> nat \<Rightarrow> u32 \<Rightarrow> mem \<times> cursor option" where
  "convert_brick m s brick bin_size =
     (let bin = brick + sizeof_brick;
          (fl, r) = brick_open s; m = m(brick_flags brick \<mapsto> B_flags fl) in
      case r of
        None \<Rightarrow> (m, None)
      | Some s \<Rightarrow>
     (let m = m(brick_nm brick \<mapsto> B_ptr bin) in
      case convert_word m s bin bin_size of
        (m, None) \<Rightarrow> (m, None)
      | (m, Some (s, bin, bin_size)) \<Rightarrow>
     (case skip_str s '' { '' of
        None \<Rightarrow> (m, None)
      | Some s \<Rightarrow>
     (let s = (case skip_word s (Some ''b_param'') of None \<Rightarrow> s | Some s \<Rightarrow> skip_rest_of_line s);
          (m, s, bin, bin_size) = convert_attr_list m s bin bin_size (brick_attr brick);
          (m, s, bin, bin_size) = convert_conn_list m s bin bin_size (brick_conn brick) in
      case skip_str s '' } '' of
        None \<Rightarrow> (m, None)
      | Some s \<Rightarrow> (m, Some (s, bin, bin_size))))))"

interpretation conn_read: record_list convert_conn conn_loop convert_conn_list
proof unfold_locales
  show "convert_conn m s b n = (m', Some (s', b', n')) \<Longrightarrow> length s' < length s" for m s b n m' s' b' n'
    by (rule convert_conn_len)
qed (rule conn_loop.simps, simp add: convert_conn_list_def Let_def)

section \<open>Nothing below the buffer is written\<close>

text \<open>\<open>same_below b m m'\<close>: the stores agree on all addresses below \<open>b\<close>.\<close>

definition same_below :: "nat \<Rightarrow> mem \<Rightarrow> mem \<Rightarrow> bool" where
  "same_below b m m' \<longleftrightarrow> (\<forall>a < b. m' a = m a)"

named_theorems frame \<open>which part of the store a conversion leaves alone\<close>

lemma same_below_refl [frame]: "same_below b m m"
  by (simp add: same_below_def)

lemma same_below_upd [frame]: "same_below b m m' \<Longrightarrow> b \<le> a \<Longrightarrow> same_below b m (m'(a \<mapsto> v))"
  by (simp add: same_below_def)

lemma same_below_trans: "same_below b m m' \<Longrightarrow> same_below b' m' m'' \<Longrightarrow> b \<le> b' \<Longrightarrow> same_below b m m''"
  by (simp add: same_below_def)

lemma word_loop_frame:
  "word_loop m s b n = (m', r) \<Longrightarrow>
   same_below b m m' \<and> (\<forall>s' b' n'. r = Some (s', b', n') \<longrightarrow> b \<le> b')"
proof (induction m s b n rule: word_loop.induct)
  case (2 m c s b n)
  then show ?case by (fastforce simp: same_below_def split: if_splits)
qed (auto simp: same_below_refl)

lemma convert_word_frame:
  "convert_word m s b n = (m', r) \<Longrightarrow>
   same_below b m m' \<and> (\<forall>s' b' n'. r = Some (s', b', n') \<longrightarrow> b < b')"
  by (fastforce simp: convert_word_def dest!: word_loop_frame intro: frame
      split: if_splits prod.splits option.splits)

lemma convert_string_frame:
  "convert_string m s b n = (m', r) \<Longrightarrow>
   same_below b m m' \<and> (\<forall>s' b' n'. r = Some (s', b', n') \<longrightarrow> b < b')"
proof (induction m s b n rule: convert_string.induct)
  case (2 m c s b n)
  then show ?case by (fastforce simp: same_below_def split: if_splits)
qed (auto intro: frame)

lemma composed_frame:
  "composed_loop m s b n = (m', r) \<Longrightarrow>
   same_below b m m' \<and> (\<forall>s' b' n'. r = Some (s', b', n') \<longrightarrow> b < b')"
proof (induction m s b n rule: composed_loop.induct)
  case (1 m s b n)
  obtain m1 r1 where w: "convert_word m s b n = (m1, r1)" by fastforce
  note f = convert_word_frame [OF w]
  show ?case
  proof (cases r1)
    case None
    with w f "1.prems" show ?thesis by (subst (asm) composed_loop.simps) auto
  next
    case (Some c)
    then obtain s1 b1 n1 where c: "r1 = Some (s1, b1, n1)" by (cases c) auto
    show ?thesis
    proof (cases "peek s1 = CHR ''.''")
      case True
      with "1.prems" w c have "composed_loop m1 (tl s1) b n = (m', r)"
        by (subst (asm) composed_loop.simps) simp
      from "1.IH" [OF w [symmetric] c refl refl True this] f same_below_trans show ?thesis by blast
    next
      case False
      with w f c "1.prems" show ?thesis by (subst (asm) composed_loop.simps) auto
    qed
  qed
qed

text \<open>A reader whose converter writes only from its buffer position upwards.\<close>

locale framed_list = record_list +
  assumes conv_frame: "conv m s b n = (m', r) \<Longrightarrow>
    same_below b m m' \<and> (\<forall>s' b' n'. r = Some (s', b', n') \<longrightarrow> b < b')"
begin

lemma loop_frame:
  "loop m s b n a = (m', s', b', n') \<Longrightarrow> k \<le> a \<Longrightarrow> k \<le> b \<Longrightarrow> same_below k m m' \<and> b \<le> b'"
proof (induction "length s" arbitrary: m s b n a rule: less_induct)
  case less
  show ?case
  proof (cases rule: conv_cases [of m s b n])
    case 1
    with less.prems conv_frame [OF 1] show ?thesis
      by (subst (asm) loop_eq) (auto simp: same_below_def)
  next
    case (2 m1 s1 b1 n1)
    with less.prems have l: "loop m1 s1 b1 n1 b = (m', s', b', n')" by (subst (asm) loop_eq) simp
    have f: "same_below b m m1" "b < b1" using conv_frame [OF 2] by auto
    with less.hyps [OF conv_len [OF 2] l] less.prems(3) show ?thesis
      by (auto simp: same_below_def)
  qed
qed

lemma list_frame:
  assumes "read_list m s b n f = (m', s', b', n')" "k \<le> f" "k \<le> b"
  shows "same_below k m m' \<and> b \<le> b'"
proof (cases rule: conv_cases [of "m(f \<mapsto> B_ptr b)" s b n])
  case 1
  with assms conv_frame [OF 1] show ?thesis by (auto simp: list_eq same_below_def)
next
  case (2 m1 s1 b1 n1)
  with assms(1) have "loop m1 s1 b1 n1 b = (m', s', b', n')" by (simp add: list_eq)
  from loop_frame [OF this, of k] conv_frame [OF 2] assms(2,3) show ?thesis
    by (auto simp: same_below_def)
qed

end

lemma convert_attr_frame:
  "convert_attr m s b n = (m', r) \<Longrightarrow>
   same_below b m m' \<and> (\<forall>s' b' n'. r = Some (s', b', n') \<longrightarrow> b < b')"
  unfolding convert_attr_def convert_composed_identifier_def Let_def sizeof_attr_def
  by (fastforce dest!: composed_frame convert_string_frame simp: same_below_def
      split: option.splits prod.splits)

lemma convert_conn_target_frame:
  "convert_conn_target m s b n = (m', r) \<Longrightarrow>
   same_below b m m' \<and> (\<forall>s' b' n'. r = Some (s', b', n') \<longrightarrow> b < b')"
  unfolding convert_conn_target_def Let_def sizeof_target_def
  by (fastforce dest!: convert_word_frame simp: same_below_def split: option.splits prod.splits if_splits)

interpretation attr_frame: framed_list convert_attr attr_loop convert_attr_list
  by unfold_locales (rule convert_attr_frame)

lemma target_loop_frame:
  "target_loop i m s b n a = (m', r) \<Longrightarrow> k \<le> a \<Longrightarrow> k \<le> b \<Longrightarrow>
   same_below k m m' \<and> (\<forall>s' b' n'. r = Some (s', b', n') \<longrightarrow> b \<le> b')"
proof (induction i m s b n a rule: target_loop.induct)
  case (1 i m s b n a)
  show ?case
  proof (cases "peek s = CHR '','' \<and> \<not> i")
    case True
    obtain m1 r1 where w: "convert_conn_target m (tl s) b n = (m1, r1)" by fastforce
    note f = convert_conn_target_frame [OF w]
    show ?thesis
    proof (cases r1)
      case None
      with w True f "1.prems" show ?thesis
        by (subst (asm) target_loop.simps) (auto simp: same_below_def)
    next
      case (Some c)
      then obtain s1 b1 n1 where c: "r1 = Some (s1, b1, n1)" by (cases c) auto
      with w True "1.prems" have l: "target_loop i m1 s1 b1 n1 b = (m', r)"
        by (subst (asm) target_loop.simps) simp
      have "b < b1" using f c by auto
      then have "same_below k m1 m' \<and> (\<forall>s' b' n'. r = Some (s', b', n') \<longrightarrow> b1 \<le> b')"
        using True "1.prems"(3) by (intro "1.IH" [OF _ _ w [symmetric] c refl refl l]) auto
      with f \<open>b < b1\<close> "1.prems"(3) show ?thesis by (fastforce simp: same_below_def)
    qed
  next
    case False
    with "1.prems" show ?thesis
      by (subst (asm) target_loop.simps) (auto simp: same_below_def split: if_splits)
  qed
qed

lemma convert_targets_frame:
  assumes "convert_targets i m s b n f = (m', r)" "k \<le> f" "k \<le> b"
  shows "same_below k m m' \<and> (\<forall>s' b' n'. r = Some (s', b', n') \<longrightarrow> b \<le> b')"
proof -
  obtain m1 r1 where w: "convert_conn_target (m(f \<mapsto> B_ptr b)) s b n = (m1, r1)" by fastforce
  note f = convert_conn_target_frame [OF w]
  show ?thesis
  proof (cases r1)
    case None
    with w f assms show ?thesis by (auto simp: convert_targets_def same_below_def)
  next
    case (Some c)
    then obtain s1 b1 n1 where c: "r1 = Some (s1, b1, n1)" by (cases c) auto
    with w assms(1) have "target_loop i m1 s1 b1 n1 b = (m', r)" by (simp add: convert_targets_def)
    from target_loop_frame [OF this, of k] f c assms(2,3) show ?thesis
      by (fastforce simp: same_below_def)
  qed
qed

lemma convert_connect_frame:
  assumes "convert_connect m s b n c fl = (m', r)" "k \<le> c" "k \<le> b"
  shows "same_below k m m' \<and> (\<forall>s' b' n'. r = Some (s', b', n') \<longrightarrow> b \<le> b')"
proof -
  consider "m' = m" "\<forall>s' b' n'. r = Some (s', b', n') \<longrightarrow> b' = b"
    | i fl' t where "convert_targets i (m(conn_flags c \<mapsto> B_flags fl')) t b n (conn_target c) = (m', r)"
    using assms(1) by (auto simp: convert_connect_def Let_def split: option.splits)
  then show ?thesis
  proof cases
    case 2
    from convert_targets_frame [OF this, of k] assms(2,3) show ?thesis by (auto simp: same_below_def)
  qed (auto simp: same_below_def)
qed

lemma convert_conn_frame:
  assumes "convert_conn m s b n = (m', r)"
  shows "same_below b m m' \<and> (\<forall>s' b' n'. r = Some (s', b', n') \<longrightarrow> b < b')"
proof -
  obtain fl o1 where o1: "conn_open s = (fl, o1)" by fastforce
  show ?thesis
  proof (cases o1)
    case None
    with o1 assms show ?thesis by (auto simp: convert_conn_def same_below_def)
  next
    case (Some s1)
    let ?m = "m(conn_flags b \<mapsto> B_flags fl, conn_nm b \<mapsto> B_ptr (b + sizeof_conn))"
    obtain m2 o2 where o2: "composed_loop ?m s1 (b + sizeof_conn) (n - of_nat sizeof_conn) = (m2, o2)"
      by fastforce
    have f2: "same_below b m m2" using composed_frame [OF o2] by (auto simp: same_below_def)
    show ?thesis
    proof (cases o2)
      case None
      with o1 Some o2 assms f2 show ?thesis
        by (auto simp: convert_conn_def convert_composed_identifier_def)
    next
      case (Some c2)
      then obtain s2 b2 n2 where c2: "o2 = Some (s2, b2, n2)" by (cases c2) auto
      obtain m3 s3 b3 n3 where l: "convert_attr_list m2 (conn_body s2) b2 n2 (conn_attr b) = (m3, s3, b3, n3)"
        by (metis prod_cases4)
      obtain m4 o4 where o4: "convert_connect (m3(conn_target b \<mapsto> B_ptr 0)) (skip_whitespace s3) b3 n3 b fl = (m4, o4)"
        by fastforce
      have b2: "b < b2" using composed_frame [OF o2] c2 by (auto simp: sizeof_conn_def)
      have f3: "same_below b m2 m3" "b2 \<le> b3" using attr_frame.list_frame [OF l, of b] b2 by auto
      have f4: "same_below b m3 m4" "\<forall>s' b' n'. o4 = Some (s', b', n') \<longrightarrow> b3 \<le> b'"
        using convert_connect_frame [OF o4, of b] b2 f3(2) by (auto simp: same_below_def)
      have "(r = None \<and> m' = m4) \<or> (\<exists>s4 b4 n4 s'. o4 = Some (s4, b4, n4) \<and> r = Some (s', b4, n4) \<and>
          m' = m4(conn_next b \<mapsto> B_ptr b4))"
        using assms o1 \<open>o1 = Some s1\<close> o2 c2 l o4
        by (auto simp: convert_conn_def convert_composed_identifier_def split: option.splits)
      then show ?thesis using f2 f3 f4 b2 by (auto simp: same_below_def)
    qed
  qed
qed

interpretation conn_frame: framed_list convert_conn conn_loop convert_conn_list
  by unfold_locales (rule convert_conn_frame)

text \<open>C34: \<^verbatim>\<open>convert_brick\<close> returns for every text, leaves everything below \<^verbatim>\<open>*binbuf\<close> as it was whether it
  succeeds or fails, and on success moves \<^verbatim>\<open>*binbuf\<close> beyond the brick record.\<close>

theorem convert_brick_frame:
  "case convert_brick m s b n of (m', r) \<Rightarrow>
     (\<forall>a < b. m' a = m a) \<and> (case r of None \<Rightarrow> True | Some (s', b', n') \<Rightarrow> b + sizeof_brick < b')"
proof -
  obtain fl o1 where o1: "brick_open s = (fl, o1)" by fastforce
  show ?thesis
  proof (cases o1)
    case None
    with o1 show ?thesis by (auto simp: convert_brick_def)
  next
    case (Some s1)
    let ?m = "m(brick_flags b \<mapsto> B_flags fl, brick_nm b \<mapsto> B_ptr (b + sizeof_brick))"
    obtain m2 o2 where o2: "convert_word ?m s1 (b + sizeof_brick) n = (m2, o2)" by fastforce
    have f2: "same_below b m m2" using convert_word_frame [OF o2] by (auto simp: same_below_def)
    show ?thesis
    proof (cases "\<exists>s2 b2 n2 t. o2 = Some (s2, b2, n2) \<and> skip_str s2 '' { '' = Some t")
      case False
      with o1 Some o2 f2 show ?thesis
        by (auto simp: convert_brick_def same_below_def split: option.splits)
    next
      case True
      then obtain s2 b2 n2 t where c2: "o2 = Some (s2, b2, n2)" "skip_str s2 '' { '' = Some t" by blast
      define u where "u = (case skip_word t (Some ''b_param'') of None \<Rightarrow> t | Some s \<Rightarrow> skip_rest_of_line s)"
      obtain m3 s3 b3 n3 where l3: "convert_attr_list m2 u b2 n2 (brick_attr b) = (m3, s3, b3, n3)"
        by (metis prod_cases4)
      obtain m4 s4 b4 n4 where l4: "convert_conn_list m3 s3 b3 n3 (brick_conn b) = (m4, s4, b4, n4)"
        by (metis prod_cases4)
      have b2: "b + sizeof_brick < b2" using convert_word_frame [OF o2] c2(1) by auto
      have f3: "same_below b m2 m3" "b2 \<le> b3" using attr_frame.list_frame [OF l3, of b] b2 by auto
      have f4: "same_below b m3 m4" "b3 \<le> b4" using conn_frame.list_frame [OF l4, of b] b2 f3(2) by auto
      have "convert_brick m s b n = (m4, map_option (\<lambda>s. (s, b4, n4)) (skip_str s4 '' } ''))"
        using o1 Some o2 c2 l3 l4 by (simp add: convert_brick_def u_def split: option.splits)
      then show ?thesis using f2 f3 f4 b2 by (auto simp: same_below_def split: option.splits)
    qed
  qed
qed

theorem convert_brick_frame_witness:
  "fst (convert_brick [7 \<mapsto> B_flags 3] ''brick := map { }'' 64 1000) 7 = Some (B_flags 3)"
  using convert_brick_frame [where m = "[7 \<mapsto> B_flags 3]" and s = "''brick := map { }''" and b = 64 and n = 1000]
  by (auto split: prod.splits)

end
