(* ===== verification/Nest_Ops.thy ===== *)
theory Nest_Ops
  imports Common_Types
begin

text \<open>
  The operations of an output connector and the default implementations of
  \<^verbatim>\<open>src/trunk/src/lib.c\<close>.  A brick fills a table of operations; every entry it leaves out
  becomes the \<^verbatim>\<open>missing__\<close> function of \<^verbatim>\<open>lib.c\<close>, which for a combined operation (such as
  \<^verbatim>\<open>gettranswait\<close>) calls the entries of the same table for its parts.

  An operation is a function on the argument structure and the state \<open>'w\<close> of the brick; an
  operation table is indexed by section and operation code.  The diagnostic output of the
  \<^verbatim>\<open>MISSING\<close> stubs is not part of the state, and \<^verbatim>\<open>DEBUG_EXIT\<close> is empty (the build without
  \<^verbatim>\<open>TRACE\<close>): such a stub returns with the arguments as they were.
\<close>

type_synonym 'w operation = "string \<Rightarrow> args \<times> 'w \<Rightarrow> args \<times> 'w"

type_synonym 'w op_table = "index_t \<Rightarrow> op_t \<Rightarrow> 'w operation"

text \<open>\<^verbatim>\<open>on->output.ops[args->sect_code][op](on, args, param)\<close>\<close>

definition dispatch :: "'w op_table \<Rightarrow> op_t \<Rightarrow> 'w operation" where
  "dispatch ops c param = (\<lambda>(a, w). ops (sect_code a) c param (a, w))"

text \<open>The stubs the macros \<^verbatim>\<open>UNINITIALIZED\<close>, \<^verbatim>\<open>MISSING\<close>, \<^verbatim>\<open>OPTIONAL\<close> and \<^verbatim>\<open>UNUSED\<close> define.\<close>

definition uninitialized_stub :: "'w operation" where
  "uninitialized_stub param = (\<lambda>(a, w). (a, w))"

definition missing_stub :: "'w operation" where
  "missing_stub param = (\<lambda>(a, w). (a, w))"

definition optional_stub :: "'w operation" where
  "optional_stub param = (\<lambda>(a, w). (a\<lparr>success := False\<rparr>, w))"

definition unused_stub :: "'w operation" where
  "unused_stub param = (\<lambda>(a, w). (a\<lparr>success := True\<rparr>, w))"

section \<open>The combined operations\<close>

definition missing__transwait :: "'w op_table \<Rightarrow> 'w operation" where
  "missing__transwait ops param = (\<lambda>(a, w).
     let (a, w) = dispatch ops opcode_trans param (a\<lparr>op_code := opcode_trans\<rparr>, w) in
     if \<not> success a then (a, w)
     else dispatch ops opcode_wait param
       (a\<lparr>success := False, action := action_wait, op_code := opcode_wait\<rparr>, w))"

definition missing__gettranswait :: "'w op_table \<Rightarrow> 'w operation" where
  "missing__gettranswait ops param = (\<lambda>(a, w).
     let (a, w) = dispatch ops opcode_get param (a\<lparr>op_code := opcode_get\<rparr>, w) in
     if \<not> success a then (a, w)
     else if version a < vers_newest then
       (let (a, w) = dispatch ops opcode_transwait param
              (a\<lparr>success := False, direction := direct_read, op_code := opcode_transwait\<rparr>, w) in
        if \<not> success a then
          (let (a, w) = dispatch ops opcode_put param (a\<lparr>prio := prio_none\<rparr>, w) in
           (a\<lparr>success := False\<rparr>, w))
        else (a, w))
     else (a, w))"

definition missing__transwaitput :: "'w op_table \<Rightarrow> 'w operation" where
  "missing__transwaitput ops param = (\<lambda>(a, w).
     let (a, w) = dispatch ops opcode_transwait param
           (a\<lparr>direction := direct_write, op_code := opcode_transwait\<rparr>, w);
         res = success a;
         (a, w) = dispatch ops opcode_put param
           (a\<lparr>success := False, op_code := opcode_put\<rparr>, w)
     in (a\<lparr>success := (success a \<and> res)\<rparr>, w))"

definition missing__putwait :: "'w op_table \<Rightarrow> 'w operation" where
  "missing__putwait ops param = (\<lambda>(a, w).
     let (a, w) = dispatch ops opcode_put param (a\<lparr>op_code := opcode_put\<rparr>, w) in
     if \<not> success a then (a, w)
     else dispatch ops opcode_wait param (a\<lparr>op_code := opcode_wait\<rparr>, w))"

definition missing__createget :: "'w op_table \<Rightarrow> 'w operation" where
  "missing__createget ops param = (\<lambda>(a, w).
     let (a, w) = dispatch ops opcode_create param (a\<lparr>op_code := opcode_create\<rparr>, w) in
     if \<not> success a then (a, w)
     else dispatch ops opcode_get param
       (a\<lparr>success := False, forwrite := True, op_code := opcode_get\<rparr>, w))"

definition missing__gadrcreate :: "'w op_table \<Rightarrow> 'w operation" where
  "missing__gadrcreate ops param = (\<lambda>(a, w).
     let (a, w) = dispatch ops opcode_gadr param
           (a\<lparr>reader := False, op_code := opcode_gadr\<rparr>, w) in
     if \<not> success a then (a, w)
     else dispatch ops opcode_create param
       (a\<lparr>success := False, op_code := opcode_create\<rparr>, w))"

definition missing__gadrcreateget :: "'w op_table \<Rightarrow> 'w operation" where
  "missing__gadrcreateget ops param = (\<lambda>(a, w).
     let (a, w) = dispatch ops opcode_gadr param
           (a\<lparr>reader := False, op_code := opcode_gadr\<rparr>, w) in
     if \<not> success a then (a, w)
     else dispatch ops opcode_createget param
       (a\<lparr>success := False, op_code := opcode_createget\<rparr>, w))"

definition missing__gadrgettranswait :: "'w op_table \<Rightarrow> 'w operation" where
  "missing__gadrgettranswait ops param = (\<lambda>(a, w).
     let (a, w) = dispatch ops opcode_gadr param
           (a\<lparr>reader := True, op_code := opcode_gadr\<rparr>, w) in
     if \<not> success a then (a, w)
     else dispatch ops opcode_gettranswait param
       (a\<lparr>success := False, op_code := opcode_gettranswait\<rparr>, w))"

definition missing__putpadr :: "'w op_table \<Rightarrow> 'w operation" where
  "missing__putpadr ops param = (\<lambda>(a, w).
     let (a, w) = dispatch ops opcode_put param
           (a\<lparr>prio := prio_background, op_code := opcode_put\<rparr>, w) in
     if \<not> success a then (a, w)
     else dispatch ops opcode_padr param
       (a\<lparr>success := False, reader := False, op_code := opcode_padr\<rparr>, w))"

definition missing__putdelete :: "'w op_table \<Rightarrow> 'w operation" where
  "missing__putdelete ops param = (\<lambda>(a, w).
     let (a, w) = dispatch ops opcode_put param
           (a\<lparr>prio := prio_none, op_code := opcode_put\<rparr>, w) in
     if \<not> success a then (a, w)
     else dispatch ops opcode_delete param
       (a\<lparr>success := False, op_code := opcode_delete\<rparr>, w))"

definition missing__deletepadr :: "'w op_table \<Rightarrow> 'w operation" where
  "missing__deletepadr ops param = (\<lambda>(a, w).
     let (a, w) = dispatch ops opcode_delete param (a\<lparr>op_code := opcode_delete\<rparr>, w) in
     if \<not> success a then (a, w)
     else dispatch ops opcode_padr param
       (a\<lparr>success := False, op_code := opcode_padr\<rparr>, w))"

definition missing__putdeletepadr :: "'w op_table \<Rightarrow> 'w operation" where
  "missing__putdeletepadr ops param = (\<lambda>(a, w).
     let (a, w) = dispatch ops opcode_putdelete param (a\<lparr>op_code := opcode_putdelete\<rparr>, w) in
     if \<not> success a then (a, w)
     else dispatch ops opcode_padr param
       (a\<lparr>success := False, op_code := opcode_padr\<rparr>, w))"

definition missing__gadrtranswaitdeletepadr :: "'w op_table \<Rightarrow> 'w operation" where
  "missing__gadrtranswaitdeletepadr ops param = (\<lambda>(a, w).
     let (a, w) = dispatch ops opcode_gadr param
           (a\<lparr>op_code := opcode_gadr, try_len := ucast (phys_len a),
              log_len := ucast (phys_len a), reader := True, exclu := True\<rparr>, w) in
     if \<not> success a then (a, w)
     else
       (let (a, w) = dispatch ops opcode_transwait param
              (a\<lparr>success := False, op_code := opcode_transwait, direction := direct_read\<rparr>, w) in
        if \<not> success a \<or> ucast (phys_len a) \<noteq> log_len a then (a, w)
        else
          (let (a, w) = dispatch ops opcode_delete param
                 (a\<lparr>success := False, op_code := opcode_delete,
                    log_len := ucast (phys_len a)\<rparr>, w) in
           if \<not> success a then (a, w)
           else dispatch ops opcode_padr param
             (a\<lparr>success := False, op_code := opcode_padr\<rparr>, w))))"

definition missing__gadrcreatetranswaitpadr :: "'w op_table \<Rightarrow> 'w operation" where
  "missing__gadrcreatetranswaitpadr ops param = (\<lambda>(a, w).
     let (a, w) = dispatch ops opcode_gadr param
           (a\<lparr>op_code := opcode_gadr, try_len := ucast (phys_len a),
              log_len := ucast (phys_len a), reader := True, exclu := True\<rparr>, w) in
     if \<not> success a then (a, w)
     else
       (let (a, w) = dispatch ops opcode_create param
              (a\<lparr>success := False, op_code := opcode_create, clear := False, melt := True\<rparr>, w) in
        if \<not> success a then (a, w)
        else
          (let (a, w) = dispatch ops opcode_transwait param
                 (a\<lparr>success := False, op_code := opcode_transwait,
                    direction := direct_read\<rparr>, w) in
           if \<not> success a \<or> ucast (phys_len a) \<noteq> log_len a then (a, w)
           else dispatch ops opcode_padr param
             (a\<lparr>success := False, op_code := opcode_padr, log_len := ucast (phys_len a)\<rparr>, w))))"

section \<open>The default entry of every operation code\<close>

text \<open>
  The function \<^verbatim>\<open>missing__<op>\<close> of \<^verbatim>\<open>lib.c\<close> for each operation code.  The codes
  \<^verbatim>\<open>opcode_output_max\<close>, \<^verbatim>\<open>opcode_input_max\<close> and \<^verbatim>\<open>opcode_brick_max\<close> bound the tables and
  have no function; they are given the \<^verbatim>\<open>MISSING\<close> stub.
\<close>

fun missing_op :: "'w op_table \<Rightarrow> op_t \<Rightarrow> 'w operation" where
  "missing_op ops opcode_output_init = unused_stub"
| "missing_op ops opcode_input_init = unused_stub"
| "missing_op ops opcode_brick_init = unused_stub"
| "missing_op ops opcode_retract = optional_stub"
| "missing_op ops opcode_transwait = missing__transwait ops"
| "missing_op ops opcode_gettranswait = missing__gettranswait ops"
| "missing_op ops opcode_transwaitput = missing__transwaitput ops"
| "missing_op ops opcode_putwait = missing__putwait ops"
| "missing_op ops opcode_createget = missing__createget ops"
| "missing_op ops opcode_gadrcreate = missing__gadrcreate ops"
| "missing_op ops opcode_gadrcreateget = missing__gadrcreateget ops"
| "missing_op ops opcode_gadrgettranswait = missing__gadrgettranswait ops"
| "missing_op ops opcode_putpadr = missing__putpadr ops"
| "missing_op ops opcode_putdelete = missing__putdelete ops"
| "missing_op ops opcode_deletepadr = missing__deletepadr ops"
| "missing_op ops opcode_putdeletepadr = missing__putdeletepadr ops"
| "missing_op ops opcode_gadrtranswaitdeletepadr = missing__gadrtranswaitdeletepadr ops"
| "missing_op ops opcode_gadrcreatetranswaitpadr = missing__gadrcreatetranswaitpadr ops"
| "missing_op ops _ = missing_stub"

text \<open>The tables of an output, an input and a brick before its initialization.\<close>

definition uninitialized_output :: "'w op_table" where
  "uninitialized_output sect c = uninitialized_stub"

text \<open>The table \<^verbatim>\<open>op_names\<close>, indexed by the operation code.\<close>

definition op_names :: "string list" where
  "op_names = [
     ''output_init'',
     ''trans'', ''wait'', ''get'', ''put'', ''lock'', ''unlock'', ''gadr'', ''padr'',
     ''create'', ''delete'', ''move'',
     ''instbrick'', ''deinstbrick'', ''instconn'', ''deinstconn'',
     ''connect'', ''disconnect'', ''getconn'', ''findconn'',
     ''transwait'', ''gettranswait'', ''transwaitput'', ''putwait'',
     ''createget'', ''gadrcreate'', ''gadrcreateget'', ''gadrgettranswait'',
     ''putpadr'', ''putdelete'', ''deletepadr'', ''putdeletepadr'',
     ''gadrtranswaitdeletepadr'', ''gadrcreatetranswaitpadr'',
     ''bad_output_max'',
     ''input_init'', ''retract'', ''bad_input_max'',
     ''brick_init'', ''bad_brick_max'']"


section \<open>The table of a brick\<close>

text \<open>
  \<open>impl sect c\<close> is the function a brick defines for code \<open>c\<close> in section \<open>sect\<close>, if it
  defines one.  The C table is cyclic: a default entry calls other entries of the same table.
  \<open>resolve n\<close> is the table unrolled to depth \<open>n\<close>; \<open>brick_table\<close> unrolls it to the depth the
  default implementations need, which \<open>brick_table_eq\<close> below shows to be enough.
\<close>

type_synonym 'w brick_impl = "index_t \<Rightarrow> op_t \<Rightarrow> 'w operation option"

fun resolve :: "nat \<Rightarrow> 'w brick_impl \<Rightarrow> 'w op_table" where
  "resolve 0 impl sect c = (case impl sect c of Some f \<Rightarrow> f | None \<Rightarrow> missing_stub)"
| "resolve (Suc n) impl sect c =
     (case impl sect c of Some f \<Rightarrow> f | None \<Rightarrow> missing_op (resolve n impl) c)"

definition brick_table :: "'w brick_impl \<Rightarrow> 'w op_table" where
  "brick_table impl = resolve 4 impl"

text \<open>How deep the calls of a default implementation nest.\<close>

fun op_rank :: "op_t \<Rightarrow> nat" where
  "op_rank opcode_transwait = 1"
| "op_rank opcode_putwait = 1"
| "op_rank opcode_createget = 1"
| "op_rank opcode_gadrcreate = 1"
| "op_rank opcode_putpadr = 1"
| "op_rank opcode_putdelete = 1"
| "op_rank opcode_deletepadr = 1"
| "op_rank opcode_gettranswait = 2"
| "op_rank opcode_transwaitput = 2"
| "op_rank opcode_gadrcreateget = 2"
| "op_rank opcode_putdeletepadr = 2"
| "op_rank opcode_gadrtranswaitdeletepadr = 2"
| "op_rank opcode_gadrcreatetranswaitpadr = 2"
| "op_rank opcode_gadrgettranswait = 3"
| "op_rank _ = 0"

lemma op_rank_le: "op_rank c \<le> 3"
  by (cases c) simp_all

lemmas combined_defs =
  missing__transwait_def missing__gettranswait_def missing__transwaitput_def
  missing__putwait_def missing__createget_def missing__gadrcreate_def
  missing__gadrcreateget_def missing__gadrgettranswait_def missing__putpadr_def
  missing__putdelete_def missing__deletepadr_def missing__putdeletepadr_def
  missing__gadrtranswaitdeletepadr_def missing__gadrcreatetranswaitpadr_def

lemmas stub_defs = uninitialized_stub_def missing_stub_def optional_stub_def unused_stub_def

text \<open>A default implementation only looks at entries of smaller rank.\<close>

lemma missing_op_cong:
  assumes "\<And>s d. op_rank d < op_rank c \<Longrightarrow> ops s d = ops' s d"
  shows "missing_op ops c = missing_op ops' c"
proof -
  have d: "op_rank d < op_rank c \<Longrightarrow> dispatch ops d = dispatch ops' d" for d
    using assms by (simp add: dispatch_def fun_eq_iff)
  show ?thesis
    by (rule ext, cases c) (simp_all add: combined_defs d cong: if_cong prod.case_cong)
qed

lemma resolve_deeper:
  "op_rank c < n \<Longrightarrow> resolve (Suc n) impl s c = resolve n impl s c"
proof (induction n arbitrary: s c)
  case 0
  then show ?case by simp
next
  case (Suc n)
  have "missing_op (resolve (Suc n) impl) c = missing_op (resolve n impl) c"
  proof (rule missing_op_cong)
    fix s' d
    assume "op_rank d < op_rank c"
    with Suc.prems have "op_rank d < n" by simp
    then show "resolve (Suc n) impl s' d = resolve n impl s' d" by (rule Suc.IH)
  qed
  then show ?case by (simp split: option.split)
qed

lemma brick_table_eq:
  "brick_table impl s c =
     (case impl s c of Some f \<Rightarrow> f | None \<Rightarrow> missing_op (brick_table impl) c)"
proof -
  have "op_rank c < 4" using op_rank_le [of c] by simp
  then have "resolve (Suc 4) impl s c = resolve 4 impl s c" by (rule resolve_deeper)
  then show ?thesis unfolding brick_table_def by (metis resolve.simps(2))
qed

section \<open>Lifting a contract from the elementary operations to the table\<close>

text \<open>
  What a brick promises of the operations it implements: its state invariant \<open>I\<close>, kept by
  every one of them.  The table that the defaults complete keeps it too.
\<close>

locale brick_contract =
  fixes impl :: "'w brick_impl"
    and I :: "'w \<Rightarrow> bool"
  assumes impl_keeps: "impl s c = Some f \<Longrightarrow> I w \<Longrightarrow> I (snd (f p (a, w)))"
begin

definition keeps :: "'w operation \<Rightarrow> bool" where
  "keeps f \<longleftrightarrow> (\<forall>p a w. I w \<longrightarrow> I (snd (f p (a, w))))"

lemma keepsD: "keeps f \<Longrightarrow> I w \<Longrightarrow> I (snd (f p (a, w)))"
  by (simp add: keeps_def)

lemma keeps_case:
  "I (snd x) \<Longrightarrow> (\<And>a w. I w \<Longrightarrow> I (snd (g a w))) \<Longrightarrow> I (snd (case x of (a, w) \<Rightarrow> g a w))"
  by (cases x) simp

lemma keeps_dispatch: "(\<And>s. keeps (ops s c)) \<Longrightarrow> I w \<Longrightarrow> I (snd (dispatch ops c p (a, w)))"
  by (simp add: dispatch_def keepsD)

lemma keeps_missing_op:
  assumes ops: "\<And>s d. op_rank d < op_rank c \<Longrightarrow> keeps (ops s d)"
  shows "keeps (missing_op ops c)"
proof -
  have k: "op_rank d < op_rank c \<Longrightarrow> I w \<Longrightarrow> I (snd (dispatch ops d p (a, w)))" for d p a w
    using ops keeps_dispatch by blast
  show ?thesis
    using k unfolding keeps_def
    by (cases c) (auto simp: combined_defs stub_defs Let_def intro!: keeps_case)
qed

lemma keeps_resolve: "keeps (resolve n impl s c)"
proof (induction n arbitrary: s c)
  case 0
  then show ?case
    using impl_keeps by (auto simp: keeps_def stub_defs split: option.split)
next
  case (Suc n)
  then have "keeps (missing_op (resolve n impl) c)" by (intro keeps_missing_op)
  then show ?case
    using impl_keeps by (auto simp: keeps_def split: option.split)
qed

lemma table_keeps: "I w \<Longrightarrow> I (snd (brick_table impl s c p (a, w)))"
  unfolding brick_table_def using keeps_resolve keepsD by blast

end

section \<open>The calls a default implementation makes\<close>

text \<open>
  A brick that implements exactly the elementary operations.  Its behaviour is arbitrary:
  \<open>beh c a l\<close> is what operation \<open>c\<close> makes of the arguments \<open>a\<close> after the calls \<open>l\<close>.  The
  state is the log of the calls, with the arguments each one received.
\<close>

type_synonym call_log = "(op_t \<times> args) list"

definition log_impl :: "(op_t \<Rightarrow> args \<Rightarrow> call_log \<Rightarrow> args) \<Rightarrow> call_log brick_impl" where
  "log_impl beh sect c =
     (if 0 < op_rank c then None else Some (\<lambda>p (a, l). (beh c a l, l @ [(c, a)])))"

text \<open>
  The sequences of elementary operations that a combined operation may perform, when it
  reports success and when it reports failure.
\<close>

fun ok_traces :: "op_t \<Rightarrow> op_t list set" where
  "ok_traces opcode_transwait = {[opcode_trans, opcode_wait]}"
| "ok_traces opcode_gettranswait =
     {[opcode_get], [opcode_get, opcode_trans, opcode_wait]}"
| "ok_traces opcode_transwaitput = {[opcode_trans, opcode_wait, opcode_put]}"
| "ok_traces opcode_putwait = {[opcode_put, opcode_wait]}"
| "ok_traces opcode_createget = {[opcode_create, opcode_get]}"
| "ok_traces opcode_gadrcreate = {[opcode_gadr, opcode_create]}"
| "ok_traces opcode_gadrcreateget = {[opcode_gadr, opcode_create, opcode_get]}"
| "ok_traces opcode_gadrgettranswait =
     {[opcode_gadr, opcode_get], [opcode_gadr, opcode_get, opcode_trans, opcode_wait]}"
| "ok_traces opcode_putpadr = {[opcode_put, opcode_padr]}"
| "ok_traces opcode_putdelete = {[opcode_put, opcode_delete]}"
| "ok_traces opcode_deletepadr = {[opcode_delete, opcode_padr]}"
| "ok_traces opcode_putdeletepadr = {[opcode_put, opcode_delete, opcode_padr]}"
| "ok_traces opcode_gadrtranswaitdeletepadr =
     {[opcode_gadr, opcode_trans, opcode_wait],
      [opcode_gadr, opcode_trans, opcode_wait, opcode_delete, opcode_padr]}"
| "ok_traces opcode_gadrcreatetranswaitpadr =
     {[opcode_gadr, opcode_create, opcode_trans, opcode_wait],
      [opcode_gadr, opcode_create, opcode_trans, opcode_wait, opcode_padr]}"
| "ok_traces c = {[c]}"

fun fail_traces :: "op_t \<Rightarrow> op_t list set" where
  "fail_traces opcode_transwait = {[opcode_trans], [opcode_trans, opcode_wait]}"
| "fail_traces opcode_gettranswait =
     {[opcode_get], [opcode_get, opcode_trans, opcode_put],
      [opcode_get, opcode_trans, opcode_wait, opcode_put]}"
| "fail_traces opcode_transwaitput =
     {[opcode_trans, opcode_put], [opcode_trans, opcode_wait, opcode_put]}"
| "fail_traces opcode_putwait = {[opcode_put], [opcode_put, opcode_wait]}"
| "fail_traces opcode_createget = {[opcode_create], [opcode_create, opcode_get]}"
| "fail_traces opcode_gadrcreate = {[opcode_gadr], [opcode_gadr, opcode_create]}"
| "fail_traces opcode_gadrcreateget =
     {[opcode_gadr], [opcode_gadr, opcode_create], [opcode_gadr, opcode_create, opcode_get]}"
| "fail_traces opcode_gadrgettranswait =
     {[opcode_gadr], [opcode_gadr, opcode_get],
      [opcode_gadr, opcode_get, opcode_trans, opcode_put],
      [opcode_gadr, opcode_get, opcode_trans, opcode_wait, opcode_put]}"
| "fail_traces opcode_putpadr = {[opcode_put], [opcode_put, opcode_padr]}"
| "fail_traces opcode_putdelete = {[opcode_put], [opcode_put, opcode_delete]}"
| "fail_traces opcode_deletepadr = {[opcode_delete], [opcode_delete, opcode_padr]}"
| "fail_traces opcode_putdeletepadr =
     {[opcode_put], [opcode_put, opcode_delete], [opcode_put, opcode_delete, opcode_padr]}"
| "fail_traces opcode_gadrtranswaitdeletepadr =
     {[opcode_gadr], [opcode_gadr, opcode_trans], [opcode_gadr, opcode_trans, opcode_wait],
      [opcode_gadr, opcode_trans, opcode_wait, opcode_delete],
      [opcode_gadr, opcode_trans, opcode_wait, opcode_delete, opcode_padr]}"
| "fail_traces opcode_gadrcreatetranswaitpadr =
     {[opcode_gadr], [opcode_gadr, opcode_create], [opcode_gadr, opcode_create, opcode_trans],
      [opcode_gadr, opcode_create, opcode_trans, opcode_wait],
      [opcode_gadr, opcode_create, opcode_trans, opcode_wait, opcode_padr]}"
| "fail_traces c = {[c]}"

text \<open>The table entries, as rewrite rules for \<open>dispatch\<close>.\<close>

lemma dispatch_log_elem:
  "op_rank c = 0 \<Longrightarrow> dispatch (brick_table (log_impl beh)) c p (a, l) = (beh c a l, l @ [(c, a)])"
  by (simp add: dispatch_def brick_table_eq [of "log_impl beh"] log_impl_def)

lemma dispatch_log_comb:
  "0 < op_rank c \<Longrightarrow>
     dispatch (brick_table (log_impl beh)) c p (a, l) =
     missing_op (brick_table (log_impl beh)) c p (a, l)"
  by (simp add: dispatch_def brick_table_eq [of "log_impl beh"] log_impl_def)

lemmas dispatch_log = dispatch_log_elem dispatch_log_comb


text \<open>a combined operation hands every elementary operation its own operation code, so
  that a brick forwarding by \<^verbatim>\<open>args->op_code\<close> forwards the right one; gettranswait, whose undo
  is the subject of the next theorem, is the exception.\<close>

theorem default_op_codes:
  assumes "0 < op_rank c" and "c \<noteq> opcode_gettranswait" and "c \<noteq> opcode_gadrgettranswait"
  shows "let (a', l) = dispatch (brick_table (log_impl beh)) c p (a, []) in
           list_all (\<lambda>(d, b). op_code b = d) l"
  using assms
  by (cases c) (simp_all add: dispatch_log combined_defs Let_def split: if_split)

theorem default_op_codes_witness:
  "let (a', l) = dispatch (brick_table (log_impl (\<lambda>c a l. a\<lparr>success := True\<rparr>)))
        opcode_transwaitput ''x'' (zero_args, []) in
     list_all (\<lambda>(d, b). op_code b = d) l"
  by (rule default_op_codes) simp_all

text \<open>when the transfer of a default gettranswait fails, the undo calls put with the
  operation code of the transfer still in the arguments (lib.c never assigns opcode_put
  there), for every brick whose operations leave the code alone.\<close>

theorem gettranswait_undo_op_code:
  assumes keep: "\<And>c a l. op_code (beh c a l) = op_code a"
    and run: "dispatch (brick_table (log_impl beh)) opcode_gettranswait p (a, []) = (a', l)"
    and undo: "(opcode_put, b) \<in> set l"
  shows "op_code b \<noteq> opcode_put \<and> prio b = prio_none \<and> \<not> success a'"
  using run undo
  by (auto simp: dispatch_log combined_defs Let_def keep split: if_splits)

theorem gettranswait_undo_op_code_witness:
  "let beh = (\<lambda>c a l. a\<lparr>success := (c = opcode_get)\<rparr>);
       (a', l) = dispatch (brick_table (log_impl beh)) opcode_gettranswait ''x'' (zero_args, [])
   in op_code (snd (l ! 2)) \<noteq> opcode_put \<and> prio (snd (l ! 2)) = prio_none \<and> \<not> success a'"
proof -
  let ?beh = "\<lambda>c a (l :: call_log). (a :: args)\<lparr>success := (c = opcode_get)\<rparr>"
  let ?r = "dispatch (brick_table (log_impl ?beh)) opcode_gettranswait ''x'' (zero_args, [])"
  have put: "(opcode_put, snd (snd ?r ! 2)) \<in> set (snd ?r)"
    by (simp add: dispatch_log combined_defs Let_def zero_args_def less_version_t_def)
  show ?thesis
    using gettranswait_undo_op_code [of ?beh "''x''" zero_args "fst ?r" "snd ?r"
        "snd (snd ?r ! 2)", OF _ _ put]
    by (simp add: Let_def case_prod_beta)
qed

text \<open>the default gadrcreatetranswaitpadr, documented as the write to a pipe, asks for an
  address as a reader and transfers in direction direct_read.\<close>

theorem pipe_write_default_reads:
  assumes "dispatch (brick_table (log_impl beh)) opcode_gadrcreatetranswaitpadr p (a, []) = (a', l)"
    and "(c, b) \<in> set l"
  shows "(c = opcode_gadr \<longrightarrow> reader b) \<and> (c = opcode_trans \<longrightarrow> direction b = direct_read)"
  using assms
  by (auto simp: dispatch_log combined_defs Let_def split: if_splits)

theorem pipe_write_default_reads_witness:
  "let (a', l) = dispatch (brick_table (log_impl (\<lambda>c a l. a\<lparr>success := True\<rparr>)))
        opcode_gadrcreatetranswaitpadr ''x'' (zero_args, []) in
     fst (l ! 2) = opcode_trans \<and> direction (snd (l ! 2)) = direct_read"
proof -
  let ?beh = "\<lambda>c a (l :: call_log). (a :: args)\<lparr>success := True\<rparr>"
  let ?r = "dispatch (brick_table (log_impl ?beh)) opcode_gadrcreatetranswaitpadr ''x''
     (zero_args, [])"
  have trans: "(opcode_trans, snd (snd ?r ! 2)) \<in> set (snd ?r)"
    and fst: "fst (snd ?r ! 2) = opcode_trans"
    by (simp_all add: dispatch_log combined_defs Let_def zero_args_def)
  show ?thesis
    using pipe_write_default_reads [of ?beh "''x''" zero_args "fst ?r" "snd ?r", OF _ trans] fst
    by (simp add: Let_def case_prod_beta)
qed

text \<open>a default gadrtranswaitdeletepadr that ends after its transfer with success reported
  has moved a different number of bytes than it asked for: the range is then neither deleted
  nor given back although the caller sees success.\<close>

theorem short_transfer_reported_as_success:
  assumes "dispatch (brick_table (log_impl beh)) opcode_gadrtranswaitdeletepadr p (a, []) = (a', l)"
    and "success a'" and "opcode_padr \<notin> fst ` set l"
  shows "ucast (phys_len a') \<noteq> log_len a' \<and>
         map fst l = [opcode_gadr, opcode_trans, opcode_wait]"
  using assms
  by (auto simp: dispatch_log combined_defs Let_def split: if_splits)

theorem short_transfer_reported_as_success_witness:
  "let beh = (\<lambda>c a l. a\<lparr>success := True, phys_len := (if c = opcode_wait then 1 else phys_len a)\<rparr>);
       (a', l) = dispatch (brick_table (log_impl beh)) opcode_gadrtranswaitdeletepadr ''x''
          (zero_args\<lparr>phys_len := 8\<rparr>, [])
   in success a' \<and> map fst l = [opcode_gadr, opcode_trans, opcode_wait]"
proof -
  let ?beh = "\<lambda>c a (l :: call_log). (a :: args)
     \<lparr>success := True, phys_len := (if c = opcode_wait then 1 else phys_len a)\<rparr>"
  let ?r = "dispatch (brick_table (log_impl ?beh)) opcode_gadrtranswaitdeletepadr ''x''
     (zero_args\<lparr>phys_len := 8\<rparr>, [])"
  have s: "success (fst ?r)" and n: "opcode_padr \<notin> fst ` set (snd ?r)"
    by (simp_all add: dispatch_log combined_defs Let_def zero_args_def)
  show ?thesis
    using s short_transfer_reported_as_success [of ?beh "''x''" "zero_args\<lparr>phys_len := 8\<rparr>"
        "fst ?r" "snd ?r", OF _ s n]
    by (simp add: Let_def case_prod_beta)
qed

end
