(* ===== verification/Ath_Stdio.thy ===== *)
theory Ath_Stdio
  imports Nest_Ops Numerals
begin

text \<open>
  Formatted output (\<^verbatim>\<open>src/trunk/src/ath_stdio.c\<close>, \<^verbatim>\<open>src/trunk/src/ath_stdio.h\<close>).

  A variable argument list is a list of typed values; reading a value of another type, running
  out of values, or indexing one of the character tables beyond its end is \<open>None\<close>.  The result
  of \<^verbatim>\<open>athvsnprintf\<close> is modelled by the bytes written between \<^verbatim>\<open>buf\<close> and the returned pointer; the
  final NUL is written at that pointer.
\<close>

section \<open>The conversions\<close>

datatype va = A_int int | A_str string | A_paddr u32 | A_addr u64 | A_mand u32

text \<open>
  What one conversion writes: a single character, a string with the length limit of \<^verbatim>\<open>%S\<close>, a word
  of the success table, or a number printed by \<^verbatim>\<open>snprintf\<close>.
\<close>

datatype piece = P_char char | P_str string nat | P_word string | P_num string

definition upper :: "char \<Rightarrow> char" where
  "upper c = (if 97 \<le> chr_nat c \<and> chr_nat c \<le> 122 then char_of (chr_nat c - 32) else c)"

definition letter :: "char \<Rightarrow> string \<Rightarrow> string" where
  "letter c s = (if 65 \<le> chr_nat c \<and> chr_nat c \<le> 90 then map upper s else s)"

text \<open>The guard \<^verbatim>\<open>n < 0 || n > sizeof tab\<close> of the table conversions and the access \<^verbatim>\<open>tab[n]\<close>.\<close>

definition tab_at :: "string \<Rightarrow> int \<Rightarrow> char option" where
  "tab_at tab n =
     (let n = (if n < 0 \<or> int (length tab) < n then int (length tab) else n) in
      if nat n < length tab then Some (tab ! nat n) else None)"

definition tab_of :: "char \<Rightarrow> string" where
  "tab_of d =
     (if d = CHR ''b'' then ''ft'' else if d = CHR ''B'' then ''FT''
      else if d = CHR ''y'' then ''ny'' else if d = CHR ''Y'' then ''NY''
      else if d = CHR ''k'' then ''-rw?'' else if d = CHR ''K'' then ''-RW?''
      else if d = CHR ''a'' then ''atw'' else if d = CHR ''A'' then ''ATW''
      else if d = CHR ''d'' then ''rw'' else if d = CHR ''D'' then ''RW''
      else if d = CHR ''r'' then ''-bnu'' else if d = CHR ''R'' then ''-BNU''
      else if d = CHR ''v'' then ''?on'' else if d = CHR ''V'' then ''?ON'' else [])"

text \<open>The cases of the \<^verbatim>\<open>switch\<close>; all other characters take the \<^verbatim>\<open>default\<close>.\<close>

definition conv_chars :: string where
  "conv_chars = ''cSsbByYoOixXlLpPmkKaAdDrRvV%''"

definition fetch :: "char \<Rightarrow> va list \<Rightarrow> (piece \<times> va list) option" where
  "fetch d vs =
     (if d = CHR ''%'' then Some (P_char d, vs)
      else case vs of
        A_int n # vs \<Rightarrow>
          (if d = CHR ''c'' then Some (P_char (char_of (nat (n mod 256))), vs)
           else if tab_of d \<noteq> [] then map_option (\<lambda>c. (P_char c, vs)) (tab_at (tab_of d) n)
           else if d = CHR ''o'' \<or> d = CHR ''O'' then
             (let n = (if n < 0 \<or> 1 < n then 1 else n) in
              Some (P_word (letter d (if n = 0 then ''fail'' else ''succ'')), vs))
           else if d = CHR ''i'' then Some (P_num (show_int n), vs)
           else if d = CHR ''x'' \<or> d = CHR ''X'' then
             Some (P_num (letter d (show_nat 16 (nat (n mod 2 ^ 32)))), vs)
           else None)
      | A_str s # vs \<Rightarrow>
          (if d = CHR ''s'' then Some (P_str s (2 ^ 32 - 1), vs) else None)
      | A_paddr p # vs \<Rightarrow>
          (if d = CHR ''S'' then
             (case vs of A_str s # vs \<Rightarrow> Some (P_str s (unat p), vs) | _ \<Rightarrow> None)
           else if d = CHR ''p'' \<or> d = CHR ''P'' then
             Some (P_num (letter d (show_nat 16 (unat p))), vs)
           else None)
      | A_addr a # vs \<Rightarrow>
          (if d = CHR ''l'' \<or> d = CHR ''L'' then
             Some (P_num (letter d (show_nat 16 (unat a))), vs)
           else None)
      | A_mand m # vs \<Rightarrow>
          (if d = CHR ''m'' then Some (P_num (show_int (sint m)), vs) else None)
      | [] \<Rightarrow> None)"

section \<open>Writing within the buffer\<close>

text \<open>The loop \<^verbatim>\<open>while (*s && paddr_plen-- > 0 && bufsize-- > 1)\<close>.\<close>

fun str_loop :: "string \<Rightarrow> nat \<Rightarrow> int \<Rightarrow> string \<times> int" where
  "str_loop [] p b = ([], b)"
| "str_loop (c # s) p b =
     (if p = 0 then ([], b)
      else if b \<le> 1 then ([], b - 1)
      else let (out, b') = str_loop s (p - 1) (b - 1) in (c # out, b'))"

text \<open>
  \<^verbatim>\<open>snprintf\<close> leaves at most \<^verbatim>\<open>bufsize - 1\<close> characters and a NUL; the code then advances by the
  length of the number, at most by \<^verbatim>\<open>bufsize\<close>.
\<close>

definition emit :: "int \<Rightarrow> piece \<Rightarrow> string \<times> int" where
  "emit b p =
     (case p of
        P_char c \<Rightarrow> ([c], b - 1)
      | P_str s k \<Rightarrow> str_loop s k b
      | P_word s \<Rightarrow> (take (nat b) s, b - int (length (take (nat b) s)))
      | P_num s \<Rightarrow>
          let n = int (length s); n = (if b < n then b else n) in
          (take (nat n) (take (nat (b - 1)) s @ [NUL]), b - n))"

fun ath_loop :: "string \<Rightarrow> int \<Rightarrow> va list \<Rightarrow> string option" where
  "ath_loop [] b vs = Some []"
| "ath_loop (c # f) b vs =
     (if b \<le> 0 then Some []
      else if c \<noteq> CHR ''%'' then map_option ((#) c) (ath_loop f (b - 1) vs)
      else case f of
        [] \<Rightarrow> Some [c]
      | d # f' \<Rightarrow>
          if d \<in> set conv_chars then
            (case fetch d vs of
               None \<Rightarrow> None
             | Some (p, vs) \<Rightarrow> (case emit b p of (s, b) \<Rightarrow> map_option ((@) s) (ath_loop f' b vs)))
          else map_option ((#) c) (ath_loop f (b - 1) vs))"

definition athvsnprintf :: "int \<Rightarrow> string \<Rightarrow> va list \<Rightarrow> string option" where
  "athvsnprintf bufsize fmt vs = ath_loop fmt (bufsize - 1) vs"

definition athsnprintf :: "int \<Rightarrow> string \<Rightarrow> va list \<Rightarrow> string option" where
  "athsnprintf bufsize fmt vs = athvsnprintf bufsize fmt vs"

section \<open>Printing to connectors\<close>

text \<open>
  \<^verbatim>\<open>athnestprintf\<close> and \<^verbatim>\<open>athpipeprintf\<close> call the operation of the connected output with arguments
  whose other fields are those of an uninitialized structure (\<open>junk\<close>).  \<open>buf\<close> is the address of
  the local text buffer; its contents are the first component of the state the operation sees.
\<close>

definition STRBUF_SIZE :: int where
  "STRBUF_SIZE = 1024"

definition athnestprintf ::
  "(string \<times> 'w) op_table \<Rightarrow> args \<Rightarrow> paddr_t \<Rightarrow> addr_t \<Rightarrow> mand_t \<Rightarrow> string \<Rightarrow> va list \<Rightarrow> 'w \<Rightarrow>
   (plen_t \<times> 'w) option" where
  "athnestprintf ops junk buf addr mand fmt vs w =
     (case athvsnprintf STRBUF_SIZE fmt vs of
        None \<Rightarrow> None
      | Some strbuf \<Rightarrow>
          let a = junk\<lparr>success := False, log_addr := addr, log_len := of_nat (length strbuf),
                phys_addr := buf, mandate := mand, direction := direct_write,
                prio := prio_normal, op_code := opcode_transwait, sect_code := 0\<rparr>;
              (a, _, w) = ops 0 opcode_transwait [] (a, strbuf, w) in
          Some (if success a then phys_len a else 0, w))"

definition athpipeprintf ::
  "(string \<times> 'w) op_table \<Rightarrow> args \<Rightarrow> paddr_t \<Rightarrow> mand_t \<Rightarrow> string \<Rightarrow> va list \<Rightarrow> 'w \<Rightarrow>
   (plen_t \<times> 'w) option" where
  "athpipeprintf ops junk buf mand fmt vs w =
     (case athvsnprintf STRBUF_SIZE fmt vs of
        None \<Rightarrow> None
      | Some strbuf \<Rightarrow>
          let a = junk\<lparr>success := False, phys_addr := buf, phys_len := of_nat (length strbuf),
                mandate := mand, action := action_wait, melt := True,
                op_code := opcode_gadrcreatetranswaitpadr, sect_code := 0\<rparr>;
              (a, _, w) = ops 0 opcode_gadrcreatetranswaitpadr [] (a, strbuf, w) in
          Some (if success a then phys_len a else 0, w))"

section \<open>Bounds\<close>

lemma str_loop_bound:
  "0 < b \<Longrightarrow> int (length (fst (str_loop s p b))) + snd (str_loop s p b) \<le> b \<and> 0 \<le> snd (str_loop s p b)"
  by (induction s p b rule: str_loop.induct) (auto split: prod.splits)

lemma emit_bound:
  assumes "0 < b" "emit b p = (s, b')"
  shows "int (length s) + b' \<le> b \<and> 0 \<le> b'"
proof (cases p)
  case (P_str t k)
  with assms str_loop_bound [of b t k] show ?thesis by (simp add: emit_def)
qed (use assms in \<open>auto simp: emit_def Let_def split: if_splits\<close>)

lemma ath_loop_cases:
  fixes b :: int
  obtains "b \<le> 0" | "0 < b" "c \<noteq> CHR ''%''" | "0 < b" "c = CHR ''%''" "f = []"
    | d f' where "0 < b" "c = CHR ''%''" "f = d # f'" "d \<notin> set conv_chars"
    | d f' where "0 < b" "c = CHR ''%''" "f = d # f'" "d \<in> set conv_chars"
  by (cases "0 < b"; cases "c = CHR ''%''"; cases f; cases "hd f \<in> set conv_chars") fastforce+

lemma ath_loop_plain:
  "0 < b \<Longrightarrow> c \<noteq> CHR ''%'' \<Longrightarrow> ath_loop (c # f) b vs = map_option ((#) c) (ath_loop f (b - 1) vs)"
  by simp

lemma ath_loop_default:
  "0 < b \<Longrightarrow> d \<notin> set conv_chars \<Longrightarrow>
   ath_loop (CHR ''%'' # d # f) b vs = map_option ((#) CHR ''%'') (ath_loop (d # f) (b - 1) vs)"
  by (simp only: ath_loop.simps(2) [of "CHR ''%''"]) simp

lemma ath_loop_conv:
  "0 < b \<Longrightarrow> d \<in> set conv_chars \<Longrightarrow> ath_loop (CHR ''%'' # d # f) b vs =
     (case fetch d vs of
        None \<Rightarrow> None
      | Some (p, vs) \<Rightarrow> (case emit b p of (s, b) \<Rightarrow> map_option ((@) s) (ath_loop f b vs)))"
  by (simp only: ath_loop.simps(2) [of "CHR ''%''"]) simp

lemma ath_loop_bound: "ath_loop f b vs = Some out \<Longrightarrow> 0 \<le> b \<Longrightarrow> int (length out) \<le> b"
proof (induction f b vs arbitrary: out rule: ath_loop.induct)
  case (2 c f b vs)
  show ?case
  proof (cases rule: ath_loop_cases [where b = b and c = c and f = f])
    case (5 d f')
    then obtain p vs' where p: "fetch d vs = Some (p, vs')"
      using "2.prems"(1) by (cases "fetch d vs") auto
    obtain s b' where s: "emit b p = (s, b')" by fastforce
    from 5 p s "2.prems"(1) obtain o' where o': "ath_loop f' b' vs' = Some o'" "out = s @ o'"
      by auto
    have "\<not> b \<le> 0" "\<not> c \<noteq> CHR ''%''" using 5 by auto
    from "2.IH"(2) [OF this 5(3,4) p refl s [symmetric] o'(1)] emit_bound [OF 5(1) s] o'(2)
    show ?thesis by simp
  next
    case (4 d f')
    then obtain o' where o': "ath_loop f (b - 1) vs = Some o'" "out = c # o'"
      using "2.prems"(1) ath_loop_default [OF 4(1,4)] by auto
    have "\<not> b \<le> 0" "\<not> c \<noteq> CHR ''%''" using 4 by auto
    from "2.IH"(3) [OF this 4(3,4) o'(1)] o'(2) 4(1) show ?thesis by simp
  next
    case 2
    then obtain o' where o': "ath_loop f (b - 1) vs = Some o'" "out = c # o'"
      using "2.prems"(1) ath_loop_plain by auto
    have "\<not> b \<le> 0" using 2 by simp
    from "2.IH"(1) [OF this 2(2) o'(1)] o'(2) 2(1) show ?thesis by simp
  qed (use "2.prems" in auto)
qed simp

text \<open>C27: \<^verbatim>\<open>athvsnprintf\<close> never writes outside its buffer: for a positive \<^verbatim>\<open>bufsize\<close> the text and the NUL
  at the returned pointer lie within \<^verbatim>\<open>bufsize\<close> bytes, whatever the format and the arguments.\<close>

theorem athvsnprintf_in_bounds:
  assumes "athvsnprintf bufsize fmt vs = Some out" and "0 < bufsize"
  shows "int (length out) < bufsize"
  using ath_loop_bound [of fmt "bufsize - 1" vs out] assms by (simp add: athvsnprintf_def)

theorem athvsnprintf_in_bounds_witness:
  "int (length ''addr=1'') < (8 :: int)"
proof -
  have "athvsnprintf 8 ''addr=%s'' [A_str ''1f2a3b''] = Some ''addr=1''"
    by (simp add: athvsnprintf_def conv_chars_def fetch_def emit_def tab_of_def)
  then show ?thesis by (rule athvsnprintf_in_bounds) simp
qed

section \<open>What is printed\<close>

text \<open>The text of a format without a limit.\<close>

fun piece_text :: "piece \<Rightarrow> string" where
  "piece_text (P_char c) = [c]"
| "piece_text (P_str s k) = take k s"
| "piece_text (P_word s) = s"
| "piece_text (P_num s) = s"

fun render :: "string \<Rightarrow> va list \<Rightarrow> string option" where
  "render [] vs = Some []"
| "render (c # f) vs =
     (if c \<noteq> CHR ''%'' then map_option ((#) c) (render f vs)
      else case f of
        [] \<Rightarrow> Some [c]
      | d # f' \<Rightarrow>
          if d \<in> set conv_chars then
            (case fetch d vs of
               None \<Rightarrow> None
             | Some (p, vs) \<Rightarrow> map_option ((@) (piece_text p)) (render f' vs))
          else map_option ((#) c) (render f vs))"

lemma str_loop_fits: "int (length (take k s)) < b \<Longrightarrow> str_loop s k b = (take k s, b - int (length (take k s)))"
proof (induction s k b rule: str_loop.induct)
  case (2 c s p b)
  then show ?case by (cases p) auto
qed simp

lemma emit_fits:
  "int (length (piece_text p)) < b \<Longrightarrow> emit b p = (piece_text p, b - int (length (piece_text p)))"
proof (cases p)
  case (P_str s k)
  then show "int (length (piece_text p)) < b \<Longrightarrow> ?thesis"
    using str_loop_fits [of k s b] by (simp add: emit_def)
qed (auto simp: emit_def Let_def)

lemma ath_loop_fits: "render f vs = Some t \<Longrightarrow> int (length t) < b \<Longrightarrow> ath_loop f b vs = Some t"
proof (induction f b vs arbitrary: t rule: ath_loop.induct)
  case (2 c f b vs)
  show ?case
  proof (cases rule: ath_loop_cases [where b = b and c = c and f = f])
    case (5 d f')
    then obtain p vs' t' where p: "fetch d vs = Some (p, vs')"
      and t': "render f' vs' = Some t'" "t = piece_text p @ t'"
      using "2.prems"(1) by (auto split: option.splits)
    have e: "emit b p = (piece_text p, b - int (length (piece_text p)))"
      using "2.prems"(2) t'(2) by (intro emit_fits) simp
    have "\<not> b \<le> 0" "\<not> c \<noteq> CHR ''%''" using 5 by auto
    from "2.IH"(2) [OF this 5(3,4) p refl e [symmetric] t'(1)] "2.prems"(2) t'(2) e p 5
    show ?thesis by simp
  next
    case (4 d f')
    then obtain t' where t': "render f vs = Some t'" "t = c # t'"
      using "2.prems"(1) render.simps(2) [of c f vs] by auto
    have "\<not> b \<le> 0" "\<not> c \<noteq> CHR ''%''" using 4 by auto
    from "2.IH"(3) [OF this 4(3,4) t'(1)] t'(2) "2.prems"(2) ath_loop_default [OF 4(1,4)] 4
    show ?thesis by simp
  next
    case 2
    then obtain t' where t': "render f vs = Some t'" "t = c # t'"
      using "2.prems"(1) by auto
    have "\<not> b \<le> 0" using 2 by simp
    from "2.IH"(1) [OF this 2(2) t'(1)] t'(2) "2.prems"(2) 2 show ?thesis by simp
  qed (use "2.prems" in auto)
qed simp

text \<open>When the buffer has room for the whole text, the NUL and one more byte, \<^verbatim>\<open>athvsnprintf\<close> writes
  exactly the text that the format describes.\<close>

theorem athvsnprintf_complete:
  assumes "render fmt vs = Some t" and "int (length t) + 1 < bufsize"
  shows "athvsnprintf bufsize fmt vs = Some t"
  using ath_loop_fits [OF assms(1), of "bufsize - 1"] assms(2) by (simp add: athvsnprintf_def)

theorem athvsnprintf_complete_witness:
  "athvsnprintf 40 ''%s%% %k %L:%i'' [A_str ''ab'', A_int 2, A_addr 510, A_int (- 7)] =
     Some ''ab% w 1FE:-7''"
proof -
  have "render ''%s%% %k %L:%i'' [A_str ''ab'', A_int 2, A_addr 510, A_int (- 7)] = Some ''ab% w 1FE:-7''"
    by (simp add: conv_chars_def fetch_def tab_of_def tab_at_def letter_def upper_def show_int_def
        show_nat_def digits.simps char_of_eq_iff take_bit_eq_mod)
  then show ?thesis by (rule athvsnprintf_complete) simp
qed

text \<open>The guard of the table conversions protects nothing: an argument outside the table is
  replaced by the size of the table, and the table is then read one element beyond its end.  Such a
  conversion succeeds exactly when the argument is a valid index.\<close>

theorem table_guard_reads_beyond:
  assumes "d \<in> set ''bByYkKaAdDrRvV''" and "1 < bufsize"
  shows "athvsnprintf bufsize [CHR ''%'', d] [A_int n] =
     (if 0 \<le> n \<and> nat n < length (tab_of d) then Some [tab_of d ! nat n] else None)"
proof -
  have "d \<in> set conv_chars" "tab_of d \<noteq> []" "d \<noteq> CHR ''c''" "d \<noteq> CHR ''%''"
    using assms(1) by (auto simp: conv_chars_def tab_of_def)
  then show ?thesis
    using assms(2) by (auto simp: athvsnprintf_def fetch_def tab_at_def emit_def Let_def)
qed

theorem table_guard_reads_beyond_witness:
  "athvsnprintf 10 ''%k'' [A_int 4] = None"
  using table_guard_reads_beyond [of "CHR ''k''" 10 4] by (simp add: tab_of_def)

text \<open>A number that does not fit leaves a NUL inside the text: the returned pointer is one beyond
  the terminator that \<^verbatim>\<open>snprintf\<close> wrote, so the last character counted is a NUL, contrary to the
  header, which promises a pointer to the terminating NUL.\<close>

theorem cut_number_embeds_nul:
  assumes "1 < bufsize" and "bufsize - 1 \<le> int (length (show_nat 16 (unat a)))"
  shows "\<exists>ds. athvsnprintf bufsize ''%l'' [A_addr a] = Some (ds @ [NUL]) \<and>
     ds = take (nat (bufsize - 2)) (show_nat 16 (unat a)) \<and> int (length ds) = bufsize - 2"
proof -
  let ?d = "show_nat 16 (unat a)"
  have n: "length (take (nat (bufsize - 2)) ?d) = nat (bufsize - 2)" using assms by simp
  have "emit (bufsize - 1) (P_num ?d) = (take (nat (bufsize - 2)) ?d @ [NUL], 0)"
    using assms n by (auto simp: emit_def Let_def intro!: take_all)
  then show ?thesis
    using assms n by (simp add: athvsnprintf_def conv_chars_def fetch_def letter_def tab_of_def)
qed

theorem cut_number_embeds_nul_witness:
  "athvsnprintf 4 ''%l'' [A_addr 0x12345] = Some (''12'' @ [NUL])"
proof -
  have "show_nat 16 (unat (0x12345 :: u64)) = ''12345''"
    by (simp add: show_nat_def digits.simps)
  with cut_number_embeds_nul [of 4 "0x12345"] show ?thesis by simp
qed

end
