(* ===== verification/Bin_Records.thy ===== *)
theory Bin_Records
  imports Bin_Strat Ath_Stdio
begin

text \<open>
  What the conversion of \<^verbatim>\<open>binstrat.c\<close> leaves in the store: the representation of abstract
  attributes, connection targets, connectors and bricks by linked records, and the proof that
  converting a printed description yields records that represent it.
\<close>

section \<open>Words, strings and addresses in detail\<close>

text \<open>The C string at an address.\<close>

fun str_at :: "mem \<Rightarrow> nat \<Rightarrow> string \<Rightarrow> bool" where
  "str_at m p [] \<longleftrightarrow> m p = Some (B_char NUL)"
| "str_at m p (c # s) \<longleftrightarrow> m p = Some (B_char c) \<and> str_at m (p + 1) s"

lemma str_at_stable:
  "str_at m p s \<Longrightarrow> (\<forall>a. p \<le> a \<and> a \<le> p + length s \<longrightarrow> m' a = m a) \<Longrightarrow> str_at m' p s"
  by (induction s arbitrary: p) auto

lemma str_at_below: "str_at m p s \<Longrightarrow> same_below b m m' \<Longrightarrow> p + length s < b \<Longrightarrow> str_at m' p s"
  by (erule str_at_stable) (simp add: same_below_def)

definition is_id :: "string \<Rightarrow> bool" where
  "is_id w \<longleftrightarrow> w \<noteq> [] \<and> (\<forall>c \<in> set w. id_table c)"

lemma unat_minus_1: "(n :: u32) \<noteq> 0 \<Longrightarrow> unat (n - 1) = unat n - 1"
  by (rule unat_minus_one)

lemma unat_sub_of_nat: "k \<le> unat (n :: u32) \<Longrightarrow> unat (n - of_nat k) = unat n - k"
proof -
  assume le: "k \<le> unat n"
  then have "unat (of_nat k :: u32) = k" using unat_lt2p32 [of n] by (simp add: unat_of_nat)
  with le show ?thesis by (simp add: unat_sub word_le_nat_alt)
qed

lemma word_loop_id:
  "\<forall>c \<in> set w. id_table c \<Longrightarrow> \<not> id_table (peek rest) \<Longrightarrow> length w \<le> unat n \<Longrightarrow>
   \<exists>m'. word_loop m (w @ rest) b n = (m', Some (rest, b + length w, n - of_nat (length w))) \<and>
     same_below b m m' \<and> (\<forall>i < length w. m' (b + i) = Some (B_char (w ! i)))"
proof (induction w arbitrary: m b n)
  case Nil
  then show ?case by (cases rest) (auto simp: same_below_def)
next
  case (Cons c w)
  then have nz: "n \<noteq> 0" by auto
  then have n: "n \<noteq> 0" "length w \<le> unat (n - 1)" using Cons.prems(3) by (simp_all add: unat_minus_1)
  have "\<forall>c \<in> set w. id_table c" using Cons.prems(1) by simp
  from Cons.IH [OF this Cons.prems(2) n(2), of "m(b \<mapsto> B_char c)" "b + 1"]
  obtain m' where m': "word_loop (m(b \<mapsto> B_char c)) (w @ rest) (b + 1) (n - 1) =
      (m', Some (rest, b + 1 + length w, n - 1 - of_nat (length w)))"
    "same_below (b + 1) (m(b \<mapsto> B_char c)) m'" "\<forall>i < length w. m' (b + 1 + i) = Some (B_char (w ! i))"
    by blast
  then have "\<forall>i < length (c # w). m' (b + i) = Some (B_char ((c # w) ! i))"
    by (auto simp: same_below_def nth_Cons split: nat.splits)
  with m' Cons.prems n show ?case
    by (auto simp: same_below_def algebra_simps)
qed

lemma str_at_nth:
  "(\<forall>i < length s. m (p + i) = Some (B_char (s ! i))) \<Longrightarrow> m (p + length s) = Some (B_char NUL) \<Longrightarrow> str_at m p s"
proof (induction s arbitrary: p)
  case (Cons c s)
  have "m p = Some (B_char c)" using Cons.prems(1) by (metis add_0_right length_greater_0_conv list.distinct(1) nth_Cons_0)
  moreover have "\<forall>i < length s. m (p + 1 + i) = Some (B_char (s ! i))"
    using Cons.prems(1) by (metis Suc_less_eq add.assoc add.commute length_Cons nth_Cons_Suc plus_1_eq_Suc)
  ultimately show ?case using Cons.IH [of "p + 1"] Cons.prems(2) by simp
qed simp

lemma convert_word_id:
  assumes "is_id w" "\<not> id_table (peek rest)" "length w < unat n"
  obtains m' where "convert_word m (w @ rest) b n =
      (m', Some (rest, b + length w + 1, n - of_nat (length w + 1)))"
    "same_below b m m'" "str_at m' b w"
proof -
  obtain m1 where 1: "word_loop m (w @ rest) b n = (m1, Some (rest, b + length w, n - of_nat (length w)))"
    "same_below b m m1" "\<forall>i < length w. m1 (b + i) = Some (B_char (w ! i))"
    using word_loop_id [of w rest n m b] assms by (auto simp: is_id_def)
  have "unat (n - of_nat (length w)) \<noteq> 0" using assms(3) by (simp add: unat_sub_of_nat)
  then have nz: "n - of_nat (length w) \<noteq> 0" by (metis unat_0)
  have "id_table (peek (w @ rest))" using assms(1) by (auto simp: is_id_def peek_hd)
  with 1 nz have "convert_word m (w @ rest) b n =
      (m1(b + length w \<mapsto> B_char NUL), Some (rest, b + length w + 1, n - of_nat (length w + 1)))"
    by (simp add: convert_word_def algebra_simps)
  moreover have "same_below b m (m1(b + length w \<mapsto> B_char NUL))" using 1(2) by (simp add: same_below_def)
  moreover have "str_at (m1(b + length w \<mapsto> B_char NUL)) b w" using 1(3) by (intro str_at_nth) auto
  ultimately show thesis by (rule that)
qed

lemma convert_string_printable:
  "\<forall>c \<in> set w. printable c \<Longrightarrow> \<not> printable (peek rest) \<Longrightarrow> length w < unat n \<Longrightarrow>
   \<exists>m'. convert_string m (w @ rest) b n = (m', Some (rest, b + length w + 1, n - of_nat (length w + 1))) \<and>
     same_below b m m' \<and> str_at m' b w"
proof (induction w arbitrary: m b n)
  case Nil
  then show ?case by (cases rest) (auto simp: same_below_def)
next
  case (Cons c w)
  have nz: "n \<noteq> 0" using Cons.prems(3) by auto
  have "Suc 0 < unat n" using Cons.prems(3) by simp
  then have "\<not> n \<le> 1" by (simp add: word_le_nat_alt)
  have n: "length w < unat (n - 1)" using Cons.prems(3) nz by (simp add: unat_minus_1)
  have "\<forall>c \<in> set w. printable c" using Cons.prems(1) by simp
  from Cons.IH [OF this Cons.prems(2) n, of "m(b \<mapsto> B_char c)" "b + 1"]
  obtain m' where m': "convert_string (m(b \<mapsto> B_char c)) (w @ rest) (b + 1) (n - 1) =
      (m', Some (rest, b + 1 + length w + 1, n - 1 - of_nat (length w + 1)))"
    "same_below (b + 1) (m(b \<mapsto> B_char c)) m'" "str_at m' (b + 1) w"
    by blast
  with Cons.prems(1) \<open>\<not> n \<le> 1\<close> show ?case by (auto simp: same_below_def algebra_simps)
qed

text \<open>The words of a composed identifier.\<close>

fun join_dots :: "string list \<Rightarrow> string" where
  "join_dots [] = []"
| "join_dots [w] = w"
| "join_dots (w # v # ws) = w @ CHR ''.'' # join_dots (v # ws)"

lemma not_id_dot [simp]: "\<not> id_table CHR ''.''"
  by (simp add: table_defs)

lemma composed_words:
  assumes "ws \<noteq> []" "\<forall>w \<in> set ws. is_id w \<and> length w < unat n"
    "\<not> id_table (peek rest)" "peek rest \<noteq> CHR ''.''"
  shows "\<exists>m'. composed_loop m (join_dots ws @ rest) b n =
      (m', Some (rest, b + length (last ws) + 1, n - of_nat (length (last ws) + 1))) \<and>
      same_below b m m' \<and> str_at m' b (last ws)"
  using assms
proof (induction ws arbitrary: m rule: join_dots.induct)
  case (2 w)
  then obtain m' where m': "convert_word m (w @ rest) b n =
      (m', Some (rest, b + length w + 1, n - of_nat (length w + 1)))" "same_below b m m'" "str_at m' b w"
    using convert_word_id [of w rest n m b] by auto
  have "composed_loop m (w @ rest) b n = (m', Some (rest, b + length w + 1, n - of_nat (length w + 1)))"
    using m'(1) 2 by (subst composed_loop.simps) simp
  with m' show ?case by simp
next
  case (3 w v ws)
  let ?r = "CHR ''.'' # join_dots (v # ws) @ rest"
  have "is_id w" "\<not> id_table (peek ?r)" "length w < unat n" using "3.prems" by simp_all
  from convert_word_id [OF this] obtain m1 where m1: "convert_word m (w @ ?r) b n =
      (m1, Some (?r, b + length w + 1, n - of_nat (length w + 1)))" "same_below b m m1"
    by metis
  have eq: "composed_loop m (w @ ?r) b n = composed_loop m1 (join_dots (v # ws) @ rest) b n"
    using m1(1) by (subst composed_loop.simps) simp
  from "3.IH" [of m1] "3.prems" obtain m' where
    "composed_loop m1 (join_dots (v # ws) @ rest) b n =
      (m', Some (rest, b + length (last (v # ws)) + 1, n - of_nat (length (last (v # ws)) + 1)))"
    "same_below b m1 m'" "str_at m' b (last (v # ws))"
    by (metis list.distinct(1) list.set_intros(2))
  with eq m1(2) same_below_trans [of b m m1 b m'] show ?case by (intro exI [of _ m']) simp
qed simp

lemma match_word_all: "\<forall>c \<in> set w. id_table c \<Longrightarrow> match_word (w @ r) w = (r, [])"
  by (induction w) (cases r; simp)+

lemma skip_word_match:
  "\<forall>c \<in> set w. id_table c \<Longrightarrow> \<not> id_table (peek r) \<Longrightarrow> skip_word (w @ r) (Some w) = Some r"
  by (simp add: skip_word_def match_word_all)

lemma foldl_digits_ge: "v \<le> foldl (\<lambda>a c. a * 16 + digit_val c) v ds"
proof (induction ds arbitrary: v)
  case (Cons c ds)
  have "v \<le> v * 16 + digit_val c" by simp
  also have "\<dots> \<le> foldl (\<lambda>a c. a * 16 + digit_val c) (v * 16 + digit_val c) ds" by (rule Cons.IH)
  finally show ?case by simp
qed simp

lemma logaddr_loop_digits:
  "\<forall>c \<in> set ds. is_hex c \<Longrightarrow> \<not> is_hex (peek rest) \<Longrightarrow>
   foldl (\<lambda>a c. a * 16 + digit_val c) v ds < 2 ^ 64 \<Longrightarrow>
   logaddr_loop (of_nat v) (ds @ rest) =
     (of_nat (foldl (\<lambda>a c. a * 16 + digit_val c) v ds), Some rest)"
proof (induction ds arbitrary: v)
  case Nil
  then show ?case by (cases rest) auto
next
  case (Cons c ds)
  have "v * 16 + digit_val c < 2 ^ 64"
    using Cons.prems(3) foldl_digits_ge [of "v * 16 + digit_val c" ds] by simp
  then have "v < 2 ^ 60" by simp
  then have "\<not> 2 ^ 63 \<le> (of_nat v :: u64)" by (simp add: word_le_nat_alt unat_of_nat)
  with Cons.prems Cons.IH [of "v * 16 + digit_val c"] show ?case by simp
qed

section \<open>Linked records\<close>

text \<open>
  \<open>chain node m p xs e\<close>: at \<open>p\<close> starts a null-terminated list of records for \<open>xs\<close>, all of them
  below \<open>e\<close>; \<open>node m p x q\<close> says that a record for \<open>x\<close> with its strings lies between \<open>p\<close> and \<open>q\<close>,
  apart from the link at \<open>p\<close> itself.
\<close>

fun chain :: "(mem \<Rightarrow> nat \<Rightarrow> 'x \<Rightarrow> nat \<Rightarrow> bool) \<Rightarrow> mem \<Rightarrow> nat \<Rightarrow> 'x list \<Rightarrow> nat \<Rightarrow> bool" where
  "chain node m p [] e \<longleftrightarrow> p = 0"
| "chain node m p (x # xs) e \<longleftrightarrow>
     0 < p \<and> (\<exists>q r. node m p x q \<and> p < q \<and> q \<le> e \<and> m p = Some (B_ptr r) \<and>
       (xs \<noteq> [] \<longrightarrow> q \<le> r) \<and> chain node m r xs e)"

definition node_stable :: "(mem \<Rightarrow> nat \<Rightarrow> 'x \<Rightarrow> nat \<Rightarrow> bool) \<Rightarrow> bool" where
  "node_stable node \<longleftrightarrow>
     (\<forall>m m' p x q. node m p x q \<and> (\<forall>a. p < a \<and> a < q \<longrightarrow> m' a = m a) \<longrightarrow> node m' p x q)"

lemma node_stableD:
  "node_stable node \<Longrightarrow> node m p x q \<Longrightarrow> (\<And>a. p < a \<Longrightarrow> a < q \<Longrightarrow> m' a = m a) \<Longrightarrow> node m' p x q"
  unfolding node_stable_def by blast

lemma chain_stable:
  "node_stable node \<Longrightarrow> chain node m p xs e \<Longrightarrow> (\<And>a. p \<le> a \<Longrightarrow> a < e \<Longrightarrow> m' a = m a) \<Longrightarrow>
   chain node m' p xs e"
proof (induction xs arbitrary: p)
  case (Cons x xs)
  from Cons.prems(2) obtain q r where qr: "0 < p" "node m p x q" "p < q" "q \<le> e"
    "m p = Some (B_ptr r)" "xs \<noteq> [] \<longrightarrow> q \<le> r" "chain node m r xs e" by auto
  have "node m' p x q"
    by (rule node_stableD [OF Cons.prems(1) qr(2)]) (use Cons.prems(3) qr(4) in simp)
  moreover have "m' p = Some (B_ptr r)" using Cons.prems(3) qr by auto
  moreover have "chain node m' r xs e"
  proof (cases "xs = []")
    case False
    then have "p \<le> r" using qr by simp
    then show ?thesis
      by (intro Cons.IH [OF Cons.prems(1) qr(7)]) (use Cons.prems(3) in simp)
  qed (use qr in simp)
  ultimately show ?case using qr by auto
qed simp

text \<open>
  A reader of printed records: \<open>conv\<close> reads back what \<open>pr\<close> prints, up to the white space that
  separates records, and fails on the texts \<open>stop\<close> that may follow the list.  \<open>cost x\<close> is what a
  record takes from the remaining size; \<open>room\<close> bytes must remain beyond that.
\<close>

locale printed_list = framed_list +
  fixes pr :: "'x \<Rightarrow> string" and cost :: "'x \<Rightarrow> nat" and ok :: "'x \<Rightarrow> bool" and room :: nat
    and node :: "mem \<Rightarrow> nat \<Rightarrow> 'x \<Rightarrow> nat \<Rightarrow> bool" and stop :: "string \<Rightarrow> bool"
  assumes conv_ws: "skip_whitespace s = skip_whitespace t \<Longrightarrow> conv m s b n = conv m t b n"
    and conv_pr: "ok x \<Longrightarrow> cost x + room \<le> unat n \<Longrightarrow> \<exists>m' s' b'.
      conv m (pr x @ rest) b n = (m', Some (s', b', n - of_nat (cost x))) \<and>
      skip_whitespace s' = skip_whitespace rest \<and> node m' b x b' \<and> m' b = Some (B_ptr b')"
    and conv_stop: "stop s \<Longrightarrow> \<exists>m'. conv m s b n = (m', None)"
    and stable: "node_stable node"
begin

definition list_text :: "'x list \<Rightarrow> string" where
  "list_text xs = concat (map pr xs)"

definition list_cost :: "'x list \<Rightarrow> nat" where
  "list_cost xs = sum_list (map cost xs)"

lemma loop_stop:
  assumes "stop rest" "skip_whitespace s = skip_whitespace rest"
  obtains m1 where "conv m s b n = (m1, None)" "same_below b m m1"
  using conv_stop [OF assms(1), of m b n] conv_ws [OF assms(2), of m b n] conv_frame by metis

lemma conv_next:
  assumes "ok x" "cost x + room \<le> unat n" "skip_whitespace s = skip_whitespace (pr x @ rest)"
  obtains m1 s1 b1 where "conv m s b n = (m1, Some (s1, b1, n - of_nat (cost x)))"
    "skip_whitespace s1 = skip_whitespace rest" "node m1 b x b1" "m1 b = Some (B_ptr b1)"
    "same_below b m m1" "b < b1"
  using conv_pr [OF assms(1,2), of m rest b] conv_ws [OF assms(3), of m b n] conv_frame by metis

lemma loop_printed:
  assumes "\<forall>x \<in> set xs. ok x" "list_cost xs + room \<le> unat n" "stop rest"
    "skip_whitespace s = skip_whitespace (list_text xs @ rest)"
    "node m p x b" "m p = Some (B_ptr b)" "0 < p" "p < b"
  shows "\<exists>m' s' b'. loop m s b n p = (m', s', b', n - of_nat (list_cost xs)) \<and>
     skip_whitespace s' = skip_whitespace rest \<and> chain node m' p (x # xs) b' \<and>
     same_below p m m' \<and> b \<le> b'"
  using assms
proof (induction xs arbitrary: m s b n p x)
  case Nil
  then have "skip_whitespace s = skip_whitespace rest" by (simp add: list_text_def)
  from loop_stop [OF Nil.prems(3) this] obtain m1 where
    m1: "conv m s b n = (m1, None)" "same_below b m m1" by metis
  let ?m = "m1(p \<mapsto> B_ptr 0)"
  have "loop m s b n p = (?m, s, b, n)" using m1(1) by (subst loop_eq) simp
  moreover have "node ?m p x b"
    using Nil.prems(5) m1(2) by (rule_tac node_stableD [OF stable]) (auto simp: same_below_def)
  moreover have "same_below p m ?m" using m1(2) Nil.prems(8) by (simp add: same_below_def)
  ultimately show ?case
    using Nil.prems \<open>skip_whitespace s = skip_whitespace rest\<close> by (auto simp: list_cost_def)
next
  case (Cons y ys)
  let ?rest = "list_text ys @ rest"
  have y: "ok y" "cost y + room \<le> unat n" using Cons.prems(1,2) by (auto simp: list_cost_def)
  have ws: "skip_whitespace s = skip_whitespace (pr y @ ?rest)"
    using Cons.prems(4) by (simp add: list_text_def)
  obtain m1 s1 b1 where 1: "conv m s b n = (m1, Some (s1, b1, n - of_nat (cost y)))"
    "skip_whitespace s1 = skip_whitespace ?rest" "node m1 b y b1" "m1 b = Some (B_ptr b1)"
    "same_below b m m1" "b < b1"
    by (rule conv_next [OF y ws])
  have n1: "list_cost ys + room \<le> unat (n - of_nat (cost y))"
    using Cons.prems(2) by (simp add: list_cost_def unat_sub_of_nat)
  have oks: "\<forall>x \<in> set ys. ok x" "0 < b" using Cons.prems(1,8) by simp_all
  obtain m' s' b' where 2: "loop m1 s1 b1 (n - of_nat (cost y)) b =
      (m', s', b', n - of_nat (cost y) - of_nat (list_cost ys))"
    "skip_whitespace s' = skip_whitespace rest" "chain node m' b (y # ys) b'"
    "same_below b m1 m'" "b1 \<le> b'"
    using Cons.IH [OF oks(1) n1 Cons.prems(3) 1(2,3,4) oks(2) 1(6)] by blast
  have same: "same_below b m m'" using same_below_trans [OF 1(5) 2(4)] by simp
  have "node m' p x b" using Cons.prems(5) same
    by (rule_tac node_stableD [OF stable]) (auto simp: same_below_def)
  moreover have "m' p = Some (B_ptr b)" using same Cons.prems(6,8) by (simp add: same_below_def)
  ultimately have "chain node m' p (x # y # ys) b'"
    using 2(3,5) 1(6) Cons.prems(7,8) by auto
  moreover have "loop m s b n p = (m', s', b', n - of_nat (list_cost (y # ys)))"
    using 1(1) 2(1) by (subst loop_eq) (simp add: list_cost_def algebra_simps)
  ultimately show ?case
    using 2 1(6) same Cons.prems(8) by (auto simp: same_below_def)
qed

lemma list_printed:
  assumes "\<forall>x \<in> set xs. ok x" "list_cost xs + room \<le> unat n" "stop rest"
    "skip_whitespace s = skip_whitespace (list_text xs @ rest)" "0 < b" "f < b"
  shows "\<exists>m' s' b' p. read_list m s b n f = (m', s', b', n - of_nat (list_cost xs)) \<and>
     skip_whitespace s' = skip_whitespace rest \<and> m' f = Some (B_ptr p) \<and> chain node m' p xs b' \<and>
     (xs \<noteq> [] \<longrightarrow> p = b) \<and> b \<le> b' \<and> (\<forall>a < b. a \<noteq> f \<longrightarrow> m' a = m a)"
proof (cases xs)
  case Nil
  then have "skip_whitespace s = skip_whitespace rest" using assms(4) by (simp add: list_text_def)
  from loop_stop [OF assms(3) this] obtain m1 where
    m1: "conv (m(f \<mapsto> B_ptr b)) s b n = (m1, None)" "same_below b (m(f \<mapsto> B_ptr b)) m1" by metis
  then have "read_list m s b n f = (m1(f \<mapsto> B_ptr 0), s, b, n)" by (simp add: list_eq)
  then show ?thesis using Nil m1(2) \<open>skip_whitespace s = skip_whitespace rest\<close>
    by (auto simp: list_cost_def same_below_def)
next
  case (Cons y ys)
  let ?rest = "list_text ys @ rest"
  have y: "ok y" "cost y + room \<le> unat n" using assms(1,2) Cons by (auto simp: list_cost_def)
  have ws: "skip_whitespace s = skip_whitespace (pr y @ ?rest)"
    using assms(4) Cons by (simp add: list_text_def)
  obtain m1 s1 b1 where 1: "conv (m(f \<mapsto> B_ptr b)) s b n = (m1, Some (s1, b1, n - of_nat (cost y)))"
    "skip_whitespace s1 = skip_whitespace ?rest" "node m1 b y b1" "m1 b = Some (B_ptr b1)"
    "same_below b (m(f \<mapsto> B_ptr b)) m1" "b < b1"
    by (rule conv_next [OF y ws])
  have oks: "\<forall>x \<in> set ys. ok x" using assms(1) Cons by simp
  have n1: "list_cost ys + room \<le> unat (n - of_nat (cost y))"
    using assms(2) Cons by (simp add: list_cost_def unat_sub_of_nat)
  obtain m' s' b' where 2: "loop m1 s1 b1 (n - of_nat (cost y)) b =
      (m', s', b', n - of_nat (cost y) - of_nat (list_cost ys))"
    "skip_whitespace s' = skip_whitespace rest" "chain node m' b (y # ys) b'"
    "same_below b m1 m'" "b1 \<le> b'"
    using loop_printed [OF oks n1 assms(3) 1(2,3,4) assms(5) 1(6)] by blast
  have "read_list m s b n f = (m', s', b', n - of_nat (list_cost xs))"
    using 1(1) 2(1) Cons by (simp add: list_eq list_cost_def algebra_simps)
  moreover have "m' f = Some (B_ptr b)" "\<forall>a < b. a \<noteq> f \<longrightarrow> m' a = m a"
    using 1(5) 2(4) assms(6) by (auto simp: same_below_def)
  ultimately show ?thesis using 2 1(6) Cons by auto
qed

end

section \<open>Attributes\<close>

type_synonym battr = "string \<times> string"

definition attr_node :: "mem \<Rightarrow> nat \<Rightarrow> battr \<Rightarrow> nat \<Rightarrow> bool" where
  "attr_node m p x e \<longleftrightarrow> (\<exists>q r. m (attr_name p) = Some (B_ptr q) \<and> m (attr_value p) = Some (B_ptr r) \<and>
     str_at m q (fst x) \<and> str_at m r (snd x) \<and> p + 8 < q \<and> q + length (fst x) < r \<and> r + length (snd x) < e)"

definition good_attr :: "battr \<Rightarrow> bool" where
  "good_attr x \<longleftrightarrow> is_id (fst x) \<and> (\<forall>c \<in> set (snd x). printable c) \<and> peek (snd x) \<noteq> CHR ''=''"

definition show_attr :: "string list \<Rightarrow> battr \<Rightarrow> string" where
  "show_attr pre x = ''    attr '' @ join_dots (pre @ [fst x]) @ ''='' @ snd x @ [NL]"

definition attr_cost :: "battr \<Rightarrow> nat" where
  "attr_cost x = length (fst x) + length (snd x) + 2"

definition words_room :: "string list \<Rightarrow> nat" where
  "words_room ws = sum_list (map length ws) + 1"

definition attr_stop :: "string \<Rightarrow> bool" where
  "attr_stop s \<longleftrightarrow> skip_word (skip_whitespace s) (Some ''attr'') = None"

lemma attr_node_stable: "node_stable attr_node"
  unfolding node_stable_def
proof (intro allI impI, elim conjE)
  fix m m' p x q
  assume n: "attr_node m p x q" and same: "\<forall>a. p < a \<and> a < q \<longrightarrow> m' a = m a"
  from n obtain i j where ij: "m (p + 4) = Some (B_ptr i)" "m (p + 8) = Some (B_ptr j)"
    "str_at m i (fst x)" "str_at m j (snd x)" "p + 8 < i" "i + length (fst x) < j" "j + length (snd x) < q"
    by (auto simp: attr_node_def)
  have "str_at m' i (fst x)" "str_at m' j (snd x)"
    using ij same by (auto intro!: str_at_stable [of m])
  moreover have "m' (p + 4) = m (p + 4)" "m' (p + 8) = m (p + 8)" using ij same by auto
  ultimately show "attr_node m' p x q" using ij by (auto simp: attr_node_def)
qed

lemma ws_simps [scan_simps]:
  "skip_whitespace (CHR '' '' # s) = skip_whitespace s" "skip_whitespace (NL # s) = skip_whitespace s"
  "\<not> ws_table c \<Longrightarrow> skip_whitespace (c # s) = c # s"
  by (simp_all add: skip_whitespace_def table_defs)

lemma id_not_ws: "id_table c \<Longrightarrow> \<not> ws_table c"
  by (auto simp: table_defs)

lemma skip_whitespace_stop: "\<not> ws_table (peek s) \<Longrightarrow> skip_whitespace s = s"
  by (cases s) (auto simp: skip_whitespace_def)

lemma skip_ws_ids: "is_id w \<Longrightarrow> skip_whitespace (w @ s) = w @ s"
  by (intro skip_whitespace_stop) (auto simp: is_id_def peek_hd id_not_ws)

lemma skip_whitespace_idem [simp]: "skip_whitespace (skip_whitespace s) = skip_whitespace s"
  by (simp add: skip_whitespace_def dropWhile_idem)

lemma join_dots_hd: "ws \<noteq> [] \<Longrightarrow> \<forall>w \<in> set ws. is_id w \<Longrightarrow> join_dots ws \<noteq> [] \<and> id_table (hd (join_dots ws))"
  by (induction ws rule: join_dots.induct) (auto simp: is_id_def)

lemma words_room_less: "w \<in> set ws \<Longrightarrow> length w < words_room ws"
  by (induction ws) (auto simp: words_room_def)

lemma convert_attr_ws:
  "skip_whitespace s = skip_whitespace t \<Longrightarrow> convert_attr m s b n = convert_attr m t b n"
  by (simp add: convert_attr_def)

lemma convert_attr_printed:
  assumes x: "good_attr x" "\<forall>w \<in> set pre. is_id w" and n: "attr_cost x + words_room pre \<le> unat n"
  shows "\<exists>m' s' b'. convert_attr m (show_attr pre x @ rest) b n =
      (m', Some (s', b', n - of_nat (attr_cost x))) \<and>
      skip_whitespace s' = skip_whitespace rest \<and> attr_node m' b x b' \<and> m' b = Some (B_ptr b')"
proof -
  let ?ws = "pre @ [fst x]" and ?bin = "b + sizeof_attr" and ?rest = "snd x @ NL # rest"
  have ids: "\<forall>w \<in> set ?ws. is_id w" using x by (auto simp: good_attr_def)
  have len: "length (fst x) < unat n" "length (snd x) < unat (n - of_nat (length (fst x) + 1))"
    using n unat_sub_of_nat [of "length (fst x) + 1" n]
    by (simp_all add: attr_cost_def words_room_def del: of_nat_add)
  have fit: "\<forall>w \<in> set ?ws. is_id w \<and> length w < unat n"
    using ids n len(1) by (auto dest: words_room_less)
  have hd: "\<not> ws_table (peek (join_dots ?ws @ CHR ''='' # ?rest))"
    using join_dots_hd [OF _ ids] by (auto simp: peek_hd id_not_ws)
  have w1: "skip_whitespace (show_attr pre x @ rest) = ''attr'' @ CHR '' '' # join_dots ?ws @ CHR ''='' # ?rest"
    by (simp add: show_attr_def scan_simps table_defs)
  have w2: "skip_word (''attr'' @ CHR '' '' # join_dots ?ws @ CHR ''='' # ?rest) (Some ''attr'') =
      Some (CHR '' '' # join_dots ?ws @ CHR ''='' # ?rest)"
    by (rule skip_word_match) (auto simp: table_defs)
  have w3: "skip_whitespace (CHR '' '' # join_dots ?ws @ CHR ''='' # ?rest) = join_dots ?ws @ CHR ''='' # ?rest"
    using hd by (simp add: scan_simps skip_whitespace_stop)
  have ne: "?ws \<noteq> []" "\<not> id_table (peek (CHR ''='' # ?rest))" "peek (CHR ''='' # ?rest) \<noteq> CHR ''.''"
    by (simp_all add: table_defs)
  obtain m2 where m2: "composed_loop (m(attr_name b \<mapsto> B_ptr ?bin)) (join_dots ?ws @ CHR ''='' # ?rest) ?bin n =
      (m2, Some (CHR ''='' # ?rest, ?bin + length (fst x) + 1, n - of_nat (length (fst x) + 1)))"
    "same_below ?bin (m(attr_name b \<mapsto> B_ptr ?bin)) m2" "str_at m2 ?bin (fst x)"
    using composed_words [OF ne(1) fit ne(2,3)] by (metis last_snoc)
  let ?bin2 = "?bin + length (fst x) + 1" and ?n2 = "n - of_nat (length (fst x) + 1)"
  let ?m2 = "m2(attr_value b \<mapsto> B_ptr ?bin2)"
  have op: "convert_op (CHR ''='' # ?rest) = Some (STRAT_READ, ?rest)"
    using x(1) by (cases "snd x") (auto simp: convert_op_def op_action_def good_attr_def)
  have pr: "\<forall>c \<in> set (snd x). printable c" "\<not> printable (peek (NL # rest))"
    using x(1) by (auto simp: good_attr_def printable_def)
  obtain m3 where m3: "convert_string ?m2 ?rest ?bin2 ?n2 =
      (m3, Some (NL # rest, ?bin2 + length (snd x) + 1, ?n2 - of_nat (length (snd x) + 1)))"
    "same_below ?bin2 ?m2 m3" "str_at m3 ?bin2 (snd x)"
    using convert_string_printable [OF pr len(2)] by blast
  have eol: "skip_end_of_line (NL # rest) = Some (NL # rest)"
    by (simp add: skip_end_of_line_def table_defs)
  let ?b' = "?bin2 + length (snd x) + 1" and ?n' = "?n2 - of_nat (length (snd x) + 1)"
  let ?m' = "m3(attr_next b \<mapsto> B_ptr ?b')"
  have conv: "convert_attr m (show_attr pre x @ rest) b n = (?m', Some (NL # rest, ?b', ?n'))"
    unfolding convert_attr_def w1 Let_def
    by (simp only: w2 w3 option.case convert_composed_identifier_def m2(1) case_prod_conv op m3(1) eol)
  have "?n' = n - of_nat (attr_cost x)" by (simp add: attr_cost_def algebra_simps)
  moreover have "str_at ?m' ?bin (fst x)"
    using m2(3) m3(2) by (auto intro!: str_at_stable [of m2] simp: same_below_def sizeof_attr_def)
  moreover have "str_at ?m' ?bin2 (snd x)"
    using m3(3) by (auto intro!: str_at_stable [of m3] simp: sizeof_attr_def)
  moreover have "?m' (attr_name b) = Some (B_ptr ?bin)" "?m' (attr_value b) = Some (B_ptr ?bin2)"
    using m2(2) m3(2) by (auto simp: same_below_def sizeof_attr_def)
  ultimately have "attr_node ?m' b x ?b'" "?n' = n - of_nat (attr_cost x)"
    by (auto simp: attr_node_def sizeof_attr_def)
  with conv show ?thesis by (intro exI [of _ ?m'] exI [of _ "NL # rest"] exI [of _ ?b']) (simp add: scan_simps)
qed

interpretation attr_print: printed_list convert_attr attr_loop convert_attr_list "show_attr pre"
  attr_cost "\<lambda>x. good_attr x \<and> (\<forall>w \<in> set pre. is_id w)" "words_room pre" attr_node attr_stop
  for pre
proof unfold_locales
  show "skip_whitespace s = skip_whitespace t \<Longrightarrow> convert_attr m s b n = convert_attr m t b n" for s t m b n
    by (rule convert_attr_ws)
  show "attr_stop s \<Longrightarrow> \<exists>m'. convert_attr m s b n = (m', None)" for s m b n
    by (simp add: attr_stop_def convert_attr_def)
qed (use convert_attr_printed attr_node_stable in blast)+

section \<open>Connection targets\<close>

type_synonym btarget = "u64 \<times> string"

definition target_node :: "mem \<Rightarrow> nat \<Rightarrow> btarget \<Rightarrow> nat \<Rightarrow> bool" where
  "target_node m p x e \<longleftrightarrow> (\<exists>q. m (target_addr p) = Some (B_addr (fst x)) \<and> m (target_name p) = Some (B_ptr q) \<and>
     str_at m q (snd x) \<and> p + 12 < q \<and> q + length (snd x) < e)"

definition show_target :: "btarget \<Rightarrow> string" where
  "show_target x = letter CHR ''L'' (show_nat 16 (unat (fst x))) @ '':'' @ snd x"

definition target_cost :: "btarget \<Rightarrow> nat" where
  "target_cost x = length (snd x) + 1"

definition targets_cost :: "btarget list \<Rightarrow> nat" where
  "targets_cost ts = sum_list (map target_cost ts)"

definition more_targets :: "btarget list \<Rightarrow> string" where
  "more_targets ts = concat (map (\<lambda>t. '','' @ show_target t) ts)"

lemma target_node_stable: "node_stable target_node"
  unfolding node_stable_def
proof (intro allI impI, elim conjE)
  fix m m' p x q
  assume n: "target_node m p x q" and same: "\<forall>a. p < a \<and> a < q \<longrightarrow> m' a = m a"
  from n obtain i where i: "m (p + 4) = Some (B_addr (fst x))" "m (p + 12) = Some (B_ptr i)"
    "str_at m i (snd x)" "p + 12 < i" "i + length (snd x) < q"
    by (auto simp: target_node_def)
  have "str_at m' i (snd x)" using i same by (auto intro!: str_at_stable [of m])
  moreover have "m' (p + 4) = m (p + 4)" "m' (p + 12) = m (p + 12)" using i same by auto
  ultimately show "target_node m' p x q" using i by (auto simp: target_node_def)
qed

lemma digit_val_upper: "digit_val c < 16 \<Longrightarrow> digit_val (upper c) = digit_val c"
proof -
  assume less: "digit_val c < 16"
  show ?thesis
  proof (cases "97 \<le> chr_nat c \<and> chr_nat c \<le> 122")
    case True
    then have "(chr_nat c - 32) mod 256 = chr_nat c - 32" by (intro mod_less) linarith
    then have "chr_nat (upper c) = chr_nat c - 32" using True by (simp add: upper_def)
    moreover have "chr_nat c \<le> 102" using less True by (simp add: digit_val_def Let_def split: if_splits)
    moreover from this have "65 \<le> chr_nat c - 32" "chr_nat c - 32 \<le> 70" using True by linarith+
    ultimately show ?thesis using True by (simp add: digit_val_def Let_def)
  qed (auto simp: upper_def)
qed

lemma num_val_upper: "\<forall>c \<in> set s. digit_val c < 16 \<Longrightarrow> num_val b (map upper s) = num_val b s"
  by (induction s rule: rev_induct) (simp_all add: num_val_snoc digit_val_upper)

lemma convert_logaddr_printed:
  assumes "\<not> is_hex (peek rest)" "peek rest \<noteq> CHR ''x''" "peek rest \<noteq> CHR ''X''"
  shows "convert_logaddr (letter CHR ''L'' (show_nat 16 (unat a)) @ rest) = (a, Some rest)"
proof -
  let ?d = "show_nat 16 (unat a)" and ?s = "letter CHR ''L'' (show_nat 16 (unat a))"
  have s: "?s = map upper ?d" by (simp add: letter_def)
  have d: "\<forall>c \<in> set ?d. digit_val c < 16" using show_nat_hex by (auto simp: is_hex_def)
  then have hex: "\<forall>c \<in> set ?s. is_hex c" by (auto simp: s is_hex_def digit_val_upper)
  have val: "foldl (\<lambda>a c. a * 16 + digit_val c) 0 ?s = unat a"
    using num_val_upper [OF d, of 16] by (simp add: s num_val_def [symmetric] num_val_show_nat)
  have "peek (tl (?s @ rest)) \<noteq> CHR ''x'' \<and> peek (tl (?s @ rest)) \<noteq> CHR ''X''"
  proof (cases "tl ?s = []")
    case True
    then show ?thesis using assms(2,3) by (cases ?s) (simp_all add: s)
  next
    case False
    then have "hd (tl ?s) \<in> set ?s" by (cases ?s; cases "tl ?s") auto
    with hex have "is_hex (hd (tl ?s))" by blast
    moreover have "peek (tl (?s @ rest)) = hd (tl ?s)" using False by (cases ?s) (auto simp: peek_hd)
    ultimately show ?thesis using is_hex_not_space by metis
  qed
  moreover have "is_hex (peek (?s @ rest))" using hex by (simp add: s peek_hd hd_map)
  moreover have "logaddr_loop 0 (?s @ rest) = (a, Some rest)"
    using logaddr_loop_digits [OF hex assms(1), of 0] unat_lt2p64 [of a] by (simp add: val)
  ultimately show ?thesis by (simp add: convert_logaddr_def)
qed

lemma convert_target_printed:
  assumes "is_id (snd x)" "\<not> id_table (peek rest)" "target_cost x \<le> unat n"
  obtains m' b' where "convert_conn_target m (show_target x @ rest) b n =
      (m', Some (rest, b', n - of_nat (target_cost x)))"
    "target_node m' b x b'" "m' b = Some (B_ptr b')" "same_below b m m'" "b < b'"
proof -
  let ?bin = "b + sizeof_target"
  let ?m = "m(target_addr b \<mapsto> B_addr (fst x), target_name b \<mapsto> B_ptr ?bin)"
  have la: "convert_logaddr (show_target x @ rest) = (fst x, Some (CHR '':'' # snd x @ rest))"
    unfolding show_target_def using convert_logaddr_printed [of "CHR '':'' # snd x @ rest" "fst x"]
    by (simp add: is_hex_def digit_val_def)
  have "length (snd x) < unat n" using assms(3) by (simp add: target_cost_def)
  from convert_word_id [OF assms(1,2) this] obtain m1 where m1:
    "convert_word ?m (snd x @ rest) ?bin n = (m1, Some (rest, ?bin + length (snd x) + 1, n - of_nat (length (snd x) + 1)))"
    "same_below ?bin ?m m1" "str_at m1 ?bin (snd x)" by metis
  let ?b' = "?bin + length (snd x) + 1" and ?m' = "m1(target_next b \<mapsto> B_ptr (?bin + length (snd x) + 1))"
  have "convert_conn_target m (show_target x @ rest) b n = (?m', Some (rest, ?b', n - of_nat (target_cost x)))"
    using m1(1) by (simp add: convert_conn_target_def la target_cost_def Let_def)
  moreover have "str_at ?m' ?bin (snd x)"
    using m1(3) by (auto intro!: str_at_stable [of m1] simp: sizeof_target_def)
  then have "target_node ?m' b x ?b'"
    using m1(2) by (auto simp: target_node_def same_below_def sizeof_target_def)
  moreover have "same_below b m ?m'" using m1(2) by (auto simp: same_below_def)
  ultimately show thesis by (intro that [of ?m' ?b']) (auto simp: sizeof_target_def)
qed

lemma target_loop_printed:
  assumes "\<forall>x \<in> set xs. is_id (snd x)" "targets_cost xs \<le> unat n" "input \<longrightarrow> xs = []"
    "\<not> id_table (peek rest)" "peek rest \<noteq> CHR '',''"
    "target_node m p x b" "m p = Some (B_ptr b)" "0 < p" "p < b"
  shows "\<exists>m' b'. target_loop input m (more_targets xs @ rest) b n p =
      (m', Some (rest, b', n - of_nat (targets_cost xs))) \<and>
     chain target_node m' p (x # xs) b' \<and> same_below p m m' \<and> b \<le> b'"
  using assms
proof (induction xs arbitrary: m b n p x)
  case Nil
  let ?m = "m(p \<mapsto> B_ptr 0)"
  have "target_loop input m rest b n p = (?m, Some (rest, b, n))"
    using Nil.prems(5) by (subst target_loop.simps) simp
  moreover have "target_node ?m p x b"
    using Nil.prems(6) by (rule_tac node_stableD [OF target_node_stable]) auto
  ultimately show ?case using Nil.prems by (auto simp: more_targets_def targets_cost_def same_below_def)
next
  case (Cons y ys)
  let ?rest = "more_targets ys @ rest"
  have y: "is_id (snd y)" "target_cost y \<le> unat n" using Cons.prems(1,2) by (auto simp: targets_cost_def)
  have stop: "\<not> id_table (peek ?rest)"
    using Cons.prems(4) by (cases ys) (auto simp: more_targets_def table_defs)
  obtain m1 b1 where 1: "convert_conn_target m (show_target y @ ?rest) b n =
      (m1, Some (?rest, b1, n - of_nat (target_cost y)))"
    "target_node m1 b y b1" "m1 b = Some (B_ptr b1)" "same_below b m m1" "b < b1"
    by (rule convert_target_printed [OF y(1) stop y(2)])
  have ys: "\<forall>x \<in> set ys. is_id (snd x)" "input \<longrightarrow> ys = []" "0 < b" using Cons.prems by auto
  have n1: "targets_cost ys \<le> unat (n - of_nat (target_cost y))"
    using Cons.prems(2) by (simp add: targets_cost_def unat_sub_of_nat)
  obtain m' b' where 2: "target_loop input m1 ?rest b1 (n - of_nat (target_cost y)) b =
      (m', Some (rest, b', n - of_nat (target_cost y) - of_nat (targets_cost ys)))"
    "chain target_node m' b (y # ys) b'" "same_below b m1 m'" "b1 \<le> b'"
    using Cons.IH [OF ys(1) n1 ys(2) Cons.prems(4,5) 1(2,3) ys(3) 1(5)] by blast
  have same: "same_below b m m'" using same_below_trans [OF 1(4) 2(3)] by simp
  have "target_node m' p x b" using Cons.prems(6) same
    by (rule_tac node_stableD [OF target_node_stable]) (auto simp: same_below_def)
  moreover have "m' p = Some (B_ptr b)" using same Cons.prems(7,9) by (simp add: same_below_def)
  ultimately have "chain target_node m' p (x # y # ys) b'" using 2(2,4) 1(5) Cons.prems(8,9) by auto
  moreover have "target_loop input m (more_targets (y # ys) @ rest) b n p =
      (m', Some (rest, b', n - of_nat (targets_cost (y # ys))))"
    using 1(1) 2(1) Cons.prems(3)
    by (subst target_loop.simps) (simp add: more_targets_def targets_cost_def algebra_simps)
  ultimately show ?case using 2 1(5) same Cons.prems(9) by (auto simp: same_below_def)
qed

lemma convert_targets_printed:
  assumes "\<forall>x \<in> set (y # ys). is_id (snd x)" "targets_cost (y # ys) \<le> unat n" "input \<longrightarrow> ys = []"
    "\<not> id_table (peek rest)" "peek rest \<noteq> CHR '',''" "0 < b" "f < b"
  shows "\<exists>m' b'. convert_targets input m (show_target y @ more_targets ys @ rest) b n f =
      (m', Some (rest, b', n - of_nat (targets_cost (y # ys)))) \<and> m' f = Some (B_ptr b) \<and>
     chain target_node m' b (y # ys) b' \<and> (\<forall>a < b. a \<noteq> f \<longrightarrow> m' a = m a) \<and> b \<le> b'"
proof -
  let ?rest = "more_targets ys @ rest"
  have y: "is_id (snd y)" "target_cost y \<le> unat n" using assms(1,2) by (auto simp: targets_cost_def)
  have stop: "\<not> id_table (peek ?rest)"
    using assms(4) by (cases ys) (auto simp: more_targets_def table_defs)
  obtain m1 b1 where 1: "convert_conn_target (m(f \<mapsto> B_ptr b)) (show_target y @ ?rest) b n =
      (m1, Some (?rest, b1, n - of_nat (target_cost y)))"
    "target_node m1 b y b1" "m1 b = Some (B_ptr b1)" "same_below b (m(f \<mapsto> B_ptr b)) m1" "b < b1"
    by (rule convert_target_printed [OF y(1) stop y(2)])
  have ys: "\<forall>x \<in> set ys. is_id (snd x)" using assms(1) by simp
  have n1: "targets_cost ys \<le> unat (n - of_nat (target_cost y))"
    using assms(2) by (simp add: targets_cost_def unat_sub_of_nat)
  obtain m' b' where 2: "target_loop input m1 ?rest b1 (n - of_nat (target_cost y)) b =
      (m', Some (rest, b', n - of_nat (target_cost y) - of_nat (targets_cost ys)))"
    "chain target_node m' b (y # ys) b'" "same_below b m1 m'" "b1 \<le> b'"
    using target_loop_printed [OF ys n1 assms(3,4,5) 1(2,3) assms(6) 1(5)] by blast
  have "convert_targets input m (show_target y @ ?rest) b n f =
      (m', Some (rest, b', n - of_nat (targets_cost (y # ys))))"
    using 1(1) 2(1) by (simp add: convert_targets_def targets_cost_def algebra_simps)
  then show ?thesis using 1(4,5) 2 assms(7) by (auto simp: same_below_def)
qed

section \<open>Addresses and sizes\<close>

text \<open>\<^verbatim>\<open>convert_logaddr\<close> checks for overflow too late: a number whose leading digits have a value
  from \<open>2 ^ 60\<close> up to \<open>2 ^ 63\<close> passes the check, and the address silently loses its highest bits with
  the next digit.\<close>

theorem convert_logaddr_wraps:
  assumes "\<forall>d \<in> set ds. is_hex d" "2 ^ 60 \<le> num_val 16 ds" "num_val 16 ds < 2 ^ 63"
    "is_hex c" "\<not> is_hex (peek rest)" "peek ds \<noteq> CHR ''0''"
  shows "convert_logaddr (ds @ c # rest) = (of_nat (num_val 16 (ds @ [c])), Some rest) \<and>
     2 ^ 64 \<le> num_val 16 (ds @ [c])"
proof -
  let ?f = "\<lambda>a c. a * 16 + digit_val c"
  have loop: "\<forall>d \<in> set ds. is_hex d \<Longrightarrow> foldl ?f v ds < 2 ^ 63 \<Longrightarrow>
      logaddr_loop (of_nat v) (ds @ r) = logaddr_loop (of_nat (foldl ?f v ds)) r" for v ds r
  proof (induction ds arbitrary: v)
    case (Cons d ds)
    have "v \<le> foldl ?f v (d # ds)" by (rule foldl_digits_ge)
    then have "v < 2 ^ 63" using Cons.prems(2) by linarith
    then have "\<not> 2 ^ 63 \<le> (of_nat v :: u64)" by (simp add: word_le_nat_alt unat_of_nat)
    with Cons.prems Cons.IH [of "?f v d"] show ?case by simp
  qed simp
  have ne: "ds \<noteq> []" using assms(2) by (auto simp: num_val_def)
  have "logaddr_loop 0 (ds @ c # rest) = logaddr_loop (of_nat (num_val 16 ds)) (c # rest)"
    using loop [OF assms(1), of 0 "c # rest"] assms(3) by (simp add: num_val_def)
  moreover have "\<not> 2 ^ 63 \<le> (of_nat (num_val 16 ds) :: u64)"
    using assms(3) by (simp add: word_le_nat_alt unat_of_nat)
  moreover have "logaddr_loop a rest = (a, Some rest)" for a
    using assms(5) by (cases rest) simp_all
  ultimately have "logaddr_loop 0 (ds @ c # rest) = (of_nat (num_val 16 (ds @ [c])), Some rest)"
    using assms(4) by (simp add: num_val_snoc)
  then show ?thesis
    using assms(1,2,6) ne by (simp add: convert_logaddr_def peek_hd num_val_snoc)
qed

theorem convert_logaddr_wraps_witness:
  "convert_logaddr ''10000000000000000:x'' = (0, Some '':x'')"
  using convert_logaddr_wraps [of "''1000000000000000''" "CHR ''0''" "'':x''"]
  by (simp add: is_hex_def digit_val_def num_val_def)

lemma word_loop_size: "word_loop m s b n = (m', Some (s', b', n')) \<Longrightarrow> n' + of_nat b' = n + of_nat b"
  by (induction m s b n rule: word_loop.induct) (auto simp: algebra_simps split: if_splits)

lemma convert_word_size: "convert_word m s b n = (m', Some (s', b', n')) \<Longrightarrow> n' + of_nat b' = n + of_nat b"
  by (auto simp: convert_word_def dest!: word_loop_size split: if_splits prod.splits option.splits)

lemma convert_string_size: "convert_string m s b n = (m', Some (s', b', n')) \<Longrightarrow> n' + of_nat b' = n + of_nat b"
  by (induction m s b n rule: convert_string.induct) (auto simp: algebra_simps split: if_splits)

lemma composed_size: "composed_loop m s b n = (m', Some (s', b', n')) \<Longrightarrow> n' + of_nat b' = n + of_nat b"
proof (induction m s b n rule: composed_loop.induct)
  case (1 m s b n)
  obtain m1 s1 b1 n1 where w: "convert_word m s b n = (m1, Some (s1, b1, n1))"
    using "1.prems" by (subst (asm) composed_loop.simps) (auto split: prod.splits option.splits)
  show ?case
  proof (cases "peek s1 = CHR ''.''")
    case True
    with "1.prems" w have "composed_loop m1 (tl s1) b n = (m', Some (s', b', n'))"
      by (subst (asm) composed_loop.simps) simp
    then show ?thesis using "1.IH" [OF w [symmetric] refl refl refl True] by blast
  next
    case False
    with "1.prems" w convert_word_size [OF w] show ?thesis by (subst (asm) composed_loop.simps) simp
  qed
qed

text \<open>\<^verbatim>\<open>*binbuf_size\<close> is not decreased by what is written: an attribute advances \<^verbatim>\<open>*binbuf\<close> by twelve
  bytes, a connection target by sixteen bytes more than it takes from the remaining size, so a
  conversion that reports success may have written beyond the buffer.\<close>

theorem records_not_counted:
  "(convert_attr m s b n = (m', Some (s', b', n')) \<longrightarrow> n' + of_nat b' = n + of_nat b + 12) \<and>
   (convert_conn_target m s b n = (m', Some (s', b', n')) \<longrightarrow> n' + of_nat b' = n + of_nat b + 16)"
proof (intro conjI impI)
  assume "convert_attr m s b n = (m', Some (s', b', n'))"
  then obtain s1 s2 m2 b2 n2 s3 act m4 s4 where
    2: "composed_loop (m(attr_name b \<mapsto> B_ptr (b + sizeof_attr)))
       (skip_whitespace s1) (b + sizeof_attr) n = (m2, Some (s2, b2, n2))"
    and 4: "convert_string (m2(attr_value b \<mapsto> B_ptr b2)) s3 b2 n2 = (m4, Some (s4, b', n'))"
    by (auto simp: convert_attr_def convert_composed_identifier_def Let_def split: option.splits prod.splits)
  from composed_size [OF 2] convert_string_size [OF 4] show "n' + of_nat b' = n + of_nat b + 12"
    by (simp add: sizeof_attr_def algebra_simps)
next
  assume "convert_conn_target m s b n = (m', Some (s', b', n'))"
  then obtain a s1 m2 where
    "convert_word (m(target_addr b \<mapsto> B_addr a, target_name b \<mapsto> B_ptr (b + sizeof_target)))
      (tl s1) (b + sizeof_target) n = (m2, Some (s', b', n'))"
    by (auto simp: convert_conn_target_def Let_def split: option.splits prod.splits if_splits)
  from convert_word_size [OF this] show "n' + of_nat b' = n + of_nat b + 16"
    by (simp add: sizeof_target_def algebra_simps)
qed

theorem records_not_counted_witness:
  "\<exists>m' b' n'. convert_attr Map.empty (''attr a=b'' @ [NL]) 100 4 = (m', Some ([NL], b', n')) \<and>
     n' + of_nat b' = 4 + 100 + (12 :: u32)"
proof -
  have "\<exists>m' b' n'. convert_attr Map.empty (''attr a=b'' @ [NL]) 100 4 = (m', Some ([NL], b', n'))"
    by (simp add: convert_attr_def skip_whitespace_def skip_word_def table_defs sizeof_attr_def
        convert_composed_identifier_def composed_loop.simps convert_word_def convert_op_def op_action_def
        printable_def skip_end_of_line_def word_le_nat_alt Let_def)
  then obtain m' b' n' where "convert_attr Map.empty (''attr a=b'' @ [NL]) 100 4 = (m', Some ([NL], b', n'))"
    by blast
  with records_not_counted [of Map.empty "''attr a=b'' @ [NL]" 100 4 m' "[NL]" b' n'] show ?thesis by auto
qed

end
