(* ===== verification/Bin_Bricks.thy ===== *)
theory Bin_Bricks
  imports Bin_Records
begin

text \<open>
  Connectors and bricks: their printed form, their representation by the records of
  \<^verbatim>\<open>binstrat.h\<close>, and the proof that \<^verbatim>\<open>convert_brick\<close> turns the one into the other.
\<close>

section \<open>Connectors\<close>

record bconn =
  bc_output :: bool
  bc_active :: bool
  bc_name :: string
  bc_attrs :: "battr list"
  bc_targets :: "btarget list"

definition conn_kw :: "bool \<Rightarrow> string" where
  "conn_kw out = (if out then ''output'' else ''input'')"

definition show_connect :: "string \<Rightarrow> btarget list \<Rightarrow> string" where
  "show_connect nm ts =
     (case ts of [] \<Rightarrow> []
      | t # ts \<Rightarrow> ''    connect '' @ nm @ ''=='' @ show_target t @ more_targets ts @ [NL])"

definition show_bconn :: "string \<Rightarrow> bconn \<Rightarrow> string" where
  "show_bconn bn c =
     (if bc_active c then ''  '' @ conn_kw (bc_output c) @ ''==''
      else ''  ('' @ conn_kw (bc_output c) @ '')=='') @ bc_name c @ '' {'' @ [NL] @
     attr_print.list_text [bn, bc_name c] (bc_attrs c) @
     show_connect (bc_name c) (bc_targets c) @ ''  }'' @ [NL]"

definition good_bconn :: "bconn \<Rightarrow> bool" where
  "good_bconn c \<longleftrightarrow> is_id (bc_name c) \<and> (\<forall>x \<in> set (bc_attrs c). good_attr x) \<and>
     (\<forall>x \<in> set (bc_targets c). is_id (snd x)) \<and> (bc_output c \<or> length (bc_targets c) \<le> 1)"

definition conn_cost :: "bconn \<Rightarrow> nat" where
  "conn_cost c = sizeof_conn + length (bc_name c) + 1 + attr_print.list_cost (bc_attrs c) +
     targets_cost (bc_targets c)"

definition flags_of :: "bconn \<Rightarrow> u16" where
  "flags_of c = (if bc_active c then MASK_CONN_ACTIVE else 0) OR (if bc_output c then MASK_CONN_TYPE else 0)"

definition conn_node :: "mem \<Rightarrow> nat \<Rightarrow> bconn \<Rightarrow> nat \<Rightarrow> bool" where
  "conn_node m p c e \<longleftrightarrow> (\<exists>q i j k.
     m (conn_flags p) = Some (B_flags (flags_of c)) \<and> m (conn_nm p) = Some (B_ptr q) \<and>
     str_at m q (bc_name c) \<and> p + 16 < q \<and> q + length (bc_name c) < k \<and> k \<le> e \<and>
     m (conn_attr p) = Some (B_ptr i) \<and> chain attr_node m i (bc_attrs c) k \<and>
     (bc_attrs c \<noteq> [] \<longrightarrow> q + length (bc_name c) < i) \<and>
     m (conn_target p) = Some (B_ptr j) \<and> chain target_node m j (bc_targets c) e \<and>
     (bc_targets c \<noteq> [] \<longrightarrow> k \<le> j))"

lemma chain_stable_from:
  assumes "node_stable node" "chain node m p xs e" "xs \<noteq> [] \<longrightarrow> lo \<le> p"
    "\<And>a. lo \<le> a \<Longrightarrow> a < e \<Longrightarrow> m' a = m a"
  shows "chain node m' p xs e"
proof (cases "xs = []")
  case False
  then have "lo \<le> p" using assms(3) by blast
  then show ?thesis by (intro chain_stable [OF assms(1,2)]) (use assms(4) in simp)
qed (use assms(2) in simp)

lemma conn_node_stable: "node_stable conn_node"
  unfolding node_stable_def
proof (intro allI impI, elim conjE)
  fix m m' p c e
  assume n: "conn_node m p c e" and same: "\<forall>a. p < a \<and> a < e \<longrightarrow> m' a = m a"
  from n obtain q i j k where
    1: "m (p + 4) = Some (B_flags (flags_of c))" "m (p + 8) = Some (B_ptr q)" "str_at m q (bc_name c)"
    "p + 16 < q" "q + length (bc_name c) < k" "k \<le> e"
    and 2: "m (p + 12) = Some (B_ptr i)" "chain attr_node m i (bc_attrs c) k"
    "bc_attrs c \<noteq> [] \<longrightarrow> q + length (bc_name c) < i"
    and 3: "m (p + 16) = Some (B_ptr j)" "chain target_node m j (bc_targets c) e"
    "bc_targets c \<noteq> [] \<longrightarrow> k \<le> j"
    by (auto simp: conn_node_def)
  have agree: "m' a = m a" if "p < a" "a < e" for a using same that by blast
  have "str_at m' q (bc_name c)"
    by (rule str_at_stable [OF 1(3)]) (use 1(4,5,6) in \<open>auto intro!: agree\<close>)
  moreover have "chain attr_node m' i (bc_attrs c) k"
    by (rule chain_stable_from [OF attr_node_stable 2(2), of q]) (use 1(4,5,6) 2(3) in \<open>auto intro!: agree\<close>)
  moreover have "chain target_node m' j (bc_targets c) e"
    by (rule chain_stable_from [OF target_node_stable 3(2), of q]) (use 1(4,5,6) 3(3) in \<open>auto intro!: agree\<close>)
  moreover have "m' (p + 4) = m (p + 4)" "m' (p + 8) = m (p + 8)" "m' (p + 12) = m (p + 12)"
    "m' (p + 16) = m (p + 16)" using 1(4,5,6) by (auto intro!: agree)
  ultimately show "conn_node m' p c e" using 1 2 3 unfolding conn_node_def by metis
qed

lemma not_id_simps [simp]:
  "\<not> id_table CHR '' ''" "\<not> id_table NL" "\<not> id_table CHR ''=''" "\<not> id_table CHR ''}''"
  "\<not> id_table CHR '')''" "\<not> id_table CHR ''{''"
  by (simp_all add: table_defs)

lemma not_ws_simps [simp]:
  "\<not> ws_table CHR ''{''" "\<not> ws_table CHR ''}''" "\<not> ws_table CHR ''=''" "\<not> ws_table CHR ''(''"
  "\<not> ws_table CHR ''i''" "\<not> ws_table CHR ''o''" "\<not> ws_table CHR ''a''" "\<not> ws_table CHR ''c''"
  "\<not> ws_table CHR ''b''"
  by (simp_all add: table_defs)

lemma conn_kw_id: "is_id (conn_kw out)"
  by (simp add: is_id_def conn_kw_def table_defs)

lemma skip_word_mismatch:
  "s \<noteq> [] \<Longrightarrow> w \<noteq> [] \<Longrightarrow> hd s \<noteq> hd w \<Longrightarrow> skip_word s (Some w) = None"
  by (cases s; cases w) (auto simp: skip_word_def)

lemma skip_word_kw:
  assumes "\<not> id_table (peek r)"
  shows "skip_word (conn_kw out @ r) (Some ''output'') = (if out then Some r else None)"
    "skip_word (conn_kw False @ r) (Some ''input'') = Some r"
proof -
  have "\<forall>c \<in> set ''output''. id_table c" "\<forall>c \<in> set ''input''. id_table c"
    by (simp_all add: table_defs)
  then have "skip_word (''output'' @ r) (Some ''output'') = Some r"
    "skip_word (''input'' @ r) (Some ''input'') = Some r"
    using assms skip_word_match by blast+
  then show "skip_word (conn_kw out @ r) (Some ''output'') = (if out then Some r else None)"
    "skip_word (conn_kw False @ r) (Some ''input'') = Some r"
    by (simp_all add: conn_kw_def skip_word_mismatch)
qed

lemma convert_op_eqeq: "convert_op (CHR ''='' # CHR ''='' # s) = Some (STRAT_READ, s)"
  by (simp add: convert_op_def op_action_def)

lemma conn_open_printed:
  "conn_open ((if act then ''  '' @ conn_kw out @ ''=='' else ''  ('' @ conn_kw out @ '')=='') @ s) =
     ((if act then MASK_CONN_ACTIVE else 0) OR (if out then MASK_CONN_TYPE else 0), Some s)"
proof -
  have ws: "skip_whitespace (conn_kw u @ r) = conn_kw u @ r" "peek (conn_kw u) \<noteq> CHR ''(''" "conn_kw u \<noteq> []" for u r
    by (auto simp: conn_kw_def scan_simps)
  have act: "IS_CONN_ACTIVE MASK_CONN_ACTIVE" "IS_CONN_ACTIVE (MASK_CONN_ACTIVE OR MASK_CONN_TYPE)"
    "\<not> IS_CONN_ACTIVE 0" "\<not> IS_CONN_ACTIVE MASK_CONN_TYPE"
    by (simp_all add: IS_CONN_ACTIVE_def MASK_CONN_ACTIVE_def MASK_CONN_TYPE_def)
  show ?thesis
    by (cases act; cases out)
       (simp_all add: conn_open_def scan_simps ws skip_word_kw convert_op_eqeq act Let_def)
qed

text \<open>What follows the attributes of a printed connector.\<close>

definition conn_tail :: "bconn \<Rightarrow> string \<Rightarrow> string" where
  "conn_tail c rest = show_connect (bc_name c) (bc_targets c) @ ''  }'' @ NL # rest"

lemma conn_tail_hd:
  "\<exists>r. skip_whitespace (conn_tail c rest) =
     (if bc_targets c = [] then CHR ''}'' # r else ''connect'' @ CHR '' '' # r)"
  by (cases "bc_targets c") (auto simp: conn_tail_def show_connect_def scan_simps)

lemma conn_tail_stop: "attr_stop (conn_tail c rest)"
  using conn_tail_hd [of c rest] by (auto simp: attr_stop_def skip_word_mismatch split: if_splits)

lemma conn_body_printed:
  "conn_body (CHR '' '' # CHR ''{'' # NL # attr_print.list_text pre xs @ conn_tail c rest) =
   skip_whitespace (attr_print.list_text pre xs @ conn_tail c rest)"
proof -
  let ?t = "attr_print.list_text pre xs @ conn_tail c rest"
  have "\<exists>d r. skip_whitespace ?t = d # r \<and> (d = CHR ''a'' \<or> d = CHR ''}'' \<or> (d = CHR ''c'' \<and> peek r = CHR ''o''))"
  proof (cases xs)
    case Nil
    then show ?thesis using conn_tail_hd [of c rest]
      by (auto simp: attr_print.list_text_def split: if_splits)
  next
    case (Cons x ys)
    then show ?thesis by (simp add: attr_print.list_text_def show_attr_def scan_simps)
  qed
  then have "skip_word (skip_whitespace ?t) (Some ''c_param'') = None"
  proof (elim exE conjE disjE)
    fix d r
    assume "skip_whitespace ?t = d # r" "d = CHR ''c''" "peek r = CHR ''o''"
    then show ?thesis by (cases r) (auto simp: skip_word_def)
  qed (simp_all add: skip_word_mismatch)
  then show ?thesis by (simp add: conn_body_def skip_str.simps scan_simps)
qed

lemma skip_close: "skip_whitespace s = CHR ''}'' # r \<Longrightarrow> skip_str s '' } '' = Some (skip_whitespace r)"
  by (simp add: skip_str.simps)

lemma convert_connect_none:
  assumes "skip_whitespace s = skip_whitespace (conn_tail c rest)" "bc_targets c = []"
  shows "convert_connect m (skip_whitespace s) b n p fl = (m, Some (skip_whitespace s, b, n))"
    "skip_str (skip_whitespace s) '' } '' = Some (skip_whitespace rest)"
proof -
  have ws: "skip_whitespace s = CHR ''}'' # NL # rest"
    using assms by (simp add: conn_tail_def show_connect_def scan_simps)
  then show "convert_connect m (skip_whitespace s) b n p fl = (m, Some (skip_whitespace s, b, n))"
    by (simp add: convert_connect_def skip_word_mismatch)
  show "skip_str (skip_whitespace s) '' } '' = Some (skip_whitespace rest)"
    unfolding ws by (subst skip_close [of _ "NL # rest"]) (simp_all add: scan_simps)
qed

lemma show_target_not_ws: "skip_whitespace (show_target t @ r) = show_target t @ r"
proof (rule skip_whitespace_stop)
  let ?d = "show_nat 16 (unat (fst t))"
  have "is_hex (hd ?d)" using hd_show_nat [of 16] by (simp add: is_hex_def)
  then have "is_hex (upper (hd ?d))" by (simp add: is_hex_def digit_val_upper)
  from is_hex_not_space [OF this] have "\<not> ws_table (upper (hd ?d))"
    by (auto simp: is_space_def ws_table_def)
  then show "\<not> ws_table (peek (show_target t @ r))"
    by (simp add: show_target_def letter_def peek_hd hd_map)
qed

lemma convert_connect_targets:
  assumes c: "bc_targets c = t # ts" "is_id (bc_name c)" and "\<forall>x \<in> set (t # ts). is_id (snd x)"
    "targets_cost (t # ts) \<le> unat n" "IS_CONN_INPUT fl \<longrightarrow> ts = []" "0 < b" "p + 16 < b"
    and s: "skip_whitespace s = skip_whitespace (conn_tail c rest)"
  shows "\<exists>m' s' b'. convert_connect m (skip_whitespace s) b n p fl =
      (m', Some (s', b', n - of_nat (targets_cost (t # ts)))) \<and> skip_str s' '' } '' = Some (skip_whitespace rest) \<and>
     m' (conn_target p) = Some (B_ptr b) \<and> m' (conn_flags p) = Some (B_flags fl) \<and>
     chain target_node m' b (t # ts) b' \<and>
     (\<forall>a < b. a \<noteq> conn_target p \<longrightarrow> a \<noteq> conn_flags p \<longrightarrow> m' a = m a) \<and> b \<le> b'"
proof -
  let ?rest = "NL # ''  }'' @ NL # rest" and ?tt = "show_target t @ more_targets ts"
  have ws: "skip_whitespace s = ''connect'' @ CHR '' '' # bc_name c @ ''=='' @ ?tt @ ?rest"
    using s c(1) by (simp add: conn_tail_def show_connect_def scan_simps)
  have w1: "skip_word (''connect'' @ CHR '' '' # bc_name c @ ''=='' @ ?tt @ ?rest) (Some ''connect'') =
      Some (CHR '' '' # bc_name c @ ''=='' @ ?tt @ ?rest)"
    by (rule skip_word_match) (auto simp: table_defs)
  have w2: "skip_whitespace (CHR '' '' # bc_name c @ ''=='' @ ?tt @ ?rest) = bc_name c @ ''=='' @ ?tt @ ?rest"
    using skip_ws_ids [OF c(2)] by (simp add: scan_simps)
  have w3: "skip_word (bc_name c @ ''=='' @ ?tt @ ?rest) None = Some (''=='' @ ?tt @ ?rest)"
    using c(2) dropWhile_append_stop [of "bc_name c" id_table "''=='' @ ?tt @ ?rest"]
    by (simp add: skip_word_def is_id_def peek_hd)
  have w4: "convert_op (''=='' @ ?tt @ ?rest) = Some (STRAT_READ, ?tt @ ?rest)"
    by (simp add: convert_op_eqeq)
  let ?m = "m(conn_flags p \<mapsto> B_flags fl)"
  have "p + 16 < b" "\<not> id_table (peek ?rest)" "peek ?rest \<noteq> CHR '',''" using assms by auto
  with convert_targets_printed [OF assms(3,4,5) this(2,3) assms(6) this(1), of ?m]
  obtain m' b' where m': "convert_targets (IS_CONN_INPUT fl) ?m (?tt @ ?rest) b n (conn_target p) =
      (m', Some (?rest, b', n - of_nat (targets_cost (t # ts))))" "m' (conn_target p) = Some (B_ptr b)"
     "chain target_node m' b (t # ts) b'" "\<forall>a < b. a \<noteq> conn_target p \<longrightarrow> m' a = ?m a" "b \<le> b'"
    by auto
  have "convert_connect m (skip_whitespace s) b n p fl =
      (m', Some (?rest, b', n - of_nat (targets_cost (t # ts))))"
    unfolding ws convert_connect_def
    using w1 w2 w3 w4 m'(1) show_target_not_ws [of t "more_targets ts @ ?rest"] by simp
  moreover have "skip_str ?rest '' } '' = Some (skip_whitespace rest)"
    by (subst skip_close [of _ "NL # rest"]) (simp_all add: scan_simps)
  moreover have "m' (conn_flags p) = Some (B_flags fl)" using m'(4) \<open>p + 16 < b\<close> by simp
  ultimately show ?thesis using m' by (intro exI [of _ m'] exI [of _ ?rest] exI [of _ b']) auto
qed

text \<open>The \<^verbatim>\<open>connect\<close> line with or without targets.\<close>

lemma convert_connect_printed:
  assumes c: "good_bconn c" and "targets_cost (bc_targets c) \<le> unat n" "0 < b" "p + 16 < b"
    and s: "skip_whitespace s = skip_whitespace (conn_tail c rest)"
    and m: "m (conn_flags p) = Some (B_flags (flags_of c))" "m (conn_target p) = Some (B_ptr 0)"
  shows "\<exists>m' s' b' j. convert_connect m (skip_whitespace s) b n p (flags_of c) =
      (m', Some (s', b', n - of_nat (targets_cost (bc_targets c)))) \<and>
     skip_str s' '' } '' = Some (skip_whitespace rest) \<and>
     m' (conn_flags p) = Some (B_flags (flags_of c)) \<and>
     m' (conn_target p) = Some (B_ptr j) \<and> chain target_node m' j (bc_targets c) b' \<and>
     (bc_targets c \<noteq> [] \<longrightarrow> j = b) \<and> (\<forall>a < b. a \<noteq> conn_target p \<longrightarrow> m' a = m a) \<and> b \<le> b'"
proof (cases "bc_targets c")
  case Nil
  from convert_connect_none [OF s Nil] Nil m show ?thesis
    by (intro exI [of _ m] exI [of _ "skip_whitespace s"] exI [of _ b] exI [of _ 0])
       (simp add: targets_cost_def)
next
  case (Cons t ts)
  have inp: "IS_CONN_INPUT (flags_of c) \<longrightarrow> ts = []"
    using c Cons by (auto simp: good_bconn_def IS_CONN_INPUT_def flags_of_def MASK_CONN_ACTIVE_def
        MASK_CONN_TYPE_def split: if_splits)
  have ids: "is_id (bc_name c)" "\<forall>x \<in> set (t # ts). is_id (snd x)"
    using c Cons by (auto simp: good_bconn_def)
  have "targets_cost (t # ts) \<le> unat n" using assms(2) Cons by simp
  from convert_connect_targets [OF Cons ids this inp assms(3,4) s, of m] obtain m' s' b' where r: "convert_connect m (skip_whitespace s) b n p (flags_of c) =
      (m', Some (s', b', n - of_nat (targets_cost (t # ts))))" "skip_str s' '' } '' = Some (skip_whitespace rest)"
     "m' (conn_target p) = Some (B_ptr b)" "m' (conn_flags p) = Some (B_flags (flags_of c))"
     "chain target_node m' b (t # ts) b'"
     "\<forall>a < b. a \<noteq> conn_target p \<longrightarrow> a \<noteq> conn_flags p \<longrightarrow> m' a = m a" "b \<le> b'"
    by blast
  have "\<forall>a < b. a \<noteq> conn_target p \<longrightarrow> m' a = m a" using r(4,6) m(1) by metis
  with r Cons show ?thesis by (intro exI [of _ m'] exI [of _ s'] exI [of _ b'] exI [of _ b]) simp
qed

lemma flags_of_open:
  "(if bc_active c then MASK_CONN_ACTIVE else 0) OR (if bc_output c then MASK_CONN_TYPE else 0) = flags_of c"
  by (simp add: flags_of_def)

lemma convert_conn_printed:
  assumes c: "good_bconn c" "is_id bn" and n: "conn_cost c + words_room [bn, bc_name c] \<le> unat n"
  shows "\<exists>m' s' b'. convert_conn m (show_bconn bn c @ rest) b n =
      (m', Some (s', b', n - of_nat (conn_cost c))) \<and>
      skip_whitespace s' = skip_whitespace rest \<and> conn_node m' b c b' \<and> m' b = Some (B_ptr b')"
proof -
  let ?pre = "[bn, bc_name c]" and ?bin = "b + sizeof_conn" and ?n1 = "n - of_nat sizeof_conn"
  let ?text = "attr_print.list_text ?pre (bc_attrs c) @ conn_tail c rest"
  let ?s1 = "bc_name c @ CHR '' '' # CHR ''{'' # NL # ?text"
  let ?len = "length (bc_name c)"
  let ?m1 = "m(conn_flags b \<mapsto> B_flags (flags_of c), conn_nm b \<mapsto> B_ptr ?bin)"
  have nm: "is_id (bc_name c)" using c(1) by (simp add: good_bconn_def)
  have "show_bconn bn c @ rest = (if bc_active c then ''  '' @ conn_kw (bc_output c) @ ''==''
      else ''  ('' @ conn_kw (bc_output c) @ '')=='') @ ?s1"
    by (simp add: show_bconn_def conn_tail_def)
  then have op: "conn_open (show_bconn bn c @ rest) = (flags_of c, Some ?s1)"
    by (simp only: conn_open_printed flags_of_open)
  have n1: "unat ?n1 = unat n - sizeof_conn" using n by (intro unat_sub_of_nat) (simp add: conn_cost_def)
  have fit: "\<forall>w \<in> set [bc_name c]. is_id w \<and> length w < unat ?n1"
    using nm n n1 by (simp add: conn_cost_def)
  obtain m2 where m2: "composed_loop ?m1 ?s1 ?bin ?n1 =
      (m2, Some (CHR '' '' # CHR ''{'' # NL # ?text, ?bin + ?len + 1, ?n1 - of_nat (?len + 1)))"
    "same_below ?bin ?m1 m2" "str_at m2 ?bin (bc_name c)"
    using composed_words [OF _ fit, of "CHR '' '' # CHR ''{'' # NL # ?text" ?m1 ?bin] by auto
  let ?b2 = "?bin + ?len + 1" and ?n2 = "?n1 - of_nat (?len + 1)"
  have n2: "unat ?n2 = unat n - sizeof_conn - (?len + 1)"
    using n n1 by (subst unat_sub_of_nat) (simp_all add: conn_cost_def)
  have "\<forall>x \<in> set (bc_attrs c). good_attr x \<and> (\<forall>w \<in> set ?pre. is_id w)"
    using c nm by (auto simp: good_bconn_def)
  moreover have "attr_print.list_cost (bc_attrs c) + words_room ?pre \<le> unat ?n2"
    using n n2 by (simp add: conn_cost_def)
  moreover have "skip_whitespace (conn_body (CHR '' '' # CHR ''{'' # NL # ?text)) = skip_whitespace ?text"
    by (simp add: conn_body_printed)
  ultimately obtain m3 s3 b3 i where m3:
    "convert_attr_list m2 (conn_body (CHR '' '' # CHR ''{'' # NL # ?text)) ?b2 ?n2 (conn_attr b) =
      (m3, s3, b3, ?n2 - of_nat (attr_print.list_cost (bc_attrs c)))"
    "skip_whitespace s3 = skip_whitespace (conn_tail c rest)" "m3 (conn_attr b) = Some (B_ptr i)"
    "chain attr_node m3 i (bc_attrs c) b3" "bc_attrs c \<noteq> [] \<longrightarrow> i = ?b2" "?b2 \<le> b3"
    "\<forall>a < ?b2. a \<noteq> conn_attr b \<longrightarrow> m3 a = m2 a"
    using attr_print.list_printed [of "bc_attrs c" ?pre ?n2 "conn_tail c rest"
        "conn_body (CHR '' '' # CHR ''{'' # NL # ?text)" ?b2 "conn_attr b" m2] conn_tail_stop
    by (auto simp: sizeof_conn_def)
  let ?n3 = "?n2 - of_nat (attr_print.list_cost (bc_attrs c))" and ?m3 = "m3(conn_target b \<mapsto> B_ptr 0)"
  have "targets_cost (bc_targets c) \<le> unat ?n3"
    using n n2 by (subst unat_sub_of_nat) (simp_all add: conn_cost_def)
  moreover have "?m3 (conn_flags b) = Some (B_flags (flags_of c))"
    using m3(7) m2(2) by (simp add: same_below_def sizeof_conn_def)
  ultimately obtain m4 s4 b4 j where m4: "convert_connect ?m3 (skip_whitespace s3) b3 ?n3 b (flags_of c) =
      (m4, Some (s4, b4, ?n3 - of_nat (targets_cost (bc_targets c))))"
     "skip_str s4 '' } '' = Some (skip_whitespace rest)" "m4 (conn_flags b) = Some (B_flags (flags_of c))"
     "m4 (conn_target b) = Some (B_ptr j)" "chain target_node m4 j (bc_targets c) b4"
     "bc_targets c \<noteq> [] \<longrightarrow> j = b3" "\<forall>a < b3. a \<noteq> conn_target b \<longrightarrow> m4 a = ?m3 a" "b3 \<le> b4"
    using convert_connect_printed [OF c(1) _ _ _ m3(2), of ?n3 b3 b ?m3] m3(6)
    by (auto simp: sizeof_conn_def)
  let ?m5 = "m4(conn_next b \<mapsto> B_ptr b4)" and ?n4 = "?n3 - of_nat (targets_cost (bc_targets c))"
  have "convert_conn m (show_bconn bn c @ rest) b n = (?m5, Some (skip_whitespace rest, b4, ?n4))"
    by (simp only: convert_conn_def Let_def op case_prod_conv option.case
        convert_composed_identifier_def m2(1) m3(1) m4(1,2))
  moreover have "?n4 = n - of_nat (conn_cost c)" by (simp add: conn_cost_def algebra_simps)
  moreover have "conn_node ?m5 b c b4"
  proof -
    have same: "m4 a = m2 a" if "b < a" "a < ?b2" "a \<noteq> conn_attr b" "a \<noteq> conn_target b" for a
      using m4(7) m3(6,7) that by simp
    have "str_at ?m5 ?bin (bc_name c)"
      by (rule str_at_stable [OF m2(3)]) (auto simp: same sizeof_conn_def)
    moreover have "?m5 (conn_nm b) = Some (B_ptr ?bin)"
      using same [of "conn_nm b"] m2(2) by (simp add: same_below_def sizeof_conn_def)
    moreover have "?m5 (conn_attr b) = Some (B_ptr i)"
      using m4(7) m3(3,6) by (simp add: sizeof_conn_def)
    moreover have "chain attr_node ?m5 i (bc_attrs c) b3"
      by (rule chain_stable_from [OF attr_node_stable m3(4), of ?b2])
         (use m3(5,6) m4(7) in \<open>auto simp: sizeof_conn_def\<close>)
    moreover have "chain target_node ?m5 j (bc_targets c) b4"
      by (rule chain_stable_from [OF target_node_stable m4(5), of b3])
         (use m3(6) m4(6) in \<open>auto simp: sizeof_conn_def\<close>)
    ultimately show ?thesis
      using m3(5,6) m4(3,4,6,8) unfolding conn_node_def
      by (intro exI [of _ ?bin] exI [of _ i] exI [of _ j] exI [of _ b3]) (simp add: sizeof_conn_def)
  qed
  ultimately show ?thesis
    by (intro exI [of _ ?m5] exI [of _ "skip_whitespace rest"] exI [of _ b4]) simp
qed

definition conn_stop :: "string \<Rightarrow> bool" where
  "conn_stop s \<longleftrightarrow> snd (conn_open s) = None"

interpretation conn_print: printed_list convert_conn conn_loop convert_conn_list "show_bconn bn"
  conn_cost "\<lambda>c. good_bconn c \<and> is_id bn \<and> words_room [bn, bc_name c] \<le> R" R conn_node conn_stop
  for bn R
proof unfold_locales
  show "skip_whitespace s = skip_whitespace t \<Longrightarrow> convert_conn m s b n = convert_conn m t b n" for s t m b n
    by (simp add: convert_conn_def conn_open_def)
  show "conn_stop s \<Longrightarrow> \<exists>m'. convert_conn m s b n = (m', None)" for s m b n
    by (cases "conn_open s") (simp add: conn_stop_def convert_conn_def)
  show "\<exists>m' s' b'. convert_conn m (show_bconn bn c @ rest) b n = (m', Some (s', b', n - of_nat (conn_cost c))) \<and>
      skip_whitespace s' = skip_whitespace rest \<and> conn_node m' b c b' \<and> m' b = Some (B_ptr b')"
    if "good_bconn c \<and> is_id bn \<and> words_room [bn, bc_name c] \<le> R" "conn_cost c + R \<le> unat n" for c n m rest b
    using that by (intro convert_conn_printed) auto
qed (rule conn_node_stable)

section \<open>Bricks\<close>

record bbrick =
  bb_name :: string
  bb_attrs :: "battr list"
  bb_conns :: "bconn list"

definition show_battr :: "string \<Rightarrow> battr \<Rightarrow> string" where
  "show_battr bn x = ''attr '' @ bn @ ''.'' @ fst x @ ''='' @ snd x @ '' {'' @ [NL]"

definition show_bbrick :: "bbrick \<Rightarrow> string" where
  "show_bbrick B = ''brick=='' @ bb_name B @ '' {'' @ [NL] @
     concat (map (show_battr (bb_name B)) (bb_attrs B)) @
     conn_print.list_text (bb_name B) (bb_conns B) @ ''}'' @ [NL]"

definition good_bbrick :: "bbrick \<Rightarrow> bool" where
  "good_bbrick B \<longleftrightarrow> is_id (bb_name B) \<and> (\<forall>x \<in> set (bb_attrs B). good_attr x) \<and>
     (\<forall>c \<in> set (bb_conns B). good_bconn c)"

definition brick_room :: "bbrick \<Rightarrow> nat" where
  "brick_room B = length (bb_name B) + sum_list (map (\<lambda>c. length (bc_name c)) (bb_conns B)) + 1"

definition brick_cost :: "bbrick \<Rightarrow> nat" where
  "brick_cost B = length (bb_name B) + 1 + attr_print.list_cost (bb_attrs B) +
     conn_print.list_cost (bb_conns B)"

text \<open>The records of a brick; \<open>fl\<close> are its flags.\<close>

definition brick_rep :: "mem \<Rightarrow> nat \<Rightarrow> u16 \<Rightarrow> bbrick \<Rightarrow> bool" where
  "brick_rep m p fl B \<longleftrightarrow> (\<exists>q i j e.
     m (brick_flags p) = Some (B_flags fl) \<and> m (brick_nm p) = Some (B_ptr q) \<and> str_at m q (bb_name B) \<and>
     m (brick_attr p) = Some (B_ptr i) \<and> chain attr_node m i (bb_attrs B) e \<and>
     m (brick_conn p) = Some (B_ptr j) \<and> chain conn_node m j (bb_conns B) e)"

lemma brick_open_printed: "brick_open (''brick=='' @ s) = (MASK_BRICK_ACTIVE, Some s)"
proof -
  have "skip_word (''brick'' @ ''=='' @ s) (Some ''brick'') = Some (''=='' @ s)"
    by (rule skip_word_match) (auto simp: table_defs)
  moreover have "IS_BRICK_ACTIVE MASK_BRICK_ACTIVE"
    by (simp add: IS_BRICK_ACTIVE_def MASK_BRICK_ACTIVE_def)
  ultimately show ?thesis by (simp add: brick_open_def scan_simps convert_op_eqeq)
qed

lemma skip_open_brace: "skip_str (CHR '' '' # CHR ''{'' # NL # s) '' { '' = Some (skip_whitespace s)"
  by (simp add: skip_str.simps scan_simps)

lemma conns_hd:
  "\<exists>d r. skip_whitespace (conn_print.list_text bn cs @ CHR ''}'' # s) = d # r \<and> d \<in> set ''io(}''"
proof (cases cs)
  case (Cons c cs)
  then show ?thesis
    by (auto simp: conn_print.list_text_def show_bconn_def conn_kw_def scan_simps)
qed (simp add: conn_print.list_text_def scan_simps)

lemma conn_stop_hd:
  "skip_whitespace s = c # r \<Longrightarrow> c \<notin> set ''(io'' \<Longrightarrow> conn_stop s"
  by (simp add: conn_stop_def conn_open_def skip_word_mismatch)

lemma close_stops: "conn_stop (CHR ''}'' # s)"
  by (rule conn_stop_hd [of _ "CHR ''}''" s]) (simp_all add: scan_simps)

lemma room_conn: "c \<in> set cs \<Longrightarrow> length (bc_name c) \<le> sum_list (map (\<lambda>c. length (bc_name c)) cs)"
  by (induction cs) auto

lemma convert_brick_printed:
  assumes "good_bbrick B" "bb_attrs B = []" "brick_cost B + brick_room B \<le> unat n"
  shows "\<exists>m' b'. convert_brick m (show_bbrick B @ rest) b n =
      (m', Some (skip_whitespace rest, b', n - of_nat (brick_cost B))) \<and>
      brick_rep m' b MASK_BRICK_ACTIVE B"
proof -
  let ?bin = "b + sizeof_brick" and ?len = "length (bb_name B)" and ?R = "brick_room B"
  let ?tail = "CHR ''}'' # NL # rest" and ?bn = "bb_name B"
  let ?text = "conn_print.list_text ?bn (bb_conns B) @ ?tail"
  let ?m1 = "m(brick_flags b \<mapsto> B_flags MASK_BRICK_ACTIVE, brick_nm b \<mapsto> B_ptr ?bin)"
  have id: "is_id ?bn" and "?len < unat n" using assms by (auto simp: good_bbrick_def brick_cost_def)
  then obtain m2 where m2: "convert_word ?m1 (?bn @ CHR '' '' # CHR ''{'' # NL # ?text) ?bin n =
      (m2, Some (CHR '' '' # CHR ''{'' # NL # ?text, ?bin + ?len + 1, n - of_nat (?len + 1)))"
    "same_below ?bin ?m1 m2" "str_at m2 ?bin ?bn"
    using convert_word_id [OF id _ \<open>?len < unat n\<close>, of "CHR '' '' # CHR ''{'' # NL # ?text" ?m1 ?bin]
    by (metis not_id_simps(1) peek.simps(2))
  let ?b2 = "?bin + ?len + 1" and ?n2 = "n - of_nat (?len + 1)"
  obtain d r where hd: "skip_whitespace ?text = d # r" "d \<in> set ''io(}''" using conns_hd by blast
  then have no_param: "skip_word (skip_whitespace ?text) (Some ''b_param'') = None"
    and no_attr: "attr_stop ?text"
    by (auto simp: attr_stop_def skip_word_mismatch)
  have n2: "unat ?n2 = unat n - (?len + 1)" using assms(3) by (intro unat_sub_of_nat) (simp add: brick_cost_def)
  obtain m3 s3 where m3: "convert_attr_list m2 (skip_whitespace ?text) ?b2 ?n2 (brick_attr b) = (m3, s3, ?b2, ?n2)"
    "s3 = skip_whitespace ?text" "m3 (brick_attr b) = Some (B_ptr 0)" "\<forall>a < ?b2. a \<noteq> brick_attr b \<longrightarrow> m3 a = m2 a"
  proof -
    have "skip_word (skip_whitespace ?text) (Some ''attr'') = None" using no_attr by (simp add: attr_stop_def)
    then have "convert_attr (m2(brick_attr b \<mapsto> B_ptr ?b2)) (skip_whitespace ?text) ?b2 ?n2 =
        (m2(brick_attr b \<mapsto> B_ptr ?b2), None)" by (simp add: convert_attr_def)
    then show thesis
      by (intro that [of "m2(brick_attr b \<mapsto> B_ptr 0)" "skip_whitespace ?text"])
         (auto simp: convert_attr_list_def)
  qed
  have "\<forall>c \<in> set (bb_conns B). good_bconn c \<and> is_id ?bn \<and> words_room [?bn, bc_name c] \<le> ?R"
    using assms(1) id room_conn by (fastforce simp: good_bbrick_def words_room_def brick_room_def)
  moreover have "conn_print.list_cost (bb_conns B) + ?R \<le> unat ?n2"
    using assms(3) n2 by (simp add: brick_cost_def)
  ultimately obtain m4 s4 b4 j where m4: "convert_conn_list m3 s3 ?b2 ?n2 (brick_conn b) =
      (m4, s4, b4, ?n2 - of_nat (conn_print.list_cost (bb_conns B)))"
    "skip_whitespace s4 = skip_whitespace ?tail" "m4 (brick_conn b) = Some (B_ptr j)"
    "chain conn_node m4 j (bb_conns B) b4" "\<forall>a < ?b2. a \<noteq> brick_conn b \<longrightarrow> m4 a = m3 a"
    using conn_print.list_printed [of "bb_conns B" ?bn ?R ?n2 ?tail s3 ?b2 "brick_conn b" m3] close_stops
    by (auto simp: m3(2) sizeof_brick_def)
  let ?n4 = "?n2 - of_nat (conn_print.list_cost (bb_conns B))"
  have "skip_str s4 '' } '' = Some (skip_whitespace rest)"
    using skip_close [of s4 "NL # rest"] m4(2) by (simp add: scan_simps)
  then have "convert_brick m (show_bbrick B @ rest) b n = (m4, Some (skip_whitespace rest, b4, ?n4))"
    using m2(1) m3(1) m4(1) no_param assms(2) brick_open_printed [of "?bn @ CHR '' '' # CHR ''{'' # NL # ?text"]
    by (simp add: convert_brick_def show_bbrick_def skip_open_brace)
  moreover have "?n4 = n - of_nat (brick_cost B)"
    using assms(2) by (simp add: brick_cost_def attr_print.list_cost_def algebra_simps)
  moreover have "brick_rep m4 b MASK_BRICK_ACTIVE B"
  proof -
    have same: "m4 a = m2 a" if "a < ?b2" "a \<noteq> brick_conn b" "a \<noteq> brick_attr b" for a
      using m4(5) m3(4) that by simp
    have "str_at m4 ?bin ?bn" by (rule str_at_stable [OF m2(3)]) (auto simp: same sizeof_brick_def)
    moreover have "m4 (brick_flags b) = Some (B_flags MASK_BRICK_ACTIVE)" "m4 (brick_nm b) = Some (B_ptr ?bin)"
      using same [of "brick_flags b"] same [of "brick_nm b"] m2(2) by (auto simp: same_below_def sizeof_brick_def)
    moreover have "m4 (brick_attr b) = Some (B_ptr 0)" using m4(5) m3(3) by (simp add: sizeof_brick_def)
    ultimately show ?thesis using m4(3,4) assms(2) unfolding brick_rep_def by auto
  qed
  ultimately show ?thesis by auto
qed


definition example_brick :: bbrick where
  "example_brick = \<lparr>bb_name = ''map'', bb_attrs = [],
     bb_conns = [\<lparr>bc_output = True, bc_active = False, bc_name = ''out'',
       bc_attrs = [(''max'', ''8'')], bc_targets = [(0x1000, ''in''), (0x20, ''sub'')]\<rparr>]\<rparr>"


section \<open>Brick attributes\<close>

lemma composed_rest:
  "composed_loop m (join_dots ws @ r) b n = (m', Some (s', b', n')) \<Longrightarrow> ws \<noteq> [] \<Longrightarrow>
   \<forall>w \<in> set ws. is_id w \<Longrightarrow> \<not> id_table (peek r) \<Longrightarrow> peek r \<noteq> CHR ''.'' \<Longrightarrow> s' = r"
proof (induction ws arbitrary: m rule: join_dots.induct)
  case (2 w)
  obtain m1 s1 b1 n1 where w: "convert_word m (w @ r) b n = (m1, Some (s1, b1, n1))"
    using "2.prems"(1) by (subst (asm) composed_loop.simps) (auto split: prod.splits option.splits)
  then have "s1 = r"
    using convert_word_rest [OF w] 2 dropWhile_append_stop [of w id_table r]
    by (cases r) (auto simp: is_id_def)
  with w "2.prems" show ?case by (subst (asm) composed_loop.simps) simp
next
  case (3 w v ws)
  let ?r = "CHR ''.'' # join_dots (v # ws) @ r"
  obtain m1 s1 b1 n1 where w: "convert_word m (w @ ?r) b n = (m1, Some (s1, b1, n1))"
    using "3.prems"(1) by (subst (asm) composed_loop.simps) (auto split: prod.splits option.splits)
  then have s1: "s1 = ?r"
    using convert_word_rest [OF w] "3.prems"(3) dropWhile_append_stop [of w id_table ?r]
    by (auto simp: is_id_def)
  with w "3.prems"(1) have "composed_loop m1 (join_dots (v # ws) @ r) b n = (m', Some (s', b', n'))"
    by (subst (asm) composed_loop.simps) simp
  with "3.IH" "3.prems" show ?case by simp
qed simp

lemma printed_battr_rejected:
  assumes "good_attr x" "is_id bn" "skip_whitespace s = show_battr bn x @ rest"
  shows "\<exists>m'. convert_attr m s b n = (m', None)"
proof (rule ccontr)
  assume "\<nexists>m'. convert_attr m s b n = (m', None)"
  then obtain m' s' b' n' where c: "convert_attr m s b n = (m', Some (s', b', n'))"
    by (metis not_None_eq prod_cases3 surj_pair)
  let ?r = "snd x @ '' {'' @ NL # rest" and ?ws = "[bn, fst x]"
  have s: "skip_whitespace s = ''attr'' @ CHR '' '' # join_dots ?ws @ CHR ''='' # ?r"
    using assms(3) by (simp add: show_battr_def)
  have w: "skip_word (''attr'' @ CHR '' '' # join_dots ?ws @ CHR ''='' # ?r) (Some ''attr'') =
      Some (CHR '' '' # join_dots ?ws @ CHR ''='' # ?r)"
    by (rule skip_word_match) (auto simp: table_defs)
  have w2: "skip_whitespace (CHR '' '' # join_dots ?ws @ CHR ''='' # ?r) = join_dots ?ws @ CHR ''='' # ?r"
    using skip_ws_ids [OF assms(2)] by (simp add: scan_simps)
  from c s w w2 obtain m2 s2 b2 n2 act s3 m4 s4 b4 n4 where
    2: "composed_loop (m(attr_name b \<mapsto> B_ptr (b + sizeof_attr))) (join_dots ?ws @ CHR ''='' # ?r)
       (b + sizeof_attr) n = (m2, Some (s2, b2, n2))"
    and 3: "convert_op s2 = Some (act, s3)"
    and 4: "convert_string (m2(attr_value b \<mapsto> B_ptr b2)) s3 b2 n2 = (m4, Some (s4, b4, n4))"
    and 5: "skip_end_of_line s4 = Some s'"
    by (auto simp: convert_attr_def convert_composed_identifier_def Let_def split: option.splits prod.splits)
  have "\<forall>w \<in> set ?ws. is_id w" using assms(1,2) by (simp add: good_attr_def)
  from composed_rest [OF 2 _ this] have "s2 = CHR ''='' # ?r" by simp
  with 3 assms(1) have "s3 = ?r" by (cases "snd x") (auto simp: convert_op_def op_action_def good_attr_def)
  moreover have "dropWhile printable ?r = '' {'' @ NL # rest"
    using assms(1) by (intro dropWhile_append_stop) (auto simp: good_attr_def printable_def)
  ultimately have "s4 = '' {'' @ NL # rest" using convert_string_rest [OF 4] by simp
  with 5 show False by (simp add: skip_end_of_line_def table_defs)
qed

text \<open>\<^verbatim>\<open>brick_to_string\<close> is not the inverse of \<^verbatim>\<open>convert_brick\<close> when the brick has attributes of its
  own: they are printed with a trailing brace, and \<^verbatim>\<open>convert_brick\<close> rejects every such text, however
  large the buffer is.\<close>

theorem printed_brick_attributes_rejected:
  assumes "good_bbrick B" and "bb_attrs B \<noteq> []"
  shows "\<exists>m'. convert_brick m (show_bbrick B @ rest) b n = (m', None)"
proof -
  obtain x xs where x: "bb_attrs B = x # xs" using assms(2) by (cases "bb_attrs B") auto
  let ?bn = "bb_name B"
  define more where "more = concat (map (show_battr ?bn) xs) @ conn_print.list_text ?bn (bb_conns B) @ CHR ''}'' # NL # rest"
  let ?t = "show_battr ?bn x @ more" and ?s = "?bn @ CHR '' '' # CHR ''{'' # NL # show_battr ?bn x @ more"
  have good: "is_id ?bn" "good_attr x" using assms(1) x by (auto simp: good_bbrick_def)
  have t: "skip_whitespace ?t = ?t" "hd ?t = CHR ''a''" "?t \<noteq> []"
    by (simp_all add: show_battr_def scan_simps)
  have printed: "show_bbrick B @ rest = ''brick=='' @ ?s" by (simp add: show_bbrick_def x more_def)
  have "snd (convert_brick m (''brick=='' @ ?s) b n) = None"
  proof (rule ccontr)
    assume "snd (convert_brick m (''brick=='' @ ?s) b n) \<noteq> None"
    then obtain m' c where c: "convert_brick m (''brick=='' @ ?s) b n = (m', Some c)"
      by (cases "convert_brick m (''brick=='' @ ?s) b n") auto
    then obtain m2 s2 b2 n2 where w: "convert_word (m(brick_flags b \<mapsto> B_flags MASK_BRICK_ACTIVE,
        brick_nm b \<mapsto> B_ptr (b + sizeof_brick))) ?s (b + sizeof_brick) n = (m2, Some (s2, b2, n2))"
      unfolding convert_brick_def brick_open_printed
      by (cases "convert_word (m(brick_flags b \<mapsto> B_flags MASK_BRICK_ACTIVE,
        brick_nm b \<mapsto> B_ptr (b + sizeof_brick))) ?s (b + sizeof_brick) n") (auto split: option.splits)
    have "s2 = CHR '' '' # CHR ''{'' # NL # ?t"
      using convert_word_rest [OF w] good(1) dropWhile_append_stop [of ?bn id_table "CHR '' '' # CHR ''{'' # NL # ?t"]
      by (simp add: is_id_def)
    then have str: "skip_str s2 '' { '' = Some ?t" by (simp add: skip_open_brace t(1))
    have param: "skip_word ?t (Some ''b_param'') = None" using t by (simp add: skip_word_mismatch)
    obtain m3 where "convert_attr (m2(brick_attr b \<mapsto> B_ptr b2)) ?t b2 n2 = (m3, None)"
      using printed_battr_rejected [OF good(2,1) t(1)] by blast
    then have l3: "convert_attr_list m2 ?t b2 n2 (brick_attr b) = (m3(brick_attr b \<mapsto> B_ptr 0), ?t, b2, n2)"
      by (simp add: convert_attr_list_def)
    have hd: "skip_whitespace ?t = CHR ''a'' # tl ?t" using t by (metis list.collapse)
    then have "conn_stop ?t" by (rule conn_stop_hd) simp
    from conn_print.conv_stop [OF this, of "m3(brick_attr b \<mapsto> B_ptr 0, brick_conn b \<mapsto> B_ptr b2)" b2 n2]
    obtain m4 where "convert_conn_list (m3(brick_attr b \<mapsto> B_ptr 0)) ?t b2 n2 (brick_conn b) = (m4, ?t, b2, n2)"
      by (auto simp: convert_conn_list_def)
    moreover have "skip_str ?t '' } '' = None" by (simp only: skip_str.simps hd) simp
    ultimately show False
      using c w str param l3 brick_open_printed [of ?s] by (simp add: convert_brick_def)
  qed
  then show ?thesis unfolding printed by (metis eq_snd_iff)
qed

theorem printed_brick_attributes_rejected_witness:
  "\<exists>m'. convert_brick Map.empty (show_bbrick \<lparr>bb_name = ''b'', bb_attrs = [(''a'', ''1'')], bb_conns = []\<rparr>) 64 1000 =
     (m', None)"
proof -
  let ?B = "\<lparr>bb_name = ''b'', bb_attrs = [(''a'', ''1'')], bb_conns = []\<rparr>"
  have "good_bbrick ?B" "bb_attrs ?B \<noteq> []"
    by (simp_all add: good_bbrick_def good_attr_def is_id_def printable_def table_defs)
  from printed_brick_attributes_rejected [OF this, of Map.empty "[]" 64 1000] show ?thesis by simp
qed

section \<open>The flags of a connector\<close>

text \<open>The action of a connection is stored in the bits from 4 upwards, of which bit 4 is also the
  mark of an initialized connector.  So on an initialized connector every action is read back with
  its lowest bit set (a mere query as a creation), and on an uninitialized one an action with an odd
  code marks the connector as initialized.\<close>

theorem target_action_clashes:
  assumes "conn_open s = (fl, Some s')"
  shows "GET_CONN_TARGET_ACTION (fl OR push_bit 4 (action_code a)) =
      (if IS_CONN_ACTIVE fl then action_code a OR 1 else action_code a) \<and>
     (IS_CONN_ACTIVE (fl OR push_bit 4 (action_code a)) \<longleftrightarrow>
      IS_CONN_ACTIVE fl \<or> a \<in> {STRAT_CREATE, STRAT_INIT, STRAT_REINIT})"
proof -
  obtain act out b where fl: "fl = (if act then MASK_CONN_ACTIVE else 0) OR (if out then MASK_CONN_TYPE else 0) OR action_code b"
  proof -
    have "\<exists>act out b. fl = (if act then MASK_CONN_ACTIVE else 0) OR (if out then MASK_CONN_TYPE else 0) OR action_code b"
      using assms
      by (auto simp: conn_open_def Let_def or.assoc split: option.splits prod.splits if_splits
          intro: exI [of _ False] exI [of _ True])
    then show thesis using that by blast
  qed
  show ?thesis unfolding fl
    by (cases act; cases out; cases a; cases b)
       (simp_all add: GET_CONN_TARGET_ACTION_def IS_CONN_ACTIVE_def MASK_CONN_ACTIVE_def MASK_CONN_TYPE_def)
qed

theorem target_action_clashes_witness:
  "conn_open ''input==in'' = (0x10, Some ''in'') \<and>
   GET_CONN_TARGET_ACTION (0x10 OR push_bit 4 (action_code STRAT_READ)) = action_code STRAT_CREATE"
proof -
  have o: "conn_open ''input==in'' = (0x10, Some ''in'')"
    using conn_open_printed [of True False "''in''"]
    by (simp add: conn_open_def scan_simps conn_kw_def MASK_CONN_ACTIVE_def)
  have "IS_CONN_ACTIVE 0x10" by (simp add: IS_CONN_ACTIVE_def)
  with target_action_clashes [OF o, of STRAT_READ] o show ?thesis by simp
qed

end
