(* ===== verification/Bin_Print.thy ===== *)
theory Bin_Print
  imports Bin_Bricks
begin

text \<open>
  \<^verbatim>\<open>brick_to_string\<close> of \<^verbatim>\<open>src/trunk/src/binstrat.c\<close>, which walks the linked records of a brick and
  prints a strategy text, and its round trip with \<^verbatim>\<open>convert_brick\<close>.

  The lists in the store may be cyclic, so the loops over them are partial functions; \<open>None\<close> is a
  loop that does not end, a read of a cell that does not hold the expected value, or a fault of
  the formatted output.  The state of the printer is the text written so far and \<^verbatim>\<open>*textbuf_len\<close>.
\<close>

section \<open>Reading the store\<close>

definition get_ptr :: "mem \<Rightarrow> nat \<Rightarrow> nat option" where
  "get_ptr m a = (case m a of Some v \<Rightarrow> (case v of B_ptr p \<Rightarrow> Some p | _ \<Rightarrow> None) | None \<Rightarrow> None)"

definition get_flags :: "mem \<Rightarrow> nat \<Rightarrow> u16 option" where
  "get_flags m a = (case m a of Some v \<Rightarrow> (case v of B_flags f \<Rightarrow> Some f | _ \<Rightarrow> None) | None \<Rightarrow> None)"

definition get_addr :: "mem \<Rightarrow> nat \<Rightarrow> u64 option" where
  "get_addr m a = (case m a of Some v \<Rightarrow> (case v of B_addr x \<Rightarrow> Some x | _ \<Rightarrow> None) | None \<Rightarrow> None)"

definition get_char :: "mem \<Rightarrow> nat \<Rightarrow> char option" where
  "get_char m a = (case m a of Some v \<Rightarrow> (case v of B_char c \<Rightarrow> Some c | _ \<Rightarrow> None) | None \<Rightarrow> None)"

partial_function (option) read_str :: "mem \<Rightarrow> nat \<Rightarrow> string option" where
  "read_str m p =
     Option.bind (get_char m p) (\<lambda>c.
       if c = NUL then Some [] else Option.bind (read_str m (p + 1)) (\<lambda>s. Some (c # s)))"

definition get_cstr :: "mem \<Rightarrow> nat \<Rightarrow> string option" where
  "get_cstr m a = Option.bind (get_ptr m a) (read_str m)"

section \<open>Printing\<close>

type_synonym pstate = "string \<times> int"

definition tprint :: "pstate \<Rightarrow> string \<Rightarrow> va list \<Rightarrow> pstate option" where
  "tprint st fmt vs =
     (case athsnprintf (snd st) fmt vs of
        None \<Rightarrow> None
      | Some out \<Rightarrow> Some (fst st @ out, snd st - int (length out)))"

text \<open>The loops over attributes, of the brick and of its connectors.\<close>

partial_function (option) print_attrs :: "mem \<Rightarrow> string \<Rightarrow> va list \<Rightarrow> nat \<Rightarrow> pstate \<Rightarrow> pstate option" where
  "print_attrs m fmt pre p st =
     (if p = 0 then Some st
      else Option.bind (get_cstr m (attr_name p)) (\<lambda>nm.
           Option.bind (get_cstr m (attr_value p)) (\<lambda>v.
           Option.bind (tprint st fmt (pre @ [A_str nm, A_str v])) (\<lambda>st.
           Option.bind (get_ptr m (attr_next p)) (\<lambda>q. print_attrs m fmt pre q st)))))"

partial_function (option) print_targets :: "mem \<Rightarrow> nat \<Rightarrow> pstate \<Rightarrow> pstate option" where
  "print_targets m p st =
     (if p = 0 then Some st
      else Option.bind (get_addr m (target_addr p)) (\<lambda>a.
           Option.bind (get_cstr m (target_name p)) (\<lambda>nm.
           Option.bind (tprint st '',%L:%s'' [A_addr a, A_str nm]) (\<lambda>st.
           Option.bind (get_ptr m (target_next p)) (\<lambda>q. print_targets m q st)))))"

definition print_connect :: "mem \<Rightarrow> string \<Rightarrow> nat \<Rightarrow> pstate \<Rightarrow> (bool \<times> pstate) option" where
  "print_connect m nm t st =
     Option.bind (get_addr m (target_addr t)) (\<lambda>a.
     Option.bind (get_cstr m (target_name t)) (\<lambda>tn.
     Option.bind (tprint st ''    connect %s==%L:%s'' [A_str nm, A_addr a, A_str tn]) (\<lambda>st.
     Option.bind (get_ptr m (target_next t)) (\<lambda>q.
     Option.bind (print_targets m q st) (\<lambda>st.
       if snd st < 1 then Some (False, st) else Some (True, fst st @ [NL], snd st - 1))))))"

text \<open>One connector up to its closing brace, and the loop over the connectors.\<close>

definition print_conn :: "mem \<Rightarrow> string \<Rightarrow> nat \<Rightarrow> pstate \<Rightarrow> (bool \<times> pstate) option" where
  "print_conn m bn p st =
     Option.bind (get_flags m (conn_flags p)) (\<lambda>fl.
     Option.bind (get_cstr m (conn_nm p)) (\<lambda>nm.
     Option.bind (tprint st ((if IS_CONN_ACTIVE fl then ''  %s==%s {'' else ''  (%s)==%s {'') @ [NL])
                    [A_str (if IS_CONN_INPUT fl then ''input'' else ''output''), A_str nm]) (\<lambda>st.
     Option.bind (get_ptr m (conn_attr p)) (\<lambda>a.
     Option.bind (print_attrs m (''    attr %s.%s.%s=%s'' @ [NL]) [A_str bn, A_str nm] a st) (\<lambda>st.
     Option.bind (get_ptr m (conn_target p)) (\<lambda>t.
     Option.bind (if t = 0 then Some (True, st) else print_connect m nm t st) (\<lambda>(ok, st).
       if \<not> ok \<or> snd st < 4 then Some (False, st)
       else Some (True, fst st @ ''  }'' @ [NL], snd st - 4))))))))"

partial_function (option) print_conns :: "mem \<Rightarrow> string \<Rightarrow> nat \<Rightarrow> pstate \<Rightarrow> (bool \<times> pstate) option" where
  "print_conns m bn p st =
     (if p = 0 then Some (True, st)
      else Option.bind (print_conn m bn p st) (\<lambda>r.
           if \<not> fst r then Some r
           else Option.bind (get_ptr m (conn_next p)) (\<lambda>q. print_conns m bn q (snd r))))"

text \<open>The result, the text in the buffer and the space left.\<close>

definition brick_to_string :: "mem \<Rightarrow> nat \<Rightarrow> int \<Rightarrow> (bool \<times> pstate) option" where
  "brick_to_string m p textbuf_len =
     Option.bind (get_cstr m (brick_nm p)) (\<lambda>bn.
     Option.bind (tprint ([], textbuf_len) (''brick==%s {'' @ [NL]) [A_str bn]) (\<lambda>st.
     Option.bind (get_ptr m (brick_attr p)) (\<lambda>a.
     Option.bind (print_attrs m (''attr %s.%s=%s {'' @ [NL]) [A_str bn] a st) (\<lambda>st.
     Option.bind (get_ptr m (brick_conn p)) (\<lambda>c.
     Option.bind (print_conns m bn c st) (\<lambda>(ok, st).
       if \<not> ok \<or> snd st < 3 then Some (False, st)
       else Some (True, fst st @ ''}'' @ [NL], snd st - 3)))))))"

section \<open>Printing represented records\<close>

lemma read_str_at: "str_at m p s \<Longrightarrow> no_nul s \<Longrightarrow> read_str m p = Some s"
proof (induction s arbitrary: p)
  case Nil
  then show ?case by (subst read_str.simps) (simp add: get_char_def)
next
  case (Cons c s)
  then show ?case by (subst read_str.simps) (simp add: get_char_def)
qed

lemma get_cstr_at: "m a = Some (B_ptr q) \<Longrightarrow> str_at m q s \<Longrightarrow> no_nul s \<Longrightarrow> get_cstr m a = Some s"
  by (simp add: get_cstr_def get_ptr_def read_str_at)

lemma is_id_no_nul: "is_id w \<Longrightarrow> no_nul w"
  by (auto simp: is_id_def no_nul_def)

lemma printable_no_nul: "\<forall>c \<in> set w. printable c \<Longrightarrow> no_nul w"
  by (auto simp: no_nul_def printable_def)

lemma tprint_fits:
  assumes "render fmt vs = Some t" "int (length t) + 1 < snd st"
  shows "tprint st fmt vs = Some (fst st @ t, snd st - int (length t))"
  using ath_loop_fits [OF assms(1), of "snd st - 1"] assms(2)
  by (simp add: tprint_def athsnprintf_def athvsnprintf_def)

definition small :: "string \<Rightarrow> bool" where
  "small s \<longleftrightarrow> length s < 2 ^ 31"

lemma take_small [simp]: "small s \<Longrightarrow> take 4294967295 s = s"
  by (simp add: small_def)

lemmas render_simps = conv_chars_def fetch_def tab_of_def

lemma render_attr:
  assumes "small bn" "small cn" "small (fst x)" "small (snd x)"
  shows "render (''    attr %s.%s.%s=%s'' @ [NL]) [A_str bn, A_str cn, A_str (fst x), A_str (snd x)] =
     Some (show_attr [bn, cn] x)"
  using assms by (simp add: render_simps show_attr_def)

lemma render_battr:
  assumes "small bn" "small (fst x)" "small (snd x)"
  shows "render (''attr %s.%s=%s {'' @ [NL]) [A_str bn, A_str (fst x), A_str (snd x)] = Some (show_battr bn x)"
  using assms by (simp add: render_simps show_battr_def)

lemma render_target:
  assumes "small (snd x)"
  shows "render '',%L:%s'' [A_addr (fst x), A_str (snd x)] = Some (CHR '','' # show_target x)"
  using assms by (simp add: render_simps show_target_def)

lemma render_connect:
  assumes "small nm" "small (snd x)"
  shows "render ''    connect %s==%L:%s'' [A_str nm, A_addr (fst x), A_str (snd x)] =
     Some (''    connect '' @ nm @ ''=='' @ show_target x)"
  using assms by (simp add: render_simps show_target_def)

lemma render_conn:
  assumes "small nm"
  shows "render ((if act then ''  %s==%s {'' else ''  (%s)==%s {'') @ [NL]) [A_str (conn_kw out), A_str nm] =
     Some ((if act then ''  '' @ conn_kw out @ ''=='' else ''  ('' @ conn_kw out @ '')=='') @ nm @ '' {'' @ [NL])"
  using assms by (cases act; cases out) (simp_all add: render_simps conn_kw_def small_def)

lemma render_brick:
  "small bn \<Longrightarrow> render (''brick==%s {'' @ [NL]) [A_str bn] = Some (''brick=='' @ bn @ '' {'' @ [NL])"
  by (simp add: render_simps)

lemma print_attrs_chain:
  assumes "chain attr_node m p xs e" "\<forall>x \<in> set xs. good_attr x"
    "\<forall>x \<in> set xs. render fmt (pre @ [A_str (fst x), A_str (snd x)]) = Some (sh x)"
    "int (length (concat (map sh xs))) + 1 < snd st"
  shows "print_attrs m fmt pre p st =
     Some (fst st @ concat (map sh xs), snd st - int (length (concat (map sh xs))))"
  using assms
proof (induction xs arbitrary: p st)
  case Nil
  then show ?case by (subst print_attrs.simps) simp
next
  case (Cons x xs)
  obtain q r where qr: "0 < p" "attr_node m p x q" "m p = Some (B_ptr r)" "chain attr_node m r xs e"
    using Cons.prems(1) by auto
  have "no_nul (fst x)" "no_nul (snd x)"
    using Cons.prems(2) is_id_no_nul printable_no_nul by (simp_all add: good_attr_def)
  then have strs: "get_cstr m (p + 4) = Some (fst x)" "get_cstr m (p + 8) = Some (snd x)"
    using qr(2) by (auto simp: attr_node_def intro: get_cstr_at)
  have "tprint st fmt (pre @ [A_str (fst x), A_str (snd x)]) = Some (fst st @ sh x, snd st - int (length (sh x)))"
    using Cons.prems(3,4) by (intro tprint_fits) auto
  with qr strs Cons.IH [OF qr(4), of "(fst st @ sh x, snd st - int (length (sh x)))"] Cons.prems show ?case
    by (subst print_attrs.simps) (simp add: get_ptr_def algebra_simps)
qed

lemma target_node_get:
  "target_node m p x q \<Longrightarrow> is_id (snd x) \<Longrightarrow>
   get_addr m (p + 4) = Some (fst x) \<and> get_cstr m (p + 12) = Some (snd x)"
  by (auto simp: target_node_def get_addr_def intro!: get_cstr_at is_id_no_nul)

lemma print_targets_chain:
  assumes "chain target_node m p xs e" "\<forall>x \<in> set xs. is_id (snd x) \<and> small (snd x)"
    "int (length (more_targets xs)) + 1 < snd st"
  shows "print_targets m p st = Some (fst st @ more_targets xs, snd st - int (length (more_targets xs)))"
  using assms
proof (induction xs arbitrary: p st)
  case Nil
  then show ?case by (subst print_targets.simps) (simp add: more_targets_def)
next
  case (Cons x xs)
  obtain q r where qr: "0 < p" "target_node m p x q" "m p = Some (B_ptr r)" "chain target_node m r xs e"
    using Cons.prems(1) by auto
  have get: "get_addr m (p + 4) = Some (fst x)" "get_cstr m (p + 12) = Some (snd x)"
    using target_node_get [OF qr(2)] Cons.prems(2) by simp_all
  let ?t = "CHR '','' # show_target x"
  have "tprint st '',%L:%s'' [A_addr (fst x), A_str (snd x)] = Some (fst st @ ?t, snd st - int (length ?t))"
    using Cons.prems(2,3) by (intro tprint_fits render_target) (auto simp: more_targets_def)
  with qr get Cons.IH [OF qr(4), of "(fst st @ ?t, snd st - int (length ?t))"] Cons.prems show ?case
    by (subst print_targets.simps) (simp add: get_ptr_def more_targets_def algebra_simps)
qed

lemma print_connect_chain:
  assumes "chain target_node m p (x # xs) e" "\<forall>x \<in> set (x # xs). is_id (snd x) \<and> small (snd x)" "small nm"
    "int (length (show_connect nm (x # xs))) + 1 < snd st"
  shows "print_connect m nm p st =
     Some (True, fst st @ show_connect nm (x # xs), snd st - int (length (show_connect nm (x # xs))))"
proof -
  obtain q r where qr: "0 < p" "target_node m p x q" "m p = Some (B_ptr r)" "chain target_node m r xs e"
    using assms(1) by auto
  have get: "get_addr m (p + 4) = Some (fst x)" "get_cstr m (p + 12) = Some (snd x)"
    using target_node_get [OF qr(2)] assms(2) by simp_all
  let ?t = "''    connect '' @ nm @ ''=='' @ show_target x"
  let ?st = "(fst st @ ?t, snd st - int (length ?t))"
  have t: "tprint st ''    connect %s==%L:%s'' [A_str nm, A_addr (fst x), A_str (snd x)] = Some ?st"
    using assms by (intro tprint_fits render_connect) (auto simp: show_connect_def)
  have "print_targets m r ?st = Some (fst ?st @ more_targets xs, snd ?st - int (length (more_targets xs)))"
    using assms by (intro print_targets_chain [OF qr(4)]) (auto simp: show_connect_def)
  with qr get t assms(4) show ?thesis
    by (simp add: print_connect_def get_ptr_def show_connect_def algebra_simps)
qed

lemma conn_kw_flags: "(if IS_CONN_INPUT (flags_of c) then ''input'' else ''output'') = conn_kw (bc_output c)"
  "IS_CONN_ACTIVE (flags_of c) = bc_active c"
  by (auto simp: conn_kw_def flags_of_def IS_CONN_INPUT_def IS_CONN_ACTIVE_def MASK_CONN_ACTIVE_def
      MASK_CONN_TYPE_def)

lemma member_length: "x \<in> set xs \<Longrightarrow> length (f x) \<le> length (concat (map f xs))"
  by (induction xs) auto

text \<open>Everything in a printed connector of moderate length is of moderate length.\<close>

lemma small_conn:
  assumes "length (show_bconn bn c) < 2 ^ 31"
  shows "small (bc_name c)" "\<forall>x \<in> set (bc_attrs c). small bn \<and> small (fst x) \<and> small (snd x)"
    "\<forall>x \<in> set (bc_targets c). small (snd x)"
proof -
  show "small (bc_name c)" using assms by (auto simp: show_bconn_def small_def)
  show "\<forall>x \<in> set (bc_attrs c). small bn \<and> small (fst x) \<and> small (snd x)"
  proof
    fix x assume "x \<in> set (bc_attrs c)"
    from member_length [OF this, of "show_attr [bn, bc_name c]"] assms
    show "small bn \<and> small (fst x) \<and> small (snd x)"
      by (auto simp: show_bconn_def attr_print.list_text_def show_attr_def small_def split: if_splits)
  qed
  show "\<forall>x \<in> set (bc_targets c). small (snd x)"
  proof
    fix x assume x: "x \<in> set (bc_targets c)"
    then obtain t ts where c: "bc_targets c = t # ts" by (cases "bc_targets c") auto
    have "length (snd x) \<le> length (show_connect (bc_name c) (bc_targets c))"
      using x member_length [of x ts "\<lambda>t. '','' @ show_target t"]
      by (auto simp: c show_connect_def more_targets_def show_target_def)
    with assms show "small (snd x)" by (auto simp: show_bconn_def small_def split: if_splits)
  qed
qed

lemma print_conn_node:
  assumes node: "conn_node m p c q" and good: "good_bconn c" "is_id bn"
    and small: "length (show_bconn bn c) < 2 ^ 31" and room: "int (length (show_bconn bn c)) + 1 < snd st"
  shows "print_conn m bn p st =
     Some (True, fst st @ show_bconn bn c, snd st - int (length (show_bconn bn c)))"
proof -
  note sm = small_conn [OF small]
  let ?hd = "(if bc_active c then ''  '' @ conn_kw (bc_output c) @ ''=='' else ''  ('' @ conn_kw (bc_output c) @ '')=='')
    @ bc_name c @ '' {'' @ [NL]"
  let ?attrs = "concat (map (show_attr [bn, bc_name c]) (bc_attrs c))"
  let ?con = "show_connect (bc_name c) (bc_targets c)"
  have printed: "show_bconn bn c = ?hd @ ?attrs @ ?con @ ''  }'' @ [NL]"
    by (simp add: show_bconn_def attr_print.list_text_def)
  from node obtain r i j k where n: "m (p + 4) = Some (B_flags (flags_of c))" "m (p + 8) = Some (B_ptr r)"
    "str_at m r (bc_name c)" "m (p + 12) = Some (B_ptr i)" "chain attr_node m i (bc_attrs c) k"
    "m (p + 16) = Some (B_ptr j)" "chain target_node m j (bc_targets c) q"
    by (auto simp: conn_node_def)
  let ?st1 = "(fst st @ ?hd, snd st - int (length ?hd))"
  let ?st2 = "(fst ?st1 @ ?attrs, snd ?st1 - int (length ?attrs))"
  let ?st3 = "(fst ?st2 @ ?con, snd ?st2 - int (length ?con))"
  have nm: "get_cstr m (p + 8) = Some (bc_name c)"
    using n(2,3) good(1) by (auto simp: good_bconn_def intro!: get_cstr_at is_id_no_nul)
  have 1: "tprint st ((if bc_active c then ''  %s==%s {'' else ''  (%s)==%s {'') @ [NL])
      [A_str (conn_kw (bc_output c)), A_str (bc_name c)] = Some ?st1"
    using room sm(1) by (intro tprint_fits render_conn) (auto simp: printed)
  have 2: "print_attrs m (''    attr %s.%s.%s=%s'' @ [NL]) [A_str bn, A_str (bc_name c)] i ?st1 = Some ?st2"
  proof (rule print_attrs_chain [OF n(5)])
    show "\<forall>x \<in> set (bc_attrs c). good_attr x" using good(1) by (simp add: good_bconn_def)
    show "\<forall>x \<in> set (bc_attrs c). render (''    attr %s.%s.%s=%s'' @ [NL])
        ([A_str bn, A_str (bc_name c)] @ [A_str (fst x), A_str (snd x)]) = Some (show_attr [bn, bc_name c] x)"
      using render_attr sm(1,2) by (metis append_Cons append_Nil)
    show "int (length ?attrs) + 1 < snd ?st1" using room by (simp add: printed)
  qed
  have 3: "(if j = 0 then Some (True, ?st2) else print_connect m (bc_name c) j ?st2) = Some (True, ?st3)"
  proof (cases "bc_targets c")
    case Nil
    then show ?thesis using n(7) by (simp add: show_connect_def)
  next
    case (Cons t ts)
    have "\<forall>x \<in> set (t # ts). is_id (snd x) \<and> small (snd x)"
      using good(1) sm(3) Cons by (auto simp: good_bconn_def)
    from print_connect_chain [OF _ this sm(1), of m j q ?st2] n(7) room Cons show ?thesis
      by (auto simp: printed)
  qed
  have "snd ?st3 \<ge> 4" using room by (simp add: printed)
  with n nm 1 2 3 show ?thesis
    by (simp only: print_conn_def get_flags_def get_ptr_def option.case bval.case Option.bind.bind_lunit
        conn_kw_flags case_prod_conv) (simp add: printed)
qed

lemma print_conns_chain:
  assumes "chain conn_node m p cs e" "\<forall>c \<in> set cs. good_bconn c" "is_id bn"
    "length (concat (map (show_bconn bn) cs)) < 2 ^ 31"
    "int (length (concat (map (show_bconn bn) cs))) + 1 < snd st"
  shows "print_conns m bn p st =
     Some (True, fst st @ concat (map (show_bconn bn) cs),
           snd st - int (length (concat (map (show_bconn bn) cs))))"
  using assms
proof (induction cs arbitrary: p st)
  case Nil
  then show ?case by (subst print_conns.simps) simp
next
  case (Cons c cs)
  obtain q r where qr: "0 < p" "conn_node m p c q" "m p = Some (B_ptr r)" "chain conn_node m r cs e"
    using Cons.prems(1) by auto
  let ?st = "(fst st @ show_bconn bn c, snd st - int (length (show_bconn bn c)))"
  have "print_conn m bn p st = Some (True, ?st)"
    using Cons.prems by (intro print_conn_node [OF qr(2)]) auto
  with qr Cons.IH [OF qr(4), of ?st] Cons.prems show ?case
    by (subst print_conns.simps) (simp add: get_ptr_def algebra_simps)
qed

lemma print_brick:
  assumes rep: "brick_rep m p fl B" and good: "good_bbrick B"
    and room: "int (length (show_bbrick B)) + 1 < len" "len < 2 ^ 31"
  shows "brick_to_string m p len = Some (True, show_bbrick B, len - int (length (show_bbrick B)) - 1)"
proof -
  let ?bn = "bb_name B"
  let ?hd = "''brick=='' @ ?bn @ '' {'' @ [NL]" and ?attrs = "concat (map (show_battr ?bn) (bb_attrs B))"
  let ?conns = "concat (map (show_bconn ?bn) (bb_conns B))"
  have printed: "show_bbrick B = ?hd @ ?attrs @ ?conns @ ''}'' @ [NL]"
    by (simp add: show_bbrick_def conn_print.list_text_def)
  from rep obtain q i j e where n: "m (p + 4) = Some (B_ptr q)" "str_at m q ?bn"
    "m (p + 8) = Some (B_ptr i)" "chain attr_node m i (bb_attrs B) e"
    "m (p + 12) = Some (B_ptr j)" "chain conn_node m j (bb_conns B) e"
    by (auto simp: brick_rep_def)
  have id: "is_id ?bn" using good by (simp add: good_bbrick_def)
  have bn: "get_cstr m (p + 4) = Some ?bn" using n(1,2) is_id_no_nul [OF id] by (rule get_cstr_at)
  let ?st1 = "(?hd, len - int (length ?hd))"
  let ?st2 = "(fst ?st1 @ ?attrs, snd ?st1 - int (length ?attrs))"
  let ?st3 = "(fst ?st2 @ ?conns, snd ?st2 - int (length ?conns))"
  have total: "length ?hd + length ?attrs + length ?conns < 2 ^ 31" using room by (simp add: printed)
  have sm: "small ?bn" using total by (simp add: small_def)
  have 1: "tprint ([], len) (''brick==%s {'' @ [NL]) [A_str ?bn] = Some ?st1"
    using tprint_fits [OF render_brick [OF sm], of "([], len)"] room(1) by (simp add: printed)
  have 2: "print_attrs m (''attr %s.%s=%s {'' @ [NL]) [A_str ?bn] i ?st1 = Some ?st2"
  proof (rule print_attrs_chain [OF n(4)])
    show "\<forall>x \<in> set (bb_attrs B). good_attr x" using good by (simp add: good_bbrick_def)
    show "\<forall>x \<in> set (bb_attrs B). render (''attr %s.%s=%s {'' @ [NL])
        ([A_str ?bn] @ [A_str (fst x), A_str (snd x)]) = Some (show_battr ?bn x)"
    proof
      fix x assume "x \<in> set (bb_attrs B)"
      from member_length [OF this, of "show_battr ?bn"] total have "small (fst x)" "small (snd x)"
        by (auto simp: show_battr_def small_def)
      with render_battr [OF sm this] show "render (''attr %s.%s=%s {'' @ [NL])
        ([A_str ?bn] @ [A_str (fst x), A_str (snd x)]) = Some (show_battr ?bn x)" by simp
    qed
    show "int (length ?attrs) + 1 < snd ?st1" using room(1) by (simp add: printed)
  qed
  have 3: "print_conns m ?bn j ?st2 = Some (True, ?st3)"
    using good room(1) total by (intro print_conns_chain [OF n(6) _ id]) (auto simp: good_bbrick_def printed)
  have "snd ?st3 \<ge> 3" using room(1) by (simp add: printed)
  with n bn 1 2 3 show ?thesis
    by (simp only: brick_to_string_def get_ptr_def option.case bval.case Option.bind.bind_lunit
        case_prod_conv) (simp add: printed)
qed

lemma example_fits:
  "good_bbrick example_brick" "bb_attrs example_brick = []"
  "brick_cost example_brick + brick_room example_brick \<le> unat (1000 :: u32)"
  "int (length (show_bbrick example_brick)) + 1 < 1000" "(1000 :: int) < 2 ^ 31"
  by (simp_all add: example_brick_def good_bbrick_def good_bconn_def good_attr_def is_id_def
        printable_def table_defs brick_cost_def brick_room_def attr_print.list_cost_def
        conn_print.list_cost_def conn_cost_def sizeof_conn_def attr_cost_def targets_cost_def
        target_cost_def show_bbrick_def show_bconn_def conn_print.list_text_def
        attr_print.list_text_def show_attr_def show_connect_def show_target_def more_targets_def
        conn_kw_def letter_def show_nat_def digits.simps)

section \<open>The round trip\<close>

text \<open>\<^verbatim>\<open>brick_to_string\<close> prints the records of a brick: from any store that represents a brick, with
  room for its text, it ends (the loops over the lists terminate), succeeds and produces exactly the
  printed form of that brick.\<close>

theorem brick_to_string_prints:
  assumes "brick_rep m p fl B" "good_bbrick B"
    "int (length (show_bbrick B)) + 1 < len" "len < 2 ^ 31"
  shows "brick_to_string m p len = Some (True, show_bbrick B, len - int (length (show_bbrick B)) - 1)"
  by (rule print_brick [OF assms])

theorem brick_to_string_prints_witness:
  "\<exists>m r. brick_to_string m 64 1000 = Some (True, show_bbrick example_brick, r)"
proof -
  from convert_brick_printed [OF example_fits(1,2,3), of Map.empty "[]" 64]
  obtain m where rep: "brick_rep m 64 MASK_BRICK_ACTIVE example_brick" by blast
  from brick_to_string_prints [OF rep example_fits(1,4,5)] show ?thesis by blast
qed



end
