(* ===== verification/Buffer_Brick.thy ===== *)
theory Buffer_Brick
  imports Nest_Ops
begin

text \<open>
  The stateful buffer cache brick (\<^verbatim>\<open>src/trunk/src/buffer_dummy_linux.ath\<close>), a brick written in the
  project's own dialect of C, with the defaults of \<^verbatim>\<open>lib.c\<close> for the operations it leaves out.

  The table of hash chains is a function from the hash value to the chain.  The results of
  \<^verbatim>\<open>malloc\<close> are an input: a list of addresses, 0 for NULL, consumed call by call.  \<^verbatim>\<open>@.check\<close> prints a
  message and returns.  Access through a null pointer stops the program (\<open>crashed\<close>).  The device
  behind the input \<^verbatim>\<open>:<dev\<close> is a parameter: its table of operations on a state \<open>'d\<close> of its own.
  The checks under \<^verbatim>\<open>#ifdef DEBUG\<close> are left out.
\<close>

section \<open>The hash table\<close>

record node =
  n_addr :: addr_t
  n_len :: len_t
  n_phys :: paddr_t
  refcount :: int
  writecount :: int
  n_version :: version_t

record buffer_state =
  table :: "nat \<Rightarrow> node list"
  mallocs :: "paddr_t list"
  crashed :: bool

definition MAX_HASH :: nat where
  "MAX_HASH = 1024"

definition hashfn :: "addr_t \<Rightarrow> nat" where
  "hashfn a = unat (drop_bit 12 a AND of_nat (MAX_HASH - 1))"

definition hash_find :: "buffer_state \<Rightarrow> addr_t \<Rightarrow> node option" where
  "hash_find st a = find (\<lambda>n. n_addr n = a) (table st (hashfn a))"

text \<open>Changing the fields of the node that \<^verbatim>\<open>hash_find\<close> returns.\<close>

fun change_first :: "addr_t \<Rightarrow> (node \<Rightarrow> node) \<Rightarrow> node list \<Rightarrow> node list" where
  "change_first a f [] = []"
| "change_first a f (n # ns) = (if n_addr n = a then f n # ns else n # change_first a f ns)"

definition change_node :: "addr_t \<Rightarrow> (node \<Rightarrow> node) \<Rightarrow> buffer_state \<Rightarrow> buffer_state" where
  "change_node a f st = st\<lparr>table := (table st)(hashfn a := change_first a f (table st (hashfn a)))\<rparr>"

definition do_malloc :: "buffer_state \<Rightarrow> paddr_t \<times> buffer_state" where
  "do_malloc st = (case mallocs st of [] \<Rightarrow> (0, st) | p # ps \<Rightarrow> (p, st\<lparr>mallocs := ps\<rparr>))"

text \<open>\<^verbatim>\<open>hash_add\<close>: whether a node was allocated, and the new state.\<close>

definition hash_add :: "buffer_state \<Rightarrow> addr_t \<Rightarrow> len_t \<Rightarrow> paddr_t \<Rightarrow> bool \<times> buffer_state" where
  "hash_add st a l phys =
     (let (p, st) = do_malloc st in
      if p = 0 then (False, st)
      else (True, st\<lparr>table := (table st)(hashfn a :=
              \<lparr>n_addr = a, n_len = l, n_phys = phys, refcount = 0, writecount = 0,
                 n_version = vers_undef\<rparr> # table st (hashfn a))\<rparr>))"

section \<open>The operations\<close>

definition buffer_get :: "(buffer_state \<times> 'd) operation" where
  "buffer_get p = (\<lambda>(a, st, d).
     if crashed st then (a, st, d) else
     let fin = (\<lambda>st.
           case hash_find st (log_addr a) of
             None \<Rightarrow> (a, st\<lparr>crashed := True\<rparr>, d)
           | Some n \<Rightarrow>
              (a\<lparr>success := True, phys_addr := n_phys n, phys_len := ucast (log_len a),
                 version := n_version n\<rparr>,
               change_node (log_addr a) (\<lambda>n. n\<lparr>refcount := refcount n + 1,
                   writecount := writecount n + (if forwrite a then 1 else 0)\<rparr>) st, d)) in
     case hash_find st (log_addr a) of
       Some n \<Rightarrow> fin st
     | None \<Rightarrow>
         let (buf, st) = do_malloc st in
         if buf = 0 then (a, st, d)
         else let (ok, st) = hash_add st (log_addr a) (log_len a) buf in
              if ok then fin st else (a, st\<lparr>crashed := True\<rparr>, d))"

definition buffer_put :: "(buffer_state \<times> 'd) operation" where
  "buffer_put p = (\<lambda>(a, st, d).
     if crashed st then (a, st, d) else
     case hash_find st (log_addr a) of
       None \<Rightarrow> (a, st, d)
     | Some n \<Rightarrow>
        if n_len n \<noteq> log_len a \<or> refcount n \<le> 0 then (a, st, d)
        else
          let st = change_node (log_addr a) (\<lambda>n. n\<lparr>refcount := refcount n - 1\<rparr>) st in
          if prio a \<noteq> prio_none then
            if writecount n \<le> 0 then (a, st, d)
            else (a\<lparr>success := True\<rparr>,
                  change_node (log_addr a)
                    (\<lambda>n. n\<lparr>writecount := writecount n - 1, n_version := vers_old\<rparr>) st, d)
          else (a\<lparr>success := True\<rparr>, st, d))"

definition buffer_trans :: "'d op_table \<Rightarrow> (buffer_state \<times> 'd) operation" where
  "buffer_trans dev p = (\<lambda>(a, st, d).
     if crashed st then (a, st, d) else
     let (a, d) = dev 0 opcode_trans p (a, d) in (a, st, d))"

definition buffer_wait :: "'d op_table \<Rightarrow> (buffer_state \<times> 'd) operation" where
  "buffer_wait dev p = (\<lambda>(a, st, d).
     if crashed st then (a, st, d) else
     let addr = log_addr a in
     case hash_find st addr of
       None \<Rightarrow> (a, st, d)
     | Some n \<Rightarrow>
         let (a, d) = dev 0 opcode_wait p (a, d) in
         if success a then (a, change_node addr (\<lambda>n. n\<lparr>n_version := vers_newest\<rparr>) st, d)
         else (a, st, d))"

definition buffer_create :: "(buffer_state \<times> 'd) operation" where
  "buffer_create p = (\<lambda>(a, st, d). (if crashed st then a else a\<lparr>success := True\<rparr>, st, d))"

definition buffer_delete :: "(buffer_state \<times> 'd) operation" where
  "buffer_delete p = (\<lambda>(a, st, d). (if crashed st then a else a\<lparr>success := False\<rparr>, st, d))"

text \<open>The operations the brick defines for its output \<^verbatim>\<open>:>out\<close>.\<close>

definition buffer_impl :: "'d op_table \<Rightarrow> (buffer_state \<times> 'd) brick_impl" where
  "buffer_impl dev sect c =
     (case c of
        opcode_get \<Rightarrow> Some buffer_get
      | opcode_put \<Rightarrow> Some buffer_put
      | opcode_trans \<Rightarrow> Some (buffer_trans dev)
      | opcode_wait \<Rightarrow> Some (buffer_wait dev)
      | opcode_create \<Rightarrow> Some buffer_create
      | opcode_delete \<Rightarrow> Some buffer_delete
      | opcode_move \<Rightarrow> Some buffer_delete
      | _ \<Rightarrow> None)"

section \<open>The invariant\<close>

text \<open>
  Every node lies in the chain of its address, a chain holds an address at most once, and the
  counters never become negative.
\<close>

definition buffer_inv :: "buffer_state \<Rightarrow> bool" where
  "buffer_inv st \<longleftrightarrow> (\<forall>i. distinct (map n_addr (table st i)) \<and>
     (\<forall>n \<in> set (table st i). hashfn (n_addr n) = i \<and> 0 \<le> refcount n \<and> 0 \<le> writecount n))"

lemma find_Some_in: "find P xs = Some x \<Longrightarrow> x \<in> set xs \<and> P x"
  by (induction xs) (auto split: if_splits)

lemma hash_find_in: "hash_find st a = Some n \<Longrightarrow> n \<in> set (table st (hashfn a)) \<and> n_addr n = a"
  unfolding hash_find_def by (drule find_Some_in) simp

lemma change_first_addrs: "(\<And>n. n_addr (f n) = n_addr n) \<Longrightarrow> map n_addr (change_first a f ns) = map n_addr ns"
  by (induction ns) auto

lemma change_first_set:
  "x \<in> set (change_first a f ns) \<Longrightarrow> x \<in> set ns \<or> (\<exists>n. find (\<lambda>n. n_addr n = a) ns = Some n \<and> x = f n)"
  by (induction ns) (auto split: if_splits)

lemma find_change_first:
  "(\<And>n. n_addr (f n) = n_addr n) \<Longrightarrow>
   find (\<lambda>n. n_addr n = a) (change_first a f ns) = map_option f (find (\<lambda>n. n_addr n = a) ns)"
  by (induction ns) auto

lemma hash_find_change:
  "(\<And>n. n_addr (f n) = n_addr n) \<Longrightarrow> hash_find (change_node a f st) a = map_option f (hash_find st a)"
  by (simp add: hash_find_def change_node_def find_change_first)

lemma find_change_other:
  "(\<And>n. n_addr (f n) = n_addr n) \<Longrightarrow> b \<noteq> a \<Longrightarrow>
   find (\<lambda>n. n_addr n = b) (change_first a f ns) = find (\<lambda>n. n_addr n = b) ns"
  by (induction ns) auto

lemma hash_find_other:
  "(\<And>n. n_addr (f n) = n_addr n) \<Longrightarrow> b \<noteq> a \<Longrightarrow> hash_find (change_node a f st) b = hash_find st b"
  by (simp add: hash_find_def change_node_def find_change_other)

lemma inv_change_node:
  assumes "buffer_inv st" "\<And>n. n_addr (f n) = n_addr n"
    "\<And>n. hash_find st a = Some n \<Longrightarrow> 0 \<le> refcount (f n) \<and> 0 \<le> writecount (f n)"
  shows "buffer_inv (change_node a f st)"
  unfolding buffer_inv_def
proof (intro allI conjI ballI)
  fix i
  show "distinct (map n_addr (table (change_node a f st) i))"
    using assms(1,2) by (auto simp: change_node_def change_first_addrs buffer_inv_def)
next
  fix i n
  assume n: "n \<in> set (table (change_node a f st) i)"
  show "hashfn (n_addr n) = i" "0 \<le> refcount n" "0 \<le> writecount n"
  proof -
    consider "n \<in> set (table st i)" | m where "i = hashfn a" "hash_find st a = Some m" "n = f m"
      using n by (auto simp: change_node_def hash_find_def split: if_splits dest!: change_first_set)
    then have "hashfn (n_addr n) = i \<and> 0 \<le> refcount n \<and> 0 \<le> writecount n"
    proof cases
      case 1
      then show ?thesis using assms(1) by (auto simp: buffer_inv_def)
    next
      case 2
      then show ?thesis using assms(2,3) hash_find_in [OF 2(2)] by auto
    qed
    then show "hashfn (n_addr n) = i" "0 \<le> refcount n" "0 \<le> writecount n" by auto
  qed
qed

lemma inv_do_malloc: "do_malloc st = (p, st') \<Longrightarrow> table st' = table st \<and> crashed st' = crashed st"
  by (auto simp: do_malloc_def split: list.splits)

lemma inv_table_cong: "table st' = table st \<Longrightarrow> buffer_inv st' = buffer_inv st"
  by (simp add: buffer_inv_def)

lemma hash_find_None: "hash_find st a = None \<Longrightarrow> a \<notin> n_addr ` set (table st (hashfn a))"
  by (auto simp: hash_find_def find_None_iff)

lemma inv_hash_add:
  assumes "buffer_inv st" "hash_find st a = None" "hash_add st a l q = (ok, st')"
  shows "buffer_inv st'"
proof -
  obtain p st1 where m: "do_malloc st = (p, st1)" by fastforce
  have t: "table st1 = table st" using inv_do_malloc [OF m] by simp
  show ?thesis
    using assms(1,3) hash_find_None [OF assms(2)] t
    by (auto simp: hash_add_def m buffer_inv_def split: if_splits)
qed

lemma hash_find_add:
  "hash_find st a = None \<Longrightarrow> hash_add st a l q = (True, st') \<Longrightarrow>
   hash_find st' a = Some \<lparr>n_addr = a, n_len = l, n_phys = q, refcount = 0, writecount = 0,
     n_version = vers_undef\<rparr>"
  by (auto simp: hash_add_def hash_find_def split: prod.splits if_splits)

lemma inv_counts: "buffer_inv st \<Longrightarrow> hash_find st a = Some n \<Longrightarrow> 0 \<le> refcount n \<and> 0 \<le> writecount n"
  using hash_find_in by (fastforce simp: buffer_inv_def)

lemma get_keeps: "buffer_inv st \<Longrightarrow> buffer_inv (fst (snd (buffer_get p (a, st, d))))"
proof -
  assume inv: "buffer_inv st"
  have fin: "buffer_inv (change_node b (\<lambda>n. n\<lparr>refcount := refcount n + 1,
      writecount := writecount n + (if w then 1 else 0)\<rparr>) s)" if "buffer_inv s" for b w s
    using that by (intro inv_change_node) (auto dest: inv_counts)
  obtain q st1 where m: "do_malloc st = (q, st1)" by fastforce
  obtain ok st2 where h: "hash_add st1 (log_addr a) (log_len a) q = (ok, st2)" by fastforce
  have t: "table st1 = table st" using inv_do_malloc [OF m] by simp
  have inv1: "buffer_inv st1" using inv inv_table_cong [OF t] by simp
  have f1: "hash_find st1 b = hash_find st b" for b by (simp add: hash_find_def t)
  have crash: "buffer_inv (s\<lparr>crashed := True\<rparr>) = buffer_inv s" for s by (rule inv_table_cong) simp
  show ?thesis
  proof (cases "hash_find st (log_addr a)")
    case None
    have "buffer_inv st2" using inv_hash_add [OF inv1 _ h] None f1 by simp
    then show ?thesis using inv inv1 None
      by (cases "hash_find st2 (log_addr a)") (simp_all add: buffer_get_def m h Let_def fin crash)
  next
    case (Some n)
    then show ?thesis using inv by (simp add: buffer_get_def Let_def fin)
  qed
qed

lemma put_keeps: "buffer_inv st \<Longrightarrow> buffer_inv (fst (snd (buffer_put p (a, st, d))))"
proof (cases "hash_find st (log_addr a)")
  case (Some n)
  assume inv: "buffer_inv st"
  let ?f = "\<lambda>n. n\<lparr>refcount := refcount n - 1\<rparr>" and ?g = "\<lambda>n. n\<lparr>writecount := writecount n - 1, n_version := vers_old\<rparr>"
  let ?st = "change_node (log_addr a) ?f st"
  have 1: "buffer_inv ?st" if "0 < refcount n"
    using that inv Some by (intro inv_change_node) (auto dest: inv_counts)
  have "hash_find ?st (log_addr a) = Some (?f n)" using hash_find_change [of ?f] Some by simp
  then have 2: "buffer_inv (change_node (log_addr a) ?g ?st)" if "0 < refcount n" "0 < writecount n"
    using that inv_counts [OF 1] by (intro inv_change_node [OF 1]) auto
  from 1 2 inv Some show ?thesis by (simp add: buffer_put_def Let_def)
qed (simp add: buffer_put_def)

lemma wait_keeps: "buffer_inv st \<Longrightarrow> buffer_inv (fst (snd (buffer_wait dev p (a, st, d))))"
  using inv_change_node [of st "\<lambda>n. n\<lparr>n_version := vers_newest\<rparr>" "log_addr a"]
  by (auto simp: buffer_wait_def Let_def dest: inv_counts split: option.splits prod.splits)

interpretation buffer: brick_contract "buffer_impl dev" "\<lambda>w. buffer_inv (fst w)"
  for dev :: "'d op_table"
proof unfold_locales
  fix s c f p a and w :: "buffer_state \<times> 'd"
  assume "buffer_impl dev s c = Some f" "buffer_inv (fst w)"
  then show "buffer_inv (fst (snd (f p (a, w))))"
    by (cases w) (auto simp: buffer_impl_def get_keeps put_keeps wait_keeps buffer_trans_def
        buffer_create_def buffer_delete_def Let_def split: op_t.splits prod.splits)
qed


definition empty_buffer :: buffer_state where
  "empty_buffer = \<lparr>table = (\<lambda>_. []), mallocs = [4096, 8192], crashed = False\<rparr>"


section \<open>Reservations\<close>

definition counts :: "buffer_state \<Rightarrow> addr_t \<Rightarrow> (int \<times> int) option" where
  "counts st b = map_option (\<lambda>n. (refcount n, writecount n)) (hash_find st b)"

lemma get_existing:
  assumes "\<not> crashed st" "hash_find st (log_addr a) = Some n"
  shows "buffer_get p (a, st, d) =
     (a\<lparr>success := True, phys_addr := n_phys n, phys_len := ucast (log_len a), version := n_version n\<rparr>,
      change_node (log_addr a) (\<lambda>n. n\<lparr>refcount := refcount n + 1,
        writecount := writecount n + (if forwrite a then 1 else 0)\<rparr>) st, d)"
  using assms by (simp add: buffer_get_def)

lemma crashed_change [simp]: "crashed (change_node a f st) = crashed st"
  by (simp add: change_node_def)

text \<open>A \<^verbatim>\<open>put\<close> gives back what \<^verbatim>\<open>get\<close> reserved: after \<^verbatim>\<open>get\<close> of a buffer that is in the cache with the
  same length and a \<^verbatim>\<open>put\<close> of the same buffer (with a priority exactly if it was reserved for writing),
  both succeed and every reference and write counter of the cache is as before.\<close>

theorem get_put_restores:
  assumes "buffer_inv st" "\<not> crashed st" "hash_find st (log_addr a) = Some n" "n_len n = log_len a"
    "pr \<noteq> prio_none \<longleftrightarrow> forwrite a" "buffer_get p (a, st, d) = (a1, st1, d1)"
    "buffer_put p (a1\<lparr>prio := pr, success := False\<rparr>, st1, d1) = (a2, st2, d2)"
  shows "success a1 \<and> success a2 \<and> (\<forall>b. counts st2 b = counts st b)"
proof -
  let ?w = "if forwrite a then 1 else 0 :: int"
  let ?f = "\<lambda>n. n\<lparr>refcount := refcount n + 1, writecount := writecount n + ?w\<rparr>"
  let ?g = "\<lambda>n. n\<lparr>refcount := refcount n - 1\<rparr>" and ?h = "\<lambda>n. n\<lparr>writecount := writecount n - 1, n_version := vers_old\<rparr>"
  have 1: "a1 = a\<lparr>success := True, phys_addr := n_phys n, phys_len := ucast (log_len a), version := n_version n\<rparr>"
    "st1 = change_node (log_addr a) ?f st"
    using trans [OF assms(6) [symmetric] get_existing [OF assms(2,3), of p d]] by simp_all
  have pos: "0 \<le> refcount n" "0 \<le> writecount n" using inv_counts [OF assms(1,3)] by auto
  have f1: "hash_find st1 (log_addr a) = Some (?f n)" unfolding 1 using assms(3) by (subst hash_find_change) simp_all
  have st2: "st2 = (if forwrite a then change_node (log_addr a) ?h (change_node (log_addr a) ?g st1)
      else change_node (log_addr a) ?g st1)" and ok: "success a2"
    using assms(2,4,5,7) f1 pos by (auto simp: buffer_put_def 1 Let_def split: if_splits)
  have f2: "hash_find (change_node (log_addr a) ?g st1) (log_addr a) = Some (?g (?f n))"
    using f1 by (subst hash_find_change) simp_all
  have f3: "hash_find (change_node (log_addr a) ?h (change_node (log_addr a) ?g st1)) (log_addr a) =
      Some (?h (?g (?f n)))"
    using f2 by (subst hash_find_change) simp_all
  have other: "hash_find st2 b = hash_find st b" if "b \<noteq> log_addr a" for b
    unfolding st2 1(2) using that by (auto simp: hash_find_other)
  have "counts st2 b = counts st b" for b
  proof (cases "b = log_addr a")
    case True
    then show ?thesis using assms(3) f2 f3 by (auto simp: counts_def st2)
  qed (simp add: counts_def other)
  then show ?thesis using ok 1(1) by simp
qed

definition one_buffer :: buffer_state where
  "one_buffer = \<lparr>table = (\<lambda>_. [])(1 := [\<lparr>n_addr = 4096, n_len = 512, n_phys = 65536, refcount = 2,
     writecount = 0, n_version = vers_old\<rparr>]), mallocs = [], crashed = False\<rparr>"

lemma one_buffer_facts:
  "buffer_inv one_buffer" "\<not> crashed one_buffer" "hashfn 4096 = 1"
  "hash_find one_buffer 4096 = Some \<lparr>n_addr = 4096, n_len = 512, n_phys = 65536, refcount = 2,
     writecount = 0, n_version = vers_old\<rparr>"
proof -
  show h: "hashfn 4096 = 1" by (simp add: hashfn_def MAX_HASH_def)
  show "buffer_inv one_buffer" "\<not> crashed one_buffer"
    by (auto simp: buffer_inv_def one_buffer_def h)
  show "hash_find one_buffer 4096 = Some \<lparr>n_addr = 4096, n_len = 512, n_phys = 65536, refcount = 2,
     writecount = 0, n_version = vers_old\<rparr>"
    by (simp add: hash_find_def h) (simp add: one_buffer_def)
qed

theorem get_put_restores_witness:
  "\<exists>a1 st1 a2 st2. buffer_get [] (zero_args\<lparr>log_addr := 4096, log_len := 512, forwrite := True\<rparr>, one_buffer, ()) = (a1, st1, ()) \<and>
     buffer_put [] (a1\<lparr>prio := prio_normal, success := False\<rparr>, st1, ()) = (a2, st2, ()) \<and>
     success a2 \<and> counts st2 4096 = counts one_buffer 4096"
proof -
  let ?a = "zero_args\<lparr>log_addr := 4096, log_len := 512, forwrite := True\<rparr>"
  have f: "hash_find one_buffer (log_addr ?a) = Some \<lparr>n_addr = 4096, n_len = 512, n_phys = 65536,
      refcount = 2, writecount = 0, n_version = vers_old\<rparr>" by (simp add: one_buffer_facts(4))
  obtain a1 st1 d1 where 1: "buffer_get [] (?a, one_buffer, ()) = (a1, st1, d1)" by (metis surj_pair)
  obtain a2 st2 d2 where 2: "buffer_put [] (a1\<lparr>prio := prio_normal, success := False\<rparr>, st1, d1) = (a2, st2, d2)"
    by (metis surj_pair)
  have "success a1 \<and> success a2 \<and> (\<forall>b. counts st2 b = counts one_buffer b)"
    by (rule get_put_restores [OF one_buffer_facts(1,2) f _ _ 1 2]) simp_all
  with 1 2 show ?thesis by auto
qed

text \<open>C40: A failed default \<^verbatim>\<open>gettranswait\<close> for writing leaks a write reservation: when the device refuses the
  transfer of a buffer that is not up to date, the undo of \<^verbatim>\<open>lib.c\<close> calls \<^verbatim>\<open>put\<close> with \<^verbatim>\<open>prio_none\<close>, for
  which the buffer brick decrements only the reference counter; the write counter stays incremented.\<close>

theorem failed_gettranswait_leaks_write:
  assumes "buffer_inv st" "\<not> crashed st" "hash_find st (log_addr a) = Some n" "n_len n = log_len a"
    "n_version n < vers_newest" "forwrite a" "sect_code a = 0"
    "\<And>a d. dev 0 opcode_trans p (a, d) = (a\<lparr>success := False\<rparr>, d)"
  shows "case brick_table (buffer_impl dev) 0 opcode_gettranswait p (a, st, d) of (a', st', d') \<Rightarrow>
     \<not> success a' \<and> counts st' (log_addr a) = Some (refcount n, writecount n + 1)"
proof -
  let ?T = "brick_table (buffer_impl dev)"
  let ?f = "\<lambda>n. n\<lparr>refcount := refcount n + 1, writecount := writecount n + 1\<rparr>"
  let ?g = "\<lambda>n. n\<lparr>refcount := refcount n - 1\<rparr>"
  let ?st1 = "change_node (log_addr a) ?f st"
  have tab: "?T 0 opcode_get = buffer_get" "?T 0 opcode_put = buffer_put"
    "?T 0 opcode_trans = buffer_trans dev" "?T 0 opcode_transwait = missing__transwait ?T"
    "?T 0 opcode_gettranswait = missing__gettranswait ?T"
    by (subst brick_table_eq, simp add: buffer_impl_def)+
  have pos: "0 \<le> refcount n" using inv_counts [OF assms(1,3)] by auto
  have f1: "hash_find ?st1 (log_addr a) = Some (?f n)" using assms(3) by (subst hash_find_change) simp_all
  have f2: "hash_find (change_node (log_addr a) ?g ?st1) (log_addr a) = Some (?g (?f n))"
    using f1 by (subst hash_find_change) simp_all
  have get: "buffer_get p (a\<lparr>op_code := opcode_get\<rparr>, st, d) =
      (a\<lparr>op_code := opcode_get, success := True, phys_addr := n_phys n, phys_len := ucast (log_len a),
         version := n_version n\<rparr>, ?st1, d)"
    using get_existing [of st "a\<lparr>op_code := opcode_get\<rparr>" n p d] assms(2,3,6) by simp
  have trans: "missing__transwait ?T p (b, ?st1, d) = (b\<lparr>op_code := opcode_trans, success := False\<rparr>, ?st1, d)"
    if "sect_code b = 0" for b
    using that assms(2,8) tab(3) by (simp add: missing__transwait_def dispatch_def buffer_trans_def)
  have put: "buffer_put p (b, ?st1, d) = (b\<lparr>success := True\<rparr>, change_node (log_addr a) ?g ?st1, d)"
    if "log_addr b = log_addr a" "log_len b = log_len a" "prio b = prio_none" for b
    using that assms(2,4) f1 pos by (simp add: buffer_put_def Let_def)
  show ?thesis
    using assms(5,6,7) f2
    by (simp add: tab missing__gettranswait_def dispatch_def get trans put counts_def)
qed

theorem failed_gettranswait_leaks_write_witness:
  "case brick_table (buffer_impl (\<lambda>_ _ _ (a, d). (a\<lparr>success := False\<rparr>, d))) 0 opcode_gettranswait []
       (zero_args\<lparr>log_addr := 4096, log_len := 512, forwrite := True\<rparr>, one_buffer, ()) of (a', st', d') \<Rightarrow>
     \<not> success a' \<and> counts st' 4096 = Some (2, 1)"
proof -
  let ?a = "zero_args\<lparr>log_addr := 4096, log_len := 512, forwrite := True\<rparr>"
  have f: "hash_find one_buffer (log_addr ?a) = Some \<lparr>n_addr = 4096, n_len = 512, n_phys = 65536,
      refcount = 2, writecount = 0, n_version = vers_old\<rparr>" by (simp add: one_buffer_facts(4))
  from failed_gettranswait_leaks_write [OF one_buffer_facts(1,2) f, of "\<lambda>_ _ _ (a, d). (a\<lparr>success := False\<rparr>, d)" "[]" "()"]
  show ?thesis by (simp add: less_version_t_def zero_args_def)
qed

end
