(* ===== verification/Pointer_Cache.thy ===== *)
theory Pointer_Cache
  imports Buffer_Brick
begin

text \<open>
  The pointer cache (\<^verbatim>\<open>src/trunk/src/lib.c\<close>, \<^verbatim>\<open>src/trunk/src/common.h\<close>): a small direct mapped cache of
  reservations, through which brick code dereferences addresses of a nest.  Each element holds an
  address whose two low bits are flags.  The connected output is a table of operations on a state
  \<open>'w\<close>; every routine returns the cache and that state.  The macros are those of the user level
  build.  An element is denoted by its index in the array of the cache.
\<close>

section \<open>Data\<close>

record pc_elem =
  pc_addr :: addr_t
  pc_len :: plen_t
  pc_ptr :: paddr_t

record pc =
  pc_version :: plen_t
  pc_sect :: index_t
  pc_write :: bool
  pc_elems :: "pc_elem list"

definition PC__DIRTY :: addr_t where "PC__DIRTY = 1"
definition PC__PRESENT :: addr_t where "PC__PRESENT = 2"

definition PC__HASH :: "addr_t \<Rightarrow> plen_t \<Rightarrow> plen_t \<Rightarrow> nat" where
  "PC__HASH addr align mx = unat (addr div ucast align mod ucast mx)"

definition PC__BASE_ADDR :: "addr_t \<Rightarrow> plen_t \<Rightarrow> addr_t" where
  "PC__BASE_ADDR addr whole = (addr div ucast whole * ucast whole) OR PC__PRESENT"

definition PC__BASE_OFFSET :: "addr_t \<Rightarrow> plen_t \<Rightarrow> addr_t" where
  "PC__BASE_OFFSET addr whole = addr mod ucast whole"

definition PC__BASE_LEN :: "plen_t \<Rightarrow> plen_t \<Rightarrow> plen_t \<Rightarrow> plen_t" where
  "PC__BASE_LEN offs len whole = (offs + len - 1) div whole * whole + whole"

definition zero_elem :: pc_elem where
  "zero_elem = \<lparr>pc_addr = 0, pc_len = 0, pc_ptr = 0\<rparr>"

definition present :: "pc_elem \<Rightarrow> bool" where
  "present e \<longleftrightarrow> pc_addr e AND PC__PRESENT \<noteq> 0"

definition strip :: "addr_t \<Rightarrow> addr_t" where
  "strip a = a AND NOT (PC__DIRTY OR PC__PRESENT)"

section \<open>Operations\<close>

text \<open>The call that gives one reservation back.\<close>

definition put_args :: "pc \<Rightarrow> pc_elem \<Rightarrow> args" where
  "put_args pc e = zero_args\<lparr>log_addr := strip (pc_addr e), log_len := ucast (pc_len e),
     phys_addr := pc_ptr e,
     prio := if pc_addr e AND PC__DIRTY \<noteq> 0 then prio_background else prio_none,
     op_code := opcode_put, sect_code := pc_sect pc\<rparr>"

definition PC_PUT :: "'w op_table \<Rightarrow> pc \<times> 'w \<Rightarrow> nat \<Rightarrow> pc \<times> 'w" where
  "PC_PUT ops = (\<lambda>(pc, w) i.
     let (_, w) = ops (pc_sect pc) opcode_put [] (put_args pc (pc_elems pc ! i), w) in
     (pc\<lparr>pc_elems := (pc_elems pc)[i := zero_elem]\<rparr>, w))"

definition PC_GET :: "'w op_table \<Rightarrow> pc \<times> 'w \<Rightarrow> nat \<Rightarrow> addr_t \<Rightarrow> plen_t \<Rightarrow> pc \<times> 'w" where
  "PC_GET ops s i addr len =
     (let (pc, w) = (if present (pc_elems (fst s) ! i) then PC_PUT ops s i else s);
          a = zero_args\<lparr>log_addr := strip addr, log_len := ucast len, forwrite := True,
                prio := prio_normal, op_code := opcode_gettranswait, sect_code := pc_sect pc\<rparr>;
          (a, w) = ops (pc_sect pc) opcode_gettranswait [] (a, w) in
      if \<not> success a \<or> phys_len a < len then (pc, w)
      else (pc\<lparr>pc_elems := (pc_elems pc)[i := \<lparr>pc_addr = addr OR PC__PRESENT, pc_len = len,
              pc_ptr = phys_addr a\<rparr>]\<rparr>, w))"

fun pc_all_put_from :: "'w op_table \<Rightarrow> nat \<Rightarrow> nat \<Rightarrow> pc \<times> 'w \<Rightarrow> pc \<times> 'w" where
  "pc_all_put_from ops i 0 s = s"
| "pc_all_put_from ops i (Suc k) s =
     pc_all_put_from ops (Suc i) k (if present (pc_elems (fst s) ! i) then PC_PUT ops s i else s)"

definition PC_ALL_PUT :: "'w op_table \<Rightarrow> pc \<times> 'w \<Rightarrow> nat \<Rightarrow> pc \<times> 'w" where
  "PC_ALL_PUT ops s mx = pc_all_put_from ops 0 mx s"

text \<open>\<^verbatim>\<open>_PC_ALLOC\<close> returns the index of the element, \<open>None\<close> for NULL.\<close>

definition PC_ALLOC ::
  "'w op_table \<Rightarrow> pc \<times> 'w \<Rightarrow> plen_t \<Rightarrow> plen_t \<Rightarrow> plen_t \<Rightarrow> plen_t \<Rightarrow> nat option \<times> pc \<times> 'w" where
  "PC_ALLOC ops = (\<lambda>(pc, w) len align whole mx.
     let base_len = PC__BASE_LEN 0 len whole;
         a = zero_args\<lparr>log_len := ucast base_len, try_len := ucast base_len, exclu := True,
               melt := True, action := action_wait, op_code := opcode_gadrcreateget,
               sect_code := pc_sect pc\<rparr>;
         (a, w) = ops (pc_sect pc) opcode_gadrcreateget [] (a, w) in
     if \<not> success a \<or> log_len a < ucast base_len then (None, pc, w)
     else
       let i = PC__HASH (log_addr a) align mx;
           (pc, w) = (if present (pc_elems pc ! i) then PC_PUT ops (pc, w) i else (pc, w)) in
       (Some i, pc\<lparr>pc_elems := (pc_elems pc)[i :=
            \<lparr>pc_addr = PC__BASE_ADDR (log_addr a) whole OR PC__PRESENT OR PC__DIRTY,
             pc_len = ucast (log_len a), pc_ptr = phys_addr a\<rparr>], pc_write := True\<rparr>, w))"

definition PC_FREE :: "'w op_table \<Rightarrow> pc \<times> 'w \<Rightarrow> nat \<Rightarrow> addr_t \<Rightarrow> plen_t \<Rightarrow> pc \<times> 'w" where
  "PC_FREE ops s i addr len =
     (let e = pc_elems (fst s) ! i;
          (pc, w) = (if present e \<and> strip (pc_addr e) = addr then PC_PUT ops s i else s);
          a = zero_args\<lparr>log_addr := addr, log_len := ucast len, try_len := ucast len, exclu := True,
                melt := True, action := action_wait, op_code := opcode_putdeletepadr,
                sect_code := pc_sect pc\<rparr>;
          (_, w) = ops (pc_sect pc) opcode_putdeletepadr [] (a, w) in
      (pc, w))"

section \<open>Flushing the cache\<close>

definition put_call :: "'w op_table \<Rightarrow> pc \<Rightarrow> pc_elem \<Rightarrow> 'w \<Rightarrow> 'w" where
  "put_call ops pc e w = snd (ops (pc_sect pc) opcode_put [] (put_args pc e, w))"

lemma PC_PUT_eq:
  "PC_PUT ops (pc, w) i =
     (pc\<lparr>pc_elems := (pc_elems pc)[i := zero_elem]\<rparr>, put_call ops pc (pc_elems pc ! i) w)"
  by (simp add: PC_PUT_def put_call_def split: prod.splits)

lemma put_args_cong: "put_args (pc\<lparr>pc_elems := es\<rparr>) e = put_args pc e"
  by (simp add: put_args_def)

lemma put_call_cong: "put_call ops (pc\<lparr>pc_elems := es\<rparr>) e w = put_call ops pc e w"
  by (simp add: put_call_def put_args_cong)

lemma not_present_zero: "\<not> present zero_elem"
  by (simp add: present_def zero_elem_def)

lemma all_put_from:
  assumes "i + k \<le> length (pc_elems pc)"
  shows "pc_all_put_from ops i k (pc, w) =
     (pc\<lparr>pc_elems := take i (pc_elems pc) @
         map (\<lambda>e. if present e then zero_elem else e) (take k (drop i (pc_elems pc))) @
         drop (i + k) (pc_elems pc)\<rparr>,
      fold (put_call ops pc) (filter present (take k (drop i (pc_elems pc)))) w)"
  using assms
proof (induction k arbitrary: i pc w)
  case (Suc k)
  let ?es = "pc_elems pc"
  have i: "i < length ?es" using Suc.prems by simp
  have d: "drop i ?es = ?es ! i # drop (Suc i) ?es" by (rule Cons_nth_drop_Suc [OF i, symmetric])
  show ?case
  proof (cases "present (?es ! i)")
    case True
    let ?pc = "pc\<lparr>pc_elems := ?es[i := zero_elem]\<rparr>"
    have "take (Suc i) (?es[i := zero_elem]) = take i ?es @ [zero_elem]"
      using i by (simp add: take_Suc_conv_app_nth)
    moreover have "fold (put_call ops ?pc) xs v = fold (put_call ops pc) xs v" for xs v
      by (induction xs arbitrary: v) (simp_all add: put_call_cong)
    ultimately show ?thesis
      using Suc.IH [of "Suc i" ?pc "put_call ops pc (?es ! i) w"] Suc.prems True
      by (simp add: PC_PUT_eq d)
  next
    case False
    have "take (Suc i) ?es = take i ?es @ [?es ! i]" using i by (rule take_Suc_conv_app_nth)
    then show ?thesis using Suc.IH [of "Suc i" pc w] Suc.prems False by (simp add: d)
  qed
qed simp

text \<open>C37: \<^verbatim>\<open>_PC_ALL_PUT\<close> gives back every reservation the cache holds, each exactly once and in the order of
  the elements, with the address without flags, its length and a write-back priority exactly for a
  dirty element; afterwards no element of the range is present and the others are unchanged.\<close>

theorem PC_ALL_PUT_flushes:
  assumes "mx \<le> length (pc_elems pc)" and "PC_ALL_PUT ops (pc, w) mx = (pc', w')"
  shows "w' = fold (put_call ops pc) (filter present (take mx (pc_elems pc))) w \<and>
     (\<forall>i < mx. \<not> present (pc_elems pc' ! i)) \<and> drop mx (pc_elems pc') = drop mx (pc_elems pc) \<and>
     length (pc_elems pc') = length (pc_elems pc)"
proof -
  let ?z = "map (\<lambda>e. if present e then zero_elem else e) (take mx (pc_elems pc))"
  have eq: "pc_elems pc' = ?z @ drop mx (pc_elems pc)"
    "w' = fold (put_call ops pc) (filter present (take mx (pc_elems pc))) w"
    using assms all_put_from [of 0 mx pc ops w] by (auto simp: PC_ALL_PUT_def)
  have "\<not> present (pc_elems pc' ! i)" if "i < mx" for i
    using that assms(1) by (auto simp: eq nth_append not_present_zero)
  then show ?thesis using assms(1) by (simp add: eq)
qed

theorem PC_ALL_PUT_flushes_witness:
  "\<exists>pc' w'. PC_ALL_PUT (\<lambda>_ c _ (a, l). (a, l @ [(c, log_addr a, prio a)]))
       (\<lparr>pc_version = 0, pc_sect = 0, pc_write = False,
         pc_elems = [\<lparr>pc_addr = 0x1003, pc_len = 16, pc_ptr = 64\<rparr>, zero_elem]\<rparr>, []) 2 = (pc', w') \<and>
     w' = [(opcode_put, 0x1000, prio_background)] \<and> \<not> present (pc_elems pc' ! 0)"
proof -
  let ?ops = "\<lambda>_ c _ (a, l). (a, l @ [(c, log_addr a, prio a)])"
  let ?e = "\<lparr>pc_addr = 0x1003, pc_len = 16, pc_ptr = 64\<rparr>"
  let ?pc = "\<lparr>pc_version = 0, pc_sect = 0, pc_write = False, pc_elems = [?e, zero_elem]\<rparr>"
  obtain pc' w' where r: "PC_ALL_PUT ?ops (?pc, []) 2 = (pc', w')" by fastforce
  have "2 \<le> length (pc_elems ?pc)" by simp
  from PC_ALL_PUT_flushes [OF this r] r show ?thesis
    by (simp add: present_def zero_elem_def PC__PRESENT_def put_call_def put_args_def strip_def PC__DIRTY_def)
qed

section \<open>The pointer cache on the buffer brick\<close>

lemma ucast_back: "ucast (ucast (x :: u32) :: u64) = x"
  using unat_lt2p32 [of x] by (simp add: word_unat_eq_iff unat_ucast_64_32)

lemma strip_aligned:
  assumes "a AND 3 = 0"
  shows "strip a = a" "strip (a OR PC__PRESENT) = a" "(a OR PC__PRESENT) AND PC__DIRTY = 0"
proof -
  have x: "NOT (PC__DIRTY OR PC__PRESENT) = NOT 3" by (simp add: PC__DIRTY_def PC__PRESENT_def)
  have "a = a AND (3 OR NOT 3)" by (simp only: bit.disj_cancel_right and.right_neutral)
  also have "\<dots> = (a AND 3) OR (a AND NOT 3)" by (rule bit.conj_disj_distrib)
  finally show 1: "strip a = a" unfolding strip_def x assms by (simp only: or.left_neutral)
  have "PC__PRESENT AND NOT 3 = 0" by (simp add: PC__PRESENT_def)
  then have "(a OR PC__PRESENT) AND NOT 3 = a AND NOT 3" by (simp add: bit.conj_disj_distrib2)
  with 1 show "strip (a OR PC__PRESENT) = a" unfolding strip_def x by simp
  have "(a OR PC__PRESENT) AND PC__DIRTY = (a AND 3) AND 1"
    by (simp add: PC__PRESENT_def PC__DIRTY_def bit.conj_disj_distrib2 and.assoc)
  then show "(a OR PC__PRESENT) AND PC__DIRTY = 0" using assms by simp
qed

text \<open>\<^verbatim>\<open>_PC_GET\<close> always reserves for writing, but \<^verbatim>\<open>_PC_PUT\<close> of an element that was not made dirty gives
  the reservation back as a reader.  On the buffer brick each such pair leaves the reference counter as
  it was and the write counter one higher, so the buffer never becomes free of writers again.\<close>

theorem clean_cycle_leaks_write:
  assumes "buffer_inv st" "\<not> crashed st" "hash_find st addr = Some n" "n_len n = ucast len"
    "n_version n = vers_newest" "addr AND 3 = 0" "pc_sect pc = 0" "i < length (pc_elems pc)"
    "\<not> present (pc_elems pc ! i)"
    "PC_PUT (brick_table (buffer_impl dev))
       (PC_GET (brick_table (buffer_impl dev)) (pc, st, d) i addr len) i = (pc', st', d')"
  shows "counts st' addr = Some (refcount n, writecount n + 1) \<and> \<not> present (pc_elems pc' ! i)"
proof -
  let ?T = "brick_table (buffer_impl dev)"
  let ?f = "\<lambda>n. n\<lparr>refcount := refcount n + 1, writecount := writecount n + 1\<rparr>"
  let ?g = "\<lambda>n. n\<lparr>refcount := refcount n - 1\<rparr>"
  let ?st1 = "change_node addr ?f st"
  note addr = strip_aligned [OF assms(6)]
  let ?a = "zero_args\<lparr>log_addr := addr, log_len := ucast len, forwrite := True, prio := prio_normal,
      op_code := opcode_gettranswait, sect_code := 0\<rparr>"
  let ?b = "?a\<lparr>op_code := opcode_get\<rparr>\<lparr>success := True, phys_addr := n_phys n, phys_len := len, version := n_version n\<rparr>"
  have tab: "?T 0 opcode_get = buffer_get" "?T 0 opcode_put = buffer_put"
    "?T 0 opcode_gettranswait = missing__gettranswait ?T"
    by (subst brick_table_eq, simp add: buffer_impl_def)+
  have "buffer_get [] (?a\<lparr>op_code := opcode_get\<rparr>, st, d) = (?b, ?st1, d)"
    using get_existing [of st "?a\<lparr>op_code := opcode_get\<rparr>" n "[]" d] assms(2,3) by (simp add: ucast_back)
  then have got: "?T 0 opcode_gettranswait [] (?a, st, d) = (?b, ?st1, d)"
    using assms(5) by (simp add: tab missing__gettranswait_def dispatch_def)
  let ?e = "\<lparr>pc_addr = addr OR PC__PRESENT, pc_len = len, pc_ptr = n_phys n\<rparr>"
  have get: "PC_GET ?T (pc, st, d) i addr len = (pc\<lparr>pc_elems := (pc_elems pc)[i := ?e]\<rparr>, ?st1, d)"
    using got assms(7,9) addr(1) by (simp add: PC_GET_def)
  have f1: "hash_find ?st1 addr = Some (?f n)" using assms(3) by (subst hash_find_change) simp_all
  have f2: "hash_find (change_node addr ?g ?st1) addr = Some (?g (?f n))"
    using f1 by (subst hash_find_change) simp_all
  have pos: "0 \<le> refcount n" using inv_counts [OF assms(1,3)] by auto
  have args: "log_addr (put_args pc ?e) = addr" "log_len (put_args pc ?e) = ucast len"
    "prio (put_args pc ?e) = prio_none"
    using addr by (simp_all add: put_args_def)
  then have "buffer_put [] (put_args pc ?e, ?st1, d) =
      ((put_args pc ?e)\<lparr>success := True\<rparr>, change_node addr ?g ?st1, d)"
    using assms(2,4) f1 pos by (simp add: buffer_put_def Let_def)
  then have "st' = change_node addr ?g ?st1 \<and> pc_elems pc' = (pc_elems pc)[i := zero_elem]"
    using assms(7,8,10) unfolding get by (auto simp: PC_PUT_eq put_call_def put_args_cong tab)
  then show ?thesis using f2 assms(8) by (simp add: counts_def not_present_zero)
qed

theorem clean_cycle_leaks_write_witness:
  "\<exists>pc' st'. PC_PUT (brick_table (buffer_impl (\<lambda>_ _ _ x. x)))
     (PC_GET (brick_table (buffer_impl (\<lambda>_ _ _ x. x)))
       (\<lparr>pc_version = 0, pc_sect = 0, pc_write = False, pc_elems = [zero_elem]\<rparr>,
        \<lparr>table = (\<lambda>_. [])(1 := [\<lparr>n_addr = 4096, n_len = 512, n_phys = 65536, refcount = 0,
           writecount = 0, n_version = vers_newest\<rparr>]), mallocs = [], crashed = False\<rparr>, ()) 0 4096 512) 0
     = (pc', st', ()) \<and> counts st' 4096 = Some (0, 1)"
proof -
  let ?n = "\<lparr>n_addr = 4096, n_len = 512, n_phys = 65536, refcount = 0, writecount = 0, n_version = vers_newest\<rparr>"
  let ?st = "\<lparr>table = (\<lambda>_. [])(1 := [?n]), mallocs = [], crashed = False\<rparr>"
  let ?pc = "\<lparr>pc_version = 0, pc_sect = 0, pc_write = False, pc_elems = [zero_elem]\<rparr>"
  let ?T = "brick_table (buffer_impl (\<lambda>_ _ _ (x :: args \<times> unit). x))"
  obtain pc' st' d' where r: "PC_PUT ?T (PC_GET ?T (?pc, ?st, ()) 0 4096 512) 0 = (pc', st', d')"
    by (metis surj_pair)
  have h: "hashfn 4096 = 1" by (simp add: hashfn_def MAX_HASH_def)
  have "buffer_inv ?st" by (auto simp: buffer_inv_def h)
  moreover have "hash_find ?st 4096 = Some ?n" by (simp add: hash_find_def h)
  ultimately have "counts st' 4096 = Some (refcount ?n, writecount ?n + 1) \<and> \<not> present (pc_elems pc' ! 0)"
    by (rule_tac clean_cycle_leaks_write [OF _ _ _ _ _ _ _ _ _ r]) (simp_all add: not_present_zero)
  with r show ?thesis by auto
qed

end
