(* ===== verification/Libc_Random.thy ===== *)
theory Libc_Random
  imports Prelude "HOL-Library.Signed_Division"
begin

text \<open>
  The random number generator of the C library of the x86 kernel
  (\<^verbatim>\<open>src/trunk/src/libc/random.c\<close>).

  Memory is an array of 32 bit \<^verbatim>\<open>long\<close> values, the pointers of the package are indices into it.
  The file scope variables are the fields of \<open>rng\<close>.  The theory proves that \<^verbatim>\<open>good_rand\<close> is
  multiplication by 7^5 modulo 2^31 - 1, that \<^verbatim>\<open>random\<close> implements the additive feedback recurrence
  whose state is the window of the last \<^verbatim>\<open>rand_deg\<close> numbers, that \<^verbatim>\<open>initstate\<close> stays within the
  array it is given, that \<^verbatim>\<open>setstate\<close> resumes an interrupted generator, and that the
  initial table is the one its comment promises.
\<close>

section \<open>The generators\<close>

definition degrees :: "int list" where
  "degrees = [0, 7, 15, 31, 63]"

definition seps :: "int list" where
  "seps = [0, 3, 1, 3, 1]"

definition MAX_TYPES :: int where
  "MAX_TYPES = 5"

record rng =
  longs :: "int \<Rightarrow> u32"
  state :: int
  rand_type :: int
  rand_deg :: int
  rand_sep :: int
  end_ptr :: int
  fptr :: int
  rptr :: int

definition randtbl :: "u32 list" where
  "randtbl = [3,
     0x991539b1, 0x16a5bce3, 0x6774a4cd, 0x3e01511e, 0x4e508aaa, 0x61048c05,
     0xf5500617, 0x846b7115, 0x6a19892c, 0x896a97af, 0xdb48f936, 0x14898454,
     0x37ffd106, 0xb58bff9c, 0x59e17104, 0xcf918a49, 0x09378c83, 0x52c7a471,
     0x8d293ea9, 0x1f4fc301, 0xc3db71be, 0x39b44e1c, 0xf8a44ef9, 0x4c8b80b1,
     0x19edc328, 0x87bf4bdd, 0xc9b240e5, 0xe9ee4b1b, 0x4382aee7, 0x535b6b41,
     0xf3bec5da]"

text \<open>The static initialisers; the linker places \<^verbatim>\<open>randtbl\<close> at the index \<open>at\<close>.\<close>

definition rng_init :: "int \<Rightarrow> (int \<Rightarrow> u32) \<Rightarrow> rng" where
  "rng_init at m =
     \<lparr> longs = (\<lambda>i. if at \<le> i \<and> i < at + 32 then randtbl ! nat (i - at) else m i),
       state = at + 1, rand_type = 3, rand_deg = 31, rand_sep = 3,
       end_ptr = at + 31 + 1, fptr = at + 3 + 1, rptr = at + 1 \<rparr>"

text \<open>\<^verbatim>\<open>x / y\<close> and \<^verbatim>\<open>x % y\<close> truncate towards zero, all other arithmetic is that of 32 bit words.\<close>

definition good_rand :: "u32 \<Rightarrow> u32" where
  "good_rand x =
     (let hi = word_of_int (sint x sdiv 127773);
          lo = word_of_int (sint x smod 127773);
          x = 16807 * lo - 2836 * hi
      in if sint x \<le> 0 then x + 0x7fffffff else x)"

definition random_c :: "rng \<Rightarrow> u32 \<times> rng" where
  "random_c g =
     (if rand_type g = 0
      then let i = good_rand (longs g (state g)) AND 0x7fffffff
           in (i, g\<lparr>longs := (longs g)(state g := i)\<rparr>)
      else let f = fptr g; r = rptr g;
               m = (longs g)(f := longs g f + longs g r);
               i = signed_drop_bit 1 (m f) AND 0x7fffffff;
               (f, r) = (if f + 1 \<ge> end_ptr g then (state g, r + 1)
                         else (f + 1, if r + 1 \<ge> end_ptr g then state g else r + 1))
           in (i, g\<lparr>longs := m, fptr := f, rptr := r\<rparr>))"

definition seed_longs :: "int \<Rightarrow> int \<Rightarrow> (int \<Rightarrow> u32) \<Rightarrow> int \<Rightarrow> u32" where
  "seed_longs st d m = fold (\<lambda>i m. m(st + i := good_rand (m (st + i - 1)))) [1..d - 1] m"

definition srandom :: "u32 \<Rightarrow> rng \<Rightarrow> rng" where
  "srandom x g =
     (if rand_type g = 0 then g\<lparr>longs := (longs g)(state g := x)\<rparr>
      else let m = seed_longs (state g) (rand_deg g) ((longs g)(state g := x));
               g = g\<lparr>longs := m, fptr := state g + rand_sep g, rptr := state g\<rparr>
           in ((\<lambda>g. snd (random_c g)) ^^ nat (10 * rand_deg g)) g)"

text \<open>The word in front of the table: the type of the generator and its rear pointer.\<close>

definition save_pos :: "rng \<Rightarrow> rng" where
  "save_pos g = g\<lparr>longs := (longs g)(state g - 1 :=
     (if rand_type g = 0 then word_of_int (rand_type g)
      else word_of_int (MAX_TYPES * (rptr g - state g) + rand_type g)))\<rparr>"

definition pick_type :: "nat \<Rightarrow> rng \<Rightarrow> rng" where
  "pick_type n g =
     (if n < 32 then g\<lparr>rand_type := 0, rand_deg := 0, rand_sep := 0\<rparr>
      else if n < 64 then g\<lparr>rand_type := 1, rand_deg := 7, rand_sep := 3\<rparr>
      else if n < 128 then g\<lparr>rand_type := 2, rand_deg := 15, rand_sep := 1\<rparr>
      else if n < 256 then g\<lparr>rand_type := 3, rand_deg := 31, rand_sep := 3\<rparr>
      else g\<lparr>rand_type := 4, rand_deg := 63, rand_sep := 1\<rparr>)"

text \<open>\<open>None\<close> is the null pointer that reports an array of fewer than eight bytes.\<close>

definition initstate :: "u32 \<Rightarrow> int \<Rightarrow> nat \<Rightarrow> rng \<Rightarrow> int option \<times> rng" where
  "initstate seed arg n g =
     (let ostate = state g - 1; g = save_pos g
      in if n < 8 then (None, g)
      else let g = pick_type n g;
               g = g\<lparr>state := arg + 1\<rparr>;
               g = g\<lparr>end_ptr := state g + rand_deg g\<rparr>;
               g = srandom seed g;
               g = g\<lparr>longs := (longs g)(arg :=
                     (if rand_type g = 0 then word_of_int (rand_type g)
                      else word_of_int (MAX_TYPES * (rptr g - state g) + rand_type g)))\<rparr>
           in (Some ostate, g))"

definition setstate :: "int \<Rightarrow> rng \<Rightarrow> int \<times> rng" where
  "setstate arg g =
     (let typ = sint (longs g arg) smod MAX_TYPES;
          rear = sint (longs g arg) sdiv MAX_TYPES;
          ostate = state g - 1;
          g = save_pos g;
          g = (if typ \<in> {0, 1, 2, 3, 4}
               then g\<lparr>rand_type := typ, rand_deg := degrees ! nat typ, rand_sep := seps ! nat typ\<rparr>
               else g);
          g = g\<lparr>state := arg + 1\<rparr>;
          g = (if rand_type g \<noteq> 0
               then g\<lparr>rptr := state g + rear,
                      fptr := state g + (rear + rand_sep g) smod rand_deg g\<rparr>
               else g)
      in (ostate, g\<lparr>end_ptr := state g + rand_deg g\<rparr>))"

section \<open>The minimal standard generator\<close>

lemma sint32_bounds: "- 2147483648 \<le> sint (x :: u32)" "sint (x :: u32) < 2147483648"
  using sint_ge [of x] sint_less [of x] by simp_all

lemma sint32_of_int: "- 2147483648 \<le> k \<Longrightarrow> k < 2147483648 \<Longrightarrow> sint (word_of_int k :: u32) = k"
  by (simp add: sint_sbintrunc' signed_take_bit_int_eq_self)

lemma trunc_divmod:
  fixes k d :: int
  assumes "0 < d"
  shows "k = d * (k sdiv d) + k smod d" and "- d < k smod d" and "k smod d < d"
    and "0 \<le> k \<Longrightarrow> 0 \<le> k sdiv d" and "k \<le> 0 \<Longrightarrow> k sdiv d \<le> 0"
    and "\<bar>k sdiv d\<bar> \<le> \<bar>k\<bar> div d"
proof -
  show "k = d * (k sdiv d) + k smod d" by (metis mult.commute sdiv_mult_smod_eq)
  have pos: "0 \<le> \<bar>k\<bar> mod d" "\<bar>k\<bar> mod d < d" using assms by simp_all
  have m: "k smod d = sgn k * (\<bar>k\<bar> mod d)"
    using assms by (simp add: signed_modulo_int_def)
  show "- d < k smod d" and "k smod d < d"
    using pos unfolding m by (auto simp: sgn_if)
  have q: "k sdiv d = sgn k * (\<bar>k\<bar> div d)"
    using assms by (simp add: signed_divide_int_def)
  have nn: "0 \<le> \<bar>k\<bar> div d" using assms by (simp add: pos_imp_zdiv_nonneg_iff)
  show "0 \<le> k \<Longrightarrow> 0 \<le> k sdiv d" and "k \<le> 0 \<Longrightarrow> k sdiv d \<le> 0" and "\<bar>k sdiv d\<bar> \<le> \<bar>k\<bar> div d"
    using nn unfolding q by (auto simp: sgn_if)
qed

text \<open>Neither the products nor their difference leave the range of a 32 bit \<^verbatim>\<open>long\<close>.\<close>

lemma good_rand_int:
  defines "h \<equiv> \<lambda>x. sint x sdiv 127773" and "l \<equiv> \<lambda>x. sint x smod 127773"
  shows "sint (good_rand x) =
     (let k = 16807 * l x - 2836 * h x in if k \<le> 0 then k + 2147483647 else k)
   \<and> \<bar>16807 * l x - 2836 * h x\<bar> < 2147483647"
proof -
  have lb: "- 127773 < l x" "l x < 127773"
    using trunc_divmod(2,3) [of 127773 "sint x"] by (simp_all add: l_def)
  have "\<bar>sint x\<bar> \<le> 2147483648" using sint32_bounds [of x] by simp
  then have "\<bar>sint x\<bar> div 127773 \<le> 2147483648 div 127773" by (rule zdiv_mono1) simp
  then have hb: "\<bar>h x\<bar> \<le> 16807" using trunc_divmod(6) [of 127773 "sint x"] by (simp add: h_def)
  have sg: "0 \<le> sint x \<Longrightarrow> 0 \<le> h x" "sint x \<le> 0 \<Longrightarrow> h x \<le> 0"
    using trunc_divmod(4,5) [of 127773 "sint x"] by (simp_all add: h_def)
  have sl: "0 \<le> sint x \<Longrightarrow> 0 \<le> l x" "sint x \<le> 0 \<Longrightarrow> l x \<le> 0"
    by (auto simp: l_def signed_modulo_int_def sgn_if)
  let ?k = "16807 * l x - 2836 * h x"
  have kb: "\<bar>?k\<bar> < 2147483647"
    using lb hb sg sl by (cases "0 \<le> sint x") auto
  have w: "(16807 * word_of_int (l x) - 2836 * word_of_int (h x) :: u32) = word_of_int ?k"
    by simp
  have s: "sint (word_of_int ?k :: u32) = ?k" by (rule sint32_of_int) (use kb in auto)
  have p: "word_of_int ?k + (0x7fffffff :: u32) = word_of_int (?k + 2147483647)" by simp
  have "?k \<le> 0 \<Longrightarrow> sint (word_of_int (?k + 2147483647) :: u32) = ?k + 2147483647"
    by (rule sint32_of_int) (use kb in auto)
  moreover have "good_rand x = (let y = word_of_int ?k :: u32 in if sint y \<le> 0 then y + 0x7fffffff else y)"
    by (simp add: good_rand_def Let_def h_def l_def)
  ultimately show ?thesis using kb by (simp only: Let_def s p split: if_split) simp
qed

lemma good_rand_spec:
  "1 \<le> sint (good_rand x) \<and> sint (good_rand x) \<le> 2147483647
   \<and> sint (good_rand x) mod 2147483647 = (7 ^ 5 * sint x) mod 2147483647"
proof -
  let ?h = "sint x sdiv 127773" and ?l = "sint x smod 127773"
  let ?k = "16807 * ?l - 2836 * ?h"
  have d: "sint x = 127773 * ?h + ?l" by (rule trunc_divmod) simp
  have "7 ^ 5 * sint x = ?k + 2147483647 * ?h" by (subst d) (simp add: algebra_simps)
  then have c: "(7 ^ 5 * sint x) mod 2147483647 = ?k mod 2147483647" by (simp only: mod_mult_self2)
  have g: "sint (good_rand x) = (if ?k \<le> 0 then ?k + 2147483647 else ?k)"
    and b: "\<bar>?k\<bar> < 2147483647"
    using good_rand_int [of x] by (simp_all add: Let_def)
  show ?thesis unfolding c g using b by auto
qed

text \<open>For every 32 bit argument, negative and zero ones included, \<^verbatim>\<open>good_rand\<close> computes without
  overflow the representative in 1 .. 2^31 - 1 of \<^verbatim>\<open>7^5 * x\<close> modulo 2^31 - 1.\<close>
theorem good_rand_minimal_standard:
  "1 \<le> sint (good_rand x) \<and> sint (good_rand x) \<le> 2147483647
   \<and> sint (good_rand x) mod 2147483647 = (7 ^ 5 * sint x) mod 2147483647"
  by (rule good_rand_spec)

section \<open>The additive feedback recurrence\<close>

definition generators :: "(int \<times> int \<times> int) list" where
  "generators = [(0, 0, 0), (1, 7, 3), (2, 15, 1), (3, 31, 3), (4, 63, 1)]"

text \<open>The two pointers stay in the table, \<^verbatim>\<open>rand_sep\<close> places apart.\<close>

definition rng_inv :: "rng \<Rightarrow> bool" where
  "rng_inv g \<longleftrightarrow> (rand_type g, rand_deg g, rand_sep g) \<in> set generators \<and> end_ptr g = state g + rand_deg g
     \<and> (rand_type g \<noteq> 0 \<longrightarrow> state g \<le> rptr g \<and> rptr g < end_ptr g
          \<and> fptr g = state g + (rptr g - state g + rand_sep g) mod rand_deg g)"

text \<open>The numbers of the table, the oldest first.\<close>

definition window :: "rng \<Rightarrow> u32 list" where
  "window g = (if rand_type g = 0 then [longs g (state g)]
     else map (\<lambda>i. longs g (state g + (fptr g - state g + int i) mod rand_deg g)) [0..<nat (rand_deg g)])"

definition next_window :: "int \<Rightarrow> u32 list \<Rightarrow> u32 list" where
  "next_window t w =
     (if t = 0 then [good_rand (hd w) AND 0x7fffffff]
      else tl w @ [hd w + w ! nat (degrees ! nat t - seps ! nat t)])"

definition window_number :: "int \<Rightarrow> u32 list \<Rightarrow> u32" where
  "window_number t w = (if t = 0 then last w else drop_bit 1 (last w))"

lemma generators_simps:
  "(t, d, p) \<in> set generators \<Longrightarrow> t \<in> {0, 1, 2, 3, 4} \<and> d = degrees ! nat t \<and> p = seps ! nat t"
  "(t, d, p) \<in> set generators \<Longrightarrow> t \<noteq> 0 \<Longrightarrow> 0 < p \<and> p < d \<and> d \<le> 63 \<and> 0 < t \<and> t < 5"
  by (auto simp: generators_def degrees_def seps_def)

lemma shift_mask:
  "signed_drop_bit 1 x AND 0x7fffffff = drop_bit 1 (x :: u32)"
proof (rule bit_eqI)
  fix n assume "possible_bit TYPE(u32) n"
  then have n: "n < 32" by simp
  have m: "bit (0x7fffffff :: u32) n \<longleftrightarrow> n < 31"
  proof -
    have "(0x7fffffff :: u32) = mask 31" by (simp add: mask_eq_exp_minus_1)
    then show ?thesis using n by (simp only: bit_mask_iff) simp
  qed
  show "bit (signed_drop_bit 1 x AND 0x7fffffff) n = bit (drop_bit 1 x) n"
    unfolding bit_and_iff m using n bit_imp_le_length [of x "Suc n"]
    by (auto simp: bit_signed_drop_bit_iff bit_drop_bit_eq)
qed

lemma drop_bit_1_31: "unat (drop_bit 1 (x :: u32)) < 2147483648"
  using unat_lt2p32 [of x] by (simp add: unat_drop_bit_word)

text \<open>Positions in the cyclic table.\<close>

lemma cyc_next:
  fixes f d :: int
  assumes "0 \<le> f" "f < d"
  shows "(if f + 1 \<ge> d then 0 else f + 1) = (f + 1) mod d"
proof (cases "f + 1 \<ge> d")
  case True
  then have "f + 1 = d" using assms by simp
  then show ?thesis by simp
qed (use assms in \<open>simp add: mod_pos_pos_trivial\<close>)

lemma cyc_front_rear:
  fixes r d p :: int
  assumes "0 \<le> r" "r < d" "0 < p" "p < d"
  shows "((r + p) mod d + (d - p)) mod d = r"
proof -
  have "((r + p) mod d + (d - p)) mod d = (r + p + (d - p)) mod d" by (rule mod_add_left_eq)
  then show ?thesis using assms by simp
qed

lemma cyc_hit:
  fixes f d :: int
  assumes "0 \<le> f" "f < d" "0 < j" "j < d"
  shows "(f + j) mod d \<noteq> f"
proof
  assume "(f + j) mod d = f"
  then have "(f + j) mod d = f mod d" using assms by simp
  then have "d dvd (f + j) - f" using mod_eq_dvd_iff by blast
  then show False using assms by (auto dest: zdvd_imp_le)
qed

lemma random_ptrs:
  assumes "rng_inv g" "rand_type g \<noteq> 0"
  defines "f \<equiv> fptr g - state g" and "r \<equiv> rptr g - state g" and "d \<equiv> rand_deg g"
  shows "fptr (snd (random_c g)) - state g = (f + 1) mod d"
    and "rptr (snd (random_c g)) - state g = (r + 1) mod d"
    and "longs (snd (random_c g)) = (longs g)(fptr g := longs g (fptr g) + longs g (rptr g))"
    and "fst (random_c g) = drop_bit 1 (longs g (fptr g) + longs g (rptr g))"
proof -
  have gen: "(rand_type g, d, rand_sep g) \<in> set generators" using assms by (simp add: rng_inv_def)
  have sp: "0 < rand_sep g" "rand_sep g < d" using generators_simps(2) [OF gen] assms(2) by auto
  have r: "0 \<le> r" "r < d" and e: "end_ptr g = state g + d" and fr: "f = (r + rand_sep g) mod d"
    using assms by (auto simp: rng_inv_def)
  have f: "0 \<le> f" "f < d" using sp fr by simp_all
  have ff: "fptr g = state g + f" and rr: "rptr g = state g + r" by (simp_all add: f_def r_def)
  show "fptr (snd (random_c g)) - state g = (f + 1) mod d"
    using assms(2) cyc_next [OF f] by (auto simp: random_c_def Let_def e ff rr split: if_splits)
  have nw: "r + 1 < d" if "f + 1 \<ge> d"
  proof (rule ccontr)
    assume "\<not> ?thesis"
    then have "r = d - 1" "f = d - 1" using r f that by auto
    then have "(d - 1 + rand_sep g) mod d = d - 1" using fr by simp
    then show False using cyc_hit [of "d - 1" d "rand_sep g"] sp r by auto
  qed
  show "rptr (snd (random_c g)) - state g = (r + 1) mod d"
    using assms(2) cyc_next [OF r] nw
    by (auto simp: random_c_def Let_def e ff rr split: if_splits)
  show "longs (snd (random_c g)) = (longs g)(fptr g := longs g (fptr g) + longs g (rptr g))"
    and "fst (random_c g) = drop_bit 1 (longs g (fptr g) + longs g (rptr g))"
    using assms(2) shift_mask [unfolded One_nat_def] by (auto simp: random_c_def Let_def)
qed

lemma random_keeps [simp]:
  "state (snd (random_c g)) = state g" "rand_type (snd (random_c g)) = rand_type g"
  "rand_deg (snd (random_c g)) = rand_deg g" "rand_sep (snd (random_c g)) = rand_sep g"
  "end_ptr (snd (random_c g)) = end_ptr g"
  by (simp_all add: random_c_def Let_def)

lemma random_inv: "rng_inv g \<Longrightarrow> rng_inv (snd (random_c g))"
proof (cases "rand_type g = 0")
  case False
  assume inv: "rng_inv g"
  have gen: "(rand_type g, rand_deg g, rand_sep g) \<in> set generators"
    using inv by (simp add: rng_inv_def)
  have d: "0 < rand_deg g" using generators_simps(2) [OF gen] False by auto
  have fr: "fptr g - state g = (rptr g - state g + rand_sep g) mod rand_deg g"
    using inv False by (simp add: rng_inv_def)
  note ps = random_ptrs(1,2) [OF inv False]
  have "fptr (snd (random_c g)) - state g
      = (rptr (snd (random_c g)) - state g + rand_sep g) mod rand_deg g"
    unfolding ps fr by (simp add: mod_simps algebra_simps)
  moreover have "0 \<le> rptr (snd (random_c g)) - state g" "rptr (snd (random_c g)) - state g < rand_deg g"
    unfolding ps using d by simp_all
  ultimately show ?thesis using inv by (auto simp: rng_inv_def)
qed (auto simp: rng_inv_def)

lemma good_rand_masked: "good_rand x AND 0x7fffffff = good_rand x"
proof -
  have b: "1 \<le> sint (good_rand x)" "sint (good_rand x) \<le> 2147483647"
    using good_rand_spec [of x] by simp_all
  have "good_rand x AND 0x7fffffff = take_bit 31 (good_rand x)"
    by (simp add: take_bit_eq_mask mask_eq_exp_minus_1)
  also have "uint (good_rand x) < 2 ^ 31"
    using b by (simp add: uint_sint take_bit_int_eq_self)
  then have "take_bit 31 (good_rand x) = good_rand x"
    by (intro word_uint_eqI) (simp add: unsigned_take_bit_eq take_bit_int_eq_self)
  finally show ?thesis .
qed


lemma window_of_type0: "rand_type g = 0 \<Longrightarrow> window g = [longs g (state g)]"
  by (simp add: window_def)

lemma window_nth:
  "rand_type g \<noteq> 0 \<Longrightarrow> i < nat (rand_deg g) \<Longrightarrow>
     window g ! i = longs g (state g + (fptr g - state g + int i) mod rand_deg g)"
  by (simp add: window_def)

lemma length_window: "rand_type g \<noteq> 0 \<Longrightarrow> length (window g) = nat (rand_deg g)"
  by (simp add: window_def)

lemma inv_positions:
  assumes "rng_inv g" "rand_type g \<noteq> 0"
  defines "d \<equiv> rand_deg g" and "p \<equiv> rand_sep g" and "f \<equiv> fptr g - state g"
  shows "0 < p" "p < d" "d \<le> 63" "p = seps ! nat (rand_type g)" "d = degrees ! nat (rand_type g)"
    and "0 \<le> f" "f < d" "rptr g = state g + (f + (d - p)) mod d"
proof -
  have gen: "(rand_type g, d, p) \<in> set generators" using assms by (simp add: rng_inv_def)
  show sp: "0 < p" "p < d" "d \<le> 63" "p = seps ! nat (rand_type g)" "d = degrees ! nat (rand_type g)"
    using generators_simps [OF gen] assms(2) by auto
  show "0 \<le> f" "f < d" using assms sp by (auto simp: rng_inv_def)
  show "rptr g = state g + (f + (d - p)) mod d"
    using cyc_front_rear [of "rptr g - state g" d p] sp assms by (auto simp: rng_inv_def)
qed

lemma random_sum:
  assumes inv: "rng_inv g" and nz: "rand_type g \<noteq> 0"
  shows "longs g (fptr g) + longs g (rptr g)
       = hd (window g) + window g ! nat (degrees ! nat (rand_type g) - seps ! nat (rand_type g))"
proof -
  note ps = inv_positions [OF inv nz]
  have "hd (window g) = window g ! 0" using ps nz by (intro hd_conv_nth) (auto simp: window_def)
  also have "\<dots> = longs g (fptr g)" using window_nth [of g 0] nz ps by simp
  finally show ?thesis
    using window_nth [of g "nat (rand_deg g - rand_sep g)"] nz ps(1-3,8) unfolding ps(4,5) [symmetric]
    by simp
qed

lemma random_window:
  assumes inv: "rng_inv g"
  shows "window (snd (random_c g)) = next_window (rand_type g) (window g)"
proof (cases "rand_type g = 0")
  case True
  then show ?thesis by (simp add: window_def random_c_def Let_def next_window_def)
next
  case nz: False
  define d s f where "d = rand_deg g" "s = state g" "f = fptr g - state g"
  note dd = this
  note ps = inv_positions [OF inv nz, folded dd]
  let ?w = "window g" and ?g = "snd (random_c g)"
  let ?new = "hd ?w + ?w ! nat (degrees ! nat (rand_type g) - seps ! nat (rand_type g))"
  have lw: "length ?w = nat d" using nz by (simp add: length_window dd)
  have ml: "longs ?g = (longs g)(s + f := ?new)"
    using random_ptrs(3) [OF inv nz] random_sum [OF inv nz] by (simp add: dd)
  have fn: "fptr ?g - s = (f + 1) mod d" using random_ptrs(1) [OF inv nz] by (simp add: dd)
  show ?thesis
  proof (rule nth_equalityI)
    show "length (window ?g) = length (next_window (rand_type g) ?w)"
      using lw ps(1,2) nz by (simp add: next_window_def length_window dd)
    fix i assume "i < length (window ?g)"
    then have i: "i < nat d" using nz by (simp add: length_window dd)
    have l: "window ?g ! i = longs ?g (s + (f + (int i + 1)) mod d)"
      using window_nth [of ?g i] nz i fn by (simp add: dd mod_simps ac_simps)
    show "window ?g ! i = next_window (rand_type g) ?w ! i"
    proof (cases "i = nat d - 1")
      case True
      then have "(f + (int i + 1)) mod d = f" using ps(1,2,6,7) by simp
      then show ?thesis using True lw nz unfolding l ml by (simp add: next_window_def nth_append)
    next
      case False
      then have j: "0 < int i + 1" "int i + 1 < d" and i': "i < nat d - 1" using i by auto
      have "window ?g ! i = ?w ! Suc i"
        using cyc_hit [OF ps(6,7) j] window_nth [of g "Suc i"] nz j unfolding l ml
        by (simp add: dd ac_simps)
      then show ?thesis using i' lw nz by (simp add: next_window_def nth_append nth_tl)
    qed
  qed
qed

lemma random_number:
  assumes "rng_inv g"
  shows "fst (random_c g) = window_number (rand_type g) (next_window (rand_type g) (window g))"
proof (cases "rand_type g = 0")
  case True
  then show ?thesis by (simp add: window_def random_c_def Let_def next_window_def window_number_def)
next
  case False
  then show ?thesis using random_ptrs(4) [OF assms False] random_sum [OF assms False]
    by (simp add: window_number_def next_window_def)
qed

lemma good_rand_31: "unat (good_rand x) < 2 ^ 31"
proof -
  have "unat (take_bit 31 (good_rand x)) < 2 ^ 31"
    by (simp only: unsigned_take_bit_eq take_bit_nat_less_exp)
  moreover have "take_bit 31 (good_rand x) = good_rand x AND 0x7fffffff"
    by (simp add: take_bit_eq_mask mask_eq_exp_minus_1)
  ultimately show ?thesis by (simp only: good_rand_masked)
qed

text \<open>C23: \<^verbatim>\<open>random\<close> refines the recurrence the file documents.  Seen as the list of the numbers of the
  table from the oldest to the newest, one call drops the oldest number and appends its sum, modulo
  2^32, with the number \<^verbatim>\<open>rand_deg - rand_sep\<close> places later (the type 0 generator replaces its one
  number by the next of \<^verbatim>\<open>good_rand\<close>); the result is the new number without its lowest bit, below
  2^31; and the pointers stay within the table, \<^verbatim>\<open>rand_sep\<close> apart.\<close>
theorem random_refines_recurrence:
  assumes "rng_inv g"
  shows "rng_inv (snd (random_c g))
   \<and> window (snd (random_c g)) = next_window (rand_type g) (window g)
   \<and> fst (random_c g) = window_number (rand_type g) (next_window (rand_type g) (window g))
   \<and> unat (fst (random_c g)) < 2 ^ 31"
proof -
  have "unat (fst (random_c g)) < 2 ^ 31"
    using good_rand_31 drop_bit_1_31 random_ptrs(4) [OF assms] good_rand_masked
    by (cases "rand_type g = 0") (simp_all add: random_c_def Let_def)
  then show ?thesis using assms by (simp add: random_inv random_window random_number)
qed

section \<open>Seeding\<close>

text \<open>The longs of the table, and the array with the word in front of it.\<close>

definition table_of :: "rng \<Rightarrow> int set" where
  "table_of g = {state g ..< state g + max 1 (rand_deg g)}"

definition array_of :: "rng \<Rightarrow> int set" where
  "array_of g = {state g - 1 ..< state g + max 1 (rand_deg g)}"

lemma array_of_eq: "array_of g = insert (state g - 1) (table_of g)"
  by (auto simp: array_of_def table_of_def)

lemma random_frame:
  assumes "rng_inv g" "k \<notin> table_of g"
  shows "longs (snd (random_c g)) k = longs g k"
proof (cases "rand_type g = 0")
  case True
  then show ?thesis using assms(2) by (auto simp: table_of_def random_c_def Let_def)
next
  case False
  then show ?thesis
    using random_ptrs(3) [OF assms(1) False] inv_positions(6,7) [OF assms(1) False] assms(2)
    by (auto simp: table_of_def)
qed

abbreviation discard :: "rng \<Rightarrow> rng" where
  "discard \<equiv> \<lambda>g. snd (random_c g)"

lemma discards:
  assumes "rng_inv g"
  shows "rng_inv ((discard ^^ n) g)"
    and "state ((discard ^^ n) g) = state g" "rand_type ((discard ^^ n) g) = rand_type g"
    and "rand_deg ((discard ^^ n) g) = rand_deg g" "rand_sep ((discard ^^ n) g) = rand_sep g"
    and "window ((discard ^^ n) g) = (next_window (rand_type g) ^^ n) (window g)"
  using assms by (induction n) (simp_all add: random_inv random_window)

lemma table_of_discards: "rng_inv g \<Longrightarrow> table_of ((discard ^^ n) g) = table_of g"
  by (simp add: table_of_def discards)

lemma discards_frame:
  "rng_inv g \<Longrightarrow> k \<notin> table_of g \<Longrightarrow> longs ((discard ^^ n) g) k = longs g k"
  by (induction n) (simp_all add: random_frame discards(1) table_of_discards)

lemma discards_rptr:
  assumes "rng_inv g" "rand_type g \<noteq> 0"
  shows "rptr ((discard ^^ n) g) - state g = (rptr g - state g + int n) mod rand_deg g"
proof (induction n)
  case 0
  then show ?case using assms by (auto simp: rng_inv_def)
next
  case (Suc n)
  then show ?case
    using random_ptrs(2) [of "(discard ^^ n) g"] assms
    by (simp add: discards mod_simps) (simp add: ac_simps)
qed

text \<open>The seed and its successors under \<^verbatim>\<open>good_rand\<close> fill the table.\<close>

definition seeds :: "u32 \<Rightarrow> nat \<Rightarrow> u32 list" where
  "seeds x n = map (\<lambda>i. (good_rand ^^ i) x) [0..<n]"

lemma seed_fold:
  fixes st :: int
  shows "fold (\<lambda>i m. m(st + i := good_rand (m (st + i - 1)))) [1..int n] m
       = (\<lambda>k. if st < k \<and> k \<le> st + int n then (good_rand ^^ nat (k - st)) (m st) else m k)"
    (is "?F n = _")
proof (induction n)
  case 0
  show ?case by (rule ext) auto
next
  case (Suc n)
  have u: "[1..int (Suc n)] = [1..int n] @ [int (Suc n)]"
    using upto_rec2 [of 1 "int (Suc n)"] by simp
  have n: "nat (1 + int n) = Suc n" by simp
  show ?case
    unfolding u fold_append comp_def Suc.IH by (rule ext) (auto simp: n nat_diff_distrib')
qed

lemma seed_longs_eq:
  assumes "0 < d"
  shows "seed_longs st d (m(st := x))
       = (\<lambda>k. if st \<le> k \<and> k < st + d then seeds x (nat d) ! nat (k - st) else m k)"
  using assms seed_fold [of st "nat (d - 1)" "m(st := x)"]
  by (auto simp: seed_longs_def seeds_def fun_eq_iff)

text \<open>What the fields must hold before \<^verbatim>\<open>srandom\<close>.\<close>

definition rng_ready :: "rng \<Rightarrow> bool" where
  "rng_ready g \<longleftrightarrow> (rand_type g, rand_deg g, rand_sep g) \<in> set generators
     \<and> end_ptr g = state g + rand_deg g"

definition seeded :: "u32 \<Rightarrow> rng \<Rightarrow> rng" where
  "seeded x g = g\<lparr>longs := seed_longs (state g) (rand_deg g) ((longs g)(state g := x)),
     fptr := state g + rand_sep g, rptr := state g\<rparr>"

lemma srandom_seeded:
  "rand_type g \<noteq> 0 \<Longrightarrow> srandom x g = (discard ^^ nat (10 * rand_deg g)) (seeded x g)"
  by (simp add: srandom_def seeded_def Let_def)

lemma seeded_inv: "rng_ready g \<Longrightarrow> rand_type g \<noteq> 0 \<Longrightarrow> rng_inv (seeded x g)"
  using generators_simps(2) [of "rand_type g" "rand_deg g" "rand_sep g"]
  by (simp add: rng_inv_def rng_ready_def seeded_def)

lemma seeded_window:
  assumes "rng_ready g" "rand_type g \<noteq> 0"
  shows "window (seeded x g) = rotate (nat (rand_sep g)) (seeds x (nat (rand_deg g)))"
proof (rule nth_equalityI)
  let ?d = "rand_deg g" and ?p = "rand_sep g"
  have dp: "0 < ?p" "?p < ?d"
    using assms generators_simps(2) [of "rand_type g" ?d ?p] by (simp_all add: rng_ready_def)
  show "length (window (seeded x g)) = length (rotate (nat ?p) (seeds x (nat ?d)))"
    using assms(2) by (simp add: seeds_def window_def seeded_def)
  fix i assume "i < length (window (seeded x g))"
  then have i: "i < nat ?d" using assms(2) by (simp add: window_def seeded_def)
  have j: "0 \<le> (?p + int i) mod ?d" "(?p + int i) mod ?d < ?d" using dp by simp_all
  have "window (seeded x g) ! i = seeds x (nat ?d) ! nat ((?p + int i) mod ?d)"
    using window_nth [of "seeded x g" i] i assms(2) j dp
    by (simp add: seeded_def seed_longs_eq)
  also have "nat ((?p + int i) mod ?d) = (nat ?p + i) mod nat ?d"
    using dp by (simp add: nat_mod_distrib nat_add_distrib)
  finally show "window (seeded x g) ! i = rotate (nat ?p) (seeds x (nat ?d)) ! i"
    using i by (simp add: nth_rotate seeds_def add.commute)
qed

definition seeded_window_of :: "int \<Rightarrow> u32 \<Rightarrow> u32 list" where
  "seeded_window_of t x =
     (if t = 0 then [x]
      else (next_window t ^^ nat (10 * degrees ! nat t))
             (rotate (nat (seps ! nat t)) (seeds x (nat (degrees ! nat t)))))"

lemma srandom_spec:
  assumes "rng_ready g"
  shows "rng_inv (srandom x g)"
    and "window (srandom x g) = seeded_window_of (rand_type g) x"
    and "state (srandom x g) = state g" "rand_type (srandom x g) = rand_type g"
    and "rand_deg (srandom x g) = rand_deg g" "rand_sep (srandom x g) = rand_sep g"
    and "rand_type g \<noteq> 0 \<Longrightarrow> rptr (srandom x g) = state g"
    and "k \<notin> table_of g \<Longrightarrow> longs (srandom x g) k = longs g k"
proof -
  have tab: "rand_deg g = degrees ! nat (rand_type g)" "rand_sep g = seps ! nat (rand_type g)"
    using assms generators_simps(1) by (auto simp: rng_ready_def)
  have fields: "state (seeded x g) = state g" "rand_type (seeded x g) = rand_type g"
    "rand_deg (seeded x g) = rand_deg g" "rand_sep (seeded x g) = rand_sep g" "rptr (seeded x g) = state g"
    by (simp_all add: seeded_def)
  note nz = srandom_seeded [of g x] seeded_inv [OF assms, of x]
  show "state (srandom x g) = state g" "rand_type (srandom x g) = rand_type g"
    "rand_deg (srandom x g) = rand_deg g" "rand_sep (srandom x g) = rand_sep g"
    using nz(1) discards(2-5) [OF nz(2)] fields by (cases "rand_type g = 0"; simp add: srandom_def)+
  show "rng_inv (srandom x g)"
  proof (cases "rand_type g = 0")
    case True
    then show ?thesis using assms by (simp add: srandom_def rng_inv_def rng_ready_def)
  qed (simp add: nz(1) discards(1) [OF nz(2)])
  show "window (srandom x g) = seeded_window_of (rand_type g) x"
  proof (cases "rand_type g = 0")
    case True
    then show ?thesis by (simp add: srandom_def window_def seeded_window_of_def)
  next
    case False
    then show ?thesis
      by (simp only: nz(1) discards(6) [OF nz(2)] seeded_window [OF assms] fields tab
          seeded_window_of_def if_False not_False_eq_True)
  qed
  show "rptr (srandom x g) = state g" if "rand_type g \<noteq> 0"
    using discards_rptr [OF nz(2), where n = "nat (10 * rand_deg g)"] that nz(1) fields
      generators_simps(2) [of "rand_type g" "rand_deg g" "rand_sep g"] assms
    by (simp add: rng_ready_def)
  show "longs (srandom x g) k = longs g k" if k: "k \<notin> table_of g"
  proof (cases "rand_type g = 0")
    case True
    then show ?thesis using k by (auto simp: srandom_def table_of_def)
  next
    case False
    have "0 < rand_deg g"
      using False assms generators_simps(2) [of "rand_type g" "rand_deg g" "rand_sep g"]
      by (simp add: rng_ready_def)
    moreover have "table_of (seeded x g) = table_of g" by (simp add: table_of_def fields)
    ultimately show ?thesis
      using discards_frame [OF nz(2), where k = k] False k nz(1)
      by (auto simp: seeded_def seed_longs_eq table_of_def)
  qed
qed

section \<open>Switching between state arrays\<close>

lemma save_pos_fields [simp]:
  "state (save_pos g) = state g" "rand_type (save_pos g) = rand_type g" "rand_deg (save_pos g) = rand_deg g"
  "rand_sep (save_pos g) = rand_sep g" "end_ptr (save_pos g) = end_ptr g" "fptr (save_pos g) = fptr g"
  "rptr (save_pos g) = rptr g" "k \<noteq> state g - 1 \<Longrightarrow> longs (save_pos g) k = longs g k"
  by (simp_all add: save_pos_def)

lemma pick_type_fields [simp]:
  "state (pick_type n g) = state g" "longs (pick_type n g) = longs g"
  by (simp_all add: pick_type_def)

lemma pick_type_ready:
  "(rand_type (pick_type n g), rand_deg (pick_type n g), rand_sep (pick_type n g)) \<in> set generators"
  "8 \<le> n \<Longrightarrow> 1 + max 1 (rand_deg (pick_type n g)) \<le> int (n div 4)"
  by (auto simp: pick_type_def generators_def)

definition best_type :: "nat \<Rightarrow> int" where
  "best_type n = Max {t. \<exists>d p. (t, d, p) \<in> set generators \<and> 4 * (d + 1) \<le> int n}"

lemma pick_type_best: "8 \<le> n \<Longrightarrow> rand_type (pick_type n g) = best_type n"
proof -
  assume n: "8 \<le> n"
  let ?T = "{t. \<exists>d p. (t, d, p) \<in> set generators \<and> 4 * (d + 1) \<le> int n}"
  have "?T \<subseteq> {0, 1, 2, 3, 4}" by (auto simp: generators_def)
  then have "finite ?T" by (rule finite_subset) simp
  moreover have "rand_type (pick_type n g) \<in> ?T" using n by (auto simp: pick_type_def generators_def)
  moreover have "t \<le> rand_type (pick_type n g)" if "t \<in> ?T" for t
    using that by (auto simp: pick_type_def generators_def)
  ultimately show ?thesis unfolding best_type_def by (intro Max_eqI [symmetric]) auto
qed

definition armed :: "int \<Rightarrow> nat \<Rightarrow> rng \<Rightarrow> rng" where
  "armed arg n g = (let g = pick_type n (save_pos g)
     in g\<lparr>state := arg + 1, end_ptr := arg + 1 + rand_deg g\<rparr>)"

lemma armed_fields [simp]:
  "state (armed arg n g) = arg + 1" "rand_type (armed arg n g) = rand_type (pick_type n g)"
  "rand_deg (armed arg n g) = rand_deg (pick_type n g)" "rand_sep (armed arg n g) = rand_sep (pick_type n g)"
  "longs (armed arg n g) = longs (save_pos g)"
  by (simp_all add: armed_def Let_def pick_type_def)

lemma armed_ready: "rng_ready (armed arg n g)"
  unfolding rng_ready_def armed_fields using pick_type_ready(1) [of n g]
  by (simp add: armed_def Let_def pick_type_def)

lemma initstate_eq:
  assumes "8 \<le> n"
  shows "initstate seed arg n g = (Some (state g - 1), save_pos (srandom seed (armed arg n g)))"
  using assms srandom_spec(3) [of "armed arg n g", OF armed_ready, of seed]
  by (simp add: initstate_def armed_def Let_def save_pos_def)

lemma save_pos_window: "rng_inv g \<Longrightarrow> window (save_pos g) = window g"
proof -
  assume inv: "rng_inv g"
  have "(fptr g - state g + int i) mod rand_deg g \<noteq> - 1" if "rand_type g \<noteq> 0" for i
    using inv_positions(1,2) [OF inv that] pos_mod_sign [of "rand_deg g" "fptr g - state g + int i"]
    by linarith
  then show ?thesis by (simp add: window_def save_pos_def)
qed

lemma save_pos_inv: "rng_inv (save_pos g) = rng_inv g"
  by (simp add: rng_inv_def)

text \<open>\<^verbatim>\<open>initstate\<close> with an array of at least eight bytes selects the largest generator whose table
  and header word fit, seeds it as documented (the seed and its successors under \<^verbatim>\<open>good_rand\<close>, then
  ten rounds through the table), returns the old array, and writes nothing but the longs of the
  new array that lie within its \<^verbatim>\<open>n\<close> bytes and the header word of the old one.\<close>
theorem initstate_selects_and_seeds:
  assumes "8 \<le> n"
  shows "let (o', g') = initstate seed arg n g in
     o' = Some (state g - 1) \<and> rng_inv g' \<and> state g' = arg + 1 \<and> rand_type g' = best_type n
     \<and> window g' = seeded_window_of (best_type n) seed
     \<and> (\<forall>k. (k < arg \<or> arg + int (n div 4) \<le> k) \<and> k \<noteq> state g - 1 \<longrightarrow> longs g' k = longs g k)"
proof -
  note sp = srandom_spec [OF armed_ready [of arg n g], where x = seed]
  have "longs (save_pos (srandom seed (armed arg n g))) k = longs g k"
    if "k < arg \<or> arg + int (n div 4) \<le> k" "k \<noteq> state g - 1" for k
  proof -
    have "k \<notin> table_of (armed arg n g)" "k \<noteq> arg"
      using that(1) pick_type_ready(2) [OF assms, of g] by (auto simp: table_of_def)
    then show ?thesis using that(2) sp(3,8) by simp
  qed
  then show ?thesis
    unfolding initstate_eq [OF assms] Let_def prod.case
    using sp(1-4) pick_type_best [OF assms, of g]
    by (simp add: save_pos_inv save_pos_window)
qed

section \<open>Resuming a generator\<close>

lemma sint_position:
  fixes r t :: int
  assumes "0 \<le> r" "r \<le> 63" "0 \<le> t" "t < 5"
  shows "sint (word_of_int (5 * r + t) :: u32) smod MAX_TYPES = t"
    and "sint (word_of_int (5 * r + t) :: u32) sdiv MAX_TYPES = r"
proof -
  have s: "sint (word_of_int (5 * r + t) :: u32) = 5 * r + t"
    by (rule sint32_of_int) (use assms in auto)
  have "(5 * r + t) mod 5 = t" "(5 * r + t) div 5 = r" using assms by auto
  then show "sint (word_of_int (5 * r + t) :: u32) smod MAX_TYPES = t"
    and "sint (word_of_int (5 * r + t) :: u32) sdiv MAX_TYPES = r"
    using assms unfolding s MAX_TYPES_def
    by (auto simp: signed_modulo_int_def signed_divide_int_def sgn_if)
qed

lemma setstate_eq:
  assumes w: "longs h arg = word_of_int (5 * r + t)" and gen: "(t, d, p) \<in> set generators"
    and r: "0 \<le> r" "t \<noteq> 0 \<Longrightarrow> r < d" "t = 0 \<Longrightarrow> r = 0"
  shows "fst (setstate arg h) = state h - 1"
    and "longs (snd (setstate arg h)) = longs (save_pos h)" "state (snd (setstate arg h)) = arg + 1"
    and "rand_type (snd (setstate arg h)) = t" "rand_deg (snd (setstate arg h)) = d"
    and "rand_sep (snd (setstate arg h)) = p" "end_ptr (snd (setstate arg h)) = arg + 1 + d"
    and "t \<noteq> 0 \<Longrightarrow> rptr (snd (setstate arg h)) = arg + 1 + r"
    and "t \<noteq> 0 \<Longrightarrow> fptr (snd (setstate arg h)) = arg + 1 + (r + p) mod d"
proof -
  have t: "t \<in> {0, 1, 2, 3, 4}" "degrees ! nat t = d" "seps ! nat t = p"
    using generators_simps(1) [OF gen] by auto
  have nz: "t \<noteq> 0 \<Longrightarrow> 0 < p \<and> p < d \<and> d \<le> 63" using generators_simps(2) [OF gen] by auto
  have rt: "r \<le> 63" "0 \<le> t" "t < 5" using t(1) r nz by (cases "t = 0"; auto)+
  have ps: "sint (longs h arg) smod MAX_TYPES = t" "sint (longs h arg) sdiv MAX_TYPES = r"
    using sint_position [OF r(1) rt] unfolding w by simp_all
  have sm: "t \<noteq> 0 \<Longrightarrow> (r + p) smod d = (r + p) mod d"
    using r nz by (auto simp: signed_modulo_int_def sgn_if)
  note unf = setstate_def Let_def ps if_P [OF t(1)] t(2,3)
  show "fst (setstate arg h) = state h - 1"
    and "longs (snd (setstate arg h)) = longs (save_pos h)" "state (snd (setstate arg h)) = arg + 1"
    and "rand_type (snd (setstate arg h)) = t" "rand_deg (snd (setstate arg h)) = d"
    and "rand_sep (snd (setstate arg h)) = p" "end_ptr (snd (setstate arg h)) = arg + 1 + d"
    and "t \<noteq> 0 \<Longrightarrow> rptr (snd (setstate arg h)) = arg + 1 + r"
    and "t \<noteq> 0 \<Longrightarrow> fptr (snd (setstate arg h)) = arg + 1 + (r + p) mod d"
    unfolding unf by (simp_all add: sm)
qed

definition position_of :: "rng \<Rightarrow> int" where
  "position_of g = (if rand_type g = 0 then 0 else rptr g - state g)"

lemma saved_word:
  "longs (save_pos g) (state g - 1) = word_of_int (5 * position_of g + rand_type g)"
  by (simp add: save_pos_def position_of_def MAX_TYPES_def)

lemma inv_position:
  assumes "rng_inv g"
  shows "0 \<le> position_of g" "rand_type g \<noteq> 0 \<Longrightarrow> position_of g < rand_deg g"
    and "rand_type g = 0 \<Longrightarrow> position_of g = 0"
    and "(rand_type g, rand_deg g, rand_sep g) \<in> set generators"
  using assms by (auto simp: position_of_def rng_inv_def)

lemma window_cong:
  assumes "rng_inv g" "rng_inv h" "rand_type h = rand_type g" "state h = state g"
    and "position_of h = position_of g"
    and "\<And>k. k \<in> table_of g \<Longrightarrow> longs h k = longs g k"
  shows "window h = window g"
proof (cases "rand_type g = 0")
  case True
  then show ?thesis using assms(3,4) assms(6) [of "state g"] by (auto simp: window_def table_of_def)
next
  case False
  have d: "rand_deg h = rand_deg g" "rand_sep h = rand_sep g"
    using generators_simps(1) [OF inv_position(4)] assms(1-3) by auto
  have f: "fptr h = fptr g"
    using assms False d by (simp add: rng_inv_def position_of_def)
  have "0 < rand_deg g" using inv_positions(1,2) [OF assms(1) False] by simp
  then have "state g + j mod rand_deg g \<in> table_of g" for j by (simp add: table_of_def less_max_iff_disj)
  then show ?thesis using assms(3,4,6) False d f by (simp add: window_def)
qed

lemma setstate_resumes:
  assumes g: "rng_inv g" and h: "rng_inv h" and dj: "state h - 1 \<notin> array_of g"
    and mem: "\<And>k. k \<in> array_of g \<Longrightarrow> longs h k = longs (save_pos g) k"
  defines "h' \<equiv> snd (setstate (state g - 1) h)"
  shows "rng_inv h'" "window h' = window g" "rand_type h' = rand_type g" "state h' = state g"
proof -
  have w: "longs h (state g - 1) = word_of_int (5 * position_of g + rand_type g)"
    using mem [of "state g - 1"] saved_word by (simp add: array_of_eq)
  note pos = inv_position [OF g]
  note s = setstate_eq [OF w pos(4,1,2,3), folded h'_def]
  show inv: "rng_inv h'"
    using s pos by (auto simp: rng_inv_def)
  show ty: "rand_type h' = rand_type g" "state h' = state g" using s by simp_all
  show "window h' = window g"
  proof (rule window_cong [OF g inv ty])
    show "position_of h' = position_of g" using s(3,4,8) by (simp add: position_of_def)
    fix k assume k: "k \<in> table_of g"
    then have "k \<noteq> state h - 1" "k \<noteq> state g - 1" using dj by (auto simp: array_of_eq table_of_def)
    then show "longs h' k = longs g k" using s(2) mem [of k] k by (simp add: array_of_eq)
  qed
qed

fun random_seq :: "nat \<Rightarrow> rng \<Rightarrow> u32 list" where
  "random_seq 0 g = []"
| "random_seq (Suc n) g = (let (i, g) = random_c g in i # random_seq n g)"

lemma random_seq_window:
  "rng_inv g \<Longrightarrow> rng_inv h \<Longrightarrow> rand_type h = rand_type g \<Longrightarrow> window h = window g \<Longrightarrow>
     random_seq n h = random_seq n g"
proof (induction n arbitrary: g h)
  case (Suc n)
  have "fst (random_c h) = fst (random_c g)" using Suc.prems by (simp add: random_number)
  moreover have "random_seq n (snd (random_c h)) = random_seq n (snd (random_c g))"
    using Suc.prems by (intro Suc.IH) (simp_all add: random_inv random_window)
  ultimately show ?case by (simp add: case_prod_beta)
qed simp

text \<open>A generator that is put aside continues where it stopped.  If \<^verbatim>\<open>initstate\<close> switches to
  another array that does not overlap the current one, any count of numbers is drawn from the
  new generator, and \<^verbatim>\<open>setstate\<close> is then called with the array that \<^verbatim>\<open>initstate\<close> returned, all numbers
  that follow are those the old generator would have produced without the interruption.\<close>
theorem setstate_continues_sequence:
  assumes "rng_inv g" "8 \<le> n" "{arg ..< arg + int (n div 4)} \<inter> array_of g = {}"
  shows "case initstate seed arg n g of (None, _) \<Rightarrow> False
     | (Some old, g1) \<Rightarrow> random_seq m (snd (setstate old ((discard ^^ k) g1))) = random_seq m g"
proof -
  let ?a = "armed arg n g"
  let ?g1 = "save_pos (srandom seed ?a)"
  note sp = srandom_spec [OF armed_ready [of arg n g], where x = seed]
  have inv1: "rng_inv ?g1" using sp(1) by (simp add: save_pos_inv)
  have tab1: "table_of ?g1 = table_of ?a" by (simp add: table_of_def sp(3,5) del: armed_fields)
  have sub: "insert arg (table_of ?a) \<subseteq> {arg ..< arg + int (n div 4)}"
    using pick_type_ready(2) [OF assms(2), of g] by (auto simp: table_of_def)
  have "longs ((discard ^^ k) ?g1) j = longs (save_pos g) j" if "j \<in> array_of g" for j
  proof -
    have j: "j \<notin> table_of ?a" "j \<noteq> arg" using that sub assms(3) by blast+
    then have "longs ((discard ^^ k) ?g1) j = longs ?g1 j" using discards_frame [OF inv1] tab1 by simp
    then show ?thesis using j sp(3,8) by simp
  qed
  moreover have "arg \<notin> array_of g" using sub assms(3) by blast
  then have "state ((discard ^^ k) ?g1) - 1 \<notin> array_of g"
    using discards(2) [OF inv1, of k] sp(3) by simp
  ultimately have "rng_inv (snd (setstate (state g - 1) ((discard ^^ k) ?g1)))"
    "window (snd (setstate (state g - 1) ((discard ^^ k) ?g1))) = window g"
    "rand_type (snd (setstate (state g - 1) ((discard ^^ k) ?g1))) = rand_type g"
    using setstate_resumes(1-3) [OF assms(1) discards(1) [OF inv1]] by blast+
  then show ?thesis
    unfolding initstate_eq [OF assms(2)] prod.case option.case
    by (intro random_seq_window [OF assms(1)])
qed

section \<open>The initial state\<close>

fun good_seq :: "nat \<Rightarrow> u32 \<Rightarrow> u32 list" where
  "good_seq 0 x = []"
| "good_seq (Suc n) x = x # good_seq n (good_rand x)"

lemma seeds_good_seq: "seeds x n = good_seq n x"
proof (induction n arbitrary: x)
  case (Suc n)
  have "seeds x (Suc n) = x # seeds (good_rand x) n"
    by (simp add: seeds_def upt_rec [of 0 "Suc n"] map_Suc_upt [symmetric] funpow_Suc_right
        del: upt_Suc funpow.simps)
  then show ?case using Suc.IH by simp
qed (simp add: seeds_def)

text \<open>Evaluation of the 310 discarded calls by rewriting.\<close>

fun rounds :: "nat \<Rightarrow> u32 list \<Rightarrow> u32 list" where
  "rounds 0 w = w"
| "rounds (Suc n) w = rounds n (next_window 3 w)"

lemma rounds_funpow: "(next_window 3 ^^ n) w = rounds n w"
  by (induction n arbitrary: w) (simp_all add: funpow_Suc_right del: funpow.simps(2))

lemma rounds_numeral: "rounds (numeral k) w = rounds (pred_numeral k) (next_window 3 w)"
  by (simp add: numeral_eq_Suc)

lemma next_window_31:
  "next_window 3 [x0, x1, x2, x3, x4, x5, x6, x7, x8, x9, x10, x11, x12, x13, x14, x15, x16, x17, x18, x19,
    x20, x21, x22, x23, x24, x25, x26, x27, x28, x29, x30] =
     [x1, x2, x3, x4, x5, x6, x7, x8, x9, x10, x11, x12, x13, x14, x15, x16, x17, x18, x19, x20,
     x21, x22, x23, x24, x25, x26, x27, x28, x29, x30, x0 + x28]"
  by (simp add: next_window_def degrees_def seps_def)

lemma good_rand_numeral:
  assumes "(numeral w :: int) < 2147483648"
  shows "good_rand (numeral w) =
     word_of_int (let r = (16807 * numeral w) mod 2147483647 in if r = 0 then 2147483647 else r)"
proof -
  let ?x = "numeral w :: u32" and ?M = "2147483647 :: int"
  have s: "sint ?x = numeral w" using sint32_of_int [of "numeral w"] assms by simp
  have g: "1 \<le> sint (good_rand ?x)" "sint (good_rand ?x) \<le> ?M"
    "sint (good_rand ?x) mod ?M = (16807 * numeral w) mod ?M"
    using good_rand_spec [of ?x] s by simp_all
  have "sint (good_rand ?x) = (let r = (16807 * numeral w) mod ?M in if r = 0 then ?M else r)"
    using g(1,2) unfolding g(3) [symmetric] Let_def
    by (cases "sint (good_rand ?x) = ?M") (auto simp: mod_pos_pos_trivial)
  moreover have "word_of_int (sint (good_rand ?x)) = good_rand ?x" by simp
  ultimately show ?thesis by (simp only:)
qed

lemma good_seq_numeral: "good_seq (numeral k) x = x # good_seq (pred_numeral k) (good_rand x)"
  by (simp add: numeral_eq_Suc)

lemma good_rand_1: "good_rand 1 = 16807"
  using good_rand_numeral [of num.One] by simp

lemma good_seq_1: "good_seq 31 1 = [1, 16807, 282475249, 1622650073, 984943658, 1144108930, 470211272, 101027544, 1457850878,
    1458777923, 2007237709, 823564440, 1115438165, 1784484492, 74243042, 114807987, 1137522503,
    1441282327, 16531729, 823378840, 143542612, 896544303, 1474833169, 1264817709, 1998097157,
    1817129560, 1131570933, 197493099, 1404280278, 893351816, 1505795335]"
  by (simp add: good_seq_numeral good_rand_1 good_rand_numeral)

lemma rotate_3: "rotate 3 (a # b # c # xs) = xs @ [a, b, c]"
  by (simp add: rotate_def numeral_eq_Suc)

lemma rounds_310: "rounds 310 (rotate 3 (good_seq 31 1)) = rotate 3 (tl randtbl)"
  unfolding good_seq_1 by (simp add: randtbl_def next_window_31 rounds_numeral rotate_3)

lemma initial_window: "seeded_window_of 3 1 = rotate 3 (tl randtbl)"
  using rounds_310
  by (simp add: seeded_window_of_def degrees_def seps_def rounds_funpow seeds_good_seq)


lemma table_from_window:
  assumes "rng_inv g" "rand_type g = 3" "rptr g = state g" "window g = rotate 3 w" "length w = 31" "i < 31"
  shows "longs g (state g + int i) = w ! i"
proof -
  have d: "rand_deg g = 31" "rand_sep g = 3"
    using generators_simps(1) [OF inv_position(4) [OF assms(1)]] assms(2)
    by (simp_all add: degrees_def seps_def)
  have f: "fptr g = state g + 3" using assms(1-3) d by (simp add: rng_inv_def)
  let ?j = "(i + 28) mod 31"
  have "(3 + int ?j) mod 31 = int ((3 + (i + 28) mod 31) mod 31)" by (simp only: of_nat_mod of_nat_add of_nat_numeral)
  also have "(3 + (i + 28) mod 31) mod 31 = i" using assms(6) by (simp add: mod_simps)
  finally have "window g ! ?j = longs g (state g + int i)"
    using window_nth [of g ?j] assms(2) d f by simp
  moreover have "rotate 3 w ! ?j = w ! i"
    using assms(5,6) by (simp add: nth_rotate mod_simps)
  ultimately show ?thesis using assms(4) by simp
qed

text \<open>The static initialisers are what their comment says: whatever the state before, after
  \<^verbatim>\<open>initstate(1, randtbl, 128)\<close> every word of \<^verbatim>\<open>randtbl\<close> (its header word included), every pointer
  and every parameter of the package has its initial value, and no other memory has changed but
  the header word of the previous state.\<close>
theorem initial_state_as_seeded:
  "snd (initstate 1 at 128 g) = rng_init at (longs (save_pos g))"
proof -
  let ?a = "armed at 128 g"
  let ?g = "srandom 1 ?a"
  note sp = srandom_spec [OF armed_ready [of at 128 g], where x = 1]
  have par: "rand_type ?a = 3" "rand_deg ?a = 31" "rand_sep ?a = 3" by (simp_all add: pick_type_def)
  have fl: "state ?g = at + 1" "rand_type ?g = 3" "rand_deg ?g = 31" "rand_sep ?g = 3" "rptr ?g = at + 1"
    using sp(3-7) par by simp_all
  have pt: "end_ptr ?g = at + 32" "fptr ?g = at + 4" using sp(1) fl by (simp_all add: rng_inv_def)
  have win: "window ?g = rotate 3 (tl randtbl)" using sp(2) par initial_window by simp
  have tab: "longs ?g (at + 1 + int i) = tl randtbl ! i" if "i < 31" for i
    using table_from_window [OF sp(1) _ _ win _ that] fl by (simp add: randtbl_def)
  have "longs (save_pos ?g) k = longs (rng_init at (longs (save_pos g))) k" for k
  proof -
    consider "k = at" | "at < k" "k < at + 32" | "k < at \<or> at + 32 \<le> k" by linarith
    then show ?thesis
    proof cases
      case 1
      then show ?thesis using fl by (simp add: save_pos_def rng_init_def randtbl_def MAX_TYPES_def)
    next
      case 2
      define i where "i = nat (k - at - 1)"
      have i: "i < 31" "k = at + 1 + int i" "nat (k - at) = Suc i" using 2 by (auto simp: i_def)
      have "longs (save_pos ?g) k = tl randtbl ! i" using tab [OF i(1)] 2 fl i(2) by simp
      also have "\<dots> = randtbl ! Suc i" using i(1) by (simp add: randtbl_def nth_tl)
      finally show ?thesis using 2 i(3) by (simp add: rng_init_def)
    next
      case 3
      then have "k \<notin> table_of ?a" using par by (auto simp: table_of_def)
      then show ?thesis using 3 sp(8) fl by (auto simp: rng_init_def)
    qed
  qed
  then have "longs (save_pos ?g) = longs (rng_init at (longs (save_pos g)))" by (rule ext)
  moreover have "snd (initstate 1 at 128 g) = save_pos ?g" by (simp add: initstate_eq)
  ultimately show ?thesis using fl pt by (intro rng.equality) (simp_all add: rng_init_def)
qed

lemma rng_init_inv: "rng_inv (rng_init at m)"
  by (simp add: rng_inv_def rng_init_def generators_def)

lemma rng_init_fields [simp]:
  "state (rng_init at m) = at + 1" "rand_type (rng_init at m) = 3" "rand_deg (rng_init at m) = 31"
  "rand_sep (rng_init at m) = 3" "rptr (rng_init at m) = at + 1" "longs (rng_init at m) at = 3"
  by (simp_all add: rng_init_def randtbl_def)

lemma rng_init_longs: "at \<le> k \<Longrightarrow> k < at + 32 \<Longrightarrow> longs (rng_init at m) k = randtbl ! nat (k - at)"
  by (simp add: rng_init_def)

lemma setstate_same_array:
  fixes at m k
  defines "g \<equiv> (discard ^^ k) (rng_init at m)"
  shows "rptr (snd (setstate at g)) = at + 1" "fptr (snd (setstate at g)) = at + 4"
    and "longs (snd (setstate at g)) = (longs g)(at := word_of_int (5 * (int k mod 31) + 3))"
    and "rptr g = at + 1 + int k mod 31" "rand_type (snd (setstate at g)) = 3"
proof -
  have st: "state g = at + 1" "rand_type g = 3"
    using discards(2,3) [OF rng_init_inv, of k at m] by (simp_all add: g_def)
  have "longs g at = 3"
    using discards_frame [OF rng_init_inv, of at at m k] by (simp add: g_def table_of_def)
  then have w: "longs g at = word_of_int (5 * 0 + 3)" by simp
  note s = setstate_eq [OF w, of 31 3]
  show "rptr (snd (setstate at g)) = at + 1" "fptr (snd (setstate at g)) = at + 4"
    "rand_type (snd (setstate at g)) = 3"
    using s(4,8,9) by (simp_all add: generators_def)
  show r: "rptr g = at + 1 + int k mod 31"
    using discards_rptr [OF rng_init_inv, of at m k] by (simp add: g_def)
  show "longs (snd (setstate at g)) = (longs g)(at := word_of_int (5 * (int k mod 31) + 3))"
    using s(2) st r by (simp add: generators_def save_pos_def MAX_TYPES_def)
qed

text \<open>Calling \<^verbatim>\<open>setstate\<close> with the array that is already in use is not harmless, although its comment
  says it is: the header word is decoded before the current position is saved into it, so after
  \<^verbatim>\<open>k\<close> numbers the rear pointer jumps back from \<^verbatim>\<open>k mod 31\<close> to the start of the table, and already after
  the first number the next one differs from what it would have been.\<close>
theorem setstate_same_array_rewinds:
  "rptr ((discard ^^ k) (rng_init at m)) = at + 1 + int k mod 31
   \<and> rptr (snd (setstate at ((discard ^^ k) (rng_init at m)))) = at + 1
   \<and> fst (random_c (snd (setstate at (discard (rng_init at m))))) \<noteq> fst (random_c (discard (rng_init at m)))"
proof -
  let ?g = "discard (rng_init at m)"
  note s = setstate_same_array [where k = 1 and at = at and m = m, simplified]
  have l: "longs ?g = (longs (rng_init at m))(at + 4 := 0x991539b1 + 0x3e01511e)"
    and f: "fptr ?g = at + 5" "rptr ?g = at + 2" "rand_type ?g = 3"
    by (simp_all add: random_c_def Let_def rng_init_def randtbl_def add.commute)
  have "fst (random_c ?g) = signed_drop_bit 1 (0x4e508aaa + 0x16a5bce3) AND 0x7fffffff"
    by (subst random_c_def) (simp add: Let_def f l rng_init_longs randtbl_def)
  moreover have "fst (random_c (snd (setstate at ?g)))
      = signed_drop_bit 1 (0x991539b1 + 0x3e01511e + 0x991539b1) AND 0x7fffffff"
    by (subst random_c_def) (simp add: Let_def s l rng_init_longs randtbl_def)
  moreover have "drop_bit 1 (0x4e508aaa + 0x16a5bce3 :: u32)
      \<noteq> drop_bit 1 (0x991539b1 + 0x3e01511e + 0x991539b1 :: u32)"
    by (simp add: drop_bit_Suc)
  ultimately have "fst (random_c (snd (setstate at ?g))) \<noteq> fst (random_c ?g)"
    by (simp only: shift_mask)
  then show ?thesis using setstate_same_array(1,4) by blast
qed

section \<open>Witnesses\<close>

theorem random_refines_recurrence_witness:
  "rng_inv (snd (random_c (rng_init 0 (\<lambda>_. 0))))
   \<and> unat (fst (random_c (rng_init 0 (\<lambda>_. 0)))) < 2 ^ 31"
  using random_refines_recurrence [OF rng_init_inv [of 0 "\<lambda>_. 0"]] by blast

theorem initstate_selects_and_seeds_witness:
  "window (snd (initstate 42 100 16 (rng_init 0 (\<lambda>_. 0)))) = [42]"
proof -
  have "best_type 16 = 0" using pick_type_best [of 16 "rng_init 0 (\<lambda>_. 0)"] by (simp add: pick_type_def)
  then show ?thesis
    using initstate_selects_and_seeds [of 16 42 100 "rng_init 0 (\<lambda>_. 0)"]
    by (simp add: case_prod_beta Let_def seeded_window_of_def)
qed

theorem setstate_continues_sequence_witness:
  "case initstate 7 100 64 (rng_init 0 (\<lambda>_. 0)) of (None, _) \<Rightarrow> False
     | (Some old, g1) \<Rightarrow> random_seq 5 (snd (setstate old ((discard ^^ 3) g1)))
                         = random_seq 5 (rng_init 0 (\<lambda>_. 0))"
  by (rule setstate_continues_sequence [OF rng_init_inv]) (auto simp: array_of_def)

end
