(* ===== verification/Phys_Mem.thy ===== *)
theory Phys_Mem
  imports Prelude "HOL-Library.Monad_Syntax"
begin

text \<open>
  The physical page allocator of the x86 kernel: the first part of
  \<^verbatim>\<open>src/trunk/src/x86_mem.c\<close> with the constants of \<^verbatim>\<open>x86_mem.h\<close> and \<^verbatim>\<open>x86_kernel.h\<close>.

  Physical memory is a function from the addresses of 32 bit longs; the kernel reaches it through
  the window that starts at \<^verbatim>\<open>KERNEL_VIRT_BASE\<close>, so an access through a pointer \<open>v\<close> goes to the
  physical address \<open>PHYS_MEM v\<close>.  The global variables are the fields of \<open>mm\<close>, together with
  the register \<^verbatim>\<open>cr3\<close> and the interrupt flag that \<^verbatim>\<open>save_flags\<close>, \<^verbatim>\<open>cli\<close> and
  \<^verbatim>\<open>restore_flags\<close> work on.  The result \<open>None\<close> stands for the end of the kernel: a fired
  \<^verbatim>\<open>assert\<close>, \<^verbatim>\<open>abort\<close>, or an access outside the array \<^verbatim>\<open>mem_map\<close>.
\<close>

section \<open>Constants\<close>

definition PAGE_SIZE :: u32 where "PAGE_SIZE = 4096"
definition PAGE_MASK :: u32 where "PAGE_MASK = 0xfffff000"
definition PAGE_TAB_MASK :: u32 where "PAGE_TAB_MASK = 0x003ff000"
definition PTRS_PER_PAGE :: nat where "PTRS_PER_PAGE = 1024"

definition PAGE_PRESENT :: u32 where "PAGE_PRESENT = 0x001"
definition PAGE_RW :: u32 where "PAGE_RW = 0x002"
definition PAGE_USER :: u32 where "PAGE_USER = 0x004"
definition PAGE_ACCESSED :: u32 where "PAGE_ACCESSED = 0x020"
definition PAGE_COW :: u32 where "PAGE_COW = 0x200"

definition PAGE_SHARED :: u32 where
  "PAGE_SHARED = (PAGE_PRESENT OR PAGE_RW OR PAGE_USER OR PAGE_ACCESSED)"

definition PAGE_TABLE :: u32 where
  "PAGE_TABLE = (PAGE_PRESENT OR PAGE_RW OR PAGE_USER OR PAGE_ACCESSED)"

definition MAP_NR :: "u32 \<Rightarrow> nat" where
  "MAP_NR adr = unat (drop_bit 12 adr)"

definition MAP_PAGE_RESERVED :: u16 where
  "MAP_PAGE_RESERVED = 0x8000"

definition ONE_MEGABYTE :: u32 where "ONE_MEGABYTE = 0x100000"
definition KERNEL_PHYS_BASE :: u32 where "KERNEL_PHYS_BASE = 0x100000"
definition PAGE_OFFSET :: u32 where "PAGE_OFFSET = 0xC0000000"
definition KERNEL_VIRT_PDINDX :: nat where "KERNEL_VIRT_PDINDX = 0xC00 div 4"
definition KERNEL_DATA :: u32 where "KERNEL_DATA = KERNEL_PHYS_BASE + 2 * ONE_MEGABYTE"
definition KERNEL_DATA_SPACE :: u32 where "KERNEL_DATA_SPACE = 10 * ONE_MEGABYTE"

definition KERNEL_MAPPED_SPACE :: u32 where
  "KERNEL_MAPPED_SPACE =
     (KERNEL_PHYS_BASE + (KERNEL_DATA_SPACE + 2 * ONE_MEGABYTE) + 4 * ONE_MEGABYTE - 1)
       AND NOT (4 * ONE_MEGABYTE)"

definition BOOT_PAGE_DIR :: u32 where "BOOT_PAGE_DIR = 0x10000"

definition VIRT_MEM :: "u32 \<Rightarrow> u32" where "VIRT_MEM x = x + PAGE_OFFSET"
definition PHYS_MEM :: "u32 \<Rightarrow> u32" where "PHYS_MEM x = x - PAGE_OFFSET"

section \<open>State\<close>

record mm =
  mem :: "u32 \<Rightarrow> u32"
  mem_base :: u32
  mem_end :: u32
  mem_size :: u32
  sbrk_size :: u32
  mem_map :: "u16 list"
  free_page_count :: u32
  free_page_list :: u32
  kernel_pdir :: u32
  cr3 :: u32
  int_flag :: bool

text \<open>Reading and writing a long through a kernel pointer, an element of \<^verbatim>\<open>mem_map\<close>.\<close>

definition rd :: "mm \<Rightarrow> u32 \<Rightarrow> u32" where
  "rd s v = mem s (PHYS_MEM v)"

definition wr :: "u32 \<Rightarrow> u32 \<Rightarrow> mm \<Rightarrow> mm" where
  "wr v x s = s\<lparr>mem := (mem s)(PHYS_MEM v := x)\<rparr>"

definition map_at :: "mm \<Rightarrow> nat \<Rightarrow> u16 option" where
  "map_at s i = (if i < length (mem_map s) then Some (mem_map s ! i) else None)"

definition map_set :: "nat \<Rightarrow> u16 \<Rightarrow> mm \<Rightarrow> mm option" where
  "map_set i n s = (if i < length (mem_map s) then Some (s\<lparr>mem_map := (mem_map s)[i := n]\<rparr>) else None)"

section \<open>Operations\<close>

definition get_page :: "mm \<Rightarrow> (u32 \<times> mm) option" where
  "get_page s =
     (let tmp = free_page_list s; flags = int_flag s; s = s\<lparr>int_flag := False\<rparr>
      in if free_page_count s = 0 \<or> free_page_list s = 0 then Some (0, s)
      else let s = s\<lparr>free_page_list := rd s (VIRT_MEM tmp)\<rparr>
           in if free_page_list s AND NOT PAGE_MASK \<noteq> 0 then None
           else do {
             n \<leftarrow> map_at s (MAP_NR tmp);
             if n \<noteq> 0 then None
             else do {
               s \<leftarrow> map_set (MAP_NR tmp) 1 s;
               Some (tmp, s\<lparr>int_flag := flags\<rparr>)
             }
           })"

definition free_page :: "u32 \<Rightarrow> mm \<Rightarrow> mm option" where
  "free_page adr s =
     (let flags = int_flag s; s = s\<lparr>int_flag := False\<rparr>
      in do {
        nr \<leftarrow> map_at s (MAP_NR adr);
        if \<not> adr < mem_end s \<or> nr = MAP_PAGE_RESERVED \<or> \<not> nr > 0 then None
        else do {
          s \<leftarrow> map_set (MAP_NR adr) (nr - 1) s;
          let s = (if nr - 1 = 0
                   then (wr (VIRT_MEM adr) (free_page_list s) s)\<lparr>free_page_list := adr\<rparr> else s);
          Some (s\<lparr>int_flag := flags\<rparr>)
        }
      })"

text \<open>\<^verbatim>\<open>memset(VIRT_MEM(p), 0, PAGE_SIZE)\<close>: the 1024 longs of the page become zero.\<close>

definition page_cells :: "u32 \<Rightarrow> u32 set" where
  "page_cells p = (\<lambda>j. p + 4 * of_nat j) ` {..<PTRS_PER_PAGE}"

definition clear_page :: "u32 \<Rightarrow> mm \<Rightarrow> mm" where
  "clear_page p s = s\<lparr>mem := fold (\<lambda>j m. m(PHYS_MEM (VIRT_MEM p + 4 * of_nat j) := 0)) [0..<PTRS_PER_PAGE] (mem s)\<rparr>"

definition kmalloc_page :: "mm \<Rightarrow> (u32 \<times> mm) option" where
  "kmalloc_page s = do {
     (p, s) \<leftarrow> get_page s;
     if p = 0 then None else Some (p, clear_page p s)
   }"

section \<open>Addresses\<close>

lemma PHYS_VIRT [simp]: "PHYS_MEM (VIRT_MEM x) = x" "PHYS_MEM (VIRT_MEM x + y) = x + y"
  by (simp_all add: PHYS_MEM_def VIRT_MEM_def)

definition page_aligned :: "u32 \<Rightarrow> bool" where
  "page_aligned p \<longleftrightarrow> p AND NOT PAGE_MASK = 0"

lemma not_PAGE_MASK: "NOT PAGE_MASK = mask 12"
  by (simp add: PAGE_MASK_def mask_eq_exp_minus_1)

lemma page_aligned_iff: "page_aligned p \<longleftrightarrow> unat p mod 4096 = 0"
proof -
  have "p AND NOT PAGE_MASK = take_bit 12 p"
    by (simp only: not_PAGE_MASK take_bit_eq_mask)
  moreover have "take_bit 12 p = 0 \<longleftrightarrow> take_bit 12 (unat p) = 0"
    by (metis unat_0 unsigned_take_bit_eq unsigned_0 word_unat_eq_iff)
  ultimately show ?thesis by (simp add: page_aligned_def take_bit_eq_mod)
qed

lemma MAP_NR_div: "MAP_NR adr = unat adr div 4096"
  by (simp add: MAP_NR_def unat_drop_bit_word)

lemma page_alignedE:
  assumes "page_aligned p"
  obtains k where "unat p = 4096 * k" "k < 1048576"
proof -
  define k where "k = unat p div 4096"
  have "unat p = 4096 * k" using assms by (simp add: k_def page_aligned_iff mod_eq_0_iff_dvd)
  then show ?thesis using that unat_lt2p32 [of p] by simp
qed

lemma unat_take_bit_12: "unat (take_bit 12 (x :: u32)) = unat x mod 4096"
  by (simp only: unsigned_take_bit_eq) (simp add: take_bit_eq_mod)

lemma unat_frame: "unat (x AND PAGE_MASK) = unat x div 4096 * 4096"
proof -
  have "x AND PAGE_MASK = x AND NOT (mask 12)" by (metis bit.double_compl not_PAGE_MASK)
  also have "\<dots> = x AND NOT (take_bit 12 x)" by (rule bit_eqI) (auto simp: bit_simps)
  also have "NOT x AND take_bit 12 x = 0" by (rule bit_eqI) (auto simp: bit_simps)
  then have "x AND NOT (take_bit 12 x) = x - take_bit 12 x"
    by (simp only: disjunctive_diff_eq_and_not)
  finally have x: "x AND PAGE_MASK = x - take_bit 12 x" .
  have le: "take_bit 12 x \<le> x"
    by (simp only: word_le_nat_alt unat_take_bit_12 mod_less_eq_dividend)
  have "unat (x - take_bit 12 x) = unat x - unat x mod 4096"
    by (simp only: unat_sub [OF le] unat_take_bit_12)
  also have "\<dots> = unat x div 4096 * 4096" by (simp only: minus_mod_eq_div_mult)
  finally show ?thesis by (simp only: x)
qed

lemma frame_aligned [simp]: "page_aligned (x AND PAGE_MASK)"
  by (simp add: page_aligned_iff unat_frame)

lemma frame_of_aligned: "page_aligned p \<Longrightarrow> p AND PAGE_MASK = p"
  by (auto simp: word_unat_eq_iff unat_frame elim: page_alignedE)

text \<open>The longs of a page: \<open>p + 4 * j\<close> identifies the page and the index.\<close>

lemma unat_cell:
  assumes "page_aligned p" "j < 1024"
  shows "unat (p + 4 * of_nat j) = unat p + 4 * j"
proof -
  have j: "unat (4 * of_nat j :: u32) = 4 * j"
    using assms(2) by (simp add: unat_word_ariths unat_of_nat take_bit_eq_mod)
  obtain k where "unat p = 4096 * k" "k < 1048576" using assms(1) by (rule page_alignedE)
  then have "unat p + 4 * j < 4294967296" using assms(2) by simp
  then show ?thesis by (simp add: unat_add_32 j)
qed

lemma cell_inject:
  assumes "page_aligned p" "page_aligned q" "i < 1024" "j < 1024"
  shows "p + 4 * of_nat i = q + 4 * of_nat j \<longleftrightarrow> p = q \<and> i = j"
proof
  assume "p + 4 * of_nat i = q + 4 * of_nat j"
  then have e: "unat p + 4 * i = unat q + 4 * j"
    using unat_cell [OF assms(1,3)] unat_cell [OF assms(2,4)] by simp
  obtain k where k: "unat p = 4096 * k" using assms(1) by (rule page_alignedE)
  obtain l where l: "unat q = 4096 * l" using assms(2) by (rule page_alignedE)
  have "(4096 * k + 4 * i) div 4096 = (4096 * l + 4 * j) div 4096" using e k l by simp
  then have "k = l" using assms(3,4) by (simp add: div_mult_self4)
  then have "unat p = unat q" "i = j" using e k l by simp_all
  then show "p = q \<and> i = j" by (simp add: word_unat_eq_iff)
qed simp

lemma page_cells_disjoint:
  "page_aligned p \<Longrightarrow> page_aligned q \<Longrightarrow> p \<noteq> q \<Longrightarrow> page_cells p \<inter> page_cells q = {}"
  using cell_inject by (fastforce simp: page_cells_def PTRS_PER_PAGE_def)

lemma cell_in_page [simp, intro]: "j < 1024 \<Longrightarrow> p + 4 * of_nat j \<in> page_cells p"
  by (auto simp: page_cells_def PTRS_PER_PAGE_def)

lemma page_start_in_page [simp, intro]: "p \<in> page_cells p"
  using cell_in_page [of 0 p] by simp

lemma cell_of_page: "a \<in> page_cells p \<Longrightarrow> \<exists>j < 1024. a = p + 4 * of_nat j"
  by (auto simp: page_cells_def PTRS_PER_PAGE_def)

lemma fold_clear:
  "fold (\<lambda>j m. m(f j := 0)) js m a = (if a \<in> f ` set js then 0 else m a)"
  by (induction js arbitrary: m) auto

lemma mem_clear_page: "mem (clear_page p s) a = (if a \<in> page_cells p then 0 else mem s a)"
  by (simp add: clear_page_def fold_clear page_cells_def atLeast0LessThan del: fold_clear)
     (simp add: fold_clear atLeast0LessThan)

lemma clear_page_fields [simp]:
  "mem_end (clear_page p s) = mem_end s" "mem_map (clear_page p s) = mem_map s"
  "free_page_list (clear_page p s) = free_page_list s" "free_page_count (clear_page p s) = free_page_count s"
  "cr3 (clear_page p s) = cr3 s" "int_flag (clear_page p s) = int_flag s"
  by (simp_all add: clear_page_def)

section \<open>The pool of free pages\<close>

text \<open>The pages on the list that starts at \<open>p\<close>, linked through the first long of each.\<close>

fun linked :: "(u32 \<Rightarrow> u32) \<Rightarrow> u32 \<Rightarrow> u32 list \<Rightarrow> bool" where
  "linked m p [] \<longleftrightarrow> p = 0"
| "linked m p (q # qs) \<longleftrightarrow> p = q \<and> p \<noteq> 0 \<and> linked m (m p) qs"

lemma linked_cong: "(\<And>q. q \<in> set qs \<Longrightarrow> m' q = m q) \<Longrightarrow> linked m' p qs = linked m p qs"
  by (induction qs arbitrary: p) auto

text \<open>The free pages are exactly the unused ones of \<^verbatim>\<open>mem_map\<close>.\<close>

definition page_of :: "nat \<Rightarrow> u32" where
  "page_of i = of_nat (4096 * i)"

definition pool :: "mm \<Rightarrow> u32 list \<Rightarrow> bool" where
  "pool s ps \<longleftrightarrow> linked (mem s) (free_page_list s) ps \<and> distinct ps
     \<and> (\<forall>p \<in> set ps. page_aligned p \<and> MAP_NR p < length (mem_map s))
     \<and> (\<forall>i < length (mem_map s). mem_map s ! i = 0 \<longleftrightarrow> page_of i \<in> set ps)
     \<and> length (mem_map s) \<le> 2 ^ 20
     \<and> (\<forall>i < length (mem_map s). page_of i < mem_end s)
     \<and> free_page_count s \<noteq> 0"

lemma unat_page_of: "i < 1048576 \<Longrightarrow> unat (page_of i) = 4096 * i"
  by (simp add: page_of_def unat_word_ariths unat_of_nat take_bit_eq_mod)

lemma page_of_simps [simp]:
  assumes "i < 1048576"
  shows "page_aligned (page_of i)" "MAP_NR (page_of i) = i"
  using unat_page_of [OF assms] by (simp_all add: page_aligned_iff MAP_NR_div)

lemma page_of_MAP_NR: "page_aligned p \<Longrightarrow> page_of (MAP_NR p) = p"
proof -
  assume "page_aligned p"
  then obtain k where k: "unat p = 4096 * k" "k < 1048576" by (rule page_alignedE)
  then have "unat (page_of (MAP_NR p)) = unat p" by (simp add: MAP_NR_div unat_page_of)
  then show ?thesis by (simp add: word_unat_eq_iff)
qed

lemma page_of_inject: "i < 1048576 \<Longrightarrow> j < 1048576 \<Longrightarrow> page_of i = page_of j \<longleftrightarrow> i = j"
  by (metis page_of_simps(2))

lemma linked_next: "linked m p ps \<Longrightarrow> p = (case ps of [] \<Rightarrow> 0 | q # _ \<Rightarrow> q)"
  by (cases ps) auto

lemma poolD:
  assumes "pool s ps"
  shows "linked (mem s) (free_page_list s) ps" "distinct ps" "free_page_count s \<noteq> 0"
    and "\<And>p. p \<in> set ps \<Longrightarrow> page_aligned p" "\<And>p. p \<in> set ps \<Longrightarrow> MAP_NR p < length (mem_map s)"
    and "\<And>i. i < length (mem_map s) \<Longrightarrow> mem_map s ! i = 0 \<longleftrightarrow> page_of i \<in> set ps"
    and "\<And>i. i < length (mem_map s) \<Longrightarrow> i < 1048576 \<and> page_of i < mem_end s"
  using assms by (auto simp: pool_def)

lemma pool_map_0: "pool s ps \<Longrightarrow> p \<in> set ps \<Longrightarrow> mem_map s ! MAP_NR p = 0"
  using poolD(4-6) page_of_MAP_NR by simp

lemma linked_nonzero: "linked m p ps \<Longrightarrow> 0 \<notin> set ps"
  by (induction ps arbitrary: p) auto

text \<open>The successful calls.\<close>

lemma get_page_pop:
  assumes "pool s (p # ps)"
  shows "get_page s = Some (p, s\<lparr>free_page_list := mem s p, mem_map := (mem_map s)[MAP_NR p := 1]\<rparr>)"
proof -
  note d = poolD [OF assms]
  have p: "free_page_list s = p" "p \<noteq> 0" "linked (mem s) (mem s p) ps" using d(1) by auto
  have "page_aligned (mem s p)"
    using linked_next [OF p(3)] d(4) by (auto simp: page_aligned_def split: list.splits)
  then show ?thesis
    using p d(3) d(5) [of p] pool_map_0 [OF assms, of p]
    by (simp add: get_page_def Let_def rd_def map_at_def map_set_def page_aligned_def)
qed

lemma pool_pop:
  assumes "pool s (p # ps)"
  shows "pool (s\<lparr>free_page_list := mem s p, mem_map := (mem_map s)[MAP_NR p := 1]\<rparr>) ps"
proof -
  note d = poolD [OF assms]
  have "(mem_map s)[MAP_NR p := 1] ! i = 0 \<longleftrightarrow> page_of i \<in> set ps" if "i < length (mem_map s)" for i
  proof (cases "i = MAP_NR p")
    case True
    then show ?thesis using that d(2) d(4) [of p] by (simp add: page_of_MAP_NR)
  next
    case False
    then have "page_of i \<noteq> p" using that d(7) by auto
    then show ?thesis using False that d(6) [of i] by simp
  qed
  then show ?thesis using assms by (auto simp: pool_def)
qed

lemma get_page_empty: "pool s [] \<Longrightarrow> get_page s = Some (0, s\<lparr>int_flag := False\<rparr>)"
  by (simp add: pool_def get_page_def Let_def)

lemma free_page_shared:
  assumes "pool s ps" "adr = page_of i" "i < length (mem_map s)"
    and "mem_map s ! i = n" "n \<noteq> 0" "n \<noteq> 1" "n \<noteq> MAP_PAGE_RESERVED"
  shows "free_page adr s = Some (s\<lparr>mem_map := (mem_map s)[i := n - 1]\<rparr>)"
    and "pool (s\<lparr>mem_map := (mem_map s)[i := n - 1]\<rparr>) ps"
proof -
  note d = poolD(6,7) [OF assms(1)]
  have n: "0 < n" using assms(5) by (simp add: word_gt_0)
  show "free_page adr s = Some (s\<lparr>mem_map := (mem_map s)[i := n - 1]\<rparr>)"
    using assms d(2) [OF assms(3)] n by (simp add: free_page_def Let_def map_at_def map_set_def)
  have "(mem_map s)[i := n - 1] ! j = 0 \<longleftrightarrow> page_of j \<in> set ps" if "j < length (mem_map s)" for j
    using d(1) [OF that] d(1) [OF assms(3)] assms(3-6) that by (cases "j = i") auto
  then show "pool (s\<lparr>mem_map := (mem_map s)[i := n - 1]\<rparr>) ps"
    using assms(1) by (auto simp: pool_def)
qed

lemma free_page_last:
  assumes "pool s ps" "adr = page_of i" "i < length (mem_map s)" "mem_map s ! i = 1" "adr \<noteq> 0"
  shows "free_page adr s =
      Some (s\<lparr>mem_map := (mem_map s)[i := 0], mem := (mem s)(adr := free_page_list s), free_page_list := adr\<rparr>)"
    and "pool (s\<lparr>mem_map := (mem_map s)[i := 0], mem := (mem s)(adr := free_page_list s), free_page_list := adr\<rparr>)
           (adr # ps)"
proof -
  note d = poolD [OF assms(1)]
  show "free_page adr s =
      Some (s\<lparr>mem_map := (mem_map s)[i := 0], mem := (mem s)(adr := free_page_list s), free_page_list := adr\<rparr>)"
    using assms d(7) [OF assms(3)]
    by (simp add: free_page_def Let_def map_at_def map_set_def MAP_PAGE_RESERVED_def wr_def)
  have new: "adr \<notin> set ps" using d(6) [OF assms(3)] assms(2,4) by simp
  have "linked ((mem s)(adr := free_page_list s)) (free_page_list s) ps"
    using d(1) new by (subst linked_cong [where m = "mem s"]) auto
  moreover have "(mem_map s)[i := 0] ! j = 0 \<longleftrightarrow> page_of j \<in> set (adr # ps)" if "j < length (mem_map s)" for j
    using d(6) [OF that] d(7) [OF that] d(7) [OF assms(3)] assms(2,3) that
    by (cases "j = i") (auto simp: page_of_inject)
  ultimately show "pool (s\<lparr>mem_map := (mem_map s)[i := 0], mem := (mem s)(adr := free_page_list s), free_page_list := adr\<rparr>)
           (adr # ps)"
    using assms(1-3,5) d(7) [OF assms(3)] new by (auto simp: pool_def)
qed

lemma free_page_cases:
  assumes "pool s ps" "page_aligned adr" "adr \<noteq> 0" "free_page adr s = Some s'"
  obtains (shared) n where "mem_map s ! MAP_NR adr = n" "n \<noteq> 0" "n \<noteq> MAP_PAGE_RESERVED" "MAP_NR adr < length (mem_map s)"
      "mem_map s' = (mem_map s)[MAP_NR adr := n - 1]" "pool s' ps"
    | (last) "MAP_NR adr < length (mem_map s)" "mem_map s ! MAP_NR adr = 1"
      "mem_map s' = (mem_map s)[MAP_NR adr := 0]" "pool s' (adr # ps)"
proof -
  let ?i = "MAP_NR adr"
  have i: "?i < length (mem_map s)" "mem_map s ! ?i \<noteq> MAP_PAGE_RESERVED" "mem_map s ! ?i \<noteq> 0"
    using assms(4) by (auto simp: free_page_def Let_def map_at_def word_gt_0 split: if_splits)
  have adr: "adr = page_of ?i" using assms(2) by (simp add: page_of_MAP_NR)
  show ?thesis
  proof (cases "mem_map s ! ?i = 1")
    case True
    then show ?thesis using last free_page_last [OF assms(1) adr i(1) True assms(3)] assms(4) i(1) by auto
  next
    case False
    then show ?thesis
      using shared free_page_shared [OF assms(1) adr i(1) refl i(3) False i(2)] assms(4) i by auto
  qed
qed

section \<open>Use of the allocator\<close>

text \<open>An interface: calls of an allocator take the pages of its pool one after the other.\<close>

fun allocs :: "('s \<Rightarrow> (u32 \<times> 's) option) \<Rightarrow> nat \<Rightarrow> 's \<Rightarrow> (u32 list \<times> 's) option" where
  "allocs alloc 0 s = Some ([], s)"
| "allocs alloc (Suc n) s = do { (p, s) \<leftarrow> alloc s; (ps, s) \<leftarrow> allocs alloc n s; Some (p # ps, s) }"

locale page_source =
  fixes alloc :: "'s \<Rightarrow> (u32 \<times> 's) option" and avail :: "'s \<Rightarrow> u32 list \<Rightarrow> bool"
  assumes alloc_avail: "avail s (p # ps) \<Longrightarrow> \<exists>s'. alloc s = Some (p, s') \<and> avail s' ps"
    and avail_distinct: "avail s ps \<Longrightarrow> distinct ps"
    and avail_nonzero: "avail s ps \<Longrightarrow> 0 \<notin> set ps"
begin

lemma allocs_take:
  "avail s (ps @ qs) \<Longrightarrow> \<exists>s'. allocs alloc (length ps) s = Some (ps, s') \<and> avail s' qs"
proof (induction ps arbitrary: s)
  case (Cons p ps)
  then obtain s1 where s1: "alloc s = Some (p, s1)" "avail s1 (ps @ qs)"
    using alloc_avail [of s p "ps @ qs"] by auto
  then obtain s' where "allocs alloc (length ps) s1 = Some (ps, s')" "avail s' qs"
    using Cons.IH by blast
  then show ?case using s1 by simp
qed simp

lemma allocs_distinct:
  assumes "avail s ps" "n \<le> length ps"
  shows "\<exists>s'. allocs alloc n s = Some (take n ps, s') \<and> avail s' (drop n ps)
     \<and> distinct (take n ps) \<and> 0 \<notin> set (take n ps) \<and> set (take n ps) \<inter> set (drop n ps) = {}"
proof -
  have "avail s (take n ps @ drop n ps)" using assms(1) by simp
  then obtain s' where "allocs alloc (length (take n ps)) s = Some (take n ps, s')" "avail s' (drop n ps)"
    using allocs_take by blast
  moreover have "distinct (take n ps @ drop n ps)" using avail_distinct [OF assms(1)] by simp
  then have "distinct (take n ps)" "set (take n ps) \<inter> set (drop n ps) = {}"
    unfolding distinct_append by simp_all
  ultimately show ?thesis
    using assms(2) avail_nonzero [OF assms(1)] by (auto dest: in_set_takeD)
qed

end

lemma pool_nonzero: "pool s ps \<Longrightarrow> 0 \<notin> set ps"
  using linked_nonzero poolD(1) by blast

lemma pool_clear:
  assumes "pool s ps" "page_aligned p" "p \<notin> set ps"
  shows "pool (clear_page p s) ps"
proof -
  have "q \<notin> page_cells p" if "q \<in> set ps" for q
    using page_cells_disjoint [OF assms(2) poolD(4) [OF assms(1) that]] assms(3) that by auto
  then have "linked (mem (clear_page p s)) (free_page_list s) ps"
    using poolD(1) [OF assms(1)] by (subst linked_cong [where m = "mem s"]) (auto simp: mem_clear_page)
  then show ?thesis using assms(1) by (simp add: pool_def)
qed

lemma kmalloc_page_pop:
  assumes "pool s (p # ps)"
  shows "kmalloc_page s =
      Some (p, clear_page p (s\<lparr>free_page_list := mem s p, mem_map := (mem_map s)[MAP_NR p := 1]\<rparr>))"
    and "pool (clear_page p (s\<lparr>free_page_list := mem s p, mem_map := (mem_map s)[MAP_NR p := 1]\<rparr>)) ps"
  using get_page_pop [OF assms] pool_nonzero [OF assms] poolD(2,4) [OF assms]
  by (auto simp: kmalloc_page_def intro!: pool_clear pool_pop [OF assms])

interpretation frames: page_source get_page pool
  using get_page_pop pool_pop poolD(2) pool_nonzero by unfold_locales blast+

interpretation kframes: page_source kmalloc_page pool
  using kmalloc_page_pop poolD(2) pool_nonzero by unfold_locales blast+

text \<open>The kernel at work on its pages: it allocates, gives back, and writes into pages in use.\<close>

inductive page_step :: "mm \<Rightarrow> mm \<Rightarrow> bool" where
  get: "get_page s = Some (p, s') \<Longrightarrow> page_step s s'"
| free: "free_page adr s = Some s' \<Longrightarrow> page_aligned adr \<Longrightarrow> adr \<noteq> 0 \<Longrightarrow> page_step s s'"
| use: "i < length (mem_map s) \<Longrightarrow> mem_map s ! i \<noteq> 0 \<Longrightarrow> a \<in> page_cells (page_of i) \<Longrightarrow>
    page_step s (s\<lparr>mem := (mem s)(a := x)\<rparr>)"

definition reserved_kept :: "mm \<Rightarrow> mm \<Rightarrow> bool" where
  "reserved_kept s s' \<longleftrightarrow> length (mem_map s') = length (mem_map s)
     \<and> (\<forall>i < length (mem_map s). mem_map s ! i = MAP_PAGE_RESERVED \<longrightarrow> mem_map s' ! i = MAP_PAGE_RESERVED)"

lemma page_step_pool:
  assumes "page_step s s'" "pool s ps"
  shows "(\<exists>ps'. pool s' ps') \<and> reserved_kept s s'"
  using assms(1)
proof cases
  case (get p)
  show ?thesis
  proof (cases ps)
    case Nil
    then have "s' = s\<lparr>int_flag := False\<rparr>" using get get_page_empty assms(2) by simp
    then show ?thesis using assms(2) by (auto simp: pool_def reserved_kept_def)
  next
    case (Cons q qs)
    then have q: "pool s (q # qs)" using assms(2) by simp
    have "s' = s\<lparr>free_page_list := mem s q, mem_map := (mem_map s)[MAP_NR q := 1]\<rparr>"
      using get get_page_pop [OF q] by auto
    then show ?thesis using pool_pop [OF q] pool_map_0 [OF q, of q] poolD(5) [OF q, of q]
      by (auto simp: reserved_kept_def nth_list_update MAP_PAGE_RESERVED_def)
  qed
next
  case (free adr)
  show ?thesis
    by (rule free_page_cases [OF assms(2) free(2,3,1)])
       (auto simp: reserved_kept_def nth_list_update MAP_PAGE_RESERVED_def)
next
  case (use i a x)
  have q: "q \<noteq> a" if "q \<in> set ps" for q
  proof
    assume "q = a"
    then have "q \<in> page_cells q \<inter> page_cells (page_of i)" using use(4) by simp
    then have "q = page_of i"
      using page_cells_disjoint [OF poolD(4) [OF assms(2) that], of "page_of i"] use(2)
        poolD(7) [OF assms(2)] by auto
    then show False using poolD(6) [OF assms(2) use(2)] use(3) that by simp
  qed
  have "linked ((mem s)(a := x)) (free_page_list s) ps"
    using poolD(1) [OF assms(2)] q by (subst linked_cong [where m = "mem s"]) auto
  then show ?thesis using assms(2) use(1) by (auto simp: pool_def reserved_kept_def)
qed

lemma reserved_kept_trans: "reserved_kept s t \<Longrightarrow> reserved_kept t u \<Longrightarrow> reserved_kept s u"
  by (auto simp: reserved_kept_def)

lemma page_steps_pool:
  assumes "page_step\<^sup>*\<^sup>* s s'" "pool s ps"
  shows "(\<exists>ps'. pool s' ps') \<and> reserved_kept s s'"
  using assms(1)
proof induction
  case base
  show ?case using assms(2) by (auto simp: reserved_kept_def)
next
  case (step t u)
  then obtain qs where "pool t qs" by blast
  then show ?case using page_step_pool [OF step(2)] step.IH reserved_kept_trans by blast
qed

text \<open>C13: The allocator is sound over any history.  Starting from a well-formed pool, however the
  kernel interleaves allocations, releases of page aligned addresses other than 0 and writes into
  pages that are in use, the linked list of free pages stays intact and consists of exactly the
  pages with usage count 0, \<^verbatim>\<open>get_page\<close> never stops the kernel, a page that is reserved
  stays reserved, and a page it returns was unused.\<close>
theorem page_pool_reachable:
  assumes "pool s ps" "page_step\<^sup>*\<^sup>* s s'"
  shows "\<exists>ps'. pool s' ps' \<and> reserved_kept s s'
     \<and> (\<exists>p t. get_page s' = Some (p, t) \<and> (ps' = [] \<and> p = 0 \<or> p \<in> set ps' \<and> mem_map s' ! MAP_NR p = 0))"
proof -
  obtain ps' where ps': "pool s' ps'" "reserved_kept s s'" using page_steps_pool [OF assms(2,1)] by blast
  show ?thesis
  proof (cases ps')
    case Nil
    then show ?thesis using ps' get_page_empty [of s'] by blast
  next
    case (Cons p qs)
    then show ?thesis using ps' get_page_pop [of s' p qs] pool_map_0 [of s' ps' p] by auto
  qed
qed

text \<open>\<^verbatim>\<open>n\<close> calls of \<^verbatim>\<open>get_page\<close>, and likewise of \<^verbatim>\<open>kmalloc_page\<close>, on a pool with at
  least \<^verbatim>\<open>n\<close> pages return \<^verbatim>\<open>n\<close> different pages in the order of the list, none of them 0
  and none of them still in the pool.\<close>
theorem get_page_never_twice:
  assumes "pool s ps" "n \<le> length ps"
  shows "\<exists>s' s''. allocs get_page n s = Some (take n ps, s') \<and> pool s' (drop n ps)
     \<and> allocs kmalloc_page n s = Some (take n ps, s'') \<and> pool s'' (drop n ps)
     \<and> distinct (take n ps) \<and> 0 \<notin> set (take n ps) \<and> set (take n ps) \<inter> set (drop n ps) = {}"
  using frames.allocs_distinct [OF assms] kframes.allocs_distinct [OF assms] by blast

text \<open>Giving back the page just obtained restores the state of the memory manager exactly; and when the pool is empty \<^verbatim>\<open>get_page\<close>
  returns 0 and leaves the interrupts disabled, whatever they were before.\<close>
theorem get_page_free_page:
  assumes "pool s ps"
  shows "(case ps of
      p # qs \<Rightarrow> (\<exists>t. get_page s = Some (p, t) \<and> pool t qs \<and> free_page p t = Some s)
    | [] \<Rightarrow> get_page s = Some (0, s\<lparr>int_flag := False\<rparr>))"
proof (cases ps)
  case Nil
  then show ?thesis using get_page_empty assms by simp
next
  case (Cons p qs)
  then have p: "pool s (p # qs)" using assms by simp
  let ?t = "s\<lparr>free_page_list := mem s p, mem_map := (mem_map s)[MAP_NR p := 1]\<rparr>"
  have l: "MAP_NR p < length (mem_map s)" "page_aligned p" "p \<noteq> 0" "free_page_list s = p"
    using poolD(1,4,5) [OF p] by auto
  have "free_page p ?t = Some (?t\<lparr>mem_map := (mem_map ?t)[MAP_NR p := 0],
      mem := (mem ?t)(p := free_page_list ?t), free_page_list := p\<rparr>)"
    using free_page_last(1) [OF pool_pop [OF p], of p "MAP_NR p"] l by (simp add: page_of_MAP_NR)
  also have "?t\<lparr>mem_map := (mem_map ?t)[MAP_NR p := 0],
      mem := (mem ?t)(p := free_page_list ?t), free_page_list := p\<rparr> = s"
    using l pool_map_0 [OF p, of p] by (intro mm.equality) (simp_all add: list_update_same_conv)
  finally show ?thesis using Cons get_page_pop [OF p] pool_pop [OF p] by auto
qed

section \<open>Witnesses\<close>

text \<open>Four frames, the first one reserved, the second one in use.\<close>

definition mm_example :: mm where
  "mm_example = \<lparr>mem = (\<lambda>_. 0)(0x2000 := 0x3000), mem_base = 0, mem_end = 0x4000, mem_size = 0x4000,
     sbrk_size = 0, mem_map = [0x8000, 1, 0, 0], free_page_count = 2, free_page_list = 0x2000,
     kernel_pdir = 0, cr3 = 0, int_flag = True\<rparr>"

lemma pool_example: "pool mm_example [0x2000, 0x3000]"
  by (simp add: pool_def mm_example_def page_aligned_iff MAP_NR_div page_of_def All_less_Suc)

theorem page_pool_reachable_witness:
  "\<exists>ps'. pool (mm_example\<lparr>mem := (mem mm_example)(0x1000 := 7)\<rparr>) ps'"
proof -
  have "page_step mm_example (mm_example\<lparr>mem := (mem mm_example)(0x1000 := 7)\<rparr>)"
    by (rule page_step.use [of 1]) (simp_all add: mm_example_def page_of_def)
  then show ?thesis using page_pool_reachable [OF pool_example] by blast
qed

theorem get_page_never_twice_witness:
  "\<exists>s'. allocs get_page 2 mm_example = Some ([0x2000, 0x3000], s') \<and> pool s' []"
  using get_page_never_twice [OF pool_example, of 2] by auto

theorem get_page_free_page_witness:
  "\<exists>t. get_page mm_example = Some (0x2000, t) \<and> free_page 0x2000 t = Some mm_example"
  using get_page_free_page [OF pool_example] by auto

end
