(* ===== verification/Page_Trees.thy ===== *)
theory Page_Trees
  imports Phys_Mem
begin

text \<open>
  The page trees of the x86 kernel: \<^verbatim>\<open>show_page\<close>, \<^verbatim>\<open>get_table_entry\<close>, \<^verbatim>\<open>set_table_entry\<close>,
  \<^verbatim>\<open>copy_page_tree\<close> and \<^verbatim>\<open>free_page_tree\<close> of \<^verbatim>\<open>src/trunk/src/x86_mem.c\<close>.  A tree is
  the physical address of a page directory; each of its 1024 longs holds the address of a page
  table (or 0) and flags, each of the 1024 longs of a table the address of a page and flags.
\<close>

section \<open>Counting loops\<close>

text \<open>\<^verbatim>\<open>for (k = i; k < i + n; k++) f(k)\<close>, left when the kernel stops.\<close>

fun for_n :: "(nat \<Rightarrow> 's \<Rightarrow> 's option) \<Rightarrow> nat \<Rightarrow> nat \<Rightarrow> 's \<Rightarrow> 's option" where
  "for_n f i 0 s = Some s"
| "for_n f i (Suc n) s = do { s \<leftarrow> f i s; for_n f (Suc i) n s }"

lemma for_n_inv:
  assumes "I i s" "\<And>k s. i \<le> k \<Longrightarrow> k < i + n \<Longrightarrow> I k s \<Longrightarrow> \<exists>s'. f k s = Some s' \<and> I (Suc k) s'"
  shows "\<exists>s'. for_n f i n s = Some s' \<and> I (i + n) s'"
  using assms
proof (induction n arbitrary: i s)
  case (Suc n)
  then obtain s1 where s1: "f i s = Some s1" "I (Suc i) s1" by fastforce
  moreover have "\<exists>s'. for_n f (Suc i) n s1 = Some s' \<and> I (Suc i + n) s'"
    using s1(2) Suc.prems(2) by (intro Suc.IH) auto
  ultimately show ?case by auto
qed simp

section \<open>Operations\<close>

definition dir_index :: "u32 \<Rightarrow> nat" where
  "dir_index v = unat (drop_bit 22 v)"

definition tab_index :: "u32 \<Rightarrow> nat" where
  "tab_index v = unat (drop_bit 12 (v AND PAGE_TAB_MASK))"

definition get_table_entry :: "u32 \<Rightarrow> u32 \<Rightarrow> mm \<Rightarrow> u32" where
  "get_table_entry tree v s =
     (let dir = (if tree = 0 then VIRT_MEM (cr3 s) else VIRT_MEM tree);
          table = VIRT_MEM (rd s (dir + 4 * of_nat (dir_index v)) AND PAGE_MASK)
      in if PHYS_MEM table = 0 then 0 else rd s (table + 4 * of_nat (tab_index v)))"

definition set_table_entry :: "u32 \<Rightarrow> u32 \<Rightarrow> u32 \<Rightarrow> mm \<Rightarrow> mm" where
  "set_table_entry tree v e s =
     (let dir = (if tree = 0 then VIRT_MEM (cr3 s) else VIRT_MEM tree);
          table = VIRT_MEM (rd s (dir + 4 * of_nat (dir_index v)) AND PAGE_MASK)
      in if PHYS_MEM table = 0 then s else wr (table + 4 * of_nat (tab_index v)) e s)"

definition show_page :: "u32 \<Rightarrow> u32 \<Rightarrow> u32 \<Rightarrow> u32 \<Rightarrow> mm \<Rightarrow> mm option" where
  "show_page tree page v flags s =
     (if page AND NOT PAGE_MASK \<noteq> 0 \<or> v AND NOT PAGE_MASK \<noteq> 0 then None
      else let p_dir = (if tree = 0 then VIRT_MEM (cr3 s) else VIRT_MEM tree);
               p_table = VIRT_MEM (rd s (p_dir + 4 * of_nat (dir_index v)) AND PAGE_MASK)
           in do {
             (p_table, s) \<leftarrow>
               (if PHYS_MEM p_table = 0
                then do {
                  (p, s) \<leftarrow> kmalloc_page s;
                  let p_table = VIRT_MEM p;
                  Some (p_table, wr (p_dir + 4 * of_nat (dir_index v)) (PHYS_MEM p_table OR PAGE_TABLE) s)
                }
                else Some (p_table, s));
             Some (wr (p_table + 4 * of_nat (tab_index v)) (page OR flags) s)
           })"

datatype copy_mode = NORMAL | COPY_ON_WRITE

definition copy_entry :: "copy_mode \<Rightarrow> nat \<Rightarrow> u32 \<Rightarrow> u32 \<Rightarrow> nat \<Rightarrow> mm \<Rightarrow> mm option" where
  "copy_entry mode i s_table d_table j s =
     (if rd s (s_table + 4 * of_nat j) = 0 then Some s
      else let s = (if mode = COPY_ON_WRITE
                    then wr (s_table + 4 * of_nat j)
                           ((rd s (s_table + 4 * of_nat j) AND NOT PAGE_RW) OR PAGE_COW) s
                    else s);
               s = wr (d_table + 4 * of_nat j) (rd s (s_table + 4 * of_nat j)) s;
               index = MAP_NR (rd s (s_table + 4 * of_nat j) AND PAGE_MASK)
           in do {
             n \<leftarrow> map_at s index;
             if n \<noteq> MAP_PAGE_RESERVED \<and> i < KERNEL_VIRT_PDINDX then map_set index (n + 1) s else Some s
           })"

definition copy_dir_entry :: "copy_mode \<Rightarrow> u32 \<Rightarrow> u32 \<Rightarrow> nat \<Rightarrow> mm \<Rightarrow> mm option" where
  "copy_dir_entry mode s_dir d_dir i s =
     (let s_table = VIRT_MEM (rd s (s_dir + 4 * of_nat i) AND PAGE_MASK)
      in if PHYS_MEM s_table \<noteq> 0
         then do {
           (p, s) \<leftarrow> kmalloc_page s;
           let d_table = VIRT_MEM p;
           s \<leftarrow> for_n (copy_entry mode i s_table d_table) 0 PTRS_PER_PAGE s;
           Some (wr (d_dir + 4 * of_nat i)
                   (PHYS_MEM d_table OR (rd s (s_dir + 4 * of_nat i) AND NOT PAGE_MASK)) s)
         }
         else Some (wr (d_dir + 4 * of_nat i) 0 s))"

definition copy_page_tree :: "u32 \<Rightarrow> copy_mode \<Rightarrow> mm \<Rightarrow> (u32 \<times> mm) option" where
  "copy_page_tree tree mode s =
     (let flags = int_flag s; s = s\<lparr>int_flag := False\<rparr>; s_dir = VIRT_MEM tree
      in do {
        (p, s) \<leftarrow> kmalloc_page s;
        let d_dir = VIRT_MEM p;
        s \<leftarrow> for_n (copy_dir_entry mode s_dir d_dir) 0 PTRS_PER_PAGE s;
        Some (PHYS_MEM d_dir, s\<lparr>int_flag := flags\<rparr>)
      })"

definition free_entry :: "nat \<Rightarrow> u32 \<Rightarrow> nat \<Rightarrow> mm \<Rightarrow> mm option" where
  "free_entry i s_table j s =
     (let tmp = rd s (s_table + 4 * of_nat j) AND PAGE_MASK
      in do {
        n \<leftarrow> map_at s (MAP_NR tmp);
        if tmp \<noteq> 0 \<and> i < KERNEL_VIRT_PDINDX \<and> n \<noteq> MAP_PAGE_RESERVED then free_page tmp s else Some s
      })"

definition free_dir_entry :: "u32 \<Rightarrow> nat \<Rightarrow> mm \<Rightarrow> mm option" where
  "free_dir_entry s_dir i s =
     (let s_table = VIRT_MEM (rd s (s_dir + 4 * of_nat i) AND PAGE_MASK)
      in if PHYS_MEM s_table \<noteq> 0
         then do {
           s \<leftarrow> for_n (free_entry i s_table) 0 PTRS_PER_PAGE s;
           free_page (PHYS_MEM s_table) s
         }
         else Some s)"

definition free_page_tree :: "u32 \<Rightarrow> mm \<Rightarrow> mm option" where
  "free_page_tree tree s =
     (let flags = int_flag s; s = s\<lparr>int_flag := False\<rparr>; s_dir = VIRT_MEM tree
      in do {
        s \<leftarrow> for_n (free_dir_entry s_dir) 0 PTRS_PER_PAGE s;
        s \<leftarrow> free_page (PHYS_MEM s_dir) s;
        Some (s\<lparr>int_flag := flags\<rparr>)
      })"

section \<open>Entries of a tree\<close>

abbreviation cell :: "u32 \<Rightarrow> nat \<Rightarrow> u32" where
  "cell p j \<equiv> p + 4 * of_nat j"

text \<open>The page table behind an entry of a directory, and what the tree maps at given indices.\<close>

definition frame :: "mm \<Rightarrow> u32 \<Rightarrow> nat \<Rightarrow> u32" where
  "frame s tree i = mem s (cell tree i) AND PAGE_MASK"

definition entry :: "mm \<Rightarrow> u32 \<Rightarrow> nat \<Rightarrow> nat \<Rightarrow> u32" where
  "entry s tree i j = (if frame s tree i = 0 then 0 else mem s (cell (frame s tree i) j))"

lemma dir_index_less: "dir_index v < 1024"
  using unat_lt2p32 [of v] by (simp add: dir_index_def unat_drop_bit_word)

lemma dir_index_div: "dir_index v = unat v div 4194304"
  by (simp add: dir_index_def unat_drop_bit_word)

lemma unat_take_bit_word: "unat (take_bit n (x :: u32)) = unat x mod 2 ^ n"
  by (simp only: unsigned_take_bit_eq) (simp only: take_bit_eq_mod)

lemma tab_index_mod: "tab_index v = unat v div 4096 mod 1024"
proof -
  have m: "PAGE_TAB_MASK = push_bit 12 (mask 10)"
    by (simp add: PAGE_TAB_MASK_def mask_eq_exp_minus_1 push_bit_eq_mult)
  have "drop_bit 12 (v AND PAGE_TAB_MASK) = take_bit 10 (drop_bit 12 v)"
    unfolding m by (rule bit_eqI) (auto simp: bit_simps)
  then have "tab_index v = unat (drop_bit 12 v) mod 2 ^ 10"
    by (simp only: tab_index_def unat_take_bit_word)
  then show ?thesis by (simp add: unat_drop_bit_word)
qed

lemma tab_index_less: "tab_index v < 1024"
  by (simp add: tab_index_mod)

lemma index_inject:
  assumes "page_aligned v" "page_aligned w" "dir_index v = dir_index w" "tab_index v = tab_index w"
  shows "v = w"
proof -
  obtain k where k: "unat v = 4096 * k" using assms(1) by (rule page_alignedE)
  obtain l where l: "unat w = 4096 * l" using assms(2) by (rule page_alignedE)
  have "k div 1024 = l div 1024"
    using assms(3) div_mult2_eq [of "4096 * k" 4096 1024] div_mult2_eq [of "4096 * l" 4096 1024]
    by (simp add: dir_index_div k l)
  moreover have "k mod 1024 = l mod 1024" using assms(4) by (simp add: tab_index_mod k l)
  ultimately have "k = l" by (metis div_mult_mod_eq)
  then show ?thesis using k l by (simp add: word_unat_eq_iff)
qed

lemma get_table_entry_eq:
  "tree \<noteq> 0 \<Longrightarrow> get_table_entry tree v s = entry s tree (dir_index v) (tab_index v)"
  by (simp add: get_table_entry_def Let_def rd_def entry_def frame_def)

lemma get_table_entry_current:
  "cr3 s \<noteq> 0 \<Longrightarrow> get_table_entry 0 v s = get_table_entry (cr3 s) v s"
  by (simp add: get_table_entry_def)

text \<open>The pages of a tree: page aligned, none of them free, no page table shared.\<close>

definition tree_ok :: "mm \<Rightarrow> u32 \<Rightarrow> u32 list \<Rightarrow> bool" where
  "tree_ok s tree ps \<longleftrightarrow> page_aligned tree \<and> tree \<noteq> 0 \<and> tree \<notin> set ps
     \<and> (\<forall>i < 1024. frame s tree i \<noteq> 0 \<longrightarrow> frame s tree i \<notin> set ps \<and> frame s tree i \<noteq> tree
          \<and> (\<forall>k < 1024. frame s tree k = frame s tree i \<longrightarrow> k = i))"

lemma tree_okD:
  assumes "tree_ok s tree ps"
  shows "page_aligned tree" "tree \<noteq> 0" "tree \<notin> set ps"
    and "\<And>i. i < 1024 \<Longrightarrow> frame s tree i \<noteq> 0 \<Longrightarrow> frame s tree i \<notin> set ps \<and> frame s tree i \<noteq> tree"
    and "\<And>i k. i < 1024 \<Longrightarrow> k < 1024 \<Longrightarrow> frame s tree i \<noteq> 0 \<Longrightarrow> frame s tree k = frame s tree i \<Longrightarrow> k = i"
  using assms by (auto simp: tree_ok_def)

lemma frame_page_aligned [simp]: "page_aligned (frame s tree i)"
  by (simp add: frame_def)

lemma pool_mem:
  assumes "pool s ps" "\<And>q. q \<in> set ps \<Longrightarrow> mem s' q = mem s q"
    and "free_page_list s' = free_page_list s" "free_page_count s' = free_page_count s"
    and "mem_end s' = mem_end s" "length (mem_map s') = length (mem_map s)"
    and "\<And>i. i < length (mem_map s) \<Longrightarrow> mem_map s' ! i = 0 \<longleftrightarrow> mem_map s ! i = 0"
  shows "pool s' ps"
proof -
  have "linked (mem s') (free_page_list s) ps"
    using poolD(1) [OF assms(1)] assms(2) by (subst linked_cong [where m = "mem s"]) auto
  then show ?thesis using assms by (simp add: pool_def)
qed

lemma page_notin_cells:
  assumes "page_aligned p" "page_aligned q" "p \<noteq> q"
  shows "q \<notin> page_cells p"
  using page_cells_disjoint [OF assms] by auto

lemma cell_apart:
  "page_aligned p \<Longrightarrow> page_aligned q \<Longrightarrow> p \<noteq> q \<Longrightarrow> i < 1024 \<Longrightarrow> cell p i \<notin> page_cells q"
  using page_cells_disjoint by blast

lemma pool_wr_cell:
  assumes "pool s ps" "page_aligned p" "p \<notin> set ps" "j < 1024"
  shows "pool (s\<lparr>mem := (mem s)(cell p j := x)\<rparr>) ps"
proof (rule pool_mem [OF assms(1)])
  fix q assume q: "q \<in> set ps"
  then have "q \<notin> page_cells p"
    using page_notin_cells [OF assms(2) poolD(4) [OF assms(1) q]] assms(3) by auto
  then have "q \<noteq> cell p j" using assms(4) by auto
  then show "mem (s\<lparr>mem := (mem s)(cell p j := x)\<rparr>) q = mem s q" by simp
qed simp_all

lemma table_flags_frame:
  assumes "page_aligned p"
  shows "(p OR (x AND NOT PAGE_MASK)) AND PAGE_MASK = p" "(p OR PAGE_TABLE) AND PAGE_MASK = p"
proof -
  show *: "(p OR (x AND NOT PAGE_MASK)) AND PAGE_MASK = p" for x
  proof -
    have "(p OR (x AND NOT PAGE_MASK)) AND PAGE_MASK = p AND PAGE_MASK"
      by (rule bit_eqI) (auto simp: bit_simps)
    then show ?thesis using frame_of_aligned [OF assms] by simp
  qed
  have "PAGE_TABLE = PAGE_TABLE AND NOT PAGE_MASK"
    by (simp add: PAGE_TABLE_def PAGE_PRESENT_def PAGE_RW_def PAGE_USER_def PAGE_ACCESSED_def PAGE_MASK_def)
  then show "(p OR PAGE_TABLE) AND PAGE_MASK = p" using * [of PAGE_TABLE] by simp
qed

section \<open>Making a page visible\<close>

lemma show_in_table:
  fixes flags :: u32
  assumes "tree_ok s tree ps" "pool s ps" "page_aligned page" "page_aligned v"
    and "frame s tree (dir_index v) \<noteq> 0"
  defines "s' \<equiv> s\<lparr>mem := (mem s)(cell (frame s tree (dir_index v)) (tab_index v) := page OR flags)\<rparr>"
  shows "show_page tree page v flags s = Some s'" "pool s' ps" "tree_ok s' tree ps"
    and "get_table_entry tree v s' = page OR flags"
    and "page_aligned w \<Longrightarrow> w \<noteq> v \<Longrightarrow> get_table_entry tree w s' = get_table_entry tree w s"
proof -
  note t = tree_okD [OF assms(1)] and di = dir_index_less and ti = tab_index_less
  let ?f = "frame s tree (dir_index v)"
  have f: "?f \<notin> set ps" "?f \<noteq> tree" using t(4) [OF di assms(5)] by auto
  show "show_page tree page v flags s = Some s'"
    using assms(3-5) t(2)
    by (simp add: show_page_def Let_def rd_def wr_def frame_def s'_def page_aligned_def)
  show "pool s' ps" unfolding s'_def by (rule pool_wr_cell) (use assms(2) f ti in auto)
  have "mem s' (cell tree i) = mem s (cell tree i)" if "i < 1024" for i
    using cell_inject [of tree ?f i "tab_index v"] t(1) that ti f(2) by (simp add: s'_def)
  then have fr: "frame s' tree i = frame s tree i" if "i < 1024" for i
    using that by (simp add: frame_def)
  then show "tree_ok s' tree ps" using assms(1) by (auto simp: tree_ok_def)
  show "get_table_entry tree v s' = page OR flags"
    using t(2) fr [OF di] assms(5) by (simp add: get_table_entry_eq entry_def) (simp add: s'_def)
  show "get_table_entry tree w s' = get_table_entry tree w s" if w: "page_aligned w" "w \<noteq> v"
  proof (cases "frame s tree (dir_index w) = 0")
    case False
    have "frame s tree (dir_index w) \<noteq> ?f \<or> tab_index w \<noteq> tab_index v"
      using t(5) [OF di di assms(5), of w] index_inject [OF w(1) assms(4)] w(2) by blast
    then have "cell (frame s tree (dir_index w)) (tab_index w) \<noteq> cell ?f (tab_index v)"
      using cell_inject [OF frame_page_aligned frame_page_aligned ti ti] by blast
    then show ?thesis using t(2) fr [OF di] False by (simp add: get_table_entry_eq entry_def) (simp add: s'_def)
  qed (use t(2) fr [OF di] in \<open>simp add: get_table_entry_eq entry_def\<close>)
qed

text \<open>A fresh page becomes an empty page table of the directory.\<close>

definition hang_table :: "u32 \<Rightarrow> nat \<Rightarrow> u32 \<Rightarrow> mm \<Rightarrow> mm" where
  "hang_table tree i p s =
     (let s1 = clear_page p (s\<lparr>free_page_list := mem s p, mem_map := (mem_map s)[MAP_NR p := 1]\<rparr>)
      in s1\<lparr>mem := (mem s1)(cell tree i := p OR PAGE_TABLE)\<rparr>)"

lemma hang_table_spec:
  assumes "tree_ok s tree (p # ps)" "pool s (p # ps)" "i < 1024" "frame s tree i = 0"
  defines "s1 \<equiv> hang_table tree i p s"
  shows "pool s1 ps" "tree_ok s1 tree ps" "frame s1 tree i = p" "p \<noteq> 0"
    and "\<And>k j. k < 1024 \<Longrightarrow> j < 1024 \<Longrightarrow> entry s1 tree k j = entry s tree k j"
proof -
  note t = tree_okD [OF assms(1)]
  have p: "page_aligned p" "p \<noteq> 0" "p \<notin> set ps" "p \<noteq> tree"
    using poolD(2,4) [OF assms(2)] pool_nonzero [OF assms(2)] t(3) by auto
  show "p \<noteq> 0" by (rule p(2))
  have m: "mem s1 a = (if a = cell tree i then p OR PAGE_TABLE else if a \<in> page_cells p then 0 else mem s a)" for a
    by (simp add: s1_def hang_table_def Let_def mem_clear_page)
  show "pool s1 ps"
    unfolding s1_def hang_table_def Let_def
    by (rule pool_wr_cell [OF kmalloc_page_pop(2) [OF assms(2)] t(1) _ assms(3)]) (use t(3) in simp)
  have fr: "frame s1 tree k = (if k = i then p else frame s tree k)" if "k < 1024" for k
    using cell_inject [OF t(1) t(1) that assms(3)] cell_apart [OF t(1) p(1) _ that] p(4)
      table_flags_frame(2) [OF p(1)] by (auto simp: frame_def m)
  then show "frame s1 tree i = p" using assms(3) by simp
  show "tree_ok s1 tree ps"
    unfolding tree_ok_def using t p fr assms(3,4) by (auto split: if_splits)
  fix k j :: nat assume kj: "k < 1024" "j < 1024"
  have "mem s1 (cell p j) = 0"
    using cell_inject [OF p(1) t(1) kj(2) assms(3)] p(4) kj(2) by (simp add: m)
  moreover have "mem s1 (cell (frame s tree k) j) = mem s (cell (frame s tree k) j)" if "frame s tree k \<noteq> 0"
    using t(4) [OF kj(1) that] cell_inject [OF frame_page_aligned t(1) kj(2) assms(3), of s tree k]
      cell_apart [OF frame_page_aligned p(1) _ kj(2), of s tree k] by (auto simp: m)
  ultimately show "entry s1 tree k j = entry s tree k j"
    using fr [OF kj(1)] assms(4) by (auto simp: entry_def)
qed

lemma show_page_hang:
  assumes "tree_ok s tree (p # ps)" "pool s (p # ps)" "frame s tree (dir_index v) = 0"
  shows "show_page tree page v flags s = show_page tree page v flags (hang_table tree (dir_index v) p s)"
proof -
  note h = hang_table_spec(3,4) [OF assms(1,2) dir_index_less assms(3)]
  have tr: "tree \<noteq> 0" using assms(1) by (simp add: tree_ok_def)
  have "page_aligned p" using poolD(4) [OF assms(2)] by simp
  note fl = table_flags_frame(2) [OF this]
  show ?thesis
    using assms(3) h(2) tr fl kmalloc_page_pop(1) [OF assms(2)]
    by (simp add: show_page_def Let_def rd_def wr_def frame_def [symmetric] hang_table_def)
qed

text \<open>\<^verbatim>\<open>show_page\<close> changes one entry of the tree.  For a well-formed tree and page aligned
  arguments, when a page table is present or a page is free, it returns; \<^verbatim>\<open>get_table_entry\<close> then
  answers \<^verbatim>\<open>page | flags\<close> at the virtual address and its old answer at every other page address;
  and the tree and the pool of free pages stay well-formed.\<close>
theorem show_page_maps_one_page:
  assumes "tree_ok s tree ps" "pool s ps" "page_aligned page" "page_aligned v"
    and "get_table_entry tree v s \<noteq> 0 \<or> ps \<noteq> []"
  shows "\<exists>s' ps'. show_page tree page v flags s = Some s' \<and> pool s' ps' \<and> tree_ok s' tree ps'
     \<and> get_table_entry tree v s' = page OR flags
     \<and> (\<forall>w. page_aligned w \<and> w \<noteq> v \<longrightarrow> get_table_entry tree w s' = get_table_entry tree w s)"
proof (cases "frame s tree (dir_index v) = 0")
  case False
  show ?thesis using show_in_table [OF assms(1-4) False, where flags = flags] by blast
next
  case True
  have tr: "tree \<noteq> 0" using assms(1) by (simp add: tree_ok_def)
  then obtain p qs where ps: "ps = p # qs"
    using assms(5) True by (cases ps) (auto simp: get_table_entry_eq entry_def)
  note a = assms(1,2) [unfolded ps]
  let ?s1 = "hang_table tree (dir_index v) p s"
  note h = hang_table_spec [OF a dir_index_less True]
  have "get_table_entry tree w ?s1 = get_table_entry tree w s" for w
    using h(5) dir_index_less tab_index_less tr by (simp add: get_table_entry_eq)
  moreover have "frame ?s1 tree (dir_index v) \<noteq> 0" using h(3,4) by simp
  note sh = show_in_table [OF h(2,1) assms(3,4) this, where flags = flags]
  ultimately show ?thesis using sh show_page_hang [OF a True] by metis
qed

section \<open>Copying a tree\<close>

definition cow :: "copy_mode \<Rightarrow> u32 \<Rightarrow> u32" where
  "cow mode e = (if mode = COPY_ON_WRITE \<and> e \<noteq> 0 then (e AND NOT PAGE_RW) OR PAGE_COW else e)"

lemma cow_frame: "cow mode e AND PAGE_MASK = e AND PAGE_MASK"
proof -
  have m: "PAGE_MASK AND NOT PAGE_RW = PAGE_MASK" "PAGE_COW AND PAGE_MASK = 0"
    by (simp_all add: PAGE_MASK_def PAGE_RW_def PAGE_COW_def)
  have "((e AND NOT PAGE_RW) OR PAGE_COW) AND PAGE_MASK
      = (e AND (PAGE_MASK AND NOT PAGE_RW)) OR (PAGE_COW AND PAGE_MASK)"
    by (rule bit_eqI) (auto simp: bit_simps)
  then show ?thesis by (simp add: cow_def m)
qed

lemma cow_eq_0 [simp]: "cow mode e = 0 \<longleftrightarrow> e = 0"
  by (simp add: cow_def or_eq_0_iff PAGE_COW_def)

text \<open>Usage counters never pass the mark of reserved pages.\<close>

definition counts_ok :: "mm \<Rightarrow> bool" where
  "counts_ok s \<longleftrightarrow> (\<forall>i < length (mem_map s). mem_map s ! i \<le> MAP_PAGE_RESERVED)"

definition same_pool :: "mm \<Rightarrow> mm \<Rightarrow> bool" where
  "same_pool s s' \<longleftrightarrow> free_page_list s' = free_page_list s \<and> free_page_count s' = free_page_count s
     \<and> mem_end s' = mem_end s \<and> cr3 s' = cr3 s \<and> length (mem_map s') = length (mem_map s)
     \<and> (\<forall>i < length (mem_map s). mem_map s' ! i = 0 \<longleftrightarrow> mem_map s ! i = 0)
     \<and> (counts_ok s \<longrightarrow> counts_ok s')"

lemma same_pool_refl [simp]: "same_pool s s"
  and same_pool_mem [simp]: "same_pool s (s\<lparr>mem := m\<rparr>)"
  and same_pool_trans: "same_pool s t \<Longrightarrow> same_pool t u \<Longrightarrow> same_pool s u"
  by (auto simp: same_pool_def counts_ok_def)

lemma same_pool_mem_left [simp]: "same_pool (s\<lparr>mem := m\<rparr>) t = same_pool s t"
  by (simp add: same_pool_def counts_ok_def)

lemma count_up:
  assumes "counts_ok s" "i < length (mem_map s)" "mem_map s ! i = n" "n \<noteq> 0" "n \<noteq> MAP_PAGE_RESERVED"
  shows "same_pool s (s\<lparr>mem_map := (mem_map s)[i := n + 1]\<rparr>)"
proof -
  have "unat n \<le> 32768" "unat n \<noteq> 32768"
    using assms(1-3,5) by (auto simp: counts_ok_def MAP_PAGE_RESERVED_def word_le_nat_alt word_unat_eq_iff)
  then have u: "unat (n + 1) = unat n + 1" "unat (n + 1) \<le> 32768"
    by (simp_all add: unat_word_ariths)
  then have n1: "n + 1 \<le> MAP_PAGE_RESERVED" "n + 1 \<noteq> 0"
    by (auto simp: MAP_PAGE_RESERVED_def word_le_nat_alt word_unat_eq_iff)
  have "counts_ok (s\<lparr>mem_map := (mem_map s)[i := n + 1]\<rparr>)"
    using assms(1,2) n1(1) by (simp add: counts_ok_def nth_list_update)
  moreover have "(mem_map s)[i := n + 1] ! k = 0 \<longleftrightarrow> mem_map s ! k = 0" if "k < length (mem_map s)" for k
    using assms(2-4) n1(2) that by (cases "k = i") auto
  ultimately show ?thesis by (simp add: same_pool_def)
qed

text \<open>The page a nonzero entry maps is one of the counted ones and in use.\<close>

definition maps_used :: "mm \<Rightarrow> u32 \<Rightarrow> bool" where
  "maps_used s e \<longleftrightarrow> e = 0 \<or> MAP_NR (e AND PAGE_MASK) < length (mem_map s) \<and> mem_map s ! MAP_NR (e AND PAGE_MASK) \<noteq> 0"

lemma maps_used_same: "same_pool s t \<Longrightarrow> maps_used t e = maps_used s e"
  by (auto simp: maps_used_def same_pool_def)

lemma copy_entry_spec:
  fixes mode :: copy_mode
  assumes "page_aligned st" "page_aligned dt" "st \<noteq> dt" "j < 1024"
    and "mem s (cell dt j) = 0" "maps_used s (mem s (cell st j))" "counts_ok s"
  defines "c \<equiv> cow mode (mem s (cell st j))"
  shows "\<exists>s'. copy_entry mode i (VIRT_MEM st) (VIRT_MEM dt) j s = Some s'
     \<and> mem s' = (mem s)(cell st j := c, cell dt j := c) \<and> same_pool s s'"
proof (cases "mem s (cell st j) = 0")
  case True
  then have "mem s = (mem s)(cell st j := c, cell dt j := c)" using assms(5) by (auto simp: c_def cow_def)
  then show ?thesis using True by (simp add: copy_entry_def rd_def)
next
  case False
  define e where "e = mem s (cell st j)"
  define s1 where "s1 = s\<lparr>mem := (mem s)(cell st j := c, cell dt j := c)\<rparr>"
  let ?i = "MAP_NR (e AND PAGE_MASK)"
  have ne: "cell st j \<noteq> cell dt j" using cell_inject [OF assms(1,2,4,4)] assms(3) by simp
  have i: "?i < length (mem_map s)" "mem_map s ! ?i \<noteq> 0"
    using assms(6) False by (simp_all add: maps_used_def e_def)
  have "copy_entry mode i (VIRT_MEM st) (VIRT_MEM dt) j s =
      Some (if mem_map s ! ?i \<noteq> MAP_PAGE_RESERVED \<and> i < KERNEL_VIRT_PDINDX
            then s1\<lparr>mem_map := (mem_map s)[?i := mem_map s ! ?i + 1]\<rparr> else s1)"
  proof (cases mode)
    case NORMAL
    then show ?thesis using False ne i
      by (simp add: copy_entry_def Let_def rd_def wr_def s1_def c_def cow_def e_def map_at_def map_set_def)
  next
    case COPY_ON_WRITE
    have "((mem s (cell st j) AND NOT PAGE_RW) OR PAGE_COW) AND PAGE_MASK = e AND PAGE_MASK"
      using cow_frame [of COPY_ON_WRITE e] False by (simp add: cow_def e_def)
    then show ?thesis using COPY_ON_WRITE False ne i
      by (simp add: copy_entry_def Let_def rd_def wr_def s1_def c_def cow_def map_at_def map_set_def)
  qed
  moreover have s1: "counts_ok s1" "mem_map s1 = mem_map s" "same_pool s s1"
    using assms(7) by (simp_all add: s1_def counts_ok_def)
  have "same_pool s (s1\<lparr>mem_map := (mem_map s)[?i := mem_map s ! ?i + 1]\<rparr>)"
    if "mem_map s ! ?i \<noteq> MAP_PAGE_RESERVED"
    using same_pool_trans [OF s1(3)] count_up [OF s1(1), of ?i, unfolded s1(2), OF i(1) refl i(2) that] by simp
  ultimately show ?thesis using s1(3) by (simp add: s1_def)
qed

lemma copy_table_spec:
  assumes "page_aligned st" "page_aligned dt" "st \<noteq> dt" "counts_ok s"
    and z: "\<And>j. j < 1024 \<Longrightarrow> mem s (cell dt j) = 0"
    and u: "\<And>j. j < 1024 \<Longrightarrow> maps_used s (mem s (cell st j))"
  shows "\<exists>s'. for_n (copy_entry mode i (VIRT_MEM st) (VIRT_MEM dt)) 0 PTRS_PER_PAGE s = Some s'
     \<and> (\<forall>k < 1024. mem s' (cell st k) = cow mode (mem s (cell st k)) \<and> mem s' (cell dt k) = cow mode (mem s (cell st k)))
     \<and> (\<forall>a. a \<notin> page_cells st \<union> page_cells dt \<longrightarrow> mem s' a = mem s a) \<and> same_pool s s'"
proof -
  let ?e = "\<lambda>k. mem s (cell st k)"
  define I where "I = (\<lambda>j s'. (\<forall>k < 1024. mem s' (cell st k) = (if k < j then cow mode (?e k) else ?e k)
        \<and> mem s' (cell dt k) = (if k < j then cow mode (?e k) else 0))
     \<and> (\<forall>a. a \<notin> page_cells st \<union> page_cells dt \<longrightarrow> mem s' a = mem s a) \<and> same_pool s s')"
  have "\<exists>s'. for_n (copy_entry mode i (VIRT_MEM st) (VIRT_MEM dt)) 0 1024 s = Some s' \<and> I (0 + 1024) s'"
  proof (rule for_n_inv)
    show "I 0 s" using z by (simp add: I_def)
    fix j s1 assume "j < 0 + 1024" and inv: "I j s1"
    then have j: "j < 1024" by simp
    have c: "cell st k = cell st j \<longleftrightarrow> k = j" "cell dt k = cell dt j \<longleftrightarrow> k = j"
      "cell st k \<noteq> cell dt j" "cell dt k \<noteq> cell st j" if "k < 1024" for k
      using cell_inject [of st st k j] cell_inject [of dt dt k j] cell_inject [of st dt k j]
        cell_inject [of dt st k j] assms(1-3) that j by simp_all
    have s1: "mem s1 (cell st j) = ?e j" "mem s1 (cell dt j) = 0" "same_pool s s1"
      using inv j by (simp_all add: I_def)
    have "counts_ok s1" using s1(3) assms(4) by (simp add: same_pool_def)
    moreover have "maps_used s1 (mem s1 (cell st j))" using s1(1,3) u [OF j] by (simp add: maps_used_same)
    ultimately obtain s2 where s2: "copy_entry mode i (VIRT_MEM st) (VIRT_MEM dt) j s1 = Some s2"
      "mem s2 = (mem s1)(cell st j := cow mode (?e j), cell dt j := cow mode (?e j))" "same_pool s1 s2"
      using copy_entry_spec [OF assms(1-3) j s1(2), of mode i] unfolding s1(1) by blast
    have "mem s2 a = mem s1 a" if "a \<notin> page_cells st \<union> page_cells dt" for a
      using that j s2(2) by auto
    then have "I (Suc j) s2"
      using inv c s2(2) same_pool_trans [OF s1(3) s2(3)] by (auto simp: I_def less_Suc_eq)
    then show "\<exists>s'. copy_entry mode i (VIRT_MEM st) (VIRT_MEM dt) j s1 = Some s' \<and> I (Suc j) s'"
      using s2(1) by blast
  qed
  then show ?thesis by (auto simp: I_def PTRS_PER_PAGE_def)
qed

definition map_up :: "mm \<Rightarrow> mm \<Rightarrow> bool" where
  "map_up s s' \<longleftrightarrow> length (mem_map s') = length (mem_map s) \<and> cr3 s' = cr3 s \<and> mem_end s' = mem_end s
     \<and> (\<forall>i < length (mem_map s). mem_map s ! i \<noteq> 0 \<longrightarrow> mem_map s' ! i \<noteq> 0) \<and> (counts_ok s \<longrightarrow> counts_ok s')"

lemma map_up_refl [simp]: "map_up s s"
  and map_up_mem [simp]: "map_up s (s\<lparr>mem := m\<rparr>)"
  and map_up_trans: "map_up s t \<Longrightarrow> map_up t u \<Longrightarrow> map_up s u"
  and same_pool_map_up: "same_pool s t \<Longrightarrow> map_up s t"
  by (auto simp: map_up_def same_pool_def counts_ok_def)

lemma maps_used_up: "map_up s t \<Longrightarrow> maps_used s e \<Longrightarrow> maps_used t e"
  by (auto simp: maps_used_def map_up_def)

lemma map_up_kmalloc:
  "map_up s (clear_page d (s\<lparr>free_page_list := x, mem_map := (mem_map s)[MAP_NR d := 1]\<rparr>))"
  by (cases "MAP_NR d < length (mem_map s)")
     (auto simp: map_up_def counts_ok_def nth_list_update MAP_PAGE_RESERVED_def)

lemma copy_dir_entry_spec:
  assumes pl: "pool s (d # vs)" and al: "page_aligned tree" "page_aligned t" and k: "k < 1024"
    and f: "frame s tree k \<noteq> 0" "frame s tree k \<notin> set (d # vs)" "frame s tree k \<noteq> t" "frame s tree k \<noteq> tree"
    and ne: "tree \<notin> set (d # vs)" "t \<notin> set (d # vs)" "t \<noteq> tree" and ok: "counts_ok s"
    and u: "\<And>j. j < 1024 \<Longrightarrow> maps_used s (mem s (cell (frame s tree k) j))"
  shows "\<exists>s'. copy_dir_entry mode (VIRT_MEM tree) (VIRT_MEM t) k s = Some s' \<and> pool s' vs \<and> frame s' t k = d
     \<and> (\<forall>j < 1024. mem s' (cell d j) = cow mode (mem s (cell (frame s tree k) j))
                  \<and> mem s' (cell (frame s tree k) j) = cow mode (mem s (cell (frame s tree k) j)))
     \<and> (\<forall>a. a \<notin> page_cells d \<union> page_cells (frame s tree k) \<and> a \<noteq> cell t k \<longrightarrow> mem s' a = mem s a)
     \<and> map_up s s'"
proof -
  let ?f = "frame s tree k"
  define s1 where "s1 = clear_page d (s\<lparr>free_page_list := mem s d, mem_map := (mem_map s)[MAP_NR d := 1]\<rparr>)"
  have d: "page_aligned d" using poolD(4) [OF pl] by simp
  have m1: "mem s1 a = (if a \<in> page_cells d then 0 else mem s a)" for a
    by (simp add: s1_def mem_clear_page)
  have up1: "map_up s s1" by (simp add: s1_def map_up_kmalloc)
  have fm: "mem s1 (cell ?f j) = mem s (cell ?f j)" if "j < 1024" for j
    using cell_apart [OF frame_page_aligned d _ that, of s tree k] f(2) by (auto simp: m1)
  have ok1: "counts_ok s1" using up1 ok by (simp add: map_up_def)
  have fd: "?f \<noteq> d" using f(2) by auto
  have u1: "maps_used s1 (mem s1 (cell ?f j))" if "j < 1024" for j
    using maps_used_up [OF up1] u [OF that] fm [OF that] by simp
  have z1: "mem s1 (cell d j) = 0" if "j < 1024" for j using that by (simp add: m1)
  obtain s2 where s2: "for_n (copy_entry mode k (VIRT_MEM ?f) (VIRT_MEM d)) 0 PTRS_PER_PAGE s1 = Some s2"
    and c2: "\<forall>j < 1024. mem s2 (cell ?f j) = cow mode (mem s1 (cell ?f j)) \<and> mem s2 (cell d j) = cow mode (mem s1 (cell ?f j))"
    and r2': "\<forall>a. a \<notin> page_cells ?f \<union> page_cells d \<longrightarrow> mem s2 a = mem s1 a" and p2: "same_pool s1 s2"
    using copy_table_spec [OF frame_page_aligned d fd ok1 z1 u1] by blast
  have r2: "mem s2 a = mem s a" if "a \<notin> page_cells ?f \<union> page_cells d" for a
    using r2' that by (simp add: m1)
  define x where "x = d OR (mem s (cell tree k) AND NOT PAGE_MASK)"
  define s' where "s' = s2\<lparr>mem := (mem s2)(cell t k := x)\<rparr>"
  have tk: "cell tree k \<notin> page_cells ?f \<union> page_cells d" "cell t k \<notin> page_cells ?f \<union> page_cells d"
    using cell_apart [OF al(1) _ _ k] cell_apart [OF al(2) _ _ k] d f ne by auto
  have "copy_dir_entry mode (VIRT_MEM tree) (VIRT_MEM t) k s = Some s'"
    using f(1) s2 kmalloc_page_pop(1) [OF pl] r2 [OF tk(1)]
    by (simp add: copy_dir_entry_def Let_def rd_def wr_def frame_def [symmetric] s1_def [symmetric] s'_def x_def)
  moreover have "pool s1 vs" unfolding s1_def by (rule kmalloc_page_pop(2) [OF pl])
  then have "pool s2 vs"
  proof (rule pool_mem)
    fix q assume q: "q \<in> set vs"
    then have q': "page_aligned q" "q \<noteq> ?f" "q \<noteq> d" using poolD(2,4) [OF pl] f(2) by auto
    have "q \<notin> page_cells ?f" "q \<notin> page_cells d"
      using page_notin_cells [OF frame_page_aligned q'(1) q'(2) [symmetric]]
        page_notin_cells [OF d q'(1) q'(3) [symmetric]] by simp_all
    then show "mem s2 q = mem s1 q" using r2 [of q] m1 [of q] by auto
  qed (use p2 in \<open>simp_all add: same_pool_def\<close>)
  then have "pool s' vs" unfolding s'_def by (rule pool_wr_cell [OF _ al(2) _ k]) (use ne in simp)
  moreover have "frame s' t k = d" using table_flags_frame(1) [OF d] by (simp add: frame_def s'_def x_def)
  moreover have "cell d j \<noteq> cell t k" "cell ?f j \<noteq> cell t k" if "j < 1024" for j
    using tk(2) that by (metis UnI1 UnI2 cell_in_page)+
  then have "\<forall>j < 1024. mem s' (cell d j) = cow mode (mem s (cell ?f j)) \<and> mem s' (cell ?f j) = cow mode (mem s (cell ?f j))"
    using c2 fm by (simp add: s'_def)
  moreover have "\<forall>a. a \<notin> page_cells d \<union> page_cells ?f \<and> a \<noteq> cell t k \<longrightarrow> mem s' a = mem s a"
    using r2 by (auto simp: s'_def)
  moreover have "map_up s s'"
    using map_up_trans [OF up1 map_up_trans [OF same_pool_map_up [OF p2] map_up_mem]] by (simp add: s'_def)
  ultimately show ?thesis by blast
qed

text \<open>What the copy looks like after \<open>i\<close> entries of the directory, with the page tables \<open>us\<close>.\<close>

definition copied :: "copy_mode \<Rightarrow> mm \<Rightarrow> u32 \<Rightarrow> u32 \<Rightarrow> u32 list \<Rightarrow> nat \<Rightarrow> mm \<Rightarrow> bool" where
  "copied mode s tree t us i s' \<longleftrightarrow> (\<forall>k < 1024. frame s' tree k = frame s tree k)
     \<and> (\<forall>k < i. if frame s tree k = 0 then frame s' t k = 0
          else frame s' t k \<in> set us
            \<and> (\<forall>j < 1024. mem s' (cell (frame s' t k) j) = cow mode (mem s (cell (frame s tree k) j))
                 \<and> mem s' (cell (frame s tree k) j) = cow mode (mem s (cell (frame s tree k) j))))
     \<and> (\<forall>k < 1024. i \<le> k \<and> frame s tree k \<noteq> 0 \<longrightarrow>
          (\<forall>j < 1024. mem s' (cell (frame s tree k) j) = mem s (cell (frame s tree k) j)))"

text \<open>Pages that a step leaves alone keep their part of the picture.\<close>

lemma copied_extend:
  assumes c: "copied mode s tree t us i s'" and i: "i < 1024"
    and tree: "\<And>k. k < 1024 \<Longrightarrow> frame s2 tree k = frame s' tree k"
    and dir: "\<And>k. k < i \<Longrightarrow> frame s2 t k = frame s' t k"
    and tab: "\<And>q j. q \<in> set us \<Longrightarrow> j < 1024 \<Longrightarrow> mem s2 (cell q j) = mem s' (cell q j)"
    and src: "\<And>k j. k < 1024 \<Longrightarrow> k \<noteq> i \<Longrightarrow> frame s tree k \<noteq> 0 \<Longrightarrow> j < 1024 \<Longrightarrow>
        mem s2 (cell (frame s tree k) j) = mem s' (cell (frame s tree k) j)"
    and new: "if frame s tree i = 0 then frame s2 t i = 0
        else frame s2 t i \<in> set (us @ ds)
          \<and> (\<forall>j < 1024. mem s2 (cell (frame s2 t i) j) = cow mode (mem s (cell (frame s tree i) j))
               \<and> mem s2 (cell (frame s tree i) j) = cow mode (mem s (cell (frame s tree i) j)))"
  shows "copied mode s tree t (us @ ds) (Suc i) s2"
  unfolding copied_def
proof (intro conjI allI impI)
  fix k :: nat assume "k < 1024"
  then show "frame s2 tree k = frame s tree k" using c tree by (simp add: copied_def)
next
  fix k assume "k < Suc i"
  then consider "k = i" | "k < i" by linarith
  then show "if frame s tree k = 0 then frame s2 t k = 0
      else frame s2 t k \<in> set (us @ ds)
        \<and> (\<forall>j < 1024. mem s2 (cell (frame s2 t k) j) = cow mode (mem s (cell (frame s tree k) j))
             \<and> mem s2 (cell (frame s tree k) j) = cow mode (mem s (cell (frame s tree k) j)))"
  proof cases
    case 1
    show ?thesis unfolding 1 by (rule new)
  next
    case 2
    then have ck: "if frame s tree k = 0 then frame s' t k = 0
      else frame s' t k \<in> set us
        \<and> (\<forall>j < 1024. mem s' (cell (frame s' t k) j) = cow mode (mem s (cell (frame s tree k) j))
             \<and> mem s' (cell (frame s tree k) j) = cow mode (mem s (cell (frame s tree k) j)))"
      using c by (simp add: copied_def)
    show ?thesis
    proof (cases "frame s tree k = 0")
      case False
      then show ?thesis using ck dir [OF 2] tab [of "frame s' t k"] src [of k] 2 i by simp
    qed (use ck dir [OF 2] in simp)
  qed
next
  fix k j :: nat assume k: "k < 1024" "Suc i \<le> k \<and> frame s tree k \<noteq> 0" "j < 1024"
  then have "mem s' (cell (frame s tree k) j) = mem s (cell (frame s tree k) j)"
    using c by (simp add: copied_def)
  then show "mem s2 (cell (frame s tree k) j) = mem s (cell (frame s tree k) j)"
    using src [of k j] k by simp
qed

lemma copy_step:
  assumes tr: "tree_ok s tree (t # us @ vs)" and pg: "\<And>p. p \<in> set (t # us @ vs) \<Longrightarrow> page_aligned p"
    and dist: "distinct (t # us @ vs)" and i: "i < 1024"
    and c: "copied mode s tree t us i s'" and pl: "pool s' vs" and up: "map_up s s'" and ok: "counts_ok s"
    and u: "\<And>k j. k < 1024 \<Longrightarrow> frame s tree k \<noteq> 0 \<Longrightarrow> j < 1024 \<Longrightarrow> maps_used s (mem s (cell (frame s tree k) j))"
    and room: "frame s tree i \<noteq> 0 \<Longrightarrow> vs \<noteq> []"
  shows "\<exists>s2 ds ws. copy_dir_entry mode (VIRT_MEM tree) (VIRT_MEM t) i s' = Some s2 \<and> vs = ds @ ws
     \<and> length ds = (if frame s tree i = 0 then 0 else 1)
     \<and> copied mode s tree t (us @ ds) (Suc i) s2 \<and> pool s2 ws \<and> map_up s s2"
proof -
  note T = tree_okD [OF tr]
  have t: "page_aligned t" "t \<noteq> tree" "t \<notin> set vs" using pg dist T(3) by auto
  have ft: "frame s' tree k = frame s tree k" if "k < 1024" for k using c that by (simp add: copied_def)
  have fr: "frame s tree k \<noteq> t" "frame s tree k \<noteq> tree" "frame s tree k \<notin> set us" "frame s tree k \<notin> set vs"
    if "k < 1024" "frame s tree k \<noteq> 0" for k using T(4) [OF that] by auto
  have tt: "cell t k \<noteq> cell t i" if "k < i" for k using cell_inject [OF t(1) t(1), of k i] that i by simp
  have tc: "cell q j \<noteq> cell t i" if "page_aligned q" "q \<noteq> t" "j < 1024" for q j
    using cell_inject [OF that(1) t(1) that(3) i] that(2) by simp
  show ?thesis
  proof (cases "frame s tree i = 0")
    case True
    let ?s2 = "s'\<lparr>mem := (mem s')(cell t i := 0)\<rparr>"
    have "copy_dir_entry mode (VIRT_MEM tree) (VIRT_MEM t) i s' = Some ?s2"
      using True ft [OF i] by (simp add: copy_dir_entry_def Let_def rd_def wr_def frame_def)
    moreover have "copied mode s tree t (us @ []) (Suc i) ?s2"
    proof (rule copied_extend [OF c i])
      show "frame ?s2 tree k = frame s' tree k" if "k < 1024" for k
        using tc [OF T(1) t(2) [symmetric] that] by (simp add: frame_def)
      show "frame ?s2 t k = frame s' t k" if "k < i" for k using tt [OF that] by (simp add: frame_def)
      show "mem ?s2 (cell q j) = mem s' (cell q j)" if "q \<in> set us" "j < 1024" for q j
        using tc [of q j] pg [of q] dist that by auto
      show "mem ?s2 (cell (frame s tree k) j) = mem s' (cell (frame s tree k) j)"
        if "k < 1024" "frame s tree k \<noteq> 0" "j < 1024" for k j
        using tc [of "frame s tree k" j] fr(1) that by simp
      have "frame ?s2 t i = 0" by (simp add: frame_def)
      then show "if frame s tree i = 0 then frame ?s2 t i = 0
        else frame ?s2 t i \<in> set (us @ [])
          \<and> (\<forall>j < 1024. mem ?s2 (cell (frame ?s2 t i) j) = cow mode (mem s (cell (frame s tree i) j))
               \<and> mem ?s2 (cell (frame s tree i) j) = cow mode (mem s (cell (frame s tree i) j)))"
        using True by simp
    qed
    moreover have "pool ?s2 vs" by (rule pool_wr_cell [OF pl t(1,3) i])
    moreover have "map_up s ?s2" by (rule map_up_trans [OF up map_up_mem])
    ultimately show ?thesis using True by (intro exI [of _ ?s2] exI [of _ "[]"] exI [of _ vs]) simp
  next
    case False
    then obtain d ws where vs: "vs = d # ws" using room by (cases vs) auto
    have F: "frame s' tree i = frame s tree i" by (rule ft [OF i])
    have u': "maps_used s' (mem s' (cell (frame s' tree i) j))" if "j < 1024" for j
      using u [OF i False that] c i False that maps_used_up [OF up] by (simp add: copied_def F)
    have ok': "counts_ok s'" using up ok by (simp add: map_up_def)
    have d: "page_aligned d" "d \<notin> set us" "d \<noteq> tree" "d \<noteq> t" using pg dist T(3) vs by auto
    obtain s2 where s2: "copy_dir_entry mode (VIRT_MEM tree) (VIRT_MEM t) i s' = Some s2" "pool s2 ws"
      and f2: "frame s2 t i = d" and up2: "map_up s' s2"
      and new: "\<forall>j < 1024. mem s2 (cell d j) = cow mode (mem s' (cell (frame s tree i) j))
                  \<and> mem s2 (cell (frame s tree i) j) = cow mode (mem s' (cell (frame s tree i) j))"
      and rest: "\<forall>a. a \<notin> page_cells d \<union> page_cells (frame s tree i) \<and> a \<noteq> cell t i \<longrightarrow> mem s2 a = mem s' a"
      using copy_dir_entry_spec [OF pl [unfolded vs] T(1) t(1) i, of mode] False fr [OF i False] T(3) t(2,3) ok' u'
      unfolding F vs by auto
    have away: "mem s2 (cell q j) = mem s' (cell q j)"
      if "page_aligned q" "q \<noteq> d" "q \<noteq> frame s tree i" "cell q j \<noteq> cell t i" "j < 1024" for q j
      using rest cell_apart [OF that(1) d(1) that(2,5)] cell_apart [OF that(1) frame_page_aligned that(3,5)] that(4)
      by simp
    have "copied mode s tree t (us @ [d]) (Suc i) s2"
    proof (rule copied_extend [OF c i])
      show "frame s2 tree k = frame s' tree k" if "k < 1024" for k
        using away [OF T(1) d(3) [symmetric] fr(2) [OF i False, symmetric] tc [OF T(1) t(2) [symmetric] that] that]
        by (simp add: frame_def)
      show "frame s2 t k = frame s' t k" if "k < i" for k
        using away [OF t(1) d(4) [symmetric] fr(1) [OF i False, symmetric] tt [OF that]] that i by (simp add: frame_def)
      show "mem s2 (cell q j) = mem s' (cell q j)" if "q \<in> set us" "j < 1024" for q j
        using away [of q j] tc [of q j] pg [of q] dist d(2) fr(3) [OF i False] that by auto
      show "mem s2 (cell (frame s tree k) j) = mem s' (cell (frame s tree k) j)"
        if k: "k < 1024" "k \<noteq> i" "frame s tree k \<noteq> 0" "j < 1024" for k j
        using away [of "frame s tree k" j] tc [of "frame s tree k" j] fr(1,4) [OF k(1,3)] T(5) [OF i k(1) False] k vs
        by auto
      have "mem s' (cell (frame s tree i) j) = mem s (cell (frame s tree i) j)" if "j < 1024" for j
        using c i False that by (simp add: copied_def)
      then show "if frame s tree i = 0 then frame s2 t i = 0
        else frame s2 t i \<in> set (us @ [d])
          \<and> (\<forall>j < 1024. mem s2 (cell (frame s2 t i) j) = cow mode (mem s (cell (frame s tree i) j))
               \<and> mem s2 (cell (frame s tree i) j) = cow mode (mem s (cell (frame s tree i) j)))"
        using new f2 False by simp
    qed
    then show ?thesis using s2 False map_up_trans [OF up up2] vs
      by (intro exI [of _ s2] exI [of _ "[d]"] exI [of _ ws]) simp
  qed
qed

definition table_count :: "mm \<Rightarrow> u32 \<Rightarrow> nat \<Rightarrow> nat" where
  "table_count s tree i = length (filter (\<lambda>k. frame s tree k \<noteq> 0) [0..<i])"

lemma table_count_Suc: "table_count s tree (Suc i) = table_count s tree i + (if frame s tree i = 0 then 0 else 1)"
  by (simp add: table_count_def)

lemma table_count_mono: "i \<le> j \<Longrightarrow> table_count s tree i \<le> table_count s tree j"
proof (induction j)
  case (Suc j)
  then show ?case by (cases "i = Suc j") (auto simp: table_count_Suc)
qed simp

lemma copy_loop:
  assumes tr: "tree_ok s tree (t # ps)" and pl: "pool s (t # ps)" and ok: "counts_ok s"
    and u: "\<And>k j. k < 1024 \<Longrightarrow> frame s tree k \<noteq> 0 \<Longrightarrow> j < 1024 \<Longrightarrow> maps_used s (mem s (cell (frame s tree k) j))"
    and room: "table_count s tree 1024 \<le> length ps"
    and s1: "s1 = clear_page t (s\<lparr>free_page_list := mem s t, mem_map := (mem_map s)[MAP_NR t := 1]\<rparr>)"
  shows "\<exists>s' us vs. for_n (copy_dir_entry mode (VIRT_MEM tree) (VIRT_MEM t)) 0 PTRS_PER_PAGE s1 = Some s'
     \<and> ps = us @ vs \<and> copied mode s tree t us 1024 s' \<and> pool s' vs"
proof -
  define I where "I = (\<lambda>i s'. \<exists>us vs. ps = us @ vs \<and> length us = table_count s tree i
     \<and> copied mode s tree t us i s' \<and> pool s' vs \<and> map_up s s')"
  note T = tree_okD [OF tr]
  have t: "page_aligned t" "t \<noteq> tree" using poolD(4) [OF pl] T(3) by auto
  have keep: "mem s1 (cell q j) = mem s (cell q j)" if "page_aligned q" "q \<noteq> t" "j < 1024" for q j
    using cell_apart [OF that(1) t(1) that(2,3)] by (simp add: s1 mem_clear_page)
  have "copied mode s tree t [] 0 s1"
    using keep [OF T(1) t(2) [symmetric]] keep [OF frame_page_aligned] T(4) by (auto simp: copied_def frame_def)
  then have I0: "I 0 s1"
    using kmalloc_page_pop(2) [OF pl] map_up_kmalloc [of s t] by (auto simp: I_def table_count_def s1)
  have "\<exists>s'. for_n (copy_dir_entry mode (VIRT_MEM tree) (VIRT_MEM t)) 0 1024 s1 = Some s' \<and> I (0 + 1024) s'"
  proof (rule for_n_inv [where I = I, OF I0])
    fix i s' assume "i < 0 + 1024" and "I i s'"
    then obtain us vs where i: "i < 1024" and ps: "ps = us @ vs" and l: "length us = table_count s tree i"
      and c: "copied mode s tree t us i s'" "pool s' vs" "map_up s s'" by (auto simp: I_def)
    have vs: "vs \<noteq> []" if "frame s tree i \<noteq> 0"
      using that l ps room table_count_mono [of "Suc i" 1024 s tree] i by (auto simp: table_count_Suc)
    have "\<exists>s2 ds ws. copy_dir_entry mode (VIRT_MEM tree) (VIRT_MEM t) i s' = Some s2 \<and> vs = ds @ ws
     \<and> length ds = (if frame s tree i = 0 then 0 else 1)
     \<and> copied mode s tree t (us @ ds) (Suc i) s2 \<and> pool s2 ws \<and> map_up s s2"
      by (rule copy_step [OF _ _ _ i c ok u vs]) (use tr poolD(2,4) [OF pl] ps in auto)
    then obtain s2 ds ws where s2: "copy_dir_entry mode (VIRT_MEM tree) (VIRT_MEM t) i s' = Some s2"
      "vs = ds @ ws" "length ds = (if frame s tree i = 0 then 0 else 1)"
      "copied mode s tree t (us @ ds) (Suc i) s2" "pool s2 ws" "map_up s s2" by blast
    then have "I (Suc i) s2" using ps l unfolding I_def
      by (intro exI [of _ "us @ ds"] exI [of _ ws]) (simp add: table_count_Suc)
    then show "\<exists>s'a. copy_dir_entry mode (VIRT_MEM tree) (VIRT_MEM t) i s' = Some s'a \<and> I (Suc i) s'a"
      using s2(1) by blast
  qed
  then show ?thesis unfolding PTRS_PER_PAGE_def I_def by auto
qed

lemma copied_entries:
  assumes "copied mode s tree t us 1024 s'" "0 \<notin> set us" "k < 1024" "j < 1024"
  shows "entry s' t k j = cow mode (entry s tree k j)" "entry s' tree k j = cow mode (entry s tree k j)"
  using assms by (auto simp: copied_def entry_def)

text \<open>C15: \<^verbatim>\<open>copy_page_tree\<close> copies.  For a well-formed tree that maps only pages in use, when the pool
  has a page for the new directory and one for each page table, the function returns the first
  free page as a new tree that maps at every virtual address what the old tree maps there; with
  \<^verbatim>\<open>COPY_ON_WRITE\<close> every entry of both trees has lost \<^verbatim>\<open>PAGE_RW\<close> and gained \<^verbatim>\<open>PAGE_COW\<close>, otherwise the
  old tree is unchanged; the pool stays well-formed and the interrupt flag is restored.\<close>
theorem copy_page_tree_copies:
  assumes tr: "tree_ok s tree ps" and pl: "pool s ps" and ok: "counts_ok s"
    and u: "\<forall>k < 1024. \<forall>j < 1024. maps_used s (entry s tree k j)"
    and room: "table_count s tree 1024 < length ps"
  shows "\<exists>s' ps'. copy_page_tree tree mode s = Some (hd ps, s') \<and> pool s' ps' \<and> int_flag s' = int_flag s
     \<and> (\<forall>v. get_table_entry (hd ps) v s' = cow mode (get_table_entry tree v s)
          \<and> get_table_entry tree v s' = cow mode (get_table_entry tree v s))"
proof -
  let ?s = "s\<lparr>int_flag := False\<rparr>"
  obtain t qs where ps: "ps = t # qs" using room by (cases ps) auto
  have e: "frame ?s = frame s" "entry ?s = entry s" "table_count ?s = table_count s"
    by (simp_all add: fun_eq_iff frame_def entry_def table_count_def)
  have "pool ?s ps" by (rule pool_mem [OF pl]) simp_all
  then have a: "tree_ok ?s tree (t # qs)" "pool ?s (t # qs)" "counts_ok ?s" "table_count ?s tree 1024 \<le> length qs"
    using tr ok room e by (simp_all add: tree_ok_def counts_ok_def ps)
  have u': "maps_used ?s (mem ?s (cell (frame ?s tree k) j))" if "k < 1024" "frame ?s tree k \<noteq> 0" "j < 1024" for k j
  proof -
    have "maps_used s (entry s tree k j)" using u that(1,3) by blast
    then show ?thesis using that(2) e(1) by (simp add: maps_used_def entry_def)
  qed
  obtain s' us vs where s': "for_n (copy_dir_entry mode (VIRT_MEM tree) (VIRT_MEM t)) 0 PTRS_PER_PAGE
      (clear_page t (?s\<lparr>free_page_list := mem ?s t, mem_map := (mem_map ?s)[MAP_NR t := 1]\<rparr>)) = Some s'"
    and c: "qs = us @ vs" "copied mode ?s tree t us 1024 s'" "pool s' vs"
    using copy_loop [OF a(1,2,3) u' a(4) refl, where mode = mode] by blast
  let ?s' = "s'\<lparr>int_flag := int_flag s\<rparr>"
  have e': "entry ?s' = entry s'" by (simp add: fun_eq_iff frame_def entry_def)
  have nz: "0 \<notin> set us" "t \<noteq> 0" "tree \<noteq> 0" using pool_nonzero [OF pl] ps c(1) tr by (auto simp: tree_ok_def)
  have "copy_page_tree tree mode s = Some (t, ?s')"
    using kmalloc_page_pop(1) [OF a(2)] s' by (simp add: copy_page_tree_def Let_def)
  moreover have "get_table_entry t v ?s' = cow mode (get_table_entry tree v s)"
    "get_table_entry tree v ?s' = cow mode (get_table_entry tree v s)" for v
    using copied_entries [OF c(2) nz(1) dir_index_less tab_index_less] nz(2,3) e e'
    by (simp_all add: get_table_entry_eq)
  moreover have "pool ?s' vs" using c(3) by (simp add: pool_def)
  ultimately show ?thesis using ps by auto
qed

section \<open>Witnesses\<close>

text \<open>A tree at 0x1000 with one page table at 0x2000, which maps the page 0x3000 at 0x5000; the pages
  0x4000, 0x5000 and 0x6000 are free.\<close>

definition tree_example :: mm where
  "tree_example = \<lparr>mem = (\<lambda>_. 0)(0x1000 := 0x2027, 0x2014 := 0x3027, 0x4000 := 0x5000, 0x5000 := 0x6000),
     mem_base = 0, mem_end = 0x7000, mem_size = 0x7000, sbrk_size = 0,
     mem_map = [0x8000, 1, 1, 1, 0, 0, 0], free_page_count = 3, free_page_list = 0x4000,
     kernel_pdir = 0, cr3 = 0x1000, int_flag = True\<rparr>"

lemma example_pool: "pool tree_example [0x4000, 0x5000, 0x6000]"
  by (simp add: pool_def tree_example_def page_aligned_iff MAP_NR_div page_of_def All_less_Suc)

lemma example_counts: "counts_ok tree_example"
  by (simp add: counts_ok_def tree_example_def MAP_PAGE_RESERVED_def All_less_Suc)

lemma example_mem:
  assumes "j < 1024"
  shows "mem tree_example (cell 0x1000 j) = (if j = 0 then 0x2027 else 0)"
    and "mem tree_example (cell 0x2000 j) = (if j = 5 then 0x3027 else 0)"
proof -
  have al: "page_aligned 0x1000" "page_aligned 0x2000" "page_aligned 0x4000" "page_aligned 0x5000"
    by (simp_all add: page_aligned_iff)
  have c: "cell p j = cell q k \<longleftrightarrow> p = q \<and> j = k"
    if "page_aligned p" "page_aligned q" "k < 1024" for p q k using cell_inject [OF that(1,2) assms that(3)] .
  show "mem tree_example (cell 0x1000 j) = (if j = 0 then 0x2027 else 0)"
    using c [OF al(1) al(1), of 0] c [OF al(1) al(2), of 5] c [OF al(1) al(3), of 0] c [OF al(1) al(4), of 0]
    by (simp add: tree_example_def)
  show "mem tree_example (cell 0x2000 j) = (if j = 5 then 0x3027 else 0)"
    using c [OF al(2) al(1), of 0] c [OF al(2) al(2), of 5] c [OF al(2) al(3), of 0] c [OF al(2) al(4), of 0]
    by (simp add: tree_example_def)
qed

lemma example_frame: "i < 1024 \<Longrightarrow> frame tree_example 0x1000 i = (if i = 0 then 0x2000 else 0)"
  using example_mem(1) [of i] by (simp add: frame_def PAGE_MASK_def)

lemma example_entry:
  "i < 1024 \<Longrightarrow> j < 1024 \<Longrightarrow> entry tree_example 0x1000 i j = (if i = 0 \<and> j = 5 then 0x3027 else 0)"
  using example_frame [of i] example_mem(2) [of j] by (auto simp: entry_def)

lemma example_tree: "tree_ok tree_example 0x1000 [0x4000, 0x5000, 0x6000]"
  by (simp add: tree_ok_def example_frame page_aligned_iff)

lemma example_table_count: "table_count tree_example 0x1000 1024 < 3"
proof -
  have "filter (\<lambda>k. frame tree_example 0x1000 k \<noteq> 0) [0..<1024] = filter (\<lambda>k. k = 0) [0..<1024]"
    by (rule filter_cong) (simp_all add: example_frame)
  also have "\<dots> = [0]" by (simp add: upt_conv_Cons [of 0 1024] filter_empty_conv del: upt_Suc)
  finally show ?thesis by (simp add: table_count_def)
qed

theorem show_page_maps_one_page_witness:
  "\<exists>s'. show_page 0x1000 0x3000 0x7000 7 tree_example = Some s'
     \<and> get_table_entry 0x1000 0x7000 s' = 0x3007"
proof -
  have "page_aligned 0x3000" "page_aligned 0x7000" by (simp_all add: page_aligned_iff)
  then show ?thesis using show_page_maps_one_page [OF example_tree example_pool,
        where page = "0x3000" and v = "0x7000" and flags = 7] by auto
qed

theorem copy_page_tree_copies_witness:
  "\<exists>s'. copy_page_tree 0x1000 COPY_ON_WRITE tree_example = Some (0x4000, s')
     \<and> get_table_entry 0x4000 0x5000 s' = 0x3225 \<and> get_table_entry 0x1000 0x5000 s' = 0x3225"
proof -
  have "maps_used tree_example (entry tree_example 0x1000 k j)" if "k < 1024" "j < 1024" for k j
    using example_entry [OF that] by (simp add: maps_used_def PAGE_MASK_def MAP_NR_div) (simp add: tree_example_def)
  moreover have "get_table_entry 0x1000 0x5000 tree_example = 0x3027"
    by (simp add: get_table_entry_eq example_entry dir_index_less tab_index_less) (simp add: dir_index_div tab_index_mod)
  moreover have "cow COPY_ON_WRITE 0x3027 = 0x3225"
    by (simp add: cow_def PAGE_RW_def PAGE_COW_def)
  ultimately show ?thesis
    using copy_page_tree_copies [OF example_tree example_pool example_counts, where mode = COPY_ON_WRITE] example_table_count
    by fastforce
qed

end
