(* ===== verification/Mem_Init.thy ===== *)
theory Mem_Init
  imports Page_Trees
begin

text \<open>
  Start of the memory manager of the x86 kernel: \<^verbatim>\<open>init_paging\<close>, \<^verbatim>\<open>init_memory\<close> and \<^verbatim>\<open>sbrk\<close> of
  \<^verbatim>\<open>src/trunk/src/x86_mem.c\<close>.  The page tables are written through the identity map that the boot code
  left, so \<open>init_paging\<close> stores at physical addresses.  The memory map of the boot loader is read
  from memory with the layout of \<^verbatim>\<open>memory_map_t\<close> in \<^verbatim>\<open>multiboot.h\<close>; \<^verbatim>\<open>calloc\<close> is the C
  library's zeroed array.  The loops that may run on are partial functions: not returning is
  \<open>None\<close>, and the theorems show that they return.
\<close>

section \<open>Operations\<close>

definition poke :: "u32 \<Rightarrow> u32 \<Rightarrow> mm \<Rightarrow> mm" where
  "poke a x s = s\<lparr>mem := (mem s)(a := x)\<rparr>"

text \<open>The inner loop of \<^verbatim>\<open>init_paging\<close>: \<open>n\<close> entries from \<open>pg_table\<close> on.\<close>

fun fill_table :: "nat \<Rightarrow> u32 \<Rightarrow> u32 \<Rightarrow> mm \<Rightarrow> u32 \<times> u32 \<times> mm" where
  "fill_table 0 adr pg_table s = (adr, pg_table, s)"
| "fill_table (Suc n) adr pg_table s =
     (let s = (if adr < mem_end s then poke pg_table (adr OR PAGE_SHARED) s else poke pg_table 0 s)
      in fill_table n (adr + PAGE_SIZE) (pg_table + 4) s)"

partial_function (option) paging_loop ::
  "u32 \<Rightarrow> u32 \<Rightarrow> u32 \<Rightarrow> u32 option \<Rightarrow> mm \<Rightarrow> (u32 option \<times> mm) option" where
  "paging_loop adr pg_dir next_pg_table pg_table s =
     (if adr < mem_end s
      then let pg_table = next_pg_table;
               s = poke pg_dir (pg_table OR PAGE_TABLE) s;
               (adr, pg_table, s) = fill_table PTRS_PER_PAGE adr pg_table s
           in paging_loop adr (pg_dir + 4) (next_pg_table + PAGE_SIZE) (Some pg_table) s
      else Some (pg_table, s))"

text \<open>\<^verbatim>\<open>pg_table\<close> is uninitialised before the loop: \<open>None\<close>.\<close>

definition init_paging :: "mm \<Rightarrow> mm option" where
  "init_paging s =
     (let s = s\<lparr>kernel_pdir := BOOT_PAGE_DIR\<rparr>;
          next_pg_table = kernel_pdir s + PAGE_SIZE;
          pg_dir = kernel_pdir s + 4 * of_nat KERNEL_VIRT_PDINDX
      in do {
        (pg_table, s) \<leftarrow> paging_loop 0 pg_dir next_pg_table None s;
        pg_table \<leftarrow> pg_table;
        Some (poke pg_table 0 s)
      })"

record multiboot_info =
  mmap_length :: u32
  mmap_addr :: u32

text \<open>The fields \<^verbatim>\<open>size\<close>, \<^verbatim>\<open>base_addr_low\<close>, \<^verbatim>\<open>length_low\<close> and \<^verbatim>\<open>type\<close> of a
  \<^verbatim>\<open>memory_map_t\<close> have the offsets 0, 4, 12 and 20.\<close>

partial_function (option) mmap_loop :: "u32 \<Rightarrow> u32 \<Rightarrow> mm \<Rightarrow> mm option" where
  "mmap_loop mmap stop s =
     (if mmap < stop
      then let s = (if mem s (mmap + 20) = 1 \<and> mem s (mmap + 12) > mem_size s
                    then s\<lparr>mem_base := mem s (mmap + 4), mem_size := mem s (mmap + 12)\<rparr> else s)
           in mmap_loop (mmap + mem s mmap + 4) stop s
      else Some s)"

definition clip_memory :: "mm \<Rightarrow> mm option" where
  "clip_memory s = do {
     s \<leftarrow> (if mem_base s \<ge> KERNEL_PHYS_BASE \<and> mem_base s \<le> KERNEL_DATA
          then let mem_overlap = KERNEL_DATA - mem_base s
               in if mem_size s < mem_overlap then None
                  else Some (s\<lparr>mem_base := mem_base s + mem_overlap, mem_size := mem_size s - mem_overlap\<rparr>)
          else Some s);
     if mem_size s < ONE_MEGABYTE then None
     else let s = s\<lparr>mem_end := mem_base s + mem_size s\<rparr>
          in Some (if mem_end s > ONE_MEGABYTE * 1024
                   then let s = s\<lparr>mem_end := ONE_MEGABYTE * 1024\<rparr> in s\<lparr>mem_size := mem_end s - mem_base s\<rparr>
                   else s)
   }"

text \<open>The loops over the addresses \<^verbatim>\<open>0, PAGE_SIZE, ...\<close> below a limit.\<close>

definition pages_below :: "u32 \<Rightarrow> nat" where
  "pages_below limit = (unat limit + 4095) div 4096"

definition reserve_page :: "nat \<Rightarrow> mm \<Rightarrow> mm option" where
  "reserve_page k s = map_set (MAP_NR (page_of k)) MAP_PAGE_RESERVED s"

definition link_page :: "nat \<Rightarrow> mm \<Rightarrow> mm option" where
  "link_page k s = do {
     n \<leftarrow> map_at s (MAP_NR (page_of k));
     if n \<noteq> 0 then Some s
     else let s = wr (VIRT_MEM (page_of k)) (free_page_list s) s
          in Some (s\<lparr>free_page_list := page_of k, free_page_count := free_page_count s + 1\<rparr>)
   }"

definition init_memory :: "multiboot_info \<Rightarrow> mm \<Rightarrow> mm option" where
  "init_memory mbi s = do {
     let s = s\<lparr>mem_size := 0\<rparr>;
     s \<leftarrow> mmap_loop (mmap_addr mbi) (mmap_addr mbi + mmap_length mbi) s;
     s \<leftarrow> clip_memory s;
     s \<leftarrow> init_paging s;
     let s = s\<lparr>mem_map := replicate (MAP_NR (mem_end s)) 0\<rparr>;
     s \<leftarrow> for_n reserve_page 0 (pages_below KERNEL_MAPPED_SPACE) s;
     let s = s\<lparr>free_page_count := 0, free_page_list := 0\<rparr>;
     for_n link_page 0 (pages_below (mem_end s)) s
   }"

text \<open>\<open>None\<close> is the pointer -1 that reports lack of memory.\<close>

definition sbrk :: "u32 \<Rightarrow> mm \<Rightarrow> u32 option \<times> mm" where
  "sbrk increment s =
     (if KERNEL_DATA_SPACE - sbrk_size s < increment then (None, s)
      else let base = mem_base s + sbrk_size s
           in (Some (VIRT_MEM base), s\<lparr>sbrk_size := sbrk_size s + increment\<rparr>))"

definition getpagesize :: u32 where
  "getpagesize = PAGE_SIZE"

section \<open>Growing the kernel heap\<close>

fun sbrks :: "u32 list \<Rightarrow> mm \<Rightarrow> (u32 \<times> u32) list \<times> mm" where
  "sbrks [] s = ([], s)"
| "sbrks (n # ns) s =
     (case sbrk n s of (None, s) \<Rightarrow> sbrks ns s
      | (Some p, s) \<Rightarrow> (case sbrks ns s of (ps, s) \<Rightarrow> ((PHYS_MEM p, n) # ps, s)))"

text \<open>Chunks that lie one behind the other from a start address on.\<close>

fun adjacent :: "nat \<Rightarrow> (u32 \<times> u32) list \<Rightarrow> bool" where
  "adjacent a [] \<longleftrightarrow> True"
| "adjacent a ((p, n) # ps) \<longleftrightarrow> unat p = a \<and> adjacent (a + unat n) ps"

lemma KERNEL_DATA_SPACE_val: "KERNEL_DATA_SPACE = 10485760"
  by (simp add: KERNEL_DATA_SPACE_def ONE_MEGABYTE_def)

lemma sbrk_step:
  assumes "unat (sbrk_size s) \<le> 10485760" "unat (mem_base s) \<le> 2 ^ 30"
  shows "case sbrk n s of
      (None, s') \<Rightarrow> s' = s \<and> 10485760 < unat (sbrk_size s) + unat n
    | (Some p, s') \<Rightarrow> unat (PHYS_MEM p) = unat (mem_base s) + unat (sbrk_size s)
        \<and> mem_base s' = mem_base s \<and> unat (sbrk_size s') = unat (sbrk_size s) + unat n
        \<and> unat (sbrk_size s') \<le> 10485760"
proof -
  have d: "unat (KERNEL_DATA_SPACE - sbrk_size s) = 10485760 - unat (sbrk_size s)"
    using assms(1) by (subst unat_sub) (simp_all add: KERNEL_DATA_SPACE_val word_le_nat_alt)
  have b: "unat (mem_base s + sbrk_size s) = unat (mem_base s) + unat (sbrk_size s)"
    using assms by (simp add: unat_add_32)
  show ?thesis
    using assms b by (auto simp: sbrk_def word_less_nat_alt d unat_add_32 Let_def)
qed

text \<open>\<^verbatim>\<open>sbrk\<close> hands out memory below a fixed limit and never twice: with the break within the 10
  megabytes of the kernel heap, any sequence of calls, refused ones included, returns chunks that
  lie one behind the other from the break on, and the break stays within the heap.\<close>
theorem sbrk_chunks_adjacent:
  assumes "unat (sbrk_size s) \<le> 10485760" "unat (mem_base s) \<le> 2 ^ 30"
  shows "let (ps, s') = sbrks ns s in
     adjacent (unat (mem_base s) + unat (sbrk_size s)) ps \<and> unat (sbrk_size s') \<le> 10485760
     \<and> unat (sbrk_size s') = unat (sbrk_size s) + sum_list (map (unat \<circ> snd) ps)"
  using assms
proof (induction ns arbitrary: s)
  case (Cons n ns)
  show ?case
  proof (cases "sbrk n s")
    case (Pair r s1)
    show ?thesis
    proof (cases r)
      case None
      then have "s1 = s" using sbrk_step [OF Cons.prems, of n] Pair by simp
      then show ?thesis using Cons.IH [OF Cons.prems] Pair None by simp
    next
      case (Some p)
      then have s1: "unat (PHYS_MEM p) = unat (mem_base s) + unat (sbrk_size s)" "mem_base s1 = mem_base s"
        "unat (sbrk_size s1) = unat (sbrk_size s) + unat n" "unat (sbrk_size s1) \<le> 10485760"
        using sbrk_step [OF Cons.prems, of n] Pair by simp_all
      have "unat (mem_base s1) \<le> 2 ^ 30" using s1(2) Cons.prems(2) by simp
      from Cons.IH [OF s1(4) this] show ?thesis
        using Pair Some s1 by (auto simp: Let_def add.assoc split: prod.splits)
    qed
  qed
qed simp

section \<open>The kernel page tables\<close>

text \<open>The entry for page number \<open>p\<close>.\<close>

definition ident_entry :: "u32 \<Rightarrow> nat \<Rightarrow> u32" where
  "ident_entry e p = (if page_of p < e then page_of p OR PAGE_SHARED else 0)"

lemma page_of_Suc: "page_of p + PAGE_SIZE = page_of (Suc p)"
  by (simp add: page_of_def PAGE_SIZE_def algebra_simps)

lemma cell_Suc: "cell q j + 4 = cell q (Suc j)"
  by (simp add: algebra_simps)

lemma fill_table_spec:
  assumes "page_aligned q" "j + n \<le> 1024"
  shows "\<exists>m. fill_table n (page_of p) (cell q j) s = (page_of (p + n), cell q (j + n), s\<lparr>mem := m\<rparr>)
     \<and> (\<forall>i. j \<le> i \<and> i < j + n \<longrightarrow> m (cell q i) = ident_entry (mem_end s) (p + (i - j)))
     \<and> (\<forall>a. (\<forall>i. j \<le> i \<and> i < j + n \<longrightarrow> a \<noteq> cell q i) \<longrightarrow> m a = mem s a)"
  using assms(2)
proof (induction n arbitrary: p j s)
  case 0
  show ?case by (intro exI [of _ "mem s"]) auto
next
  case (Suc n)
  let ?s = "poke (cell q j) (ident_entry (mem_end s) p) s"
  have st: "fill_table (Suc n) (page_of p) (cell q j) s = fill_table n (page_of (Suc p)) (cell q (Suc j)) ?s"
    unfolding page_of_Suc [symmetric] cell_Suc [symmetric] by (simp add: ident_entry_def)
  obtain m where m: "fill_table n (page_of (Suc p)) (cell q (Suc j)) ?s
      = (page_of (Suc p + n), cell q (Suc j + n), ?s\<lparr>mem := m\<rparr>)"
    and new: "\<And>i. Suc j \<le> i \<Longrightarrow> i < Suc j + n \<Longrightarrow> m (cell q i) = ident_entry (mem_end ?s) (Suc p + (i - Suc j))"
    and old: "\<And>a. (\<forall>i. Suc j \<le> i \<and> i < Suc j + n \<longrightarrow> a \<noteq> cell q i) \<Longrightarrow> m a = mem ?s a"
    using Suc.IH [of "Suc j" "Suc p" ?s] Suc.prems by auto
  have j: "cell q j \<noteq> cell q i" if "Suc j \<le> i" "i < Suc j + n" for i
    using cell_inject [OF assms(1) assms(1), of j i] that Suc.prems by simp
  have "m (cell q i) = ident_entry (mem_end s) (p + (i - j))" if "j \<le> i" "i < j + Suc n" for i
  proof (cases "i = j")
    case True
    then show ?thesis using old [of "cell q j"] j by (simp add: poke_def)
  next
    case False
    then show ?thesis using new [of i] that by (simp add: poke_def Suc_diff_Suc)
  qed
  moreover have "m a = mem s a" if "\<forall>i. j \<le> i \<and> i < j + Suc n \<longrightarrow> a \<noteq> cell q i" for a
    using old [of a] that by (simp add: poke_def)
  moreover have "fill_table (Suc n) (page_of p) (cell q j) s
      = (page_of (p + Suc n), cell q (j + Suc n), s\<lparr>mem := m\<rparr>)"
    unfolding st m by (simp add: poke_def)
  ultimately show ?case by blast
qed

lemma fill_whole_table:
  assumes "page_aligned q"
  shows "\<exists>m. fill_table PTRS_PER_PAGE (page_of p) q s = (page_of (p + 1024), q + PAGE_SIZE, s\<lparr>mem := m\<rparr>)
     \<and> (\<forall>j < 1024. m (cell q j) = ident_entry (mem_end s) (p + j))
     \<and> (\<forall>a. a \<notin> page_cells q \<longrightarrow> m a = mem s a)"
  using fill_table_spec [OF assms, of 0 1024 p s] cell_of_page [of _ q]
  by (auto simp: PTRS_PER_PAGE_def PAGE_SIZE_def) (metis cell_in_page)

text \<open>Page table \<open>i\<close> of the kernel, behind entry \<open>768 + i\<close> of the directory.\<close>

definition ktable :: "nat \<Rightarrow> u32" where
  "ktable i = page_of (17 + i)"

definition tables_for :: "u32 \<Rightarrow> nat" where
  "tables_for e = (unat e + 4194303) div 4194304"

abbreviation kdir :: u32 where
  "kdir \<equiv> page_of 16"

lemma ktable_facts:
  assumes "i \<le> 256"
  shows "page_aligned (ktable i)" "ktable i \<noteq> kdir" "ktable i + PAGE_SIZE = ktable (Suc i)" "ktable i \<noteq> 0"
    and "k \<le> 256 \<Longrightarrow> ktable k = ktable i \<longleftrightarrow> k = i"
proof -
  have "unat (page_of 0) \<noteq> unat (ktable i)" using assms by (simp add: ktable_def unat_page_of)
  then show "ktable i \<noteq> 0" by (auto simp: page_of_def)
qed (use assms in \<open>simp_all add: ktable_def page_of_Suc page_of_inject\<close>)

lemma kdir_val: "kdir = 0x10000" "page_aligned kdir" "BOOT_PAGE_DIR = kdir"
  by (simp_all add: page_of_def BOOT_PAGE_DIR_def page_aligned_iff)

definition paged :: "u32 \<Rightarrow> nat \<Rightarrow> nat \<Rightarrow> (u32 \<Rightarrow> u32) \<Rightarrow> (u32 \<Rightarrow> u32) \<Rightarrow> bool" where
  "paged e k n m m' \<longleftrightarrow>
     (\<forall>i. k \<le> i \<and> i < n \<longrightarrow> m' (cell kdir (768 + i)) = ktable i OR PAGE_TABLE
        \<and> (\<forall>j < 1024. m' (cell (ktable i) j) = ident_entry e (1024 * i + j)))
     \<and> (\<forall>a. (\<forall>i. k \<le> i \<and> i < n \<longrightarrow> a \<noteq> cell kdir (768 + i) \<and> a \<notin> page_cells (ktable i)) \<longrightarrow> m' a = m a)"

lemma tables_for_less: "k \<le> 256 \<Longrightarrow> page_of (1024 * k) < e \<longleftrightarrow> k < tables_for e"
proof -
  assume k: "k \<le> 256"
  have "page_of (1024 * k) < e \<longleftrightarrow> 4194304 * k < unat e"
    using k unat_page_of [of "1024 * k"] by (simp add: word_less_nat_alt)
  also have "\<dots> \<longleftrightarrow> k < tables_for e" unfolding tables_for_def by linarith
  finally show ?thesis .
qed

lemma tables_for_le: "unat e \<le> 2 ^ 30 \<Longrightarrow> tables_for e \<le> 256"
  unfolding tables_for_def by simp

lemma paged_step:
  assumes k: "k < n" "n \<le> 256" and rest: "paged e (Suc k) n m1 m'"
    and tab: "\<And>j. j < 1024 \<Longrightarrow> m1 (cell (ktable k) j) = ident_entry e (1024 * k + j)"
    and dir: "m1 (cell kdir (768 + k)) = ktable k OR PAGE_TABLE"
    and old: "\<And>a. a \<notin> page_cells (ktable k) \<Longrightarrow> a \<noteq> cell kdir (768 + k) \<Longrightarrow> m1 a = m a"
  shows "paged e k n m m'"
proof -
  have apart: "cell kdir (768 + k) \<noteq> cell kdir (768 + i) \<and> cell kdir (768 + k) \<notin> page_cells (ktable i)
      \<and> cell (ktable k) j \<noteq> cell kdir (768 + i) \<and> cell (ktable k) j \<notin> page_cells (ktable i)"
    if "Suc k \<le> i" "i < n" "j < 1024" for i j
  proof -
    have b: "768 + k < 1024" "768 + i < 1024" "i \<le> 256" "k \<le> 256" "k \<noteq> i" using that k by auto
    note K = ktable_facts [OF b(3)] and L = ktable_facts [OF b(4)]
    show ?thesis
      using cell_inject [OF kdir_val(2) kdir_val(2) b(1,2)] cell_apart [OF kdir_val(2) K(1) K(2) [symmetric] b(1)]
        cell_inject [OF L(1) kdir_val(2) that(3) b(2)] cell_apart [OF L(1) K(1) _ that(3)] L(2) K(5) [OF b(4)] b(5)
      by auto
  qed
  have keep: "m' (cell kdir (768 + k)) = m1 (cell kdir (768 + k))" "j < 1024 \<Longrightarrow> m' (cell (ktable k) j) = m1 (cell (ktable k) j)" for j
    using rest apart [of _ 0] apart [of _ j] unfolding paged_def by (simp, blast)
  have "m' (cell kdir (768 + i)) = ktable i OR PAGE_TABLE \<and> (\<forall>j < 1024. m' (cell (ktable i) j) = ident_entry e (1024 * i + j))"
    if "k \<le> i" "i < n" for i
    using rest keep tab dir that by (cases "i = k") (simp_all add: paged_def)
  moreover have "m' a = m a" if "\<forall>i. k \<le> i \<and> i < n \<longrightarrow> a \<noteq> cell kdir (768 + i) \<and> a \<notin> page_cells (ktable i)" for a
    using rest old [of a] that k(1) by (simp add: paged_def)
  ultimately show ?thesis by (simp add: paged_def)
qed

lemma paging_loop_spec:
  assumes "unat (mem_end s) \<le> 2 ^ 30" "n = tables_for (mem_end s)" "k \<le> n"
  shows "\<exists>m. paging_loop (page_of (1024 * k)) (cell kdir (768 + k)) (ktable k) pt s
        = Some (if k < n then Some (ktable n) else pt, s\<lparr>mem := m\<rparr>) \<and> paged (mem_end s) k n (mem s) m"
  using assms
proof (induction "n - k" arbitrary: k s pt)
  case 0
  then have "\<not> page_of (1024 * k) < mem_end s" using tables_for_less [of k "mem_end s"] tables_for_le by simp
  then have "paging_loop (page_of (1024 * k)) (cell kdir (768 + k)) (ktable k) pt s = Some (pt, s)"
    by (subst paging_loop.simps) simp
  then show ?case using 0 by (intro exI [of _ "mem s"]) (auto simp: paged_def)
next
  case (Suc d)
  have n: "n \<le> 256" "k < n" "k \<le> 256" using Suc.hyps(2) Suc.prems(1,2) tables_for_le [of "mem_end s"] by auto
  then have lt: "page_of (1024 * k) < mem_end s" using tables_for_less [of k] Suc.prems(2) by simp
  note K = ktable_facts [OF n(3)]
  let ?s = "poke (cell kdir (768 + k)) (ktable k OR PAGE_TABLE) s"
  obtain m1 where fl: "fill_table PTRS_PER_PAGE (page_of (1024 * k)) (ktable k) ?s
      = (page_of (1024 * k + 1024), ktable k + PAGE_SIZE, ?s\<lparr>mem := m1\<rparr>)"
    and tab: "\<forall>j < 1024. m1 (cell (ktable k) j) = ident_entry (mem_end ?s) (1024 * k + j)"
    and old: "\<forall>a. a \<notin> page_cells (ktable k) \<longrightarrow> m1 a = mem ?s a"
    using fill_whole_table [OF K(1)] by blast
  let ?s1 = "?s\<lparr>mem := m1\<rparr>"
  have st: "paging_loop (page_of (1024 * k)) (cell kdir (768 + k)) (ktable k) pt s
      = paging_loop (page_of (1024 * Suc k)) (cell kdir (768 + Suc k)) (ktable (Suc k)) (Some (ktable (Suc k))) ?s1"
  proof -
    have "1024 * k + 1024 = 1024 * Suc k" "cell kdir (768 + k) + 4 = cell kdir (768 + Suc k)"
      by (simp_all add: algebra_simps)
    then show ?thesis using lt by (subst paging_loop.simps) (simp only: if_True Let_def fl prod.case K(3))
  qed
  have me: "mem_end ?s1 = mem_end s" "mem ?s1 = m1" by (simp_all add: poke_def)
  have d: "d = n - Suc k" using Suc.hyps(2) by simp
  obtain m where m: "paging_loop (page_of (1024 * Suc k)) (cell kdir (768 + Suc k)) (ktable (Suc k)) (Some (ktable (Suc k))) ?s1
        = Some (if Suc k < n then Some (ktable n) else Some (ktable (Suc k)), ?s1\<lparr>mem := m\<rparr>)"
    "paged (mem_end s) (Suc k) n m1 m"
    using Suc.hyps(1) [OF d, of ?s1 "Some (ktable (Suc k))", unfolded me] Suc.prems(1,2) n(2) Suc_leI by blast
  have "cell kdir (768 + k) \<notin> page_cells (ktable k)"
    by (rule cell_apart [OF kdir_val(2) K(1) K(2) [symmetric]]) (use n in simp)
  then have "paged (mem_end s) k n (mem s) m"
    using tab old by (intro paged_step [OF n(2,1) m(2)]) (simp_all add: poke_def)
  moreover have "(if Suc k < n then Some (ktable n) else Some (ktable (Suc k))) = Some (ktable n)"
    using n(2) by (cases "Suc k = n") auto
  ultimately show ?case using n(2) unfolding st m(1) by (intro exI [of _ m]) (simp add: poke_def)
qed

lemma virt_index:
  assumes "unat a < 2 ^ 30"
  shows "dir_index (VIRT_MEM a) = 768 + unat a div 4194304" "tab_index (VIRT_MEM a) = unat a div 4096 mod 1024"
proof -
  have u: "unat (VIRT_MEM a) = unat a + 4194304 * 768"
    using assms by (simp add: VIRT_MEM_def PAGE_OFFSET_def unat_add_32)
  show "dir_index (VIRT_MEM a) = 768 + unat a div 4194304"
    unfolding dir_index_div u by simp
  have "(unat a + 4194304 * 768) div 4096 = unat a div 4096 + 1024 * 768" by simp
  then show "tab_index (VIRT_MEM a) = unat a div 4096 mod 1024"
    unfolding tab_index_mod u by (simp only: mod_mult_self2)
qed

lemma init_paging_eq:
  assumes "0 < mem_end s" "unat (mem_end s) \<le> 2 ^ 30"
  defines "n \<equiv> tables_for (mem_end s)"
  obtains m where "init_paging s = Some (s\<lparr>kernel_pdir := kdir, mem := m(ktable n := 0)\<rparr>)"
    and "paged (mem_end s) 0 n (mem s) m" and "0 < n" "n \<le> 256"
proof -
  let ?s = "s\<lparr>kernel_pdir := kdir\<rparr>"
  have n: "0 < n" "n \<le> 256" "n = tables_for (mem_end ?s)"
    using assms tables_for_less [of 0 "mem_end s"] tables_for_le by (simp_all add: page_of_def n_def)
  have "\<exists>m. paging_loop (page_of (1024 * 0)) (cell kdir (768 + 0)) (ktable 0) None ?s
        = Some (if 0 < n then Some (ktable n) else None, ?s\<lparr>mem := m\<rparr>) \<and> paged (mem_end ?s) 0 n (mem ?s) m"
    using paging_loop_spec [of ?s n 0 None] n assms(2) by simp
  then obtain m where m: "paging_loop (page_of (1024 * 0)) (cell kdir (768 + 0)) (ktable 0) None ?s
        = Some (Some (ktable n), ?s\<lparr>mem := m\<rparr>)" "paged (mem_end s) 0 n (mem s) m" using n(1) by auto
  have "page_of 0 = 0" by (simp add: page_of_def)
  moreover have "ktable 0 = kdir + PAGE_SIZE" by (simp add: ktable_def page_of_def PAGE_SIZE_def)
  ultimately have "init_paging s = Some (s\<lparr>kernel_pdir := kdir, mem := m(ktable n := 0)\<rparr>)"
    using m(1) by (simp add: init_paging_def Let_def kdir_val(3) KERNEL_VIRT_PDINDX_def poke_def)
  then show ?thesis using that m(2) n(1,2) by blast
qed

text \<open>C36: \<^verbatim>\<open>init_paging\<close> returns for every memory of up to one gigabyte, and the kernel page tree then maps
  the whole memory into the kernel's window: the entry for the virtual address of each page is the
  page with the flags \<^verbatim>\<open>PAGE_SHARED\<close>.  This includes page 0, which the comment at the end of the
  function says is unmapped: the pointer it uses stands behind the last page table by then.\<close>
theorem init_paging_identity:
  assumes "0 < mem_end s" "unat (mem_end s) \<le> 2 ^ 30"
  shows "\<exists>s'. init_paging s = Some s' \<and> kernel_pdir s' = 0x10000 \<and> mem_end s' = mem_end s
     \<and> (\<forall>a. page_aligned a \<and> a < mem_end s \<longrightarrow>
          get_table_entry (kernel_pdir s') (VIRT_MEM a) s' = a OR PAGE_SHARED)"
proof -
  obtain m where i: "init_paging s = Some (s\<lparr>kernel_pdir := kdir, mem := m(ktable (tables_for (mem_end s)) := 0)\<rparr>)"
    and pg: "paged (mem_end s) 0 (tables_for (mem_end s)) (mem s) m"
    and n: "0 < tables_for (mem_end s)" "tables_for (mem_end s) \<le> 256"
    using init_paging_eq [OF assms] .
  let ?n = "tables_for (mem_end s)"
  let ?s = "s\<lparr>kernel_pdir := kdir, mem := m(ktable ?n := 0)\<rparr>"
  have "get_table_entry kdir (VIRT_MEM a) ?s = a OR PAGE_SHARED" if a: "page_aligned a" "a < mem_end s" for a
  proof -
    define k j where "k = unat a div 4194304" and "j = unat a div 4096 mod 1024"
    have ua: "unat a < unat (mem_end s)" using a(2) by (simp add: word_less_nat_alt)
    then have k: "k < ?n" unfolding tables_for_def k_def by linarith
    have bd: "k \<le> 256" "768 + k < 1024" "j < 1024" using k n(2) by (simp_all add: j_def)
    note K = ktable_facts [OF bd(1)] and N = ktable_facts [OF n(2)]
    have d: "m (cell kdir (768 + k)) = ktable k OR PAGE_TABLE" "m (cell (ktable k) j) = ident_entry (mem_end s) (1024 * k + j)"
      using pg k bd(3) by (simp_all add: paged_def)
    have c: "cell kdir (768 + k) \<noteq> ktable ?n" "cell (ktable k) j \<noteq> ktable ?n"
      using cell_inject [OF kdir_val(2) N(1) bd(2), of 0] cell_inject [OF K(1) N(1) bd(3), of 0] N(2,5) bd(1) k by auto
    have "1024 * k + j = MAP_NR a"
      using div_mult2_eq [of "unat a" 4096 1024] by (simp add: k_def j_def MAP_NR_div)
    then have "ident_entry (mem_end s) (1024 * k + j) = a OR PAGE_SHARED"
      using a by (simp add: ident_entry_def page_of_MAP_NR)
    moreover have "dir_index (VIRT_MEM a) = 768 + k" "tab_index (VIRT_MEM a) = j"
      using virt_index [of a] ua assms(2) by (simp_all add: k_def j_def)
    moreover have "frame ?s kdir (768 + k) = ktable k"
      using d(1) c(1) table_flags_frame(2) [OF K(1)] by (simp add: frame_def)
    ultimately show ?thesis
      using d(2) c(2) K(4) by (simp add: get_table_entry_eq kdir_val(1) entry_def)
  qed
  then show ?thesis using i by (simp add: kdir_val(1))
qed

text \<open>With more than 956 megabytes of memory the page tables that \<^verbatim>\<open>init_paging\<close> writes from
  0x11000 upwards reach the kernel: the word at \<^verbatim>\<open>KERNEL_PHYS_BASE\<close>, where the kernel image starts,
  is overwritten by a page table entry.\<close>
theorem init_paging_overwrites_kernel:
  assumes "956 * 2 ^ 20 < unat (mem_end s)" "unat (mem_end s) \<le> 2 ^ 30"
  shows "\<exists>s'. init_paging s = Some s' \<and> mem s' KERNEL_PHYS_BASE = (956 * ONE_MEGABYTE) OR PAGE_SHARED"
proof -
  have e: "0 < mem_end s" using assms(1) by (simp add: word_less_nat_alt)
  obtain m where i: "init_paging s = Some (s\<lparr>kernel_pdir := kdir, mem := m(ktable (tables_for (mem_end s)) := 0)\<rparr>)"
    and pg: "paged (mem_end s) 0 (tables_for (mem_end s)) (mem s) m"
    and n: "0 < tables_for (mem_end s)" "tables_for (mem_end s) \<le> 256"
    using init_paging_eq [OF e assms(2)] .
  have "1002438656 < unat (mem_end s)" using assms(1) by simp
  then have l: "239 < tables_for (mem_end s)" unfolding tables_for_def by linarith
  have p: "page_of (1024 * 239) < mem_end s" using tables_for_less [of 239 "mem_end s"] l by simp
  have k: "ktable 239 = KERNEL_PHYS_BASE" by (simp add: ktable_def page_of_def KERNEL_PHYS_BASE_def)
  have "m (cell (ktable 239) 0) = ident_entry (mem_end s) (1024 * 239 + 0)"
    using pg l unfolding paged_def by (metis zero_le zero_less_numeral)
  then have "m KERNEL_PHYS_BASE = (956 * ONE_MEGABYTE) OR PAGE_SHARED"
    using p k by (simp add: ident_entry_def page_of_def ONE_MEGABYTE_def)
  moreover have "ktable (tables_for (mem_end s)) \<noteq> KERNEL_PHYS_BASE"
    using ktable_facts(5) [of 239 "tables_for (mem_end s)"] n(2) l k by auto
  ultimately show ?thesis using i by simp
qed

section \<open>The memory map of the boot loader\<close>

text \<open>Regions as the boot loader lays them out: base, length and type; \<^verbatim>\<open>size\<close> leads to the next.\<close>

fun mmap_at :: "(u32 \<Rightarrow> u32) \<Rightarrow> u32 \<Rightarrow> u32 \<Rightarrow> (u32 \<times> u32 \<times> u32) list \<Rightarrow> bool" where
  "mmap_at m a stop [] \<longleftrightarrow> \<not> a < stop"
| "mmap_at m a stop ((b, l, t) # rs) \<longleftrightarrow> a < stop \<and> m (a + 4) = b \<and> m (a + 12) = l \<and> m (a + 20) = t
     \<and> mmap_at m (a + m a + 4) stop rs"

fun best_region :: "(u32 \<times> u32 \<times> u32) list \<Rightarrow> u32 \<times> u32 \<Rightarrow> u32 \<times> u32" where
  "best_region [] best = best"
| "best_region ((b, l, t) # rs) best =
     best_region rs (if t = 1 \<and> snd best < l then (b, l) else best)"

lemma mmap_loop_best:
  "mmap_at (mem s) a stop rs \<Longrightarrow> mmap_loop a stop s =
     Some (s\<lparr>mem_base := fst (best_region rs (mem_base s, mem_size s)),
             mem_size := snd (best_region rs (mem_base s, mem_size s))\<rparr>)"
proof (induction rs arbitrary: a s)
  case Nil
  then show ?case by (subst mmap_loop.simps) simp
next
  case (Cons r rs)
  obtain b l t where r: "r = (b, l, t)" by (cases r)
  let ?s = "if t = 1 \<and> mem_size s < l then s\<lparr>mem_base := b, mem_size := l\<rparr> else s"
  have "mmap_loop a stop s = mmap_loop (a + mem s a + 4) stop ?s"
    using Cons.prems by (subst mmap_loop.simps) (simp add: r Let_def)
  also have "\<dots> = Some (?s\<lparr>mem_base := fst (best_region rs (mem_base ?s, mem_size ?s)),
             mem_size := snd (best_region rs (mem_base ?s, mem_size ?s))\<rparr>)"
    by (rule Cons.IH) (use Cons.prems r in simp)
  finally show ?case by (simp add: r)
qed

lemma best_region_max:
  "snd best \<le> snd (best_region rs best)
   \<and> (\<forall>(b, l, t) \<in> set rs. t = 1 \<longrightarrow> l \<le> snd (best_region rs best))
   \<and> (best_region rs best = best \<or> (\<exists>b l. (b, l, 1) \<in> set rs \<and> best_region rs best = (b, l)))"
proof (induction rs arbitrary: best)
  case (Cons r rs)
  obtain b l t where r: "r = (b, l, t)" by (cases r)
  show ?case
  proof (cases "t = 1 \<and> snd best < l")
    case True
    then show ?thesis using Cons.IH [of "(b, l)"] unfolding r by (auto 4 4)
  next
    case False
    then have "t = 1 \<Longrightarrow> l \<le> snd best" by auto
    then show ?thesis using False Cons.IH [of best] unfolding r by (auto 4 4)
  qed
qed simp

section \<open>The initial pool\<close>

definition reserved_pages :: nat where
  "reserved_pages = pages_below KERNEL_MAPPED_SPACE"

lemma reserved_pages_val: "reserved_pages = 4352"
  by (simp add: reserved_pages_def pages_below_def KERNEL_MAPPED_SPACE_def KERNEL_PHYS_BASE_def
      KERNEL_DATA_SPACE_def ONE_MEGABYTE_def)

lemma reserve_loop:
  assumes "4352 \<le> length (mem_map s)"
  shows "for_n reserve_page 0 4352 s =
     Some (s\<lparr>mem_map := replicate 4352 MAP_PAGE_RESERVED @ drop 4352 (mem_map s)\<rparr>)"
proof -
  have "\<exists>s'. for_n reserve_page 0 4352 s = Some s'
      \<and> s' = s\<lparr>mem_map := replicate (0 + 4352) MAP_PAGE_RESERVED @ drop (0 + 4352) (mem_map s)\<rparr>"
  proof (rule for_n_inv)
    fix k s' assume k: "k < 0 + 4352"
      and s': "s' = s\<lparr>mem_map := replicate k MAP_PAGE_RESERVED @ drop k (mem_map s)\<rparr>"
    have "(replicate k MAP_PAGE_RESERVED @ drop k (mem_map s))[k := MAP_PAGE_RESERVED]
        = replicate (Suc k) MAP_PAGE_RESERVED @ drop (Suc k) (mem_map s)"
    proof -
      have "drop k (mem_map s) = mem_map s ! k # drop (Suc k) (mem_map s)"
        using k assms by (simp add: Cons_nth_drop_Suc)
      then show ?thesis by (simp add: list_update_append replicate_app_Cons_same)
    qed
    then show "\<exists>s''. reserve_page k s' = Some s'' \<and> s'' = s\<lparr>mem_map := replicate (Suc k) MAP_PAGE_RESERVED @ drop (Suc k) (mem_map s)\<rparr>"
      using k assms by (simp add: reserve_page_def map_set_def s')
  qed simp
  then show ?thesis by simp
qed

lemma link_loop:
  assumes len: "length (mem_map s) = N" "N \<le> 2 ^ 18" "4352 < N"
    and map: "mem_map s = replicate 4352 MAP_PAGE_RESERVED @ replicate (N - 4352) 0"
    and start: "free_page_list s = 0" "free_page_count s = 0"
  shows "\<exists>s'. for_n link_page 0 N s = Some s' \<and> linked (mem s') (free_page_list s') (map page_of (rev [4352..<N]))
     \<and> free_page_count s' = of_nat (N - 4352) \<and> mem_map s' = mem_map s \<and> mem_end s' = mem_end s"
proof -
  define I where "I = (\<lambda>k (s' :: mm). linked (mem s') (free_page_list s') (map page_of (rev [4352..<k]))
     \<and> free_page_count s' = of_nat (k - 4352) \<and> mem_map s' = mem_map s \<and> mem_end s' = mem_end s)"
  have "\<exists>s'. for_n link_page 0 N s = Some s' \<and> I (0 + N) s'"
  proof (rule for_n_inv)
    show "I 0 s" using start by (simp add: I_def)
    fix k s' assume "k < 0 + N" and I: "I k s'"
    then have k: "k < N" "k < 1048576" using len(2) by simp_all
    have at: "map_at s' (MAP_NR (page_of k)) = Some (if k < 4352 then MAP_PAGE_RESERVED else 0)"
      using k I len(1) by (simp add: map_at_def I_def map nth_append)
    show "\<exists>s''. link_page k s' = Some s'' \<and> I (Suc k) s''"
    proof (cases "k < 4352")
      case True
      then show ?thesis using at I by (simp add: link_page_def MAP_PAGE_RESERVED_def I_def)
    next
      case False
      let ?m = "(mem s')(page_of k := free_page_list s')"
      have "page_of j \<noteq> page_of k" if "j < k" for j using that k by (simp add: page_of_inject)
      then have "linked ?m (free_page_list s') (map page_of (rev [4352..<k]))"
        using I by (subst linked_cong [where m = "mem s'"]) (auto simp: I_def)
      moreover have "page_of k \<noteq> page_of 0" using k False by (simp add: page_of_inject)
      then have "page_of k \<noteq> 0" by (simp add: page_of_def)
      ultimately show ?thesis using False at I by (auto simp: link_page_def Let_def wr_def I_def Suc_diff_le)
    qed
  qed
  then show ?thesis by (simp add: I_def)
qed

lemma of_nat_nonzero: "0 < n \<Longrightarrow> n < 2 ^ 32 \<Longrightarrow> (of_nat n :: u32) \<noteq> 0"
  by (simp add: word_unat_eq_iff unat_of_nat take_bit_eq_mod)

lemma initial_pool:
  assumes "page_aligned e" "e = mem_end s" "unat e \<le> 2 ^ 30" "4352 < MAP_NR e"
    and "linked (mem s) (free_page_list s) (map page_of (rev [4352..<MAP_NR e]))"
    and "free_page_count s = of_nat (MAP_NR e - 4352)"
    and "mem_map s = replicate 4352 MAP_PAGE_RESERVED @ replicate (MAP_NR e - 4352) 0"
  shows "pool s (map page_of (rev [4352..<MAP_NR e]))"
proof -
  let ?N = "MAP_NR e"
  have N: "?N \<le> 262144" "length (mem_map s) = ?N" using assms(3,4,7) by (simp_all add: MAP_NR_div)
  have e: "unat e = 4096 * ?N" using page_of_MAP_NR [OF assms(1)] unat_page_of [of ?N] N(1) by simp
  have "inj_on page_of {4352..<?N}" using N(1) by (intro inj_onI) (auto simp: page_of_inject)
  then have dist: "distinct (map page_of (rev [4352..<?N]))" by (simp add: distinct_map)
  have z: "mem_map s ! i = 0 \<longleftrightarrow> page_of i \<in> set (map page_of (rev [4352..<?N]))" if "i < ?N" for i
  proof -
    have "page_of i \<in> page_of ` {4352..<?N} \<longleftrightarrow> i \<in> {4352..<?N}"
      using that N(1) by (auto simp: page_of_inject)
    then show ?thesis using that by (simp add: assms(7) nth_append MAP_PAGE_RESERVED_def)
  qed
  have "(of_nat (?N - 4352) :: u32) \<noteq> 0"
    using assms(4) N(1) by (intro of_nat_nonzero) auto
  moreover have "page_of i < mem_end s" if "i < ?N" for i
    using that N(1) e assms(2) by (simp add: word_less_nat_alt unat_page_of)
  ultimately show ?thesis using N assms(5,6) dist z unfolding pool_def by auto
qed

lemma clip_memory_spec:
  assumes b: "0x100000 \<le> unat (mem_base s)" "unat (mem_base s) \<le> 0x300000"
    and l: "0x400000 \<le> unat (mem_base s) + unat (mem_size s)" "unat (mem_base s) + unat (mem_size s) < 2 ^ 32"
  defines "lim \<equiv> min (unat (mem_base s) + unat (mem_size s)) (2 ^ 30)"
  shows "\<exists>s'. clip_memory s = Some s' \<and> unat (mem_end s') = lim \<and> mem_base s' = KERNEL_DATA
     \<and> unat (mem_base s') + unat (mem_size s') = lim"
proof -
  let ?o = "KERNEL_DATA - mem_base s"
  have kd: "unat KERNEL_DATA = 0x300000" by (simp add: KERNEL_DATA_def KERNEL_PHYS_BASE_def ONE_MEGABYTE_def)
  have o: "unat ?o = 0x300000 - unat (mem_base s)" using b(2) kd by (subst unat_sub) (simp_all add: word_le_nat_alt)
  have sz: "unat (mem_size s - ?o) = unat (mem_size s) - unat ?o"
    using l o by (subst unat_sub) (simp_all add: word_le_nat_alt)
  have en: "unat (KERNEL_DATA + (mem_size s - ?o)) = unat (mem_base s) + unat (mem_size s)"
    using l o sz kd b by (simp add: unat_add_32)
  have c: "mem_base s \<ge> KERNEL_PHYS_BASE \<and> mem_base s \<le> KERNEL_DATA" "\<not> mem_size s < ?o" "\<not> mem_size s - ?o < ONE_MEGABYTE"
    using b l o sz kd by (auto simp: word_le_nat_alt word_less_nat_alt KERNEL_PHYS_BASE_def ONE_MEGABYTE_def)
  have g: "ONE_MEGABYTE * 1024 = 0x40000000" by (simp add: ONE_MEGABYTE_def)
  have d: "unat (0x40000000 - KERNEL_DATA) = 0x40000000 - 0x300000" using kd by (subst unat_sub) (simp_all add: word_le_nat_alt)
  show ?thesis
    using c en sz o kd d l b by (auto simp: clip_memory_def Let_def g lim_def word_less_nat_alt min_def)
qed


lemma for_n_Suc_last: "for_n f i (Suc n) s = do { s \<leftarrow> for_n f i n s; f (i + n) s }"
proof (induction n arbitrary: i s)
  case 0
  show ?case by (cases "f i s") auto
next
  case (Suc n)
  show ?case using Suc.IH [of "Suc i"] by (cases "f i s") auto
qed

text \<open>A memory that does not end on a page boundary stops \<^verbatim>\<open>init_memory\<close>: \<^verbatim>\<open>mem_map\<close> is allocated
  with one element per whole page, but the loop that builds the free list also visits the
  incomplete last page and accesses the element behind the array.\<close>
theorem init_memory_partial_page:
  assumes rs: "mmap_at (mem s) (mmap_addr mbi) (mmap_addr mbi + mmap_length mbi) rs"
    and best: "best_region rs (mem_base s, 0) = (b, l)"
    and b: "0x100000 \<le> unat b" "unat b \<le> 0x300000"
    and top: "4353 * 4096 \<le> unat b + unat l" "unat b + unat l < 2 ^ 30" "(unat b + unat l) mod 4096 \<noteq> 0"
  shows "init_memory mbi s = None"
proof -
  define n where "n = (unat b + unat l) div 4096"
  let ?s1 = "s\<lparr>mem_size := l, mem_base := b\<rparr>"
  have n: "4352 < n" "n < 262144" using top(1,2) by (simp_all add: n_def)
  have m: "mmap_loop (mmap_addr mbi) (mmap_addr mbi + mmap_length mbi) (s\<lparr>mem_size := 0\<rparr>) = Some ?s1"
    using mmap_loop_best [of "s\<lparr>mem_size := 0\<rparr>"] rs best by simp
  obtain s2 where s2: "clip_memory ?s1 = Some s2" "unat (mem_end s2) = unat b + unat l"
    using clip_memory_spec [of ?s1] b top(1,2) by auto
  have e: "MAP_NR (mem_end s2) = n" "0 < mem_end s2" "unat (mem_end s2) \<le> 2 ^ 30"
    using s2(2) top(1,2) by (auto simp: MAP_NR_div n_def word_less_nat_alt)
  obtain s3 where s3: "init_paging s2 = Some s3" "mem_end s3 = mem_end s2"
    by (rule init_paging_eq [OF e(2,3)]) simp
  let ?s4 = "s3\<lparr>mem_map := replicate 4352 MAP_PAGE_RESERVED @ replicate (n - 4352) 0, free_page_count := 0, free_page_list := 0\<rparr>"
  obtain s5 where s5: "for_n link_page 0 n ?s4 = Some s5" "mem_map s5 = mem_map ?s4"
    using link_loop [of ?s4 n] n by auto
  have "unat b + unat l + 4095 = 4096 * Suc n + ((unat b + unat l) mod 4096 - 1)"
    using top(3) div_mult_mod_eq [of "unat b + unat l" 4096] by (simp add: n_def)
  moreover have "(unat b + unat l) mod 4096 - 1 < 4096"
    using mod_less_divisor [of 4096 "unat b + unat l"] by linarith
  ultimately have pb: "pages_below (mem_end s2) = Suc n"
    unfolding pages_below_def s2(2) by (metis div_mult_self4 div_less add_cancel_left_right add.commute numeral_neq_zero)
  have "link_page n s5 = None" using s5(2) n by (simp add: link_page_def map_at_def)
  then have "for_n link_page 0 (Suc n) ?s4 = None" using s5(1) unfolding for_n_Suc_last by simp
  then show ?thesis
    using m s2(1) s3 e(1) pb n(1) reserve_loop [of "s3\<lparr>mem_map := replicate n 0\<rparr>"]
    by (simp add: init_memory_def Let_def reserved_pages_val [unfolded reserved_pages_def])
qed

section \<open>Witnesses\<close>

theorem sbrk_chunks_adjacent_witness:
  "fst (sbrks [0x1000, 0x10000000, 0x20] (mm_example\<lparr>mem_base := 0x300000\<rparr>)) = [(0x300000, 0x1000), (0x301000, 0x20)]
   \<and> adjacent 0x300000 (fst (sbrks [0x1000, 0x10000000, 0x20] (mm_example\<lparr>mem_base := 0x300000\<rparr>)))"
  using sbrk_chunks_adjacent [of "mm_example\<lparr>mem_base := 0x300000\<rparr>" "[0x1000, 0x10000000, 0x20]"]
  by (simp add: case_prod_beta Let_def)
     (simp add: mm_example_def sbrk_def KERNEL_DATA_SPACE_val Let_def)

theorem init_paging_identity_witness:
  "\<exists>s'. init_paging mm_example = Some s' \<and> get_table_entry (kernel_pdir s') (VIRT_MEM 0x2000) s' = 0x2027"
proof -
  have "0 < mem_end mm_example" "unat (mem_end mm_example) \<le> 2 ^ 30" by (simp_all add: mm_example_def)
  moreover have "page_aligned 0x2000" "0x2000 < mem_end mm_example" by (simp_all add: mm_example_def page_aligned_iff)
  moreover have "(0x2000 :: u32) OR PAGE_SHARED = 0x2027"
    by (simp add: PAGE_SHARED_def PAGE_PRESENT_def PAGE_RW_def PAGE_USER_def PAGE_ACCESSED_def)
  ultimately show ?thesis using init_paging_identity [of mm_example] by metis
qed

theorem init_paging_overwrites_kernel_witness:
  "\<exists>s'. init_paging (mm_example\<lparr>mem_end := 0x40000000\<rparr>) = Some s'
     \<and> mem s' KERNEL_PHYS_BASE = (956 * ONE_MEGABYTE) OR PAGE_SHARED"
  by (rule init_paging_overwrites_kernel) (simp_all add: mm_example_def)

text \<open>A memory map with a low region and one region from 1 megabyte on.\<close>

definition boot_example :: "u32 \<Rightarrow> mm" where
  "boot_example len = mm_example\<lparr>mem := (\<lambda>_. 0)(
     0x500 := 20, 0x504 := 0, 0x50c := 0x9fc00, 0x514 := 1,
     0x518 := 20, 0x51c := 0x100000, 0x524 := len, 0x52c := 1)\<rparr>"

definition boot_mbi :: multiboot_info where
  "boot_mbi = \<lparr>mmap_length = 48, mmap_addr = 0x500\<rparr>"

lemma boot_map:
  "mmap_at (mem (boot_example len)) (mmap_addr boot_mbi) (mmap_addr boot_mbi + mmap_length boot_mbi)
     [(0, 0x9fc00, 1), (0x100000, len, 1)]"
  by (simp add: boot_example_def boot_mbi_def)


theorem init_memory_partial_page_witness:
  "init_memory boot_mbi (boot_example 0x1f00200) = None"
  by (rule init_memory_partial_page [OF boot_map [of "0x1f00200"], of "0x100000" "0x1f00200"]) simp_all

end
