(* ===== verification/Libc_Num.thy ===== *)
theory Libc_Num
  imports Numerals
begin

text \<open>
  Characters and numbers of the C library of the x86 kernel: \<^verbatim>\<open>ctype.c\<close>, \<^verbatim>\<open>strtol.c\<close>, \<^verbatim>\<open>strtoul.c\<close>,
  \<^verbatim>\<open>strtoll.c\<close>, \<^verbatim>\<open>atoi.c\<close> and \<^verbatim>\<open>atol.c\<close> under \<^verbatim>\<open>src/trunk/src/libc\<close>.

  The functions of \<^verbatim>\<open>ctype.c\<close> work on \<^verbatim>\<open>int\<close> values.  The conversions read a text of 7 bit
  characters; \<open>strto\<close> is the loop they share, over words of the width of the result (32 or
  64 bits), and the pair they return is the value and the text at \<^verbatim>\<open>*out_p\<close>.
\<close>

section \<open>Character classes\<close>

definition isascii :: "int \<Rightarrow> bool" where
  "isascii c \<longleftrightarrow> c AND NOT 0x7f = 0"

definition iscntrl :: "int \<Rightarrow> bool" where
  "iscntrl c \<longleftrightarrow> c < 32 \<or> c > 126"

definition isdigit :: "int \<Rightarrow> bool" where
  "isdigit c \<longleftrightarrow> c \<ge> 48 \<and> c \<le> 57"

definition isgraph :: "int \<Rightarrow> bool" where
  "isgraph c \<longleftrightarrow> c > 32 \<and> c \<le> 126"

definition islower :: "int \<Rightarrow> bool" where
  "islower c \<longleftrightarrow> c \<ge> 97 \<and> c \<le> 122"

definition isprint :: "int \<Rightarrow> bool" where
  "isprint c \<longleftrightarrow> c \<ge> 32 \<and> c \<le> 126"

definition isspace :: "int \<Rightarrow> bool" where
  "isspace c \<longleftrightarrow> c = 32 \<or> c = 12 \<or> c = 10 \<or> c = 13 \<or> c = 9 \<or> c = 11"

definition isupper :: "int \<Rightarrow> bool" where
  "isupper c \<longleftrightarrow> c \<ge> 65 \<and> c \<le> 90"

definition isxdigit :: "int \<Rightarrow> bool" where
  "isxdigit c \<longleftrightarrow> isdigit c \<or> (c \<ge> 65 \<and> c \<le> 70) \<or> (c \<ge> 97 \<and> c \<le> 102)"

definition isalpha :: "int \<Rightarrow> bool" where
  "isalpha c \<longleftrightarrow> islower c \<or> isupper c"

definition isalnum :: "int \<Rightarrow> bool" where
  "isalnum c \<longleftrightarrow> isalpha c \<or> isdigit c"

definition ispunct :: "int \<Rightarrow> bool" where
  "ispunct c \<longleftrightarrow> isgraph c \<and> \<not> isalnum c"

definition toascii :: "int \<Rightarrow> int" where
  "toascii c = c AND 0x7f"

definition toupper :: "int \<Rightarrow> int" where
  "toupper c = (if c \<ge> 97 \<and> c \<le> 122 then c - 97 + 65 else c)"

definition tolower :: "int \<Rightarrow> int" where
  "tolower c = (if c \<ge> 65 \<and> c \<le> 90 then c - 65 + 97 else c)"

lemmas ctype_defs = isascii_def iscntrl_def isdigit_def isgraph_def islower_def isprint_def isspace_def
  isupper_def isxdigit_def isalpha_def isalnum_def ispunct_def toascii_def toupper_def tolower_def

section \<open>Conversion of numbers\<close>

abbreviation chr_int :: "char \<Rightarrow> int" where
  "chr_int c \<equiv> int (chr_nat c)"

text \<open>The value of a digit in the given base, as the three comparisons of the loop find it.\<close>

definition base_digit :: "int \<Rightarrow> char \<Rightarrow> int option" where
  "base_digit base ch =
     (let c = chr_int ch
      in if c \<ge> 48 \<and> c \<le> 57 \<and> c - 48 < base then Some (c - 48)
      else if c \<ge> 97 \<and> c \<le> 122 \<and> c - 97 + 10 < base then Some (c - 97 + 10)
      else if c \<ge> 65 \<and> c \<le> 90 \<and> c - 65 + 10 < base then Some (c - 65 + 10)
      else None)"

fun strto_loop :: "int \<Rightarrow> 'a::len word \<Rightarrow> string \<Rightarrow> 'a word \<times> string" where
  "strto_loop base v [] = (v, [])"
| "strto_loop base v (c # p) =
     (case base_digit base c of
        Some d \<Rightarrow> strto_loop base (v * word_of_int base + word_of_int d) p
      | None \<Rightarrow> (v, c # p))"

text \<open>The prefix \<^verbatim>\<open>0x\<close> and the choice of the base.\<close>

definition strto_base :: "int \<Rightarrow> string \<Rightarrow> int \<times> string" where
  "strto_base base p =
     (let (base, p) =
            (if (base = 16 \<or> base = 0) \<and> peek p = CHR ''0'' \<and> (peek (tl p) = CHR ''x'' \<or> peek (tl p) = CHR ''X'')
             then (16, drop 2 p) else (base, p))
      in (if base = 0 then (if peek p = CHR ''0'' then 8 else 10) else base, p))"

definition strto_signed :: "string \<Rightarrow> int \<Rightarrow> 'a::len word \<times> string" where
  "strto_signed p base =
     (let p = dropWhile (\<lambda>c. isspace (chr_int c)) p;
          (is_neg, p) = (if peek p = CHR ''-'' then (True, tl p) else (False, p));
          (base, p) = strto_base base p;
          (v, p) = strto_loop base 0 p
      in (if is_neg then - v else v, p))"

definition strtol :: "string \<Rightarrow> int \<Rightarrow> int \<times> string" where
  "strtol p base = (let (v :: u32, p) = strto_signed p base in (sint v, p))"

definition strtoll :: "string \<Rightarrow> int \<Rightarrow> int \<times> string" where
  "strtoll p base = (let (v :: u64, p) = strto_signed p base in (sint v, p))"

definition strtoul :: "string \<Rightarrow> int \<Rightarrow> u32 \<times> string" where
  "strtoul p base =
     (let p = dropWhile (\<lambda>c. isspace (chr_int c)) p;
          (base, p) = strto_base base p
      in strto_loop base 0 p)"

definition atoi :: "string \<Rightarrow> int" where
  "atoi str = fst (strtol str 10)"

fun atol_loop :: "u32 \<Rightarrow> string \<Rightarrow> u32" where
  "atol_loop n [] = n"
| "atol_loop n (c # str) =
     (if isdigit (chr_int c) then atol_loop (n * 10 + word_of_int (chr_int c) - 48) str else n)"

definition atol :: "string \<Rightarrow> int" where
  "atol str = sint (atol_loop 0 str)"

section \<open>What the loop reads\<close>

definition digits_val :: "int \<Rightarrow> string \<Rightarrow> int" where
  "digits_val base s = foldl (\<lambda>v c. v * base + the (base_digit base c)) 0 s"

definition is_base_digit :: "int \<Rightarrow> char \<Rightarrow> bool" where
  "is_base_digit base c \<longleftrightarrow> base_digit base c \<noteq> None"

lemma strto_loop_acc:
  "strto_loop base (word_of_int v) p =
     (word_of_int (foldl (\<lambda>v c. v * base + the (base_digit base c)) v (takeWhile (is_base_digit base) p)),
      dropWhile (is_base_digit base) p)"
proof (induction p arbitrary: v)
  case (Cons c p)
  show ?case
  proof (cases "base_digit base c")
    case (Some d)
    then show ?thesis using Cons.IH [of "v * base + d"] by (simp add: is_base_digit_def)
  qed (simp add: is_base_digit_def)
qed simp

lemma strto_loop_value:
  "strto_loop base 0 p = (word_of_int (digits_val base (takeWhile (is_base_digit base) p)),
     dropWhile (is_base_digit base) p)"
  using strto_loop_acc [of base 0 p] by (simp add: digits_val_def)

text \<open>What \<^verbatim>\<open>strtoul\<close> computes for every text and every base: it skips white space and a \<^verbatim>\<open>0x\<close>, reads the
  longest run of digits of the base, leaves \<^verbatim>\<open>*out_p\<close> at the first other character, and returns the
  value of the digits modulo 2^32: an overflow is not reported.\<close>
theorem strtoul_value:
  "let (b, q) = strto_base base (dropWhile (\<lambda>c. isspace (chr_int c)) p)
   in uint (fst (strtoul p base)) = digits_val b (takeWhile (is_base_digit b) q) mod 2 ^ 32
      \<and> snd (strtoul p base) = dropWhile (is_base_digit b) q"
  by (simp add: strtoul_def Let_def strto_loop_value uint_word_of_int split: prod.split)

section \<open>Reading back printed numbers\<close>

lemma base_digit_10: "base_digit 10 c = (if is_dec c then Some (int (digit_val c)) else None)"
  by (auto simp: base_digit_def is_dec_def digit_val_def Let_def)

lemma is_base_digit_10: "is_base_digit 10 = is_dec"
  by (simp add: fun_eq_iff is_base_digit_def base_digit_10)

lemma digits_val_10: "\<forall>c \<in> set s. is_dec c \<Longrightarrow> digits_val 10 s = int (num_val 10 s)"
proof (induction s rule: rev_induct)
  case (snoc c s)
  then show ?case by (simp add: digits_val_def num_val_def base_digit_10)
qed (simp add: digits_val_def num_val_def)

lemma isspace_chr: "isspace (chr_int c) \<longleftrightarrow> is_space c"
proof -
  have "c = CHR '' '' \<longleftrightarrow> chr_nat c = chr_nat (CHR '' '')" by (simp only: of_char_eq_iff)
  then show ?thesis by (auto simp: isspace_def is_space_def)
qed

lemma strto_loop_show_nat:
  assumes "rest = [] \<or> \<not> is_dec (hd rest)"
  shows "strto_loop 10 0 (show_nat 10 n @ rest) = (of_nat n, rest)"
proof -
  have d: "\<forall>c \<in> set (show_nat 10 n). is_dec c" using show_nat_dec by blast
  have "takeWhile is_dec (show_nat 10 n @ rest) = show_nat 10 n" "dropWhile is_dec (show_nat 10 n @ rest) = rest"
    using takeWhile_append_stop [OF d assms] dropWhile_append_stop [OF d assms] by simp_all
  then show ?thesis
    using digits_val_10 [OF d] num_val_show_nat [of 10 n] by (simp add: strto_loop_value is_base_digit_10)
qed

lemma strto_signed_show_int:
  assumes "rest = [] \<or> \<not> is_dec (hd rest)"
  shows "strto_signed (show_int i @ rest) 10 = (word_of_int i :: 'a::len word, rest)"
proof -
  have sp: "dropWhile (\<lambda>c. isspace (chr_int c)) (c # s) = c # s" if "is_dec c \<or> c = CHR ''-''" for c s
    using that is_dec_not_space [of c] by (auto simp: isspace_chr is_space_def)
  obtain c s where cs: "show_nat 10 (nat i) = c # s" by (cases "show_nat 10 (nat i)") auto
  have c: "is_dec c" using show_nat_dec [of c "nat i"] cs by simp
  show ?thesis
  proof (cases "i < 0")
    case True
    have "show_int i = CHR ''-'' # show_nat 10 (nat (- i))" using True by (simp add: show_int_def)
    then show ?thesis
      using sp [of "CHR ''-''" "show_nat 10 (nat (- i)) @ rest"] strto_loop_show_nat [OF assms, of "nat (- i)", where 'a = 'a] True
      by (simp add: strto_signed_def strto_base_def Let_def)
  next
    case False
    then have "show_int i @ rest = c # (s @ rest)" "show_nat 10 (nat i) @ rest = c # (s @ rest)"
      using cs by (simp_all add: show_int_def)
    then show ?thesis
      using sp [of c "s @ rest"] c is_dec_not_space [OF c] strto_loop_show_nat [OF assms, of "nat i", where 'a = 'a] False
      by (simp add: strto_signed_def strto_base_def Let_def)
  qed
qed

text \<open>\<^verbatim>\<open>strtol\<close> and \<^verbatim>\<open>strtoll\<close> in base 10 read a printed number back: value and sign, with
  \<^verbatim>\<open>*out_p\<close> at the text behind it, for every number of the type's range; \<^verbatim>\<open>atoi\<close> returns it.\<close>
theorem strtol_reads_printed:
  assumes "rest = [] \<or> \<not> is_dec (hd rest)"
  shows "(- (2 ^ 31) \<le> i \<and> i < 2 ^ 31 \<longrightarrow> strtol (show_int i @ rest) 10 = (i, rest) \<and> atoi (show_int i @ rest) = i)
   \<and> (- (2 ^ 63) \<le> i \<and> i < 2 ^ 63 \<longrightarrow> strtoll (show_int i @ rest) 10 = (i, rest))"
proof -
  have "sint (word_of_int i :: u32) = i" if "- (2 ^ 31) \<le> i \<and> i < 2 ^ 31"
    using that by (simp add: sint_sbintrunc' signed_take_bit_int_eq_self)
  moreover have "sint (word_of_int i :: u64) = i" if "- (2 ^ 63) \<le> i \<and> i < 2 ^ 63"
    using that by (simp add: sint_sbintrunc' signed_take_bit_int_eq_self)
  ultimately show ?thesis
    by (simp add: strtol_def strtoll_def atoi_def strto_signed_show_int [OF assms] del: of_int_add)
qed

theorem strtol_reads_printed_witness: "strtol ''-2147483648;'' 10 = (-2147483648, '';'') \<and> atoi ''-2147483648;'' = -2147483648"
proof -
  have "show_int (-2147483648) = ''-2147483648''"
    by (simp add: show_int_def show_nat_def digits.simps)
  moreover have "\<not> is_dec (CHR '';'')" by (simp add: is_dec_def digit_val_def)
  ultimately show ?thesis using strtol_reads_printed [of "'';''" "-2147483648"] by simp
qed

text \<open>A leading plus sign is recognised but not skipped, so nothing is read at all.\<close>

lemma strtol_plus_sign: "strtol (CHR ''+'' # p) base = (0, CHR ''+'' # p)"
proof -
  have "base_digit b (CHR ''+'') = None" for b by (simp add: base_digit_def)
  then show ?thesis
    by (simp add: strtol_def strto_signed_def strto_base_def isspace_def Let_def)
qed

text \<open>\<^verbatim>\<open>atol\<close> is \<^verbatim>\<open>strtol\<close> without white space and sign.\<close>

lemma atol_loop_strto: "atol_loop v p = fst (strto_loop 10 v p)"
proof (induction p arbitrary: v)
  case (Cons c p)
  have "isdigit (chr_int c) \<Longrightarrow> base_digit 10 c = Some (chr_int c - 48)" "\<not> isdigit (chr_int c) \<Longrightarrow> base_digit 10 c = None"
    by (auto simp: isdigit_def base_digit_def Let_def)
  then show ?case using Cons.IH by (cases "isdigit (chr_int c)") (simp_all add: algebra_simps)
qed simp

lemma atol_show_nat:
  assumes "n < 2 ^ 31" "rest = [] \<or> \<not> is_dec (hd rest)"
  shows "atol (show_nat 10 n @ rest) = int n"
proof -
  have "sint (word_of_int k :: u32) = k" if "- (2 ^ 31) \<le> k" "k < 2 ^ 31" for k
    using that by (simp add: sint_sbintrunc' signed_take_bit_int_eq_self)
  from this [of "int n"] show ?thesis using assms(1) by (simp add: atol_def atol_loop_strto strto_loop_show_nat [OF assms(2)])
qed

end
