(* ===== verification/Libc_String.thy ===== *)
theory Libc_String
  imports Libc_Num "HOL-Library.Monad_Syntax"
begin

text \<open>
  Memory and string routines of the C library of the x86 kernel: \<^verbatim>\<open>bcopy\<close>, \<^verbatim>\<open>memcpy\<close>, \<^verbatim>\<open>memmove\<close> and
  \<^verbatim>\<open>memset\<close> of \<^verbatim>\<open>src/trunk/src/x86_mem.c\<close>, and the files \<^verbatim>\<open>memset.c\<close>, \<^verbatim>\<open>memchr.c\<close>, \<^verbatim>\<open>memcmp.c\<close>,
  \<^verbatim>\<open>strlen.c\<close>, \<^verbatim>\<open>strcpy.c\<close>, \<^verbatim>\<open>strcat.c\<close>, \<^verbatim>\<open>strncpy.c\<close>, \<^verbatim>\<open>strncat.c\<close>, \<^verbatim>\<open>strcmp.c\<close>, \<^verbatim>\<open>strncmp.c\<close>, \<^verbatim>\<open>strchr.c\<close>
  and \<^verbatim>\<open>strcasecmp.c\<close> under \<^verbatim>\<open>src/trunk/src/libc\<close>.

  Memory is a function from addresses to bytes.  \<^verbatim>\<open>char\<close> is signed on the i386, so a \<^verbatim>\<open>char\<close> that is
  promoted to \<^verbatim>\<open>int\<close> is read with \<open>sint\<close>.  A loop that ends at a NUL may run on when there is none:
  it is a partial function, and not returning is \<open>None\<close>.
\<close>

type_synonym bytes = "nat \<Rightarrow> u8"

section \<open>Blocks of memory\<close>

fun bcopy_up :: "nat \<Rightarrow> nat \<Rightarrow> nat \<Rightarrow> bytes \<Rightarrow> bytes" where
  "bcopy_up src dest 0 m = m"
| "bcopy_up src dest (Suc len) m = bcopy_up (src + 1) (dest + 1) len (m(dest := m src))"

fun bcopy_down :: "nat \<Rightarrow> nat \<Rightarrow> nat \<Rightarrow> bytes \<Rightarrow> bytes" where
  "bcopy_down lasts lastd 0 m = m"
| "bcopy_down lasts lastd (Suc len) m = bcopy_down (lasts - 1) (lastd - 1) len (m(lastd := m lasts))"

definition bcopy :: "nat \<Rightarrow> nat \<Rightarrow> nat \<Rightarrow> bytes \<Rightarrow> bytes" where
  "bcopy src dest len m =
     (if dest < src then bcopy_up src dest len m
      else bcopy_down (src + (len - 1)) (dest + (len - 1)) len m)"

definition memcpy :: "nat \<Rightarrow> nat \<Rightarrow> nat \<Rightarrow> bytes \<Rightarrow> nat \<times> bytes" where
  "memcpy out inp len m = (out, bcopy inp out len m)"

definition memmove :: "nat \<Rightarrow> nat \<Rightarrow> nat \<Rightarrow> bytes \<Rightarrow> nat \<times> bytes" where
  "memmove s1 s2 n m = (s1, bcopy s2 s1 n m)"

fun memset_loop :: "nat \<Rightarrow> u8 \<Rightarrow> nat \<Rightarrow> bytes \<Rightarrow> bytes" where
  "memset_loop to c 0 m = m"
| "memset_loop to c (Suc len) m = memset_loop (to + 1) c len (m(to := c))"

definition memset :: "nat \<Rightarrow> int \<Rightarrow> nat \<Rightarrow> bytes \<Rightarrow> nat \<times> bytes" where
  "memset to c len m = (to, memset_loop to (word_of_int c) len m)"

definition memset_x86 :: "nat \<Rightarrow> int \<Rightarrow> nat \<Rightarrow> bytes \<Rightarrow> nat \<times> bytes" where
  "memset_x86 dest val len m = (dest, memset_loop dest (word_of_int val) len m)"

fun memchr :: "bytes \<Rightarrow> nat \<Rightarrow> u8 \<Rightarrow> nat \<Rightarrow> nat option" where
  "memchr m s c 0 = None"
| "memchr m s c (Suc n) = (if m s = c then Some s else memchr m (s + 1) c n)"

text \<open>A \<^verbatim>\<open>char\<close> stored into an \<^verbatim>\<open>unsigned int\<close>, and the difference of two of them as an \<^verbatim>\<open>int\<close>.\<close>

definition uint_of_char :: "u8 \<Rightarrow> u32" where
  "uint_of_char c = word_of_int (sint c)"

fun memcmp :: "bytes \<Rightarrow> nat \<Rightarrow> nat \<Rightarrow> nat \<Rightarrow> int" where
  "memcmp m s1 s2 0 = 0"
| "memcmp m s1 s2 (Suc n) =
     (let a = uint_of_char (m s1); b = uint_of_char (m s2)
      in if a \<noteq> b then sint (a - b) else memcmp m (s1 + 1) (s2 + 1) n)"

section \<open>Strings\<close>

partial_function (option) strlen_end :: "bytes \<Rightarrow> nat \<Rightarrow> nat option" where
  "strlen_end m string = (if m string \<noteq> 0 then strlen_end m (string + 1) else Some (string + 1))"

definition strlen :: "bytes \<Rightarrow> nat \<Rightarrow> nat option" where
  "strlen m string = do { e \<leftarrow> strlen_end m string; Some (e - 1 - string) }"

partial_function (option) copy_string :: "nat \<Rightarrow> nat \<Rightarrow> bytes \<Rightarrow> bytes option" where
  "copy_string to from m =
     (let c = m from; m = m(to := c) in if c \<noteq> 0 then copy_string (to + 1) (from + 1) m else Some m)"

definition strcpy :: "nat \<Rightarrow> nat \<Rightarrow> bytes \<Rightarrow> (nat \<times> bytes) option" where
  "strcpy to from m = do { m \<leftarrow> copy_string to from m; Some (to, m) }"

partial_function (option) string_end :: "bytes \<Rightarrow> nat \<Rightarrow> nat option" where
  "string_end m s = (if m s \<noteq> 0 then string_end m (s + 1) else Some s)"

definition strcat :: "nat \<Rightarrow> nat \<Rightarrow> bytes \<Rightarrow> (nat \<times> bytes) option" where
  "strcat s add m = do { e \<leftarrow> string_end m s; m \<leftarrow> copy_string e add m; Some (s, m) }"

text \<open>The first loop of \<^verbatim>\<open>strncpy\<close>, which leaves the remaining count and the position for the padding.\<close>

fun strncpy_copy :: "nat \<Rightarrow> nat \<Rightarrow> nat \<Rightarrow> bytes \<Rightarrow> nat \<times> nat \<times> bytes" where
  "strncpy_copy to from 0 m = (to, 0, m)"
| "strncpy_copy to from (Suc count) m =
     (let c = m from; m = m(to := c)
      in if c = 0 then (to + 1, count, m) else strncpy_copy (to + 1) (from + 1) count m)"

definition strncpy :: "nat \<Rightarrow> nat \<Rightarrow> nat \<Rightarrow> bytes \<Rightarrow> nat \<times> bytes" where
  "strncpy to from count m =
     (let (to', count, m) = strncpy_copy to from count m in (to, memset_loop to' 0 count m))"

fun strncat_copy :: "nat \<Rightarrow> nat \<Rightarrow> nat \<Rightarrow> bytes \<Rightarrow> nat \<times> bytes" where
  "strncat_copy d s 0 m = (d, m)"
| "strncat_copy d s (Suc n) m =
     (let c = m s; m = m(d := c) in if c = 0 then (d, m) else strncat_copy (d + 1) (s + 1) n m)"

definition strncat :: "nat \<Rightarrow> nat \<Rightarrow> nat \<Rightarrow> bytes \<Rightarrow> (nat \<times> bytes) option" where
  "strncat dst src n m =
     (if n \<noteq> 0
      then do {
        d \<leftarrow> string_end m dst;
        let (d, m) = strncat_copy d src n m;
        Some (dst, m(d := 0))
      }
      else Some (dst, m))"

partial_function (option) strcmp :: "bytes \<Rightarrow> nat \<Rightarrow> nat \<Rightarrow> int option" where
  "strcmp m s1 s2 =
     (let a = uint_of_char (m s1); b = uint_of_char (m s2)
      in if a \<noteq> 0 \<and> b \<noteq> 0
         then (if a \<noteq> b then Some (sint (a - b)) else strcmp m (s1 + 1) (s2 + 1))
         else Some (sint (a - b)))"

fun strncmp :: "bytes \<Rightarrow> nat \<Rightarrow> nat \<Rightarrow> nat \<Rightarrow> int" where
  "strncmp m s1 s2 0 = 0"
| "strncmp m s1 s2 (Suc n) =
     (if m s1 \<noteq> m s2 then sint (m s1) - sint (m s2)
      else if m s1 = 0 then 0 else strncmp m (s1 + 1) (s2 + 1) n)"

text \<open>\<open>Some None\<close> is the null pointer of \<^verbatim>\<open>strchr\<close>.\<close>

partial_function (option) strchr :: "bytes \<Rightarrow> nat \<Rightarrow> int \<Rightarrow> nat option option" where
  "strchr m s c =
     (if sint (m s) = c then Some (Some s) else if m s = 0 then Some None else strchr m (s + 1) c)"

partial_function (option) strcasecmp :: "bytes \<Rightarrow> nat \<Rightarrow> nat \<Rightarrow> int option" where
  "strcasecmp m us1 us2 =
     (if tolower (uint (m us1)) = tolower (uint (m us2))
      then (if m us1 = 0 then Some 0 else strcasecmp m (us1 + 1) (us2 + 1))
      else Some (tolower (uint (m us1)) - tolower (uint (m us2))))"

fun strncasecmp :: "bytes \<Rightarrow> nat \<Rightarrow> nat \<Rightarrow> nat \<Rightarrow> int" where
  "strncasecmp m us1 us2 0 = 0"
| "strncasecmp m us1 us2 (Suc n) =
     (if tolower (uint (m us1)) \<noteq> tolower (uint (m us2)) then tolower (uint (m us1)) - tolower (uint (m us2))
      else if m us1 = 0 then 0 else strncasecmp m (us1 + 1) (us2 + 1) n)"

section \<open>Copying blocks\<close>

lemma suc_shift: "Suc d \<le> a \<Longrightarrow> Suc (s + a - Suc d) = s + a - (d :: nat)"
  by simp

lemma bcopy_up_block:
  "dest < src \<Longrightarrow> bcopy_up src dest len m =
     (\<lambda>a. if dest \<le> a \<and> a < dest + len then m (src + (a - dest)) else m a)"
proof (induction len arbitrary: src dest m)
  case (Suc len)
  show ?case
  proof
    fix a
    consider "a = dest" | "dest < a" "a < dest + Suc len" | "a < dest \<or> dest + Suc len \<le> a" by linarith
    then show "bcopy_up src dest (Suc len) m a = (if dest \<le> a \<and> a < dest + Suc len then m (src + (a - dest)) else m a)"
      using Suc.prems by cases (auto simp: Suc.IH suc_shift)
  qed
qed (auto simp: fun_eq_iff)

lemma bcopy_down_block:
  "src \<le> dest \<Longrightarrow> bcopy_down (src + (len - 1)) (dest + (len - 1)) len m =
     (\<lambda>a. if dest \<le> a \<and> a < dest + len then m (src + (a - dest)) else m a)"
proof (induction len arbitrary: m)
  case (Suc len)
  let ?m = "m(dest + len := m (src + len))"
  have "bcopy_down (src + (Suc len - 1)) (dest + (Suc len - 1)) (Suc len) m
      = bcopy_down (src + (len - 1)) (dest + (len - 1)) len ?m"
    by (cases len) simp_all
  also have "\<dots> = (\<lambda>a. if dest \<le> a \<and> a < dest + len then ?m (src + (a - dest)) else ?m a)"
    by (rule Suc.IH [OF Suc.prems])
  also have "\<dots> = (\<lambda>a. if dest \<le> a \<and> a < dest + Suc len then m (src + (a - dest)) else m a)"
    using Suc.prems by (auto simp: fun_eq_iff)
  finally show ?case .
qed (auto simp: fun_eq_iff)

text \<open>\<^verbatim>\<open>bcopy\<close> (and with it \<^verbatim>\<open>memcpy\<close> and \<^verbatim>\<open>memmove\<close>) copies correctly however source and destination
  overlap: afterwards the destination holds the bytes the source held before, and no other byte has changed.\<close>
theorem bcopy_moves_block:
  "bcopy src dest len m = (\<lambda>a. if dest \<le> a \<and> a < dest + len then m (src + (a - dest)) else m a)"
  using bcopy_up_block [of dest src len m] bcopy_down_block [of src dest len m]
  by (cases "dest < src") (simp_all add: bcopy_def)

lemma memset_loop_block:
  "memset_loop to c len m = (\<lambda>a. if to \<le> a \<and> a < to + len then c else m a)"
  by (induction len arbitrary: to m) (auto simp: fun_eq_iff)

lemma memset_same: "memset_x86 to c len m = memset to c len m"
  by (simp add: memset_def memset_x86_def)

lemma memchr_first:
  "memchr m s c n = (case filter (\<lambda>i. m (s + i) = c) [0..<n] of [] \<Rightarrow> None | i # _ \<Rightarrow> Some (s + i))"
proof (induction n arbitrary: s)
  case (Suc n)
  have u: "[0..<Suc n] = 0 # map Suc [0..<n]" by (simp add: upt_conv_Cons map_Suc_upt del: upt_Suc)
  show ?case
    unfolding u using Suc.IH [of "s + 1"]
    by (auto simp: filter_map comp_def split: list.splits)
qed simp

section \<open>Strings in memory\<close>

text \<open>The bytes \<open>xs\<close>, none of them NUL, at address \<open>p\<close> with the NUL behind them.\<close>

definition cstr :: "bytes \<Rightarrow> nat \<Rightarrow> u8 list \<Rightarrow> bool" where
  "cstr m p xs \<longleftrightarrow> (\<forall>i < length xs. m (p + i) = xs ! i) \<and> m (p + length xs) = 0 \<and> 0 \<notin> set xs"

lemma cstr_Nil [simp]: "cstr m p [] \<longleftrightarrow> m p = 0"
  by (simp add: cstr_def)

lemma cstr_Cons [simp]: "cstr m p (x # xs) \<longleftrightarrow> m p = x \<and> x \<noteq> 0 \<and> cstr m (Suc p) xs"
  by (auto simp: cstr_def nth_Cons less_Suc_eq_0_disj split: nat.splits)

lemma cstr_cong:
  assumes "\<And>a. p \<le> a \<Longrightarrow> a \<le> p + length xs \<Longrightarrow> m' a = m a"
  shows "cstr m' p xs = cstr m p xs"
  using assms by (simp add: cstr_def)

lemma string_end_cstr: "cstr m p xs \<Longrightarrow> string_end m p = Some (p + length xs)"
  by (induction xs arbitrary: p) (subst string_end.simps, simp)+

lemma strlen_cstr: "cstr m p xs \<Longrightarrow> strlen m p = Some (length xs)"
proof -
  have "cstr m p xs \<Longrightarrow> strlen_end m p = Some (p + length xs + 1)"
    by (induction xs arbitrary: p) (subst strlen_end.simps, simp)+
  then show "cstr m p xs \<Longrightarrow> strlen m p = Some (length xs)" by (simp add: strlen_def)
qed

text \<open>Copying a string with its NUL to a place that does not overlap it.\<close>

definition apart :: "nat \<Rightarrow> nat \<Rightarrow> nat \<Rightarrow> nat \<Rightarrow> bool" where
  "apart p n q k \<longleftrightarrow> p + n \<le> q \<or> q + k \<le> p"

lemma copy_string_cstr:
  "cstr m from xs \<Longrightarrow> apart to (length xs + 1) from (length xs + 1) \<Longrightarrow>
     copy_string to from m =
       Some (\<lambda>a. if to \<le> a \<and> a \<le> to + length xs then m (from + (a - to)) else m a)"
proof (induction xs arbitrary: to "from" m)
  case Nil
  then show ?case by (subst copy_string.simps) (auto simp: fun_eq_iff Let_def)
next
  case (Cons x xs)
  let ?m = "m(to := x)"
  have c: "cstr ?m (Suc from) xs"
    using Cons.prems by (subst cstr_cong [where m = m]) (auto simp: apart_def)
  have ap: "apart (Suc to) (length xs + 1) (Suc from) (length xs + 1)" using Cons.prems(2) by (auto simp: apart_def)
  have "copy_string to from m = copy_string (Suc to) (Suc from) ?m"
    using Cons.prems(1) by (subst copy_string.simps) (simp add: Let_def)
  also have "\<dots> = Some (\<lambda>a. if Suc to \<le> a \<and> a \<le> Suc to + length xs then ?m (Suc from + (a - Suc to)) else ?m a)"
    by (rule Cons.IH [OF c ap])
  also have "\<dots> = Some (\<lambda>a. if to \<le> a \<and> a \<le> to + length (x # xs) then m (from + (a - to)) else m a)"
    using Cons.prems by (auto simp: fun_eq_iff apart_def suc_shift)
  finally show ?case .
qed


lemma cstr_copied:
  assumes "cstr m from ys"
  shows "cstr (\<lambda>a. if to \<le> a \<and> a \<le> to + length ys then m (from + (a - to)) else m' a) to ys"
  using assms by (simp add: cstr_def)

lemma cstr_append:
  "cstr m p (xs @ ys) \<longleftrightarrow> (\<forall>i < length xs. m (p + i) = xs ! i) \<and> 0 \<notin> set xs \<and> cstr m (p + length xs) ys"
proof (induction xs arbitrary: p)
  case (Cons x xs)
  show ?case by (auto simp: Cons.IH All_less_Suc2)
qed simp

text \<open>\<^verbatim>\<open>strcpy\<close> and \<^verbatim>\<open>strcat\<close> build strings: with source and destination apart they return the destination,
  which then holds the copy (behind the old string for \<^verbatim>\<open>strcat\<close>) with its NUL, and they change no byte
  outside the copied text.\<close>
theorem strcpy_strcat_build:
  assumes "cstr m s xs" "cstr m add ys" "apart s (length xs + length ys + 1) add (length ys + 1)"
  shows "(\<exists>m'. strcat s add m = Some (s, m') \<and> cstr m' s (xs @ ys) \<and> cstr m' add ys
           \<and> (\<forall>a. a < s + length xs \<or> s + length xs + length ys < a \<longrightarrow> m' a = m a))
       \<and> (\<exists>m'. strcpy s add m = Some (s, m') \<and> cstr m' s ys \<and> (\<forall>a. a < s \<or> s + length ys < a \<longrightarrow> m' a = m a))"
proof -
  let ?e = "s + length xs"
  let ?m = "\<lambda>a. if ?e \<le> a \<and> a \<le> ?e + length ys then m (add + (a - ?e)) else m a"
  let ?n = "\<lambda>a. if s \<le> a \<and> a \<le> s + length ys then m (add + (a - s)) else m a"
  have ap: "apart ?e (length ys + 1) add (length ys + 1)" "apart s (length ys + 1) add (length ys + 1)"
    using assms(3) by (auto simp: apart_def)
  have "strcat s add m = Some (s, ?m)"
    using string_end_cstr [OF assms(1)] copy_string_cstr [OF assms(2) ap(1)] by (simp add: strcat_def)
  moreover have "cstr ?m s (xs @ ys)"
    unfolding cstr_append using cstr_copied [OF assms(2)] assms(1) by (simp add: cstr_def)
  moreover have "cstr ?m add ys"
    using assms(2,3) by (subst cstr_cong [where m = m]) (auto simp: apart_def)
  moreover have "strcpy s add m = Some (s, ?n)"
    using copy_string_cstr [OF assms(2) ap(2)] by (simp add: strcpy_def)
  moreover have "cstr ?n s ys" by (rule cstr_copied [OF assms(2)])
  ultimately show ?thesis by (intro conjI exI [of _ ?m] exI [of _ ?n]) auto
qed

lemma strncpy_copy_cstr:
  assumes "cstr m from xs" "apart to n from (length xs + 1)"
  shows "\<exists>k r m'. strncpy_copy to from n m = (k, r, m') \<and> k + r = to + n
     \<and> (\<lambda>a. if k \<le> a \<and> a < k + r then 0 else m' a)
       = (\<lambda>a. if to \<le> a \<and> a < to + n then (if a - to < length xs then xs ! (a - to) else 0) else m a)"
  using assms
proof (induction n arbitrary: to "from" xs m)
  case 0
  have "(\<lambda>a. if to \<le> a \<and> a < to + 0 then 0 else m a)
      = (\<lambda>a. if to \<le> a \<and> a < to + 0 then (if a - to < length xs then xs ! (a - to) else 0) else m a)"
    by (rule ext) auto
  then show ?case by (simp only: strncpy_copy.simps) blast
next
  case (Suc n)
  show ?case
  proof (cases xs)
    case Nil
    have f: "(\<lambda>a. if to + 1 \<le> a \<and> a < to + 1 + n then 0 else (m(to := 0)) a)
      = (\<lambda>a. if to \<le> a \<and> a < to + Suc n then (if a - to < length xs then xs ! (a - to) else 0) else m a)"
      using Nil by (intro ext) auto
    have "strncpy_copy to from (Suc n) m = (to + 1, n, m(to := 0))" "to + 1 + n = to + Suc n"
      using Nil Suc.prems(1) by (simp_all add: Let_def)
    then show ?thesis using f by blast
  next
    case (Cons x ys)
    let ?m = "m(to := x)"
    have c: "cstr ?m (Suc from) ys"
      using Suc.prems Cons by (subst cstr_cong [where m = m]) (auto simp: apart_def)
    have ap: "apart (Suc to) n (Suc from) (length ys + 1)" using Suc.prems(2) Cons by (auto simp: apart_def)
    obtain k r m' where IH: "strncpy_copy (Suc to) (Suc from) n ?m = (k, r, m')" "k + r = Suc to + n"
      "(\<lambda>a. if k \<le> a \<and> a < k + r then 0 else m' a)
       = (\<lambda>a. if Suc to \<le> a \<and> a < Suc to + n then (if a - Suc to < length ys then ys ! (a - Suc to) else 0) else ?m a)"
      using Suc.IH [OF c ap] by blast
    have st: "strncpy_copy to from (Suc n) m = (k, r, m')"
      using Suc.prems(1) Cons IH(1) by (simp add: Let_def)
    have "(if Suc to \<le> a \<and> a < Suc to + n then (if a - Suc to < length ys then ys ! (a - Suc to) else 0) else ?m a)
        = (if to \<le> a \<and> a < to + Suc n then (if a - to < length xs then xs ! (a - to) else 0) else m a)" for a
      unfolding Cons by (cases "a = to") (auto simp: nth_Cons')
    then show ?thesis using st IH(2,3) by simp
  qed
qed

text \<open>\<^verbatim>\<open>strncpy\<close> writes exactly \<^verbatim>\<open>count\<close> bytes: the string, cut after \<^verbatim>\<open>count\<close> bytes or filled up with
  NULs, and nothing else.  In particular the result has no NUL when the string does not fit.\<close>
theorem strncpy_writes_count:
  assumes "cstr m from xs" "apart to count from (length xs + 1)"
  shows "strncpy to from count m =
     (to, \<lambda>a. if to \<le> a \<and> a < to + count then (if a - to < length xs then xs ! (a - to) else 0) else m a)"
proof -
  obtain k r m' where "strncpy_copy to from count m = (k, r, m')"
    "(\<lambda>a. if k \<le> a \<and> a < k + r then 0 else m' a)
       = (\<lambda>a. if to \<le> a \<and> a < to + count then (if a - to < length xs then xs ! (a - to) else 0) else m a)"
    using strncpy_copy_cstr [OF assms] by blast
  then show ?thesis by (simp add: strncpy_def memset_loop_block)
qed

lemma strncat_copy_cstr:
  assumes "cstr m s ys" "apart d (min n (length ys) + 1) s (length ys + 1)"
  shows "\<exists>m'. strncat_copy d s n m = (d + min n (length ys), m')
     \<and> m'(d + min n (length ys) := 0)
       = (\<lambda>a. if d \<le> a \<and> a < d + min n (length ys) then ys ! (a - d) else if a = d + min n (length ys) then 0 else m a)"
  using assms
proof (induction n arbitrary: d s ys m)
  case 0
  show ?case by (auto simp: fun_eq_iff)
next
  case (Suc n)
  show ?case
  proof (cases ys)
    case Nil
    have "(m(d := 0))(d := 0) = (\<lambda>a. if d \<le> a \<and> a < d then ys ! (a - d) else if a = d then 0 else m a)"
      by (rule ext) auto
    moreover have "strncat_copy d s (Suc n) m = (d, m(d := 0))" using Nil Suc.prems(1) by (simp add: Let_def)
    moreover have "d + min (Suc n) (length ys) = d" using Nil by simp
    ultimately show ?thesis by metis
  next
    case (Cons y zs)
    let ?m = "m(d := y)" and ?k = "min n (length zs)"
    have c: "cstr ?m (Suc s) zs"
      using Suc.prems Cons by (subst cstr_cong [where m = m]) (auto simp: apart_def)
    have ap: "apart (Suc d) (?k + 1) (Suc s) (length zs + 1)" using Suc.prems(2) Cons by (auto simp: apart_def)
    obtain m' where m': "strncat_copy (Suc d) (Suc s) n ?m = (Suc d + ?k, m')"
      "m'(Suc d + ?k := 0)
       = (\<lambda>a. if Suc d \<le> a \<and> a < Suc d + ?k then zs ! (a - Suc d) else if a = Suc d + ?k then 0 else ?m a)"
      using Suc.IH [OF c ap] by blast
    have k: "d + min (Suc n) (length ys) = Suc d + ?k" using Cons by simp
    have "(if Suc d \<le> a \<and> a < Suc d + ?k then zs ! (a - Suc d) else if a = Suc d + ?k then 0 else ?m a)
       = (if d \<le> a \<and> a < Suc d + ?k then ys ! (a - d) else if a = Suc d + ?k then 0 else m a)" for a
      unfolding Cons by (cases "a = d") (auto simp: nth_Cons')
    then have "m'(Suc d + ?k := 0)
       = (\<lambda>a. if d \<le> a \<and> a < Suc d + ?k then ys ! (a - d) else if a = Suc d + ?k then 0 else m a)"
      unfolding m'(2) by (rule ext)
    moreover have "strncat_copy d s (Suc n) m = (Suc d + ?k, m')"
      using Suc.prems(1) Cons m'(1) by (simp add: Let_def)
    ultimately show ?thesis unfolding k by blast
  qed
qed

lemma strncat_appends:
  assumes "cstr m dst xs" "cstr m src ys" "n \<noteq> 0"
    and "apart (dst + length xs) (min n (length ys) + 1) src (length ys + 1)"
  shows "\<exists>m'. strncat dst src n m = Some (dst, m') \<and> cstr m' dst (xs @ take n ys)"
proof -
  let ?d = "dst + length xs" and ?k = "min n (length ys)"
  obtain m' where m': "strncat_copy ?d src n m = (?d + ?k, m')"
    "m'(?d + ?k := 0) = (\<lambda>a. if ?d \<le> a \<and> a < ?d + ?k then ys ! (a - ?d) else if a = ?d + ?k then 0 else m a)"
    using strncat_copy_cstr [OF assms(2,4)] by blast
  have "strncat dst src n m = Some (dst, m'(?d + ?k := 0))"
    using string_end_cstr [OF assms(1)] m'(1) assms(3) by (simp add: strncat_def)
  moreover have "cstr (m'(?d + ?k := 0)) ?d (take n ys)"
    using assms(2) unfolding m'(2) by (auto simp: cstr_def min.commute dest: in_set_takeD)
  then have "cstr (m'(?d + ?k := 0)) dst (xs @ take n ys)"
    using assms(1) unfolding cstr_append unfolding m'(2) by (simp add: cstr_def)
  ultimately show ?thesis by blast
qed

section \<open>Comparing strings\<close>

fun first_diff :: "int list \<Rightarrow> int list \<Rightarrow> int" where
  "first_diff [] [] = 0"
| "first_diff (x # xs) [] = x"
| "first_diff [] (y # ys) = - y"
| "first_diff (x # xs) (y # ys) = (if x = y then first_diff xs ys else x - y)"

lemma first_diff_0: "0 \<notin> set xs \<Longrightarrow> 0 \<notin> set ys \<Longrightarrow> first_diff xs ys = 0 \<longleftrightarrow> xs = ys"
  by (induction xs ys rule: first_diff.induct) auto

lemma first_diff_swap: "first_diff ys xs = - first_diff xs ys"
  by (induction xs ys rule: first_diff.induct) auto

lemma sint8: "- 128 \<le> sint (c :: u8)" "sint (c :: u8) < 128"
  using sint_ge [of c] sint_less [of c] by simp_all

lemma uint_of_char_simps:
  "uint_of_char a = uint_of_char b \<longleftrightarrow> a = b" "uint_of_char a = 0 \<longleftrightarrow> a = 0"
  "sint (uint_of_char a - uint_of_char b) = sint a - sint b"
proof -
  have s: "sint (word_of_int k :: u32) = k" if "- 256 \<le> k" "k < 256" for k
    using that by (simp add: sint_sbintrunc' signed_take_bit_int_eq_self)
  have i: "uint_of_char a = uint_of_char b \<longleftrightarrow> a = b" for a b
  proof
    assume "uint_of_char a = uint_of_char b"
    then have "sint (word_of_int (sint a) :: u32) = sint (word_of_int (sint b) :: u32)" by (simp only: uint_of_char_def)
    then have "sint a = sint b" using s [of "sint a"] s [of "sint b"] sint8 [of a] sint8 [of b] by simp
    then show "a = b" by (simp add: signed_word_eqI)
  qed simp
  show "uint_of_char a = uint_of_char b \<longleftrightarrow> a = b" by (rule i)
  show "uint_of_char a = 0 \<longleftrightarrow> a = 0" using i [of a 0] by (simp add: uint_of_char_def)
  have "uint_of_char a - uint_of_char b = word_of_int (sint a - sint b)" by (simp add: uint_of_char_def)
  then show "sint (uint_of_char a - uint_of_char b) = sint a - sint b"
    using s [of "sint a - sint b"] sint8 [of a] sint8 [of b] by simp
qed

lemma sint_inject: "sint (a :: u8) = sint b \<longleftrightarrow> a = b"
  by (metis signed_word_eqI)

lemma strcmp_first_diff:
  "cstr m p xs \<Longrightarrow> cstr m q ys \<Longrightarrow> strcmp m p q = Some (first_diff (map sint xs) (map sint ys))"
proof (induction xs arbitrary: p q ys)
  case Nil
  then show ?case
    by (subst strcmp.simps) (cases ys; auto simp: Let_def uint_of_char_simps)
next
  case (Cons x xs)
  then show ?case
    by (subst strcmp.simps) (cases ys; auto simp: Let_def uint_of_char_simps sint_inject)
qed

lemma tolower_0 [simp]: "tolower (uint (c :: u8)) = 0 \<longleftrightarrow> c = 0"
  by (auto simp: tolower_def uint_0_iff)

lemma tolower_set: "0 \<in> (\<lambda>c. tolower (uint (c :: u8))) ` A \<Longrightarrow> 0 \<in> A"
  by (erule imageE) (metis tolower_0)

lemma strcasecmp_first_diff:
  "cstr m p xs \<Longrightarrow> cstr m q ys \<Longrightarrow>
     strcasecmp m p q = Some (first_diff (map (\<lambda>c. tolower (uint c)) xs) (map (\<lambda>c. tolower (uint c)) ys))"
proof (induction xs arbitrary: p q ys)
  case Nil
  have "tolower 0 = 0" by (simp add: tolower_def)
  with Nil show ?case
    by (subst strcasecmp.simps) (cases ys; auto)
next
  case (Cons x xs)
  have "tolower 0 = 0" by (simp add: tolower_def)
  with Cons show ?case
    by (subst strcasecmp.simps) (cases ys; auto)
qed

text \<open>\<^verbatim>\<open>strcmp\<close> and \<^verbatim>\<open>strcasecmp\<close> return for all strings.  Their result is the difference of the
  first characters that differ, the NUL at the end included, taken as signed \<^verbatim>\<open>char\<close> values by \<^verbatim>\<open>strcmp\<close>
  and as lower case letters by \<^verbatim>\<open>strcasecmp\<close>; it is 0 exactly for equal strings (up to case), and its
  sign is reversed when the arguments are exchanged.\<close>
theorem strcmp_orders:
  assumes "cstr m p xs" "cstr m q ys"
  shows "\<exists>r c. strcmp m p q = Some r \<and> r = first_diff (map sint xs) (map sint ys) \<and> (r = 0 \<longleftrightarrow> xs = ys)
     \<and> strcmp m q p = Some (- r)
     \<and> strcasecmp m p q = Some c \<and> strcasecmp m q p = Some (- c)
     \<and> (c = 0 \<longleftrightarrow> map (\<lambda>c. tolower (uint c)) xs = map (\<lambda>c. tolower (uint c)) ys)"
proof -
  have z: "0 \<notin> set xs" "0 \<notin> set ys" using assms by (simp_all add: cstr_def)
  have "sint (c :: u8) = 0 \<longleftrightarrow> c = 0" for c using sint_inject [of c 0] by simp
  then have s: "0 \<notin> sint ` set xs" "0 \<notin> sint ` set ys" using z by force+
  have t: "0 \<notin> (\<lambda>c. tolower (uint c)) ` set xs" "0 \<notin> (\<lambda>c. tolower (uint c)) ` set ys"
    using z tolower_set by blast+
  have e: "map sint xs = map sint ys \<longleftrightarrow> xs = ys"
    by (rule inj_map_eq_map) (simp add: inj_def sint_inject)
  let ?r = "first_diff (map sint xs) (map sint ys)"
  let ?c = "first_diff (map (\<lambda>c. tolower (uint c)) xs) (map (\<lambda>c. tolower (uint c)) ys)"
  have "?r = 0 \<longleftrightarrow> xs = ys" using first_diff_0 [of "map sint xs" "map sint ys"] s e by simp
  moreover have "?c = 0 \<longleftrightarrow> map (\<lambda>c. tolower (uint c)) xs = map (\<lambda>c. tolower (uint c)) ys"
    by (rule first_diff_0) (use t in simp_all)
  moreover have "strcmp m q p = Some (- ?r)" "strcasecmp m q p = Some (- ?c)"
    using strcmp_first_diff [OF assms(2,1)] strcasecmp_first_diff [OF assms(2,1)]
    unfolding first_diff_swap [of "map sint ys" "map sint xs"]
      first_diff_swap [of "map (\<lambda>c. tolower (uint c)) ys" "map (\<lambda>c. tolower (uint c)) xs"] by auto
  ultimately show ?thesis
    using strcmp_first_diff [OF assms] strcasecmp_first_diff [OF assms] by blast
qed

text \<open>A byte above 127 compares as a negative number, hence below every ASCII character.\<close>

lemma strcmp_high_bytes:
  assumes "cstr m p [0xe4]" "cstr m q [0x61]"
  shows "strcmp m p q = Some (- 125)"
  using strcmp_first_diff [OF assms] by simp

lemma strncmp_first_diff:
  assumes "cstr m p xs" "cstr m q ys"
  shows "strncmp m p q n = first_diff (map sint (take n xs)) (map sint (take n ys))"
  using assms
proof (induction n arbitrary: p q xs ys)
  case (Suc n)
  then show ?case by (cases xs; cases ys) (auto simp: sint_inject)
qed simp

lemma strncasecmp_first_diff:
  assumes "cstr m p xs" "cstr m q ys"
  shows "strncasecmp m p q n = first_diff (map (\<lambda>c. tolower (uint c)) (take n xs)) (map (\<lambda>c. tolower (uint c)) (take n ys))"
  using assms
proof (induction n arbitrary: p q xs ys)
  case (Suc n)
  have "tolower 0 = 0" by (simp add: tolower_def)
  with Suc show ?case by (cases xs; cases ys) auto
qed simp

lemma strchr_first:
  assumes "cstr m p xs" "c \<noteq> 0"
  shows "strchr m p c =
     Some (if c \<in> sint ` set xs then Some (p + length (takeWhile (\<lambda>x. sint x \<noteq> c) xs)) else None)"
  using assms
proof (induction xs arbitrary: p)
  case Nil
  then show ?case by (subst strchr.simps) simp
next
  case (Cons x xs)
  then show ?case by (subst strchr.simps) auto
qed

section \<open>Witnesses\<close>

definition text_mem :: bytes where
  "text_mem = (\<lambda>_. 0)(10 := 0x61, 11 := 0x62, 20 := 0x41, 21 := 0x63)"

lemma text_mem_strings: "cstr text_mem 10 [0x61, 0x62]" "cstr text_mem 20 [0x41, 0x63]"
  by (simp_all add: text_mem_def)

theorem strcpy_strcat_build_witness:
  "\<exists>m'. strcat 10 20 text_mem = Some (10, m') \<and> cstr m' 10 [0x61, 0x62, 0x41, 0x63]"
  using strcpy_strcat_build [OF text_mem_strings] by (auto simp: apart_def)

theorem strncpy_writes_count_witness: "snd (strncpy 30 20 4 text_mem) 31 = 0x63 \<and> fst (strncpy 30 20 4 text_mem) = 30"
  using strncpy_writes_count [OF text_mem_strings(2), of 30 4] by (simp add: apart_def)

theorem strcmp_orders_witness:
  "\<exists>r. strcmp text_mem 10 20 = Some r \<and> r = 32 \<and> strcmp text_mem 20 10 = Some (- r)"
  using strcmp_orders [OF text_mem_strings] by auto

end
