(* ===== verification/Libc_Printf.thy ===== *)
theory Libc_Printf
  imports Libc_String
begin

text \<open>
  Formatted output of the C library of the x86 kernel: \<^verbatim>\<open>doprnt.c\<close>, \<^verbatim>\<open>sprintf.c\<close>, \<^verbatim>\<open>printf.c\<close>,
  \<^verbatim>\<open>vfprintf.c\<close>, \<^verbatim>\<open>fprintf.c\<close> and \<^verbatim>\<open>putchar.c\<close> under \<^verbatim>\<open>src/trunk/src/libc\<close>, with the console output of
  \<^verbatim>\<open>src/trunk/src/x86_lib.c\<close> (\<^verbatim>\<open>console_putbytes\<close>, \<^verbatim>\<open>puts\<close>).

  \<^verbatim>\<open>_doprnt\<close> hands one character after the other to its argument \<^verbatim>\<open>putc\<close> and reads nothing back; the
  model returns these characters in order, and the callers fold their \<^verbatim>\<open>putc\<close> over them.  The
  variable arguments are the 32 bit words on the stack: a \<^verbatim>\<open>long long\<close> takes two of them, the low
  one first.  A pointer argument is resolved by \<open>strs\<close>, the texts in memory.  \<open>None\<close> stands for
  undefined behaviour: an argument that is missing, a division by zero, an index outside an array,
  the overflow of a field width.
\<close>

type_synonym va_list = "u32 list"
type_synonym strs = "u32 \<Rightarrow> string option"

section \<open>_doprnt\<close>

definition MAXBUF :: nat where
  "MAXBUF = 64"

definition digs :: string where
  "digs = ''0123456789abcdef''"

text \<open>The digits of a number, written from the end of a buffer of \<open>k\<close> characters.\<close>

fun build_num :: "nat \<Rightarrow> u64 \<Rightarrow> u64 \<Rightarrow> string \<Rightarrow> string option" where
  "build_num 0 u base buf = None"
| "build_num (Suc k) u base buf =
     (if base = 0 then None
      else let d = unat (u mod base) in
        if d > length digs then None
        else let buf = peek (drop d digs) # buf; u = u div base in
          if u \<noteq> 0 then build_num k u base buf else Some buf)"

text \<open>What a directive has said so far; \<open>flength\<close> is the variable \<^verbatim>\<open>length\<close>, a sign that is 0 is \<open>NUL\<close>.\<close>

record spec =
  flength :: int
  prec :: int
  ladjust :: bool
  padc :: char
  plus_sign :: char
  altfmt :: bool

definition spec0 :: spec where
  "spec0 = \<lparr>flength = 0, prec = - 1, ladjust = False, padc = CHR '' '', plus_sign = NUL, altfmt = False\<rparr>"

definition va_long :: "va_list \<Rightarrow> (u32 \<times> va_list) option" where
  "va_long args = (case args of w # ws \<Rightarrow> Some (w, ws) | _ \<Rightarrow> None)"

definition va_longlong :: "va_list \<Rightarrow> (u64 \<times> va_list) option" where
  "va_longlong args = (case args of lo # hi # ws \<Rightarrow> Some (word_cat hi lo, ws) | _ \<Rightarrow> None)"

fun doprnt_flags :: "string \<Rightarrow> spec \<Rightarrow> spec \<times> string" where
  "doprnt_flags [] sp = (sp, [])"
| "doprnt_flags (c # fmt) sp =
     (if c = CHR ''#'' then doprnt_flags fmt (sp\<lparr>altfmt := True\<rparr>)
      else if c = CHR ''-'' then doprnt_flags fmt (sp\<lparr>ladjust := True\<rparr>)
      else if c = CHR ''+'' then doprnt_flags fmt (sp\<lparr>plus_sign := CHR ''+''\<rparr>)
      else if c = CHR '' '' then doprnt_flags fmt (if plus_sign sp = NUL then sp\<lparr>plus_sign := CHR '' ''\<rparr> else sp)
      else (sp, c # fmt))"

definition doprnt_zero :: "string \<Rightarrow> spec \<Rightarrow> spec \<times> string" where
  "doprnt_zero fmt sp = (if peek fmt = CHR ''0'' then (sp\<lparr>padc := CHR ''0''\<rparr>, tl fmt) else (sp, fmt))"

fun doprnt_num :: "int \<Rightarrow> string \<Rightarrow> (int \<times> string) option" where
  "doprnt_num n [] = Some (n, [])"
| "doprnt_num n (c # fmt) =
     (if isdigit (chr_int c)
      then let n = 10 * n + (chr_int c - 48) in if n < 2 ^ 31 then doprnt_num n fmt else None
      else Some (n, c # fmt))"

definition doprnt_width :: "string \<Rightarrow> va_list \<Rightarrow> spec \<Rightarrow> (spec \<times> string \<times> va_list) option" where
  "doprnt_width fmt args sp =
     (if isdigit (chr_int (peek fmt)) then do {
        (n, fmt) \<leftarrow> doprnt_num (flength sp) fmt;
        Some (sp\<lparr>flength := n\<rparr>, fmt, args)
      }
      else if peek fmt = CHR ''*'' then do {
        (w, args) \<leftarrow> va_long args;
        let sp = sp\<lparr>flength := sint w\<rparr>;
        if flength sp < 0 then
          if flength sp = - (2 ^ 31) then None
          else Some (sp\<lparr>ladjust := \<not> ladjust sp, flength := - flength sp\<rparr>, tl fmt, args)
        else Some (sp, tl fmt, args)
      }
      else Some (sp, fmt, args))"

definition doprnt_prec :: "string \<Rightarrow> va_list \<Rightarrow> spec \<Rightarrow> (spec \<times> string \<times> va_list) option" where
  "doprnt_prec fmt args sp =
     (if peek fmt = CHR ''.'' then
        let fmt = tl fmt in
        if isdigit (chr_int (peek fmt)) then do {
          (n, fmt) \<leftarrow> doprnt_num 0 fmt;
          Some (sp\<lparr>prec := n\<rparr>, fmt, args)
        }
        else if peek fmt = CHR ''*'' then do {
          (w, args) \<leftarrow> va_long args;
          Some (sp\<lparr>prec := sint w\<rparr>, tl fmt, args)
        }
        else Some (sp, fmt, args)
      else Some (sp, fmt, args))"

definition doprnt_longlong :: "string \<Rightarrow> bool \<times> string" where
  "doprnt_longlong fmt =
     (if peek fmt = CHR ''l''
      then if peek (tl fmt) = CHR ''l'' then (True, drop 2 fmt) else (False, tl fmt)
      else (False, fmt))"

text \<open>Everything between the percent sign and the letter of the conversion.\<close>

definition doprnt_directive :: "string \<Rightarrow> va_list \<Rightarrow> (spec \<times> bool \<times> string \<times> va_list) option" where
  "doprnt_directive fmt args = do {
     let (sp, fmt) = doprnt_flags fmt spec0;
     let (sp, fmt) = doprnt_zero fmt sp;
     (sp, fmt, args) \<leftarrow> doprnt_width fmt args sp;
     (sp, fmt, args) \<leftarrow> doprnt_prec fmt args sp;
     let (is_longlong, fmt) = doprnt_longlong fmt;
     Some (sp, is_longlong, fmt, args)
   }"

fun count_str :: "int \<Rightarrow> int \<Rightarrow> string \<Rightarrow> int" where
  "count_str n p_max [] = n"
| "count_str n p_max (c # p) = (if n < p_max then count_str (n + 1) p_max p else n)"

fun put_str :: "int \<Rightarrow> int \<Rightarrow> string \<Rightarrow> string \<times> int" where
  "put_str n p_max [] = ([], n)"
| "put_str n p_max (c # p) =
     (let n = n + 1 in if n > p_max then ([], n) else let (out, n) = put_str n p_max p in (c # out, n))"

definition print_str :: "spec \<Rightarrow> string \<Rightarrow> string" where
  "print_str sp p =
     (let prec = (if prec sp = - 1 then 0x7fffffff else prec sp);
          o1 = (if flength sp > 0 \<and> \<not> ladjust sp
                then replicate (nat (flength sp - count_str 0 prec p)) (CHR '' '') else []);
          (o2, n) = put_str 0 prec p;
          o3 = (if n < flength sp \<and> ladjust sp then replicate (nat (flength sp - n)) (CHR '' '') else [])
      in o1 @ o2 @ o3)"

text \<open>\<^verbatim>\<open>while (--length >= 0) putc(c)\<close>: the characters, and the counter afterwards.\<close>

definition pad_loop :: "char \<Rightarrow> int \<Rightarrow> string \<times> int" where
  "pad_loop c len = (replicate (nat len) c, if len \<ge> 0 then - 1 else len - 1)"

text \<open>The label \<^verbatim>\<open>print_num\<close>.\<close>

definition print_num :: "spec \<Rightarrow> u64 \<Rightarrow> bool \<Rightarrow> char \<Rightarrow> u64 \<Rightarrow> string option" where
  "print_num sp base trunc sign_char u =
     (let u = (if trunc then scast (ucast u :: u32) else u);
          prefix = (if u \<noteq> 0 \<and> altfmt sp
                    then if base = 8 then ''0'' else if base = 16 then ''0x'' else [] else [])
      in do {
        buf \<leftarrow> build_num MAXBUF u base [];
        let prec = prec sp - int (length buf);
        let len = flength sp - int (length buf);
        let len = (if sign_char \<noteq> NUL then len - 1 else len);
        let len = len - int (length prefix);
        let len = (if prec > 0 then len - prec else len);
        let (o1, len) = (if padc sp = CHR '' '' \<and> \<not> ladjust sp then pad_loop (CHR '' '') len else ([], len));
        let o2 = (if sign_char \<noteq> NUL then [sign_char] else []) @ prefix @ fst (pad_loop (CHR ''0'') prec);
        let (o3, len) = (if padc sp = CHR ''0'' then pad_loop (CHR ''0'') len else ([], len));
        let (o4, len) = (if ladjust sp then pad_loop (CHR '' '') len else ([], len));
        Some (o1 @ o2 @ o3 @ buf @ o4)
      })"

definition print_signed :: "spec \<Rightarrow> u64 \<Rightarrow> bool \<Rightarrow> bool \<Rightarrow> va_list \<Rightarrow> (string \<times> va_list) option" where
  "print_signed sp base trunc is_longlong args = do {
     (n, args) \<leftarrow> (if is_longlong then map_option (apfst sint) (va_longlong args)
                    else map_option (apfst sint) (va_long args));
     let (u, sign_char) = (if n \<ge> 0 then (word_of_int n, plus_sign sp) else (word_of_int (- n), CHR ''-''));
     out \<leftarrow> print_num sp base trunc sign_char u;
     Some (out, args)
   }"

definition print_unsigned :: "spec \<Rightarrow> u64 \<Rightarrow> bool \<Rightarrow> bool \<Rightarrow> va_list \<Rightarrow> (string \<times> va_list) option" where
  "print_unsigned sp base trunc is_longlong args = do {
     (u, args) \<leftarrow> (if is_longlong then va_longlong args else map_option (apfst ucast) (va_long args));
     out \<leftarrow> print_num sp base trunc NUL u;
     Some (out, args)
   }"

definition doprnt_truncates :: bool where
  "doprnt_truncates = False"

text \<open>
  The \<^verbatim>\<open>switch\<close> over the letter.  The conversions \<^verbatim>\<open>%b\<close> and \<^verbatim>\<open>%B\<close> have no defined behaviour:
  they pass an \<^verbatim>\<open>unsigned long long\<close> to \<^verbatim>\<open>printnum\<close>, which takes an \<^verbatim>\<open>unsigned long\<close> and is
  defined without a prototype, so that on the stack of the i386 the base is read from the upper half
  of the number.
\<close>

definition doprnt_conv_u :: "int \<Rightarrow> char \<Rightarrow> bool \<Rightarrow> spec \<Rightarrow> va_list \<Rightarrow> (string \<times> va_list) option" where
  "doprnt_conv_u radix c ll sp args =
     (let tr = doprnt_truncates
      in if c = CHR ''u'' then print_unsigned sp 10 tr ll args
      else if c = CHR ''U'' then print_unsigned sp 10 False ll args
      else if c = CHR ''p'' then
        map_option (apfst (\<lambda>out. ''0x'' @ out)) (print_unsigned (sp\<lparr>padc := CHR ''0'', flength := 8\<rparr>) 16 tr ll args)
      else if c = CHR ''x'' then print_unsigned sp 16 tr ll args
      else if c = CHR ''X'' then print_unsigned sp 16 False ll args
      else if c = CHR ''z'' then print_signed sp 16 tr ll args
      else if c = CHR ''Z'' then print_signed sp 16 False ll args
      else if c = CHR ''r'' then print_signed sp (word_of_int radix) tr ll args
      else if c = CHR ''R'' then print_signed sp (word_of_int radix) False ll args
      else if c = CHR ''n'' then print_unsigned sp (word_of_int radix) tr ll args
      else if c = CHR ''N'' then print_unsigned sp (word_of_int radix) False ll args
      else Some ([c], args))"

definition doprnt_conv ::
  "strs \<Rightarrow> int \<Rightarrow> char \<Rightarrow> bool \<Rightarrow> spec \<Rightarrow> va_list \<Rightarrow> (string \<times> va_list) option" where
  "doprnt_conv strs radix c ll sp args =
     (let tr = doprnt_truncates
      in if c = CHR ''b'' \<or> c = CHR ''B'' then None
      else if c = CHR ''c'' then do { (w, args) \<leftarrow> va_long args; Some ([char_of (unat w)], args) }
      else if c = CHR ''s'' then do {
        (w, args) \<leftarrow> va_long args;
        p \<leftarrow> (if w = 0 then Some [] else strs w);
        Some (print_str sp p, args)
      }
      else if c = CHR ''o'' then print_unsigned sp 8 tr ll args
      else if c = CHR ''O'' then print_unsigned sp 8 False ll args
      else if c = CHR ''d'' \<or> c = CHR ''i'' then print_signed sp 10 tr ll args
      else if c = CHR ''D'' then print_signed sp 10 False ll args
      else doprnt_conv_u radix c ll sp args)"

lemma doprnt_flags_len: "doprnt_flags fmt sp = (sp', fmt') \<Longrightarrow> length fmt' \<le> length fmt"
  by (induction fmt sp rule: doprnt_flags.induct) (auto split: if_splits)

lemma doprnt_num_len: "doprnt_num n fmt = Some (n', fmt') \<Longrightarrow> length fmt' \<le> length fmt"
  by (induction n fmt rule: doprnt_num.induct) (auto simp: Let_def split: if_splits)

lemma doprnt_width_len: "doprnt_width fmt args sp = Some (sp', fmt', args') \<Longrightarrow> length fmt' \<le> length fmt"
  by (auto simp: doprnt_width_def Let_def bind_eq_Some_conv split: if_splits dest!: doprnt_num_len)

lemma doprnt_prec_len: "doprnt_prec fmt args sp = Some (sp', fmt', args') \<Longrightarrow> length fmt' \<le> length fmt"
  by (auto simp: doprnt_prec_def Let_def bind_eq_Some_conv split: if_splits dest!: doprnt_num_len)

lemma doprnt_directive_len:
  assumes "doprnt_directive fmt args = Some (sp, ll, fmt', args')"
  shows "length fmt' \<le> length fmt"
proof -
  obtain sp1 f1 where 1: "doprnt_flags fmt spec0 = (sp1, f1)" by fastforce
  obtain sp2 f2 where 2: "doprnt_zero f1 sp1 = (sp2, f2)" by fastforce
  obtain sp3 f3 a3 where 3: "doprnt_width f2 args sp2 = Some (sp3, f3, a3)"
    using assms by (cases "doprnt_width f2 args sp2") (auto simp: doprnt_directive_def 1 2)
  obtain sp4 f4 a4 where 4: "doprnt_prec f3 a3 sp3 = Some (sp4, f4, a4)"
    using assms by (cases "doprnt_prec f3 a3 sp3") (auto simp: doprnt_directive_def 1 2 3)
  obtain l5 f5 where "doprnt_longlong f4 = (l5, f5)" by fastforce
  then have 5: "doprnt_longlong f4 = (l5, fmt')" using assms by (simp add: doprnt_directive_def 1 2 3 4)
  have "length fmt' \<le> length f4" using 5 by (auto simp: doprnt_longlong_def split: if_splits)
  also have "\<dots> \<le> length f2" using doprnt_width_len [OF 3] doprnt_prec_len [OF 4] by simp
  also have "\<dots> \<le> length f1" using 2 by (auto simp: doprnt_zero_def split: if_splits)
  also have "\<dots> \<le> length fmt" by (rule doprnt_flags_len [OF 1])
  finally show ?thesis .
qed

text \<open>The loop over the format.  A format that ends within a directive ends the output.\<close>

function doprnt :: "strs \<Rightarrow> int \<Rightarrow> string \<Rightarrow> va_list \<Rightarrow> string option" where
  "doprnt strs radix fmt args =
     (if peek fmt = NUL then Some []
      else if peek fmt \<noteq> CHR ''%'' then map_option ((#) (peek fmt)) (doprnt strs radix (tl fmt) args)
      else case doprnt_directive (tl fmt) args of
        None \<Rightarrow> None
      | Some (sp, ll, fmt, args) \<Rightarrow>
          if peek fmt = NUL then Some []
          else case doprnt_conv strs radix (peek fmt) ll sp args of
            None \<Rightarrow> None
          | Some (out, args) \<Rightarrow> map_option ((@) out) (doprnt strs radix (tl fmt) args))"
  by pat_completeness auto
termination
proof (relation "measure (\<lambda>(strs, radix, fmt, args). length fmt)", goal_cases)
  case (2 strs radix fmt args)
  then show ?case by (cases fmt) auto
next
  case (3 strs radix fmt args x sp y ll z f a x2 out a2)
  then have "length f \<le> length (tl fmt)" using doprnt_directive_len by blast
  with 3 show ?case by (cases fmt) auto
qed simp

declare doprnt.simps [simp del]

section \<open>sprintf\<close>

record sprintf_state =
  s_buf :: nat
  s_len :: u32
  s_max :: u32

definition SPRINTF_UNLIMITED :: u32 where
  "SPRINTF_UNLIMITED = - 1"

definition savechar :: "char \<Rightarrow> sprintf_state \<times> bytes \<Rightarrow> sprintf_state \<times> bytes" where
  "savechar c = (\<lambda>(st, m).
     if s_max st \<noteq> SPRINTF_UNLIMITED \<and> s_len st = s_max st then (st, m)
     else (st\<lparr>s_len := s_len st + 1, s_buf := s_buf st + 1\<rparr>, m(s_buf st := of_char c)))"

definition vsprintf :: "strs \<Rightarrow> nat \<Rightarrow> string \<Rightarrow> va_list \<Rightarrow> bytes \<Rightarrow> (int \<times> bytes) option" where
  "vsprintf strs s fmt args m = do {
     out \<leftarrow> doprnt strs 0 fmt args;
     let (st, m) = fold savechar out (\<lparr>s_buf = s, s_len = 0, s_max = SPRINTF_UNLIMITED\<rparr>, m);
     Some (sint (s_len st), m(s_buf st := 0))
   }"

definition vsnprintf :: "strs \<Rightarrow> nat \<Rightarrow> int \<Rightarrow> string \<Rightarrow> va_list \<Rightarrow> bytes \<Rightarrow> (int \<times> bytes) option" where
  "vsnprintf strs s sz fmt args m = do {
     out \<leftarrow> doprnt strs 0 fmt args;
     let (st, m) = fold savechar out (\<lparr>s_buf = s, s_len = 0, s_max = word_of_int sz\<rparr>, m);
     Some (sint (s_len st), m(s_buf st := 0))
   }"

section \<open>printf and fprintf\<close>

text \<open>The console is the sequence of characters sent to it.  A full buffer makes the write of the NUL
  behind its last element undefined.\<close>

definition PRINTF_BUFMAX :: nat where
  "PRINTF_BUFMAX = 128"

record printf_state =
  p_buf :: "nat \<Rightarrow> char"
  p_index :: nat

definition console_putchar :: "char \<Rightarrow> string \<Rightarrow> string" where
  "console_putchar c con = con @ [c]"

fun console_putbytes :: "char list \<Rightarrow> string \<Rightarrow> string" where
  "console_putbytes [] con = con"
| "console_putbytes (c # s) con = console_putbytes s (console_putchar c con)"

definition puts :: "string \<Rightarrow> string \<Rightarrow> string" where
  "puts s con = console_putchar NL (console_putbytes s con)"

definition flush :: "printf_state \<times> string \<Rightarrow> printf_state \<times> string" where
  "flush = (\<lambda>(st, con).
     (st\<lparr>p_index := 0\<rparr>, console_putbytes (map (p_buf st) [0..<p_index st]) con))"

definition printf_char :: "char \<Rightarrow> printf_state \<times> string \<Rightarrow> (printf_state \<times> string) option" where
  "printf_char c = (\<lambda>(st, con).
     if c = NL then
       if p_index st \<ge> PRINTF_BUFMAX then None
       else let st = st\<lparr>p_buf := (p_buf st)(p_index st := NUL)\<rparr>;
                con = puts (takeWhile (\<lambda>c. c \<noteq> NUL) (map (p_buf st) [0..<PRINTF_BUFMAX])) con
            in Some (st\<lparr>p_index := 0\<rparr>, con)
     else if c = NUL \<or> p_index st \<ge> PRINTF_BUFMAX then
       let (st, con) = flush (st, con) in Some (st, console_putchar c con)
     else Some (st\<lparr>p_buf := (p_buf st)(p_index st := c), p_index := p_index st + 1\<rparr>, con))"

fun putc_all :: "(char \<Rightarrow> 's \<Rightarrow> 's option) \<Rightarrow> string \<Rightarrow> 's \<Rightarrow> 's option" where
  "putc_all putc [] s = Some s"
| "putc_all putc (c # cs) s = (case putc c s of None \<Rightarrow> None | Some s \<Rightarrow> putc_all putc cs s)"

definition vprintf :: "strs \<Rightarrow> (nat \<Rightarrow> char) \<Rightarrow> string \<Rightarrow> va_list \<Rightarrow> string \<Rightarrow> (int \<times> string) option" where
  "vprintf strs b fmt args con = do {
     out \<leftarrow> doprnt strs 0 fmt args;
     (st, con) \<leftarrow> putc_all printf_char out (\<lparr>p_buf = b, p_index = 0\<rparr>, con);
     let (st, con) = (if p_index st \<noteq> 0 then flush (st, con) else (st, con));
     Some (0, con)
   }"

text \<open>\<^verbatim>\<open>vfprintf\<close> has a \<^verbatim>\<open>flush\<close> of its own and ignores the stream.\<close>

definition f_flush :: "printf_state \<times> string \<Rightarrow> printf_state \<times> string" where
  "f_flush = (\<lambda>(st, con).
     if p_index st > 0
     then (st\<lparr>p_index := 0\<rparr>, console_putbytes (map (p_buf st) [0..<p_index st]) con)
     else (st, con))"

definition dochar :: "char \<Rightarrow> printf_state \<times> string \<Rightarrow> printf_state \<times> string" where
  "dochar c = (\<lambda>(st, con).
     let (st, con) = (if p_index st \<ge> PRINTF_BUFMAX then f_flush (st, con) else (st, con))
     in (st\<lparr>p_buf := (p_buf st)(p_index st := c), p_index := p_index st + 1\<rparr>, con))"

definition vfprintf :: "strs \<Rightarrow> (nat \<Rightarrow> char) \<Rightarrow> string \<Rightarrow> va_list \<Rightarrow> string \<Rightarrow> (int \<times> string) option" where
  "vfprintf strs b fmt args con = do {
     out \<leftarrow> doprnt strs 0 fmt args;
     Some (0, snd (f_flush (fold dochar out (\<lparr>p_buf = b, p_index = 0\<rparr>, con))))
   }"

section \<open>Where the characters go\<close>

lemma console_putbytes_append [simp]: "console_putbytes s con = con @ s"
  by (induction s arbitrary: con) (simp_all add: console_putchar_def)

abbreviation pending :: "printf_state \<Rightarrow> string" where
  "pending st \<equiv> map (p_buf st) [0..<p_index st]"

lemma map_upd_upt: "map (f(n := c)) [0..<n] = map f [0..<n]"
  by simp

lemma takeWhile_terminated:
  assumes "n < k" "NUL \<notin> set (map f [0..<n])" "f n = NUL"
  shows "takeWhile (\<lambda>c. c \<noteq> NUL) (map f [0..<k]) = map f [0..<n]"
proof -
  have "[0..<k] = [0..<n] @ n # [Suc n..<k]" using assms(1) by (metis le0 less_imp_le_nat upt_add_eq_append upt_conv_Cons le_add_diff_inverse)
  moreover have "takeWhile (\<lambda>c. c \<noteq> NUL) (map f [0..<n] @ map f (n # [Suc n..<k])) = map f [0..<n]"
    by (rule takeWhile_append_stop) (use assms(2,3) in \<open>auto simp: image_iff\<close>)
  ultimately show ?thesis by simp
qed

lemma dochar_keeps:
  "snd (f_flush (fold dochar t (st, con))) = con @ pending st @ t"
proof (induction t arbitrary: st con)
  case Nil
  then show ?case by (simp add: f_flush_def)
next
  case (Cons c t)
  obtain st' con' where d: "dochar c (st, con) = (st', con')" by fastforce
  then have "con' @ pending st' = con @ pending st @ [c]"
    by (auto simp: dochar_def f_flush_def PRINTF_BUFMAX_def split: if_splits)
  with Cons.IH [of st' con'] d show ?case by simp
qed

lemma printf_char_keeps:
  assumes "NUL \<notin> set (pending st)" "NL \<notin> set (pending st)"
    "\<forall>u l v. pending st @ t = u @ l @ v \<and> NL \<notin> set l \<longrightarrow> length l < PRINTF_BUFMAX"
  shows "\<exists>st' con'. putc_all printf_char t (st, con) = Some (st', con') \<and> con' @ pending st' = con @ pending st @ t"
  using assms
proof (induction t arbitrary: st con)
  case (Cons c t)
  have i: "p_index st < PRINTF_BUFMAX"
    using Cons.prems(2) Cons.prems(3) [rule_format, of "[]" "pending st" "c # t"] by simp
  have tl: "length l < PRINTF_BUFMAX" if "t = u @ l @ v" "NL \<notin> set l" for u l v
    using Cons.prems(3) [rule_format, of "pending st @ c # u" l v] that by simp
  consider "c = NL" | "c = NUL" | "c \<noteq> NL" "c \<noteq> NUL" by blast
  then show ?case
  proof cases
    case 1
    let ?st = "st\<lparr>p_buf := (p_buf st)(p_index st := NUL), p_index := 0\<rparr>"
    have "takeWhile (\<lambda>c. c \<noteq> NUL) (map ((p_buf st)(p_index st := NUL)) [0..<PRINTF_BUFMAX]) = pending st"
      using takeWhile_terminated [OF i, of "(p_buf st)(p_index st := NUL)"] Cons.prems(1) by simp
    then have "printf_char c (st, con) = Some (?st, con @ pending st @ [NL])"
      using 1 i by (simp add: printf_char_def puts_def console_putchar_def Let_def)
    moreover obtain st' con' where "putc_all printf_char t (?st, con @ pending st @ [NL]) = Some (st', con')"
      "con' @ pending st' = (con @ pending st @ [NL]) @ t"
      using Cons.IH [of ?st "con @ pending st @ [NL]"] tl by auto
    ultimately show ?thesis using 1 by simp
  next
    case 2
    let ?st = "st\<lparr>p_index := 0\<rparr>"
    have "printf_char c (st, con) = Some (?st, con @ pending st @ [NUL])"
      using 2 by (simp add: printf_char_def flush_def console_putchar_def)
    moreover obtain st' con' where "putc_all printf_char t (?st, con @ pending st @ [NUL]) = Some (st', con')"
      "con' @ pending st' = (con @ pending st @ [NUL]) @ t"
      using Cons.IH [of ?st "con @ pending st @ [NUL]"] tl by auto
    ultimately show ?thesis using 2 by simp
  next
    case 3
    let ?st = "st\<lparr>p_buf := (p_buf st)(p_index st := c), p_index := p_index st + 1\<rparr>"
    have "printf_char c (st, con) = Some (?st, con)" using 3 i by (simp add: printf_char_def)
    moreover have p: "pending ?st = pending st @ [c]" by simp
    moreover have "\<exists>st' con'. putc_all printf_char t (?st, con) = Some (st', con') \<and> con' @ pending st' = con @ pending ?st @ t"
    proof (rule Cons.IH)
      show "NUL \<notin> set (pending ?st)" "NL \<notin> set (pending ?st)" unfolding p using Cons.prems(1,2) 3 by simp_all
      show "\<forall>u l v. pending ?st @ t = u @ l @ v \<and> NL \<notin> set l \<longrightarrow> length l < PRINTF_BUFMAX"
        unfolding p using Cons.prems(3) by simp
    qed
    ultimately show ?thesis by simp
  qed
qed simp

text \<open>What \<^verbatim>\<open>_doprnt\<close> prints reaches the console unchanged and in order, whatever was there before:
  with \<^verbatim>\<open>vfprintf\<close> for every text, with \<^verbatim>\<open>vprintf\<close> for texts whose lines are shorter than its buffer
  of 128 characters.\<close>
theorem printf_reaches_console:
  assumes "doprnt strs 0 fmt args = Some t"
    and "\<forall>u l v. t = u @ l @ v \<and> NL \<notin> set l \<longrightarrow> length l < 128"
  shows "vprintf strs b fmt args con = Some (0, con @ t) \<and> vfprintf strs b' fmt args con = Some (0, con @ t)"
proof
  let ?st = "\<lparr>p_buf = b, p_index = 0\<rparr>"
  obtain st' con' where "putc_all printf_char t (?st, con) = Some (st', con')" "con' @ pending st' = con @ t"
    using printf_char_keeps [of ?st t con] assms(2) by (auto simp: PRINTF_BUFMAX_def)
  then show "vprintf strs b fmt args con = Some (0, con @ t)" using assms(1)
    by (cases "p_index st' = 0") (simp_all add: vprintf_def flush_def)
  show "vfprintf strs b' fmt args con = Some (0, con @ t)"
    using assms(1) dochar_keeps [of t "\<lparr>p_buf = b', p_index = 0\<rparr>" con] by (simp add: vfprintf_def)
qed

lemma fold_savechar:
  assumes "s_max st \<noteq> SPRINTF_UNLIMITED" "unat (s_len st) \<le> unat (s_max st)"
    "k = min (length t) (unat (s_max st) - unat (s_len st))"
  shows "fold savechar t (st, m) =
    (st\<lparr>s_len := s_len st + of_nat k, s_buf := s_buf st + k\<rparr>,
     \<lambda>i. if s_buf st \<le> i \<and> i < s_buf st + k then of_char (t ! (i - s_buf st)) else m i)"
  using assms
proof (induction t arbitrary: st m k)
  case Nil
  then show ?case by (auto simp: fun_eq_iff)
next
  case (Cons c t)
  show ?case
  proof (cases "s_len st = s_max st")
    case True
    then have "savechar c (st, m) = (st, m)" using Cons.prems(1) by (simp add: savechar_def)
    moreover have "k = 0" using True Cons.prems by simp
    ultimately show ?thesis using Cons.IH [of st 0 m] Cons.prems(1,2) True by (auto simp: fun_eq_iff)
  next
    case False
    let ?st = "st\<lparr>s_len := s_len st + 1, s_buf := s_buf st + 1\<rparr>" and ?m = "m(s_buf st := of_char c)"
    have s: "savechar c (st, m) = (?st, ?m)" using False by (simp add: savechar_def)
    have lt: "unat (s_len st) < unat (s_max st)" using False Cons.prems(2) by (metis le_neq_implies_less unsigned_word_eqI)
    then have l: "unat (s_len st + 1) = Suc (unat (s_len st))"
      using unat_lt2p32 [of "s_max st"] by (simp add: unat_add_32)
    let ?k = "min (length t) (unat (s_max st) - Suc (unat (s_len st)))"
    have k: "k = Suc ?k" using lt Cons.prems(3) by auto
    have "fold savechar t (?st, ?m) = (?st\<lparr>s_len := s_len ?st + of_nat ?k, s_buf := s_buf ?st + ?k\<rparr>,
        \<lambda>i. if s_buf ?st \<le> i \<and> i < s_buf ?st + ?k then of_char (t ! (i - s_buf ?st)) else ?m i)"
      by (rule Cons.IH) (use Cons.prems(1) lt l in simp_all)
    also have "\<dots> = (st\<lparr>s_len := s_len st + of_nat k, s_buf := s_buf st + k\<rparr>,
        \<lambda>i. if s_buf st \<le> i \<and> i < s_buf st + k then of_char ((c # t) ! (i - s_buf st)) else m i)"
      unfolding k by (auto simp: fun_eq_iff nth_Cons' add.assoc)
    finally show ?thesis using s by simp
  qed
qed

lemma sint_of_nat_small: "n < 2 ^ 31 \<Longrightarrow> sint (of_nat n :: u32) = int n"
proof -
  have "sint (word_of_int k :: u32) = k" if "- (2 ^ 31) \<le> k" "k < 2 ^ 31" for k
    using that by (simp add: sint_sbintrunc' signed_take_bit_int_eq_self)
  from this [of "int n"] show "n < 2 ^ 31 \<Longrightarrow> sint (of_nat n :: u32) = int n" by simp
qed

text \<open>\<^verbatim>\<open>vsnprintf\<close> stores the text, cut after \<^verbatim>\<open>size\<close> characters, with a NUL behind it, and returns the
  number of characters stored.  It changes no other byte; the NUL is the byte number \<^verbatim>\<open>size + 1\<close> when
  the text is cut, so the buffer has to be one longer than \<^verbatim>\<open>size\<close>, unlike in standard C.\<close>
theorem vsnprintf_stores:
  assumes "doprnt strs 0 fmt args = Some t" "sz < 2 ^ 31"
  shows "vsnprintf strs s (int sz) fmt args m =
     Some (int (min (length t) sz),
       \<lambda>i. if i < s \<or> s + min (length t) sz < i then m i
           else if i = s + min (length t) sz then 0 else of_char (t ! (i - s)))"
proof -
  let ?st = "\<lparr>s_buf = s, s_len = 0, s_max = of_nat sz\<rparr>" and ?k = "min (length t) sz"
  have u: "unat (of_nat sz :: u32) = sz" using assms(2) by (simp add: unat_of_nat)
  have "(of_nat sz :: u32) \<noteq> - 1"
  proof
    assume "(of_nat sz :: u32) = - 1"
    then have "unat (of_nat sz :: u32) = 4294967295" by (simp only: unsigned_minus_1_eq_mask) (simp add: mask_eq_exp_minus_1)
    with u assms(2) show False by simp
  qed
  then have "fold savechar t (?st, m) = (?st\<lparr>s_len := of_nat ?k, s_buf := s + ?k\<rparr>,
     \<lambda>i. if s \<le> i \<and> i < s + ?k then of_char (t ! (i - s)) else m i)"
    using fold_savechar [of ?st ?k t m] u by (simp add: SPRINTF_UNLIMITED_def cong: if_cong)
  moreover have "sint (of_nat ?k :: u32) = int ?k" using assms(2) by (intro sint_of_nat_small) simp
  ultimately show ?thesis using assms(1) by (auto simp: vsnprintf_def fun_eq_iff)
qed

section \<open>The text a format describes\<close>

text \<open>A format as a list of items, with the directive, the arguments and the text of each.\<close>

datatype adjust = Right | Left | Zeros
datatype conv = Dec u32 | LongDec u64 | Uns u32 | LongUns u64 | Hex u32 | LongHex u64 | Oct u32 | Str u32 string
datatype item = Lit string | Field adjust nat conv

fun conv_letters :: "conv \<Rightarrow> bool \<times> char" where
  "conv_letters (Dec w) = (False, CHR ''d'')"
| "conv_letters (LongDec w) = (True, CHR ''d'')"
| "conv_letters (Uns w) = (False, CHR ''u'')"
| "conv_letters (LongUns w) = (True, CHR ''u'')"
| "conv_letters (Hex w) = (False, CHR ''x'')"
| "conv_letters (LongHex w) = (True, CHR ''x'')"
| "conv_letters (Oct w) = (False, CHR ''o'')"
| "conv_letters (Str p s) = (False, CHR ''s'')"

definition long_args :: "u64 \<Rightarrow> va_list" where
  "long_args w = [ucast w, ucast (drop_bit 32 w)]"

fun conv_args :: "conv \<Rightarrow> va_list" where
  "conv_args (Dec w) = [w]"
| "conv_args (LongDec w) = long_args w"
| "conv_args (Uns w) = [w]"
| "conv_args (LongUns w) = long_args w"
| "conv_args (Hex w) = [w]"
| "conv_args (LongHex w) = long_args w"
| "conv_args (Oct w) = [w]"
| "conv_args (Str p s) = [p]"

fun conv_body :: "conv \<Rightarrow> string" where
  "conv_body (Dec w) = show_nat 10 (nat \<bar>sint w\<bar>)"
| "conv_body (LongDec w) = show_nat 10 (nat \<bar>sint w\<bar>)"
| "conv_body (Uns w) = show_nat 10 (unat w)"
| "conv_body (LongUns w) = show_nat 10 (unat w)"
| "conv_body (Hex w) = show_nat 16 (unat w)"
| "conv_body (LongHex w) = show_nat 16 (unat w)"
| "conv_body (Oct w) = show_nat 8 (unat w)"
| "conv_body (Str p s) = s"

fun conv_sign :: "conv \<Rightarrow> string" where
  "conv_sign (Dec w) = (if sint w < 0 then ''-'' else [])"
| "conv_sign (LongDec w) = (if sint w < 0 then ''-'' else [])"
| "conv_sign c = []"

fun pad_field :: "adjust \<Rightarrow> nat \<Rightarrow> string \<Rightarrow> string \<Rightarrow> string" where
  "pad_field Right w sign body = replicate (w - length (sign @ body)) (CHR '' '') @ sign @ body"
| "pad_field Left w sign body = sign @ body @ replicate (w - length (sign @ body)) (CHR '' '')"
| "pad_field Zeros w sign body = sign @ replicate (w - length (sign @ body)) (CHR ''0'') @ body"

fun blank_adjust :: "adjust \<Rightarrow> conv \<Rightarrow> adjust" where
  "blank_adjust Zeros (Str p s) = Right"
| "blank_adjust a c = a"

fun adjust_flag :: "adjust \<Rightarrow> string" where
  "adjust_flag Right = []"
| "adjust_flag Left = ''-''"
| "adjust_flag Zeros = ''0''"

definition width_text :: "nat \<Rightarrow> string" where
  "width_text w = (if w = 0 then [] else show_nat 10 w)"

fun item_fmt :: "item \<Rightarrow> string" where
  "item_fmt (Lit s) = s"
| "item_fmt (Field a w c) =
     CHR ''%'' # adjust_flag a @ width_text w @ (if fst (conv_letters c) then ''ll'' else []) @ [snd (conv_letters c)]"

fun item_args :: "item \<Rightarrow> va_list" where
  "item_args (Lit s) = []"
| "item_args (Field a w c) = conv_args c"

fun item_text :: "item \<Rightarrow> string" where
  "item_text (Lit s) = s"
| "item_text (Field a w c) = pad_field (blank_adjust a c) w (conv_sign c) (conv_body c)"

fun conv_ok :: "strs \<Rightarrow> conv \<Rightarrow> bool" where
  "conv_ok strs (Str p s) \<longleftrightarrow> (if p = 0 then s = [] else strs p = Some s) \<and> length s < 2 ^ 31"
| "conv_ok strs c \<longleftrightarrow> True"

fun item_ok :: "strs \<Rightarrow> item \<Rightarrow> bool" where
  "item_ok strs (Lit s) \<longleftrightarrow> CHR ''%'' \<notin> set s \<and> no_nul s"
| "item_ok strs (Field a w c) \<longleftrightarrow> w < 2 ^ 31 \<and> conv_ok strs c"

definition adj_spec :: "adjust \<Rightarrow> nat \<Rightarrow> spec" where
  "adj_spec a w = spec0\<lparr>flength := int w, ladjust := (a = Left), padc := (if a = Zeros then CHR ''0'' else CHR '' '')\<rparr>"

lemma drop_digs: "d < 16 \<Longrightarrow> peek (drop d digs) = digit_char d"
proof -
  assume "d < 16"
  then have "d = 0 \<or> d = 1 \<or> d = 2 \<or> d = 3 \<or> d = 4 \<or> d = 5 \<or> d = 6 \<or> d = 7 \<or> d = 8 \<or> d = 9 \<or>
    d = 10 \<or> d = 11 \<or> d = 12 \<or> d = 13 \<or> d = 14 \<or> d = 15" by arith
  then show ?thesis by (elim disjE) (simp_all add: digs_def)
qed

lemma length_digs: "length digs = 16"
  by (simp add: digs_def)

lemma build_num_show:
  "2 \<le> b \<Longrightarrow> b \<le> 16 \<Longrightarrow> unat u < b ^ k \<Longrightarrow> 0 < k \<Longrightarrow>
     build_num k u (of_nat b) buf = Some (show_nat b (unat u) @ buf)"
proof (induction k arbitrary: u buf)
  case (Suc k)
  have b: "unat (of_nat b :: u64) = b" "(of_nat b :: u64) \<noteq> 0"
  proof -
    show u: "unat (of_nat b :: u64) = b" using Suc.prems(2) by (simp add: unat_of_nat)
    then show "(of_nat b :: u64) \<noteq> 0" using Suc.prems(1) by (metis not_numeral_le_zero unat_0)
  qed
  have d: "unat (u mod of_nat b) = unat u mod b" "unat (u div of_nat b) = unat u div b"
    by (simp_all add: unat_mod unat_div b)
  have lt: "unat u mod b < 16" using Suc.prems(1,2) mod_less_divisor [of b "unat u"] by linarith
  have z: "u div of_nat b = 0 \<longleftrightarrow> unat u < b"
    using d(2) Suc.prems(1) by (metis div_less_iff_less_mult div_eq_0_iff mult_1 not_numeral_le_zero unat_eq_zero)
  show ?case
  proof (cases "unat u < b")
    case True
    then show ?thesis using b z lt by (simp add: d drop_digs length_digs show_nat_def digits.simps [of b "unat u"] Let_def)
  next
    case False
    then have k: "0 < k" using Suc.prems(3) by (cases k) auto
    have "unat (u div of_nat b) < b ^ k" using Suc.prems(1,3) by (simp add: d div_less_iff_less_mult mult.commute)
    from Suc.IH [OF Suc.prems(1,2) this k]
    show ?thesis using b z lt False Suc.prems(1)
      by (simp add: d drop_digs length_digs show_nat_def digits_snoc Let_def)
  qed
qed simp

lemma adj_spec_simps [simp]:
  "flength (adj_spec a w) = int w" "prec (adj_spec a w) = - 1" "ladjust (adj_spec a w) \<longleftrightarrow> a = Left"
  "padc (adj_spec a w) = (if a = Zeros then CHR ''0'' else CHR '' '')" "plus_sign (adj_spec a w) = NUL"
  "altfmt (adj_spec a w) \<longleftrightarrow> False"
  by (simp_all add: adj_spec_def spec0_def)

lemma print_num_field:
  assumes "2 \<le> b" "b \<le> 16"
  shows "print_num (adj_spec a w) (of_nat b) False sc u =
     Some (pad_field a w (if sc \<noteq> NUL then [sc] else []) (show_nat b (unat u)))"
proof -
  have "(2 :: nat) ^ 64 \<le> b ^ 64" using assms(1) by (intro power_mono) simp_all
  then have "build_num MAXBUF u (of_nat b) [] = Some (show_nat b (unat u))"
    using build_num_show [OF assms, of u MAXBUF "[]"] unat_lt2p64 [of u] by (simp add: MAXBUF_def)
  then show ?thesis
    by (cases a) (auto simp: print_num_def pad_loop_def Let_def nat_diff_distrib' algebra_simps)
qed

lemma count_str_all: "n + int (length p) \<le> m \<Longrightarrow> count_str n m p = n + int (length p)"
  by (induction p arbitrary: n) auto

lemma put_str_all: "n + int (length p) \<le> m \<Longrightarrow> put_str n m p = (p, n + int (length p))"
  by (induction p arbitrary: n) auto

lemma print_str_field:
  "length s < 2 ^ 31 \<Longrightarrow> print_str (adj_spec a w) s = pad_field (if a = Left then Left else Right) w [] s"
  by (auto simp: print_str_def count_str_all put_str_all Let_def nat_diff_distrib')

lemma word_cat_halves: "word_cat (ucast (drop_bit 32 (w :: u64)) :: u32) (ucast w :: u32) = w"
  by (rule bit_word_eqI) (auto simp: bit_word_cat_iff bit_simps)

lemma isdigit_is_dec: "isdigit (chr_int c) \<longleftrightarrow> is_dec c"
  by (auto simp: isdigit_def is_dec_def digit_val_def Let_def)

lemma digit_val_dec: "is_dec c \<Longrightarrow> chr_int c - 48 = int (digit_val c)"
  by (auto simp: is_dec_def digit_val_def Let_def split: if_splits)

lemma foldl_dec_mono: "n \<le> foldl (\<lambda>a c. a * 10 + digit_val c) n ds"
proof (induction ds arbitrary: n)
  case (Cons c ds)
  have "n \<le> n * 10 + digit_val c" by simp
  also have "\<dots> \<le> foldl (\<lambda>a c. a * 10 + digit_val c) (n * 10 + digit_val c) ds" by (rule Cons.IH)
  finally show ?case by simp
qed simp

lemma doprnt_num_digits:
  assumes "\<forall>c \<in> set ds. is_dec c" "rest = [] \<or> \<not> is_dec (hd rest)" "foldl (\<lambda>a c. a * 10 + digit_val c) n ds < 2 ^ 31"
  shows "doprnt_num (int n) (ds @ rest) = Some (int (foldl (\<lambda>a c. a * 10 + digit_val c) n ds), rest)"
  using assms
proof (induction ds arbitrary: n)
  case Nil
  then show ?case by (cases rest) (simp_all add: isdigit_is_dec)
next
  case (Cons c ds)
  have "n * 10 + digit_val c < 2 ^ 31" using Cons.prems(3) foldl_dec_mono [of "n * 10 + digit_val c" ds] by simp
  moreover have "10 * int n + (chr_int c - 48) = int (n * 10 + digit_val c)"
    using Cons.prems(1) by (simp add: digit_val_dec)
  ultimately show ?case using Cons.IH [of "n * 10 + digit_val c"] Cons.prems
    by (simp add: isdigit_is_dec Let_def del: of_nat_add of_nat_mult)
qed

lemma doprnt_num_show:
  "w < 2 ^ 31 \<Longrightarrow> rest = [] \<or> \<not> is_dec (hd rest) \<Longrightarrow> doprnt_num 0 (show_nat 10 w @ rest) = Some (int w, rest)"
  using doprnt_num_digits [of "show_nat 10 w" rest 0] show_nat_dec num_val_show_nat [of 10 w] by (simp add: num_val_def)

text \<open>The first digit of a positive number is not a zero.\<close>

lemma digits_hd: "2 \<le> b \<Longrightarrow> 0 < n \<Longrightarrow> 0 < hd (digits b n)"
proof (induction b n rule: digits.induct)
  case (1 b n)
  show ?case
  proof (cases "n < b")
    case True
    then show ?thesis using 1 by (simp add: digits.simps)
  next
    case False
    then have "0 < n div b" using 1 by (simp add: div_greater_zero_iff)
    with False 1 show ?thesis by (simp add: digits_snoc)
  qed
qed

lemma show_nat_hd: "0 < w \<Longrightarrow> hd (show_nat 10 w) \<noteq> CHR ''0''"
proof -
  assume "0 < w"
  moreover have "hd (digits 10 w) < 10" by (rule digits_less [of 10 _ w]) (simp_all add: hd_in_set)
  ultimately have "digit_val (digit_char (hd (digits 10 w))) \<noteq> 0" using digits_hd [of 10 w] by (simp add: digit_val_char)
  moreover have "digit_val (CHR ''0'') = 0" by (simp add: digit_val_def)
  ultimately show ?thesis by (metis show_nat_def hd_map digits_nonempty)
qed

definition conv_start :: "char \<Rightarrow> bool" where
  "conv_start c \<longleftrightarrow> c \<notin> set ''#-+ 0*.%'' \<and> \<not> is_dec c \<and> c \<noteq> NUL"

lemma is_dec_conv: "is_dec c \<Longrightarrow> c \<noteq> CHR ''0'' \<Longrightarrow> c \<notin> set ''#-+ 0*.''"
  by (auto simp: is_dec_def digit_val_def)

lemma doprnt_flags_stop: "peek fmt \<notin> set ''#-+ '' \<Longrightarrow> doprnt_flags fmt sp = (sp, fmt)"
  by (cases fmt) auto

lemma doprnt_directive_item:
  assumes "w < 2 ^ 31" "conv_start (peek fmt)" "doprnt_longlong fmt = (ll, fmt')"
  shows "doprnt_directive (adjust_flag a @ width_text w @ fmt) args = Some (adj_spec a w, ll, fmt', args)"
proof -
  let ?f = "width_text w @ fmt"
  have p: "peek ?f \<notin> set ''#-+ 0*.'' \<and> (w = 0 \<longrightarrow> \<not> is_dec (peek ?f)) \<and> (w \<noteq> 0 \<longrightarrow> is_dec (peek ?f))"
  proof (cases "w = 0")
    case False
    then have "peek ?f = hd (show_nat 10 w)" by (simp add: width_text_def peek_hd)
    moreover have "is_dec (hd (show_nat 10 w))" using hd_show_nat [of 10] by (simp add: is_dec_def)
    ultimately show ?thesis using False is_dec_conv [OF _ show_nat_hd, of w] by simp
  qed (use assms(2) in \<open>simp add: width_text_def conv_start_def\<close>)
  have f: "doprnt_flags (adjust_flag a @ ?f) spec0 = (spec0\<lparr>ladjust := (a = Left)\<rparr>, (if a = Zeros then ''0'' else []) @ ?f)"
    using p doprnt_flags_stop [of ?f] by (cases a) (auto simp: spec0_def doprnt_flags_stop)
  let ?sp = "spec0\<lparr>ladjust := (a = Left), padc := (if a = Zeros then CHR ''0'' else CHR '' '')\<rparr>"
  have z: "doprnt_zero ((if a = Zeros then ''0'' else []) @ ?f) (spec0\<lparr>ladjust := (a = Left)\<rparr>) = (?sp, ?f)"
    using p by (auto simp: doprnt_zero_def spec0_def)
  have "\<not> is_dec (peek fmt)" using assms(2) by (simp add: conv_start_def)
  then have nd: "fmt = [] \<or> \<not> is_dec (hd fmt)" by (cases fmt) auto
  have wd: "doprnt_width ?f args ?sp = Some (adj_spec a w, fmt, args)"
  proof (cases "w = 0")
    case True
    then show ?thesis using p
      by (simp add: doprnt_width_def isdigit_is_dec width_text_def adj_spec_def spec0_def)
  next
    case False
    then show ?thesis using p doprnt_num_show [OF assms(1) nd]
      by (simp add: doprnt_width_def isdigit_is_dec width_text_def adj_spec_def spec0_def)
  qed
  have "peek fmt \<noteq> CHR ''.''" using assms(2) by (simp add: conv_start_def)
  then have "doprnt_prec fmt args (adj_spec a w) = Some (adj_spec a w, fmt, args)" by (simp add: doprnt_prec_def)
  then show ?thesis by (simp add: doprnt_directive_def f z wd assms(3))
qed

lemma sint_64:
  fixes w :: "'a::len word"
  assumes "LENGTH('a) \<le> 64"
  shows "- (2 ^ 63) \<le> sint w" "sint w < 2 ^ 63"
proof -
  have "(2 :: int) ^ (LENGTH('a) - 1) \<le> 2 ^ 63" by (rule power_increasing) (use assms in simp_all)
  then show "- (2 ^ 63) \<le> sint w" "sint w < 2 ^ 63" using sint_ge [of w] sint_lt [of w] by linarith+
qed

lemma unat_sint_abs:
  fixes w :: "'a::len word"
  assumes "LENGTH('a) \<le> 64"
  shows "unat (word_of_int \<bar>sint w\<bar> :: u64) = nat \<bar>sint w\<bar>"
  using sint_64 [OF assms, of w] by (simp add: unat_eq_nat_uint uint_word_of_int)

lemma conv_prints:
  assumes "conv_ok strs c"
  shows "doprnt_conv strs radix (snd (conv_letters c)) (fst (conv_letters c)) (adj_spec a w) (conv_args c @ args)
     = Some (pad_field (blank_adjust a c) w (conv_sign c) (conv_body c), args)"
proof -
  note pf = print_num_field [of 10] print_num_field [of 8] print_num_field [of 16]
  have s: "print_signed (adj_spec a w) 10 False ll args' =
      Some (pad_field a w (if n < 0 then ''-'' else []) (show_nat 10 (nat \<bar>n\<bar>)), args)"
    if "(if ll then map_option (apfst sint) (va_longlong args') else map_option (apfst sint) (va_long args')) = Some (n, args)"
      "unat (word_of_int \<bar>n\<bar> :: u64) = nat \<bar>n\<bar>" for ll args' n
    using that pf(1) by (cases "n < 0") (simp_all add: print_signed_def)
  show ?thesis
  proof (cases c)
    case (Dec x)
    then show ?thesis using s [of False "x # args" "sint x"] unat_sint_abs [of x]
      by (simp add: doprnt_conv_def doprnt_conv_u_def doprnt_truncates_def va_long_def)
  next
    case (LongDec x)
    then show ?thesis using s [of True "long_args x @ args" "sint x"] unat_sint_abs [of x]
      by (simp add: doprnt_conv_def doprnt_conv_u_def doprnt_truncates_def va_longlong_def long_args_def word_cat_halves)
  next
    case (Str p s)
    then show ?thesis using assms print_str_field [of s a w]
      by (cases a) (auto simp: doprnt_conv_def doprnt_conv_u_def va_long_def Let_def split: if_splits)
  qed (use pf in \<open>simp_all add: doprnt_conv_def doprnt_conv_u_def doprnt_truncates_def print_unsigned_def va_long_def va_longlong_def
      long_args_def word_cat_halves\<close>)
qed

lemma conv_letter_start: "conv_start (snd (conv_letters c))" "snd (conv_letters c) \<noteq> CHR ''l''"
  by (cases c; simp add: conv_start_def is_dec_def digit_val_def)+

lemma doprnt_literal:
  "CHR ''%'' \<notin> set s \<Longrightarrow> no_nul s \<Longrightarrow> doprnt strs radix (s @ fmt) args = map_option ((@) s) (doprnt strs radix fmt args)"
proof (induction s)
  case Nil
  then show ?case by (cases "doprnt strs radix fmt args") simp_all
next
  case (Cons c s)
  then show ?case by (subst doprnt.simps, cases "doprnt strs radix fmt args") auto
qed

lemma doprnt_field:
  assumes "w < 2 ^ 31" "conv_ok strs c"
  shows "doprnt strs radix (item_fmt (Field a w c) @ fmt) (conv_args c @ args) =
     map_option ((@) (item_text (Field a w c))) (doprnt strs radix fmt args)"
proof -
  let ?l = "snd (conv_letters c)"
  let ?f = "(if fst (conv_letters c) then ''ll'' else []) @ ?l # fmt"
  have st: "conv_start ?l" "?l \<noteq> CHR ''l''" by (rule conv_letter_start)+
  have ll: "doprnt_longlong ?f = (fst (conv_letters c), ?l # fmt)" using st(2) by (simp add: doprnt_longlong_def)
  have "conv_start (peek ?f)" using st(1) by (auto simp: conv_start_def is_dec_def digit_val_def)
  from doprnt_directive_item [OF assms(1) this ll]
  have "doprnt_directive (adjust_flag a @ width_text w @ ?f) (conv_args c @ args)
      = Some (adj_spec a w, fst (conv_letters c), ?l # fmt, conv_args c @ args)" .
  moreover have "?l \<noteq> NUL" using st(1) by (simp add: conv_start_def)
  ultimately show ?thesis
    using conv_prints [OF assms(2), of radix a w args] by (subst doprnt.simps) simp
qed

lemma doprnt_items:
  assumes "\<forall>x \<in> set items. item_ok strs x"
  shows "doprnt strs radix (concat (map item_fmt items)) (concat (map item_args items)) =
     Some (concat (map item_text items))"
  using assms
proof (induction items)
  case Nil
  then show ?case by (simp add: doprnt.simps)
next
  case (Cons x items)
  then show ?case using doprnt_literal doprnt_field by (cases x) (auto simp del: item_fmt.simps(2) item_text.simps(2))
qed

text \<open>C25: \<^verbatim>\<open>_doprnt\<close> renders every format made of literal text and of the directives \<^verbatim>\<open>%d\<close>, \<^verbatim>\<open>%u\<close>, \<^verbatim>\<open>%x\<close>, \<^verbatim>\<open>%o\<close>,
  \<^verbatim>\<open>%lld\<close>, \<^verbatim>\<open>%llu\<close>, \<^verbatim>\<open>%llx\<close> and \<^verbatim>\<open>%s\<close>, each with a field width and the flags for left adjustment or
  leading zeros: it takes from the stack exactly the words of the arguments, prints every number of the
  type in its base and fills the field on the side the flag says.\<close>
theorem doprnt_renders:
  assumes "\<forall>x \<in> set items. item_ok strs x"
  shows "doprnt strs radix (concat (map item_fmt items)) (concat (map item_args items)) =
     Some (concat (map item_text items))"
  by (rule doprnt_items [OF assms])

text \<open>The field of a left adjusted string that is cut by its precision is one blank too short: the
  loop has counted the character at which it stopped.\<close>

lemma put_str_cut: "0 \<le> n \<Longrightarrow> n \<le> m \<Longrightarrow> m < n + int (length p) \<Longrightarrow> put_str n m p = (take (nat (m - n)) p, m + 1)"
proof (induction p arbitrary: n)
  case (Cons c p)
  show ?case
  proof (cases "n = m")
    case False
    then have "nat (m - n) = Suc (nat (m - (n + 1)))" using Cons.prems by simp
    then show ?thesis using Cons False by simp
  qed simp
qed simp

lemma cut_string_field_short:
  assumes "ladjust sp" "0 \<le> prec sp" "prec sp < int (length p)" "prec sp < flength sp"
  shows "int (length (print_str sp p)) = flength sp - 1"
  using assms put_str_cut [of 0 "prec sp" p] by (simp add: print_str_def Let_def)

text \<open>\<^verbatim>\<open>%r\<close> and \<^verbatim>\<open>%n\<close> take the radix of the caller, which is 0 in every caller of the library: a division by
  zero.\<close>

lemma radix_conversion_faults: "doprnt strs 0 (''%r'' @ fmt) (w # args) = None"
proof -
  have "doprnt_directive (CHR ''r'' # fmt) (w # args) = Some (spec0, False, CHR ''r'' # fmt, w # args)"
    by (simp add: doprnt_directive_def doprnt_zero_def doprnt_width_def doprnt_prec_def doprnt_longlong_def isdigit_def)
  moreover have "doprnt_conv strs 0 (CHR ''r'') False spec0 (w # args) = None"
    by (simp add: doprnt_conv_def doprnt_conv_u_def print_signed_def va_long_def print_num_def MAXBUF_def numeral_eq_Suc)
  ultimately show ?thesis by (subst doprnt.simps) simp
qed

text \<open>A line that fills the buffer of \<^verbatim>\<open>printf\<close> exactly makes it write behind the buffer.\<close>

lemma printf_full_line_overflows: "printf_char NL (\<lparr>p_buf = b, p_index = PRINTF_BUFMAX\<rparr>, con) = None"
  by (simp add: printf_char_def)

section \<open>Witnesses\<close>

definition sample_items :: "item list" where
  "sample_items = [Lit ''n='', Field Zeros 5 (Dec (- 42)), Lit '' '', Field Left 4 (Str 100 ''ab''), Field Right 0 (LongHex 0x1ff)]"

definition sample_strs :: strs where
  "sample_strs = [100 \<mapsto> ''ab'']"

lemma sample_ok: "\<forall>x \<in> set sample_items. item_ok sample_strs x"
  by (simp add: sample_items_def sample_strs_def)

lemma sample_text: "concat (map item_text sample_items) = ''n=-0042 ab  1ff''"
proof -
  have "show_nat 16 511 = ''1ff''" "show_nat 10 42 = ''42''" by (simp_all add: show_nat_def digits.simps)
  moreover have "replicate 2 c = [c, c]" for c :: char by (simp add: numeral_2_eq_2)
  ultimately show ?thesis by (simp add: sample_items_def)
qed

theorem doprnt_renders_witness:
  "doprnt sample_strs 0 (concat (map item_fmt sample_items)) (concat (map item_args sample_items)) = Some ''n=-0042 ab  1ff''"
  using doprnt_renders [OF sample_ok, of 0] by (simp add: sample_text)

lemma sample_literal: "doprnt strs radix ''abc'' args = Some ''abc''"
  by (simp add: doprnt.simps)

theorem vsnprintf_stores_witness:
  "\<exists>m. vsnprintf sample_strs 10 2 ''abc'' [] (\<lambda>_. 7) = Some (2, m) \<and> m 11 = 0x62 \<and> m 12 = 0 \<and> m 13 = 7"
  using vsnprintf_stores [OF sample_literal, of 2 sample_strs 10 "[]" "\<lambda>_. 7"] by simp

theorem printf_reaches_console_witness:
  "vprintf sample_strs (\<lambda>_. NUL) ''abc'' [] ''> '' = Some (0, ''> abc'')"
proof -
  have "length l < 128" if "''abc'' = u @ l @ v" for u l v :: string
  proof -
    have "length l \<le> length (u @ l @ v)" by simp
    then show ?thesis unfolding that [symmetric] by simp
  qed
  then show ?thesis using printf_reaches_console [OF sample_literal, where b = "\<lambda>_. NUL" and con = "''> ''" and strs = sample_strs and args = "[]"] by auto
qed

end
