(* ===== verification/Libc_Scanf.thy ===== *)
theory Libc_Scanf
  imports Libc_Printf
begin

text \<open>
  Formatted input of the C library of the x86 kernel: \<^verbatim>\<open>doscan.c\<close> and \<^verbatim>\<open>sscanf.c\<close> under
  \<^verbatim>\<open>src/trunk/src/libc\<close>.

  The text is the suffix at the position of \<^verbatim>\<open>getc\<close>; every \<^verbatim>\<open>ungetc\<close> of the source gives back the
  character its loop has just read, which is the head of the remaining suffix here.  The values are
  listed in the order of the pointers they are stored through.  \<open>None\<close> stands for a read behind the
  end of the format.
\<close>

datatype stored = S_int u32 | S_longlong u64 | S_string string

section \<open>_doscan\<close>

fun scan_dec :: "u64 \<Rightarrow> string \<Rightarrow> u64 \<times> string" where
  "scan_dec n [] = (n, [])"
| "scan_dec n (c # s) =
     (if chr_int c \<ge> 48 \<and> chr_int c \<le> 57 then scan_dec (n * 10 + word_of_int (chr_int c - 48)) s else (n, c # s))"

fun scan_hex :: "u64 \<Rightarrow> string \<Rightarrow> u64 \<times> string" where
  "scan_hex n [] = (n, [])"
| "scan_hex n (c # s) =
     (if chr_int c \<ge> 48 \<and> chr_int c \<le> 57 then scan_hex (n * 16 + word_of_int (chr_int c - 48)) s
      else if chr_int c \<ge> 97 \<and> chr_int c \<le> 102 then scan_hex (n * 16 + word_of_int (chr_int c - 97 + 10)) s
      else if chr_int c \<ge> 65 \<and> chr_int c \<le> 70 then scan_hex (n * 16 + word_of_int (chr_int c - 65 + 10)) s
      else (n, c # s))"

definition store_number :: "bool \<Rightarrow> bool \<Rightarrow> u64 \<Rightarrow> stored list" where
  "store_number discard is_longlong n =
     (if discard then [] else if is_longlong then [S_longlong n] else [S_int (ucast n)])"

definition doscan_d :: "bool \<Rightarrow> bool \<Rightarrow> string \<Rightarrow> stored list \<times> string" where
  "doscan_d discard is_longlong s =
     (let (neg, s) = (if peek s = CHR ''-'' then (True, tl s) else (False, s));
          (n, s) = scan_dec 0 s;
          n = (if neg then - n else n)
      in (store_number discard is_longlong n, s))"

definition doscan_x :: "bool \<Rightarrow> bool \<Rightarrow> string \<Rightarrow> stored list \<times> string" where
  "doscan_x discard is_longlong s =
     (let (neg, s) = (if peek s = CHR ''-'' then (True, tl s) else (False, s));
          (n, s) = scan_hex 0 s;
          n = (if neg then - n else n)
      in (store_number discard is_longlong n, s))"

fun scan_word :: "string \<Rightarrow> string \<times> string" where
  "scan_word [] = ([], [])"
| "scan_word (c # s) =
     (if c \<noteq> NUL \<and> \<not> isspace (chr_int c) then let (w, s) = scan_word s in (c # w, s) else ([], c # s))"

definition doscan_s :: "bool \<Rightarrow> string \<Rightarrow> stored list \<times> string" where
  "doscan_s discard s = (let (w, s) = scan_word s in (if discard then [] else [S_string w], s))"

text \<open>From the percent sign to the letter: \<^verbatim>\<open>discard\<close> and \<^verbatim>\<open>is_longlong\<close>, the letter, the rest of the format.\<close>

fun more_fmt :: "string \<Rightarrow> bool \<Rightarrow> bool \<Rightarrow> (bool \<times> bool \<times> char \<times> string) option" where
  "more_fmt [] discard is_longlong = None"
| "more_fmt (c # fmt) discard is_longlong =
     (if c = CHR ''l'' then more_fmt fmt discard True
      else if c = CHR ''*'' then more_fmt fmt True is_longlong
      else Some (discard, is_longlong, c, fmt))"

lemma more_fmt_len: "more_fmt fmt d l = Some (d', l', c, fmt') \<Longrightarrow> length fmt' < length fmt"
  by (induction fmt d l rule: more_fmt.induct) (auto split: if_splits)

function doscan :: "string \<Rightarrow> string \<Rightarrow> (int \<times> stored list) option" where
  "doscan fmt s =
     (if peek fmt = NUL then Some (0, [])
      else if peek fmt \<noteq> CHR ''%'' then
        if isspace (chr_int (peek fmt)) then doscan (tl fmt) (dropWhile (\<lambda>c. isspace (chr_int c)) s)
        else if peek fmt = peek s then doscan (tl fmt) (tl s)
        else Some (0, [])
      else case more_fmt (tl fmt) False False of
        None \<Rightarrow> None
      | Some (discard, is_longlong, c, fmt) \<Rightarrow>
          let (st, s) = (if c = CHR ''d'' then doscan_d discard is_longlong s
                         else if c = CHR ''x'' \<or> c = CHR ''X'' then doscan_x discard is_longlong s
                         else if c = CHR ''s'' then doscan_s discard s
                         else ([], s))
          in map_option (\<lambda>(vals, sts). (if discard then vals else vals + 1, st @ sts)) (doscan fmt s))"
  by pat_completeness auto
termination
proof (relation "measure (\<lambda>(fmt, s). length fmt)", goal_cases)
  case (2 fmt s)
  then show ?case by (cases fmt) auto
next
  case (3 fmt s)
  then show ?case by (cases fmt) auto
next
  case (4 fmt s x d y l z c f st s')
  then show ?case using more_fmt_len [of "tl fmt"] by (cases fmt) fastforce+
qed simp

declare doscan.simps [simp del]

definition sscanf :: "string \<Rightarrow> string \<Rightarrow> (int \<times> stored list) option" where
  "sscanf s fmt = doscan fmt s"

section \<open>Reading back what was printed\<close>

lemma scan_dec_strto: "scan_dec n s = strto_loop 10 n s"
  by (induction n s rule: scan_dec.induct) (auto simp: base_digit_def Let_def)

lemma scan_hex_strto: "scan_hex n s = strto_loop 16 n s"
  by (induction n s rule: scan_hex.induct) (auto simp: base_digit_def Let_def)

lemma base_digit_16: "base_digit 16 c = (if is_hex c then Some (int (digit_val c)) else None)"
  by (auto simp: base_digit_def is_hex_def digit_val_def Let_def)

lemma strto_loop_show_hex:
  assumes "rest = [] \<or> \<not> is_hex (hd rest)"
  shows "strto_loop 16 0 (show_nat 16 n @ rest) = (of_nat n, rest)"
proof -
  have h: "is_base_digit 16 = is_hex" by (simp add: fun_eq_iff is_base_digit_def base_digit_16)
  have d: "\<forall>c \<in> set (show_nat 16 n). is_hex c" using show_nat_hex by blast
  have v: "\<forall>c \<in> set s. is_hex c \<Longrightarrow> digits_val 16 s = int (num_val 16 s)" for s
    by (induction s rule: rev_induct) (simp_all add: digits_val_def num_val_def base_digit_16)
  show ?thesis
    using takeWhile_append_stop [OF d assms] dropWhile_append_stop [OF d assms] v [OF d] num_val_show_nat [of 16 n]
    by (simp add: strto_loop_value h)
qed

text \<open>The value a field prints, as the reader stores it.\<close>

fun stored_of :: "conv \<Rightarrow> stored" where
  "stored_of (Dec w) = S_int w"
| "stored_of (LongDec w) = S_longlong w"
| "stored_of (Uns w) = S_int w"
| "stored_of (LongUns w) = S_longlong w"
| "stored_of (Hex w) = S_int w"
| "stored_of (LongHex w) = S_longlong w"
| "stored_of (Oct w) = S_int w"
| "stored_of (Str p s) = S_string s"

text \<open>Fields that can be told from the text behind them: a number is followed by no digit, a word by
  white space.\<close>

fun readable :: "conv \<Rightarrow> string \<Rightarrow> bool" where
  "readable (Dec w) sep \<longleftrightarrow> \<not> is_dec (peek sep)"
| "readable (LongDec w) sep \<longleftrightarrow> \<not> is_dec (peek sep)"
| "readable (Hex w) sep \<longleftrightarrow> \<not> is_hex (peek sep)"
| "readable (LongHex w) sep \<longleftrightarrow> \<not> is_hex (peek sep)"
| "readable (Str p s) sep \<longleftrightarrow> s \<noteq> [] \<and> no_nul s \<and> (\<forall>c \<in> set s. \<not> is_space c) \<and> is_space (peek sep)"
| "readable _ sep \<longleftrightarrow> False"

abbreviation field :: "conv \<Rightarrow> item" where
  "field c \<equiv> Field Right 0 c"

lemma not_digit_hd: "\<not> P NUL \<Longrightarrow> \<not> P (peek s) \<Longrightarrow> s = [] \<or> \<not> P (hd s)"
  by (cases s) auto

lemma NUL_no_digit: "\<not> is_dec NUL" "\<not> is_hex NUL" "\<not> is_space NUL"
  by (simp_all add: is_dec_def is_hex_def is_space_def digit_val_def)

lemma ucast_scast: "ucast (scast (w :: u32) :: u64) = w"
  by (rule bit_word_eqI) (simp add: bit_simps)

lemma ucast_ucast: "ucast (ucast (w :: u32) :: u64) = w"
  by (rule bit_word_eqI) (simp add: bit_simps)

lemma item_text_signed: "item_text (field (Dec w)) = show_int (sint w)" "item_text (field (LongDec v)) = show_int (sint v)"
  by (simp_all add: show_int_def)

lemma doscan_d_show_int:
  assumes "\<not> is_dec (peek s)"
  shows "doscan_d False l (show_int i @ s) = (store_number False l (word_of_int i), s)"
proof -
  have st: "s = [] \<or> \<not> is_dec (hd s)" by (rule not_digit_hd [OF NUL_no_digit(1) assms])
  have p: "peek (show_nat 10 n @ s) \<noteq> CHR ''-''" for n
    using hd_show_nat [of 10 n] is_dec_not_space [of "hd (show_nat 10 n)"] by (simp add: peek_hd is_dec_def)
  have d: "scan_dec 0 (show_nat 10 n @ s) = (of_nat n, s)" for n
    unfolding scan_dec_strto by (rule strto_loop_show_nat [OF st])
  show ?thesis
  proof (cases "i < 0")
    case True
    then have "- (of_nat (nat (- i)) :: u64) = word_of_int i" by (simp add: of_nat_nat flip: of_int_minus)
    with True show ?thesis by (simp add: doscan_d_def show_int_def d)
  next
    case False
    then show ?thesis using p [of "nat i"] by (simp add: doscan_d_def show_int_def d)
  qed
qed

lemma doscan_x_show_nat:
  assumes "\<not> is_hex (peek s)"
  shows "doscan_x False l (show_nat 16 n @ s) = (store_number False l (of_nat n), s)"
proof -
  have st: "s = [] \<or> \<not> is_hex (hd s)" by (rule not_digit_hd [OF NUL_no_digit(2) assms])
  have "peek (show_nat 16 n @ s) \<noteq> CHR ''-''"
    using hd_show_nat [of 16 n] is_hex_not_space [of "hd (show_nat 16 n)"] by (simp add: peek_hd is_hex_def)
  moreover have "scan_hex 0 (show_nat 16 n @ s) = (of_nat n, s)"
    unfolding scan_hex_strto by (rule strto_loop_show_hex [OF st])
  ultimately show ?thesis by (simp add: doscan_x_def)
qed

lemma scan_word_word:
  "no_nul w \<Longrightarrow> \<forall>c \<in> set w. \<not> is_space c \<Longrightarrow> is_space (peek s) \<Longrightarrow> scan_word (w @ s) = (w, s)"
  by (induction w) (cases s; auto simp: isspace_chr)+

lemma doscan_field:
  assumes "readable c s"
  shows "doscan (item_fmt (field c) @ fmt) (item_text (field c) @ s) =
     map_option (\<lambda>(vals, sts). (vals + 1, stored_of c # sts)) (doscan fmt s)"
proof -
  have m: "more_fmt ((if ll then ''ll'' else []) @ k # fmt) False False = Some (False, ll, k, fmt)"
    if "k \<noteq> CHR ''l''" "k \<noteq> CHR ''*''" for ll k using that by simp
  show ?thesis
  proof (cases c)
    case (Dec w)
    then show ?thesis using assms doscan_d_show_int [of s False "sint w"] m [of "CHR ''d''" False]
      unfolding Dec item_text_signed by (subst doscan.simps) (simp add: store_number_def width_text_def ucast_scast)
  next
    case (LongDec w)
    then show ?thesis using assms doscan_d_show_int [of s True "sint w"] m [of "CHR ''d''" True]
      unfolding LongDec item_text_signed by (subst doscan.simps) (simp add: store_number_def width_text_def)
  next
    case (Hex w)
    then show ?thesis using assms doscan_x_show_nat [of s False "unat w"] m [of "CHR ''x''" False]
      by (subst doscan.simps) (simp add: store_number_def width_text_def ucast_ucast)
  next
    case (LongHex w)
    then show ?thesis using assms doscan_x_show_nat [of s True "unat w"] m [of "CHR ''x''" True]
      by (subst doscan.simps) (simp add: store_number_def width_text_def)
  next
    case (Str p w)
    then show ?thesis using assms scan_word_word [of w s] m [of "CHR ''s''" False]
      by (subst doscan.simps) (simp add: doscan_s_def width_text_def)
  qed (use assms in simp_all)
qed

lemma doscan_literal:
  assumes "CHR ''%'' \<notin> set sep" "no_nul sep" "\<not> is_space (peek s)"
  shows "doscan (sep @ fmt) (sep @ s) = doscan fmt s
       \<and> doscan (sep @ fmt) (dropWhile is_space (sep @ s)) = doscan fmt s"
  using assms
proof (induction sep)
  case Nil
  then show ?case using not_digit_hd [of is_space s] NUL_no_digit(3) dropWhile_stop [of s is_space] by simp
next
  case (Cons c sep)
  then have c: "c \<noteq> CHR ''%''" "c \<noteq> NUL"
    and IH: "doscan (sep @ fmt) (sep @ s) = doscan fmt s" "doscan (sep @ fmt) (dropWhile is_space (sep @ s)) = doscan fmt s"
    by auto
  show ?case
  proof (cases "is_space c")
    case True
    have "doscan (c # sep @ fmt) t = doscan (sep @ fmt) (dropWhile is_space t)" for t
      using True c by (subst doscan.simps) (simp add: isspace_chr)
    then show ?thesis using IH True by simp
  next
    case False
    then have "doscan (c # sep @ fmt) (c # sep @ s) = doscan (sep @ fmt) (sep @ s)"
      using c by (subst doscan.simps) (simp add: isspace_chr)
    then show ?thesis using IH False by simp
  qed
qed

fun fields_ok :: "strs \<Rightarrow> (conv \<times> string) list \<Rightarrow> bool" where
  "fields_ok strs [] \<longleftrightarrow> True"
| "fields_ok strs ((c, sep) # fs) \<longleftrightarrow>
     conv_ok strs c \<and> readable c sep \<and> (sep \<noteq> [] \<or> fs = []) \<and> CHR ''%'' \<notin> set sep \<and> no_nul sep \<and> fields_ok strs fs"

definition field_items :: "(conv \<times> string) list \<Rightarrow> item list" where
  "field_items fs = concat (map (\<lambda>(c, sep). [field c, Lit sep]) fs)"

lemma field_items_simps [simp]:
  "field_items [] = []" "field_items ((c, sep) # fs) = field c # Lit sep # field_items fs"
  by (simp_all add: field_items_def)

lemma field_text_start:
  "readable c sep \<Longrightarrow> item_text (field c) \<noteq> [] \<and> \<not> is_space (peek (item_text (field c)))"
proof -
  have n: "\<not> is_space (peek (show_nat b k))" if "b = 10 \<or> b = 16" for b k
    using that hd_show_nat [of b k] is_hex_not_space [of "hd (show_nat b k)"] by (auto simp: peek_hd is_hex_def)
  have s: "\<not> is_space (peek (show_int i))" "show_int i \<noteq> []" for i
    using n by (auto simp: show_int_def is_space_def)
  assume "readable c sep"
  then show ?thesis
  proof (cases c)
    case (Dec w)
    then show ?thesis using s [of "sint w"] by (simp add: item_text_signed del: item_text.simps)
  next
    case (LongDec w)
    then show ?thesis using s [of "sint w"] by (simp add: item_text_signed del: item_text.simps)
  next
    case (Str p w)
    then show ?thesis using \<open>readable c sep\<close> by (cases w) auto
  qed (use n in auto)
qed

lemma doscan_fields:
  assumes "fields_ok strs fs"
  shows "doscan (concat (map item_fmt (field_items fs))) (concat (map item_text (field_items fs)))
     = Some (int (length fs), map (stored_of \<circ> fst) fs)"
  using assms
proof (induction fs)
  case Nil
  then show ?case by (simp add: doscan.simps)
next
  case (Cons x fs)
  obtain c sep where x: "x = (c, sep)" by (cases x)
  let ?f = "concat (map item_fmt (field_items fs))" and ?t = "concat (map item_text (field_items fs))"
  have ok: "readable c sep" "sep \<noteq> [] \<or> fs = []" "CHR ''%'' \<notin> set sep" "no_nul sep" "fields_ok strs fs"
    using Cons.prems by (simp_all add: x)
  have r: "readable c (sep @ ?t)" using ok(1,2) by (cases "sep = []"; cases c) auto
  have "\<not> is_space (peek ?t)"
  proof (cases fs)
    case Nil
    then show ?thesis using NUL_no_digit(3) by simp
  next
    case (Cons y ys)
    then show ?thesis using ok(5) field_text_start by (cases y) (auto simp del: item_text.simps)
  qed
  then have "doscan (sep @ ?f) (sep @ ?t) = doscan ?f ?t" using doscan_literal [OF ok(3,4)] by blast
  with doscan_field [OF r, of "sep @ ?f"] Cons.IH [OF ok(5)]
  show ?case by (simp add: x del: item_text.simps(2) item_fmt.simps(2))
qed

text \<open>C26: \<^verbatim>\<open>sscanf\<close> reads back what \<^verbatim>\<open>_doprnt\<close> has printed with the same format.  The format is a sequence
  of the directives \<^verbatim>\<open>%d\<close>, \<^verbatim>\<open>%lld\<close>, \<^verbatim>\<open>%x\<close>, \<^verbatim>\<open>%llx\<close> and \<^verbatim>\<open>%s\<close> with separating text such that no digit follows
  a number and white space a word: then every value printed is stored again, and their number is returned.\<close>
theorem sscanf_reads_printed:
  assumes "fields_ok strs fs"
  shows "\<exists>t. doprnt strs radix (concat (map item_fmt (field_items fs))) (concat (map item_args (field_items fs))) = Some t
     \<and> sscanf t (concat (map item_fmt (field_items fs))) = Some (int (length fs), map (stored_of \<circ> fst) fs)"
proof -
  have "\<forall>x \<in> set (field_items fs). item_ok strs x" using assms by (induction fs) auto
  from doprnt_items [OF this] show ?thesis using doscan_fields [OF assms] by (simp add: sscanf_def)
qed

text \<open>A directive that finds no digit stores 0 and counts as a conversion, white space before a number is
  not skipped, and an unknown letter counts as well.\<close>

lemma no_number_counts: "sscanf '' 7'' ''%d'' = Some (1, [S_int 0])" "sscanf ''7'' ''%q'' = Some (1, [])"
  by (simp_all add: sscanf_def doscan.simps doscan_d_def store_number_def)

text \<open>A format that ends in a percent sign makes \<^verbatim>\<open>_doscan\<close> read behind its end.\<close>

lemma percent_at_end: "sscanf s ''%'' = None"
  by (simp add: sscanf_def doscan.simps)

section \<open>Witnesses\<close>

theorem sscanf_reads_printed_witness:
  "\<exists>t. doprnt sample_strs 0 ''%d:%llx %s '' [- 5, 0x1ff, 0, 100] = Some t
     \<and> sscanf t ''%d:%llx %s '' = Some (3, [S_int (- 5), S_longlong 0x1ff, S_string ''ab''])"
proof -
  let ?fs = "[(Dec (- 5), '':''), (LongHex 0x1ff, '' ''), (Str 100 ''ab'', '' '')]"
  have "fields_ok sample_strs ?fs"
    by (simp add: sample_strs_def is_dec_def is_hex_def is_space_def digit_val_def)
  from sscanf_reads_printed [OF this, of 0] show ?thesis
    by (simp add: width_text_def long_args_def)
qed

end
