(* ===== verification/Param_Scanner.thy ===== *)
theory Param_Scanner
  imports Prelude "HOL-Library.Sublist" "HOL-Library.Monad_Syntax"
begin

text \<open>
  The scanner for parameter lines of bricks (\<^verbatim>\<open>src/trunk/src/param_scanner.c\<close>).

  A pointer into the line is the rest of the text, a null pointer is \<open>None\<close>.  The result
  \<open>None\<close> of a scanner stands for a read behind the end of the text, which happens when a
  quotation is not closed.
\<close>

section \<open>Operations\<close>

definition param_idchars :: string where
  "param_idchars = ''_-.:/0123456789abcdefghijklmnopqrstuvwxyzABCDEFGHIJKLMNOPQRSTUVWXYZ''"

definition param_nidchars :: string where
  "param_nidchars = [TAB, CR, NL, CHR '' '', CHR ''='']"

definition param_delimchars :: string where
  "param_delimchars = [TAB, CR, NL, CHR '' '']"

fun excl_loop :: "string \<Rightarrow> string \<Rightarrow> nat" where
  "excl_loop [] toc = 0"
| "excl_loop (c # start) toc = (if c \<in> set toc then 0 else Suc (excl_loop start toc))"

definition excl_len :: "string option \<Rightarrow> string option \<Rightarrow> nat" where
  "excl_len start toc = (case (start, toc) of (Some start, Some toc) \<Rightarrow> excl_loop start toc | _ \<Rightarrow> 0)"

fun incl_loop :: "string \<Rightarrow> string \<Rightarrow> nat" where
  "incl_loop [] toc = 0"
| "incl_loop (c # start) toc = (if c \<notin> set toc then 0 else Suc (incl_loop start toc))"

definition incl_len :: "string option \<Rightarrow> string option \<Rightarrow> nat" where
  "incl_len start toc = (case (start, toc) of (Some start, Some toc) \<Rightarrow> incl_loop start toc | _ \<Rightarrow> 0)"

record opt =
  name :: "string option"
  name_len :: nat
  val :: "string option"
  val_len :: nat

text \<open>The rest of \<^verbatim>\<open>next_opt\<close> behind an opening quote \<open>q\<close>: value, closing quote, white space.\<close>

definition quoted_value :: "char \<Rightarrow> string \<Rightarrow> nat \<Rightarrow> opt \<Rightarrow> (nat \<times> opt) option" where
  "quoted_value q p r_sum out =
     (let p = tl p; r_sum = r_sum + 1; out = out\<lparr>val := Some p\<rparr>;
          len = excl_len (Some p) (Some [q])
      in if length p < len + 1 then None
         else let p = drop (len + 1) p; r_sum = r_sum + (len + 1); out = out\<lparr>val_len := len\<rparr>;
                  len = incl_len (Some p) (Some param_delimchars)
              in Some (r_sum + len, out))"

definition next_opt :: "string option \<Rightarrow> (nat \<times> opt) option" where
  "next_opt start =
     (let out = \<lparr>name = None, name_len = 0, val = None, val_len = 0\<rparr>
      in case start of None \<Rightarrow> Some (0, out)
      | Some p \<Rightarrow>
         let r_sum = 0;
             len = incl_len (Some p) (Some param_delimchars); p = drop len p; r_sum = r_sum + len;
             out = out\<lparr>name := Some p\<rparr>;
             len = excl_len (Some p) (Some param_nidchars); p = drop len p; r_sum = r_sum + len;
             out = out\<lparr>name_len := len\<rparr>;
             len = incl_len (Some p) (Some param_delimchars); p = drop len p; r_sum = r_sum + len
         in if peek p = CHR ''=''
            then let p = tl p; r_sum = r_sum + 1;
                     len = incl_len (Some p) (Some param_delimchars); p = drop len p; r_sum = r_sum + len
                 in if peek p = CHR 0x22 then quoted_value (CHR 0x22) p r_sum out
                    else if peek p = CHR 0x27 then quoted_value (CHR 0x27) p r_sum out
                    else let out = out\<lparr>val := Some p\<rparr>;
                             len = excl_len (Some p) (Some param_delimchars); p = drop len p;
                             r_sum = r_sum + len; out = out\<lparr>val_len := len\<rparr>;
                             len = incl_len (Some p) (Some param_delimchars)
                         in Some (r_sum + len, out)
            else Some (r_sum, out))"

text \<open>\<^verbatim>\<open>strncmp(s, t, n) == 0\<close> on texts.\<close>

fun strncmp_zero :: "string \<Rightarrow> string \<Rightarrow> nat \<Rightarrow> bool" where
  "strncmp_zero s t 0 \<longleftrightarrow> True"
| "strncmp_zero s t (Suc n) \<longleftrightarrow>
     (if peek s \<noteq> peek t then False else if peek s = NUL then True else strncmp_zero (tl s) (tl t) n)"

lemma excl_loop_takeWhile: "excl_loop s toc = length (takeWhile (\<lambda>c. c \<notin> set toc) s)"
  by (induction s) auto

lemma incl_loop_takeWhile: "incl_loop s toc = length (takeWhile (\<lambda>c. c \<in> set toc) s)"
  by (induction s) auto

lemma drop_excl: "drop (excl_len (Some s) (Some toc)) s = dropWhile (\<lambda>c. c \<notin> set toc) s"
  by (simp add: excl_len_def excl_loop_takeWhile drop_takeWhile_length)

lemma drop_incl: "drop (incl_len (Some s) (Some toc)) s = dropWhile (\<lambda>c. c \<in> set toc) s"
  by (simp add: incl_len_def incl_loop_takeWhile drop_takeWhile_length)

text \<open>Every call of \<^verbatim>\<open>next_opt\<close> on a text that is not empty consumes something.\<close>

lemma quoted_value_len: "quoted_value q p r out = Some (len, out') \<Longrightarrow> r < len"
  by (auto simp: quoted_value_def Let_def split: if_splits)

lemma next_opt_len:
  fixes p :: string
  defines "p1 \<equiv> dropWhile (\<lambda>c. c \<in> set param_delimchars) p"
  defines "p2 \<equiv> dropWhile (\<lambda>c. c \<notin> set param_nidchars) p1"
  defines "p3 \<equiv> dropWhile (\<lambda>c. c \<in> set param_delimchars) p2"
  assumes "next_opt (Some p) = Some (len, out)"
  shows "incl_len (Some p) (Some param_delimchars) + excl_len (Some p1) (Some param_nidchars)
     + (if peek p3 = CHR ''='' then 1 else 0) \<le> len"
  using assms(4) quoted_value_len
  unfolding next_opt_def Let_def option.case drop_incl drop_excl p1_def [symmetric] p2_def [symmetric] p3_def [symmetric]
  by (auto split: if_splits dest!: quoted_value_len)

lemma next_opt_progress:
  assumes "p \<noteq> []" "next_opt (Some p) = Some (len, out)"
  shows "0 < len"
proof -
  obtain c s where p: "p = c # s" using assms(1) by (cases p) auto
  have "c \<in> set param_delimchars \<Longrightarrow> 0 < incl_len (Some p) (Some param_delimchars)"
    by (simp add: p incl_len_def)
  moreover have "c \<notin> set param_nidchars \<Longrightarrow> c \<notin> set param_delimchars \<Longrightarrow> 0 < excl_len (Some p) (Some param_nidchars)"
    by (simp add: p excl_len_def)
  moreover have "c \<in> set param_nidchars \<Longrightarrow> c \<notin> set param_delimchars \<Longrightarrow> c = CHR ''=''"
    by (auto simp: param_nidchars_def param_delimchars_def)
  moreover have "CHR ''='' \<notin> set param_delimchars" "CHR ''='' \<in> set param_nidchars"
    by (simp_all add: param_delimchars_def param_nidchars_def)
  ultimately show ?thesis using next_opt_len [OF assms(2)] by (auto simp: p split: if_splits)
qed

function getopt_loop :: "string \<Rightarrow> string \<Rightarrow> bool \<Rightarrow> (bool \<times> string option \<times> nat) option" where
  "getopt_loop p nm want =
     (if peek p = NUL then Some (False, None, 0)
      else case next_opt (Some p) of None \<Rightarrow> None
      | Some (len, cur) \<Rightarrow>
         (case name cur of None \<Rightarrow> None
          | Some cur_name \<Rightarrow>
             if name_len cur > 0 \<and> strncmp_zero cur_name nm (name_len cur)
             then Some (True, if val_len cur > 0 \<and> want then (val cur, val_len cur) else (None, 0))
             else getopt_loop (drop len p) nm want))"
  by pat_completeness auto
termination
proof (relation "measure (\<lambda>(p, nm, want). length p)", goal_cases)
  case (2 p nm want r len cur cur_name)
  then have "p \<noteq> []" by auto
  then show ?case using next_opt_progress [of p len cur] 2 by auto
qed simp

declare getopt_loop.simps [simp del]

text \<open>The arguments \<open>v\<close> and \<open>vl\<close> tell whether \<^verbatim>\<open>val\<close> and \<^verbatim>\<open>val_len\<close> are given; the result is \<^verbatim>\<open>*found\<close>,
  \<^verbatim>\<open>*val\<close> and \<^verbatim>\<open>*val_len\<close>.\<close>

definition param_getopt :: "string option \<Rightarrow> string option \<Rightarrow> bool \<Rightarrow> bool \<Rightarrow> (bool \<times> string option \<times> nat) option" where
  "param_getopt param nm v vl =
     (case (param, nm) of (Some p, Some nm) \<Rightarrow> getopt_loop p nm (v \<and> vl) | _ \<Rightarrow> Some (False, None, 0))"

function check_loop :: "string \<Rightarrow> string \<Rightarrow> bool \<Rightarrow> bool \<Rightarrow> (bool \<times> string option \<times> nat) option" where
  "check_loop p nm v vl =
     (if peek p = NUL then Some (False, None, 0)
      else case next_opt (Some p) of None \<Rightarrow> None
      | Some (len, cur) \<Rightarrow>
         (case name cur of None \<Rightarrow> None
          | Some cur_name \<Rightarrow>
             if name_len cur > 0 \<and> strncmp_zero cur_name nm (name_len cur)
             then (if (val cur = None) \<noteq> (\<not> v) then Some (False, None, 0)
                   else if v \<and> vl then Some (True, val cur, val_len cur)
                   else if \<not> v \<and> \<not> vl then Some (True, None, 0)
                   else Some (False, None, 0))
             else check_loop (drop len p) nm v vl))"
  by pat_completeness auto
termination
proof (relation "measure (\<lambda>(p, nm, v, vl). length p)", goal_cases)
  case (2 p nm v vl r len cur cur_name)
  then have "p \<noteq> []" by auto
  then show ?case using next_opt_progress [of p len cur] 2 by auto
qed simp

declare check_loop.simps [simp del]

definition param_check :: "string option \<Rightarrow> string option \<Rightarrow> bool \<Rightarrow> bool \<Rightarrow> (bool \<times> string option \<times> nat) option" where
  "param_check param nm v vl =
     (case (param, nm) of (Some p, Some nm) \<Rightarrow> check_loop p nm v vl | _ \<Rightarrow> Some (False, None, 0))"

section \<open>Scanning a printed parameter line\<close>

type_synonym option_spec = "string \<times> string option"

fun print_opt :: "option_spec \<Rightarrow> string" where
  "print_opt (n, None) = n @ '' ''"
| "print_opt (n, Some v) = n @ ''='' @ [CHR 0x22] @ v @ [CHR 0x22] @ '' ''"

definition print_opts :: "option_spec list \<Rightarrow> string" where
  "print_opts os = concat (map print_opt os)"

fun opt_ok :: "option_spec \<Rightarrow> bool" where
  "opt_ok (n, v) \<longleftrightarrow> n \<noteq> [] \<and> no_nul n \<and> (\<forall>c \<in> set n. c \<notin> set param_nidchars)
     \<and> (case v of None \<Rightarrow> True | Some v \<Rightarrow> CHR 0x22 \<notin> set v)"

definition starts_name :: "string \<Rightarrow> bool" where
  "starts_name s \<longleftrightarrow> s = [] \<or> hd s \<notin> set param_nidchars"

lemma starts_name_print: "\<forall>x \<in> set os. opt_ok x \<Longrightarrow> starts_name (print_opts os)"
proof (cases os)
  case (Cons x xs)
  assume "\<forall>x \<in> set os. opt_ok x"
  then show ?thesis using Cons by (cases x; cases "fst x"; cases "snd x") (auto simp: starts_name_def print_opts_def)
qed (simp add: starts_name_def print_opts_def)

lemma delim_nid: "c \<in> set param_delimchars \<Longrightarrow> c \<in> set param_nidchars" "CHR '' '' \<in> set param_delimchars"
  "CHR ''='' \<in> set param_nidchars" "CHR ''='' \<notin> set param_delimchars" "CHR 0x22 \<notin> set param_nidchars"
  by (auto simp: param_nidchars_def param_delimchars_def)

lemma incl_start: "starts_name s \<Longrightarrow> incl_len (Some s) (Some param_delimchars) = 0"
  by (cases s) (auto simp: incl_len_def starts_name_def delim_nid)

lemma incl_space: "starts_name s \<Longrightarrow> incl_len (Some (CHR '' '' # s)) (Some param_delimchars) = 1"
  using incl_start [of s] by (simp add: incl_len_def delim_nid)

lemma incl_nondelim: "c \<notin> set param_delimchars \<Longrightarrow> incl_len (Some (c # s)) (Some param_delimchars) = 0"
  by (simp add: incl_len_def)

lemma excl_prefix:
  "\<forall>c \<in> set n. c \<notin> set toc \<Longrightarrow> x \<in> set toc \<Longrightarrow> excl_len (Some (n @ x # s)) (Some toc) = length n"
  by (induction n) (simp_all add: excl_len_def)

lemma starts_name_peek: "starts_name s \<Longrightarrow> peek s \<noteq> CHR ''=''"
  using delim_nid(3) by (cases s) (auto simp: starts_name_def)

lemma starts_name_append: "n \<noteq> [] \<Longrightarrow> \<forall>c \<in> set n. c \<notin> set param_nidchars \<Longrightarrow> starts_name (n @ s)"
  by (cases n) (auto simp: starts_name_def)

text \<open>What \<^verbatim>\<open>next_opt\<close> reports for an option in front of the rest of the line.\<close>

lemma next_opt_print:
  assumes "opt_ok (n, v)" "starts_name rest"
  shows "\<exists>out. next_opt (Some (print_opt (n, v) @ rest)) = Some (length (print_opt (n, v)), out)
     \<and> name out = Some (print_opt (n, v) @ rest) \<and> name_len out = length n
     \<and> (case v of None \<Rightarrow> val out = None \<and> val_len out = 0
        | Some w \<Rightarrow> \<exists>q. val out = Some q \<and> val_len out = length w \<and> take (length w) q = w)"
proof -
  have n: "n \<noteq> []" "\<forall>c \<in> set n. c \<notin> set param_nidchars" using assms(1) by simp_all
  have i0: "incl_len (Some (n @ s)) (Some param_delimchars) = 0" for s
    by (rule incl_start [OF starts_name_append [OF n]])
  show ?thesis
  proof (cases v)
    case None
    have sp: "CHR '' '' \<in> set param_nidchars" using delim_nid(1,2) by blast
    have t: "print_opt (n, v) @ rest = n @ CHR '' '' # rest" using None by simp
    show ?thesis
      unfolding t next_opt_def
      using i0 excl_prefix [OF n(2) sp] incl_space [OF assms(2)] starts_name_peek [OF assms(2)] None
      by (simp add: Let_def)
  next
    case (Some w)
    let ?q = "w @ CHR 0x22 # CHR '' '' # rest"
    have w: "\<forall>c \<in> set w. c \<notin> set [CHR 0x22]" using assms(1) Some by auto
    have t: "print_opt (n, v) @ rest = n @ CHR ''='' # CHR 0x22 # ?q" using Some by simp
    have d: "CHR 0x22 \<notin> set param_delimchars" using delim_nid(1,5) by blast
    have qv: "quoted_value (CHR 0x22) (CHR 0x22 # ?q) r out
        = Some (r + (length w + 3), out\<lparr>val := Some ?q, val_len := length w\<rparr>)" for r out
      using excl_prefix [OF w, of "CHR 0x22" "CHR '' '' # rest"] incl_space [OF assms(2)]
      by (simp add: quoted_value_def Let_def)
    show ?thesis
      unfolding t next_opt_def
      using i0 excl_prefix [OF n(2) delim_nid(3)] incl_nondelim [OF delim_nid(4)] incl_nondelim [OF d] qv Some
      by (simp add: Let_def)
  qed
qed

lemma strncmp_zero_prefix: "no_nul n \<Longrightarrow> strncmp_zero (n @ s) t (length n) \<longleftrightarrow> prefix n t"
proof (induction n arbitrary: t)
  case (Cons c n)
  then show ?case by (cases t) auto
qed simp

text \<open>The contract of a search through the options of a line: it reports the first option whose
  name agrees with the wanted one as far as it goes.\<close>

fun describes :: "opt \<Rightarrow> option_spec \<Rightarrow> bool" where
  "describes out (n, None) \<longleftrightarrow> name_len out = length n \<and> val out = None \<and> val_len out = 0"
| "describes out (n, Some w) \<longleftrightarrow> name_len out = length n \<and> val_len out = length w
     \<and> (\<exists>q. val out = Some q \<and> take (length w) q = w)"

locale option_search =
  fixes search :: "string \<Rightarrow> 'r option" and nm :: string and hit :: "opt \<Rightarrow> 'r" and miss :: 'r
  assumes search_end: "search [] = Some miss"
    and search_step: "peek p \<noteq> NUL \<Longrightarrow> next_opt (Some p) = Some (len, cur) \<Longrightarrow> name cur = Some q \<Longrightarrow>
        search p = (if name_len cur > 0 \<and> strncmp_zero q nm (name_len cur) then Some (hit cur) else search (drop len p))"
begin

lemma search_print_opts:
  assumes "\<forall>x \<in> set os. opt_ok x"
  shows "case find (\<lambda>(n, v). prefix n nm) os of
      None \<Rightarrow> search (print_opts os) = Some miss
    | Some x \<Rightarrow> \<exists>out. describes out x \<and> search (print_opts os) = Some (hit out)"
  using assms
proof (induction os)
  case Nil
  show ?case using search_end by (simp add: print_opts_def)
next
  case (Cons x os)
  obtain n v where x: "x = (n, v)" by (cases x)
  have ok: "opt_ok (n, v)" "\<forall>x \<in> set os. opt_ok x" using Cons.prems x by auto
  have n: "n \<noteq> []" "no_nul n" using ok(1) by simp_all
  let ?p = "print_opt (n, v) @ print_opts os"
  have pos: "print_opts (x # os) = ?p" by (simp add: print_opts_def x)
  obtain out where out: "next_opt (Some ?p) = Some (length (print_opt (n, v)), out)" "name out = Some ?p"
    "name_len out = length n"
    "case v of None \<Rightarrow> val out = None \<and> val_len out = 0
        | Some w \<Rightarrow> \<exists>q. val out = Some q \<and> val_len out = length w \<and> take (length w) q = w"
    using next_opt_print [OF ok(1) starts_name_print [OF ok(2)]] by blast
  have pk: "peek ?p \<noteq> NUL" using n by (cases v; cases n) simp_all
  obtain r where r: "?p = n @ r" by (cases v) simp_all
  have se: "strncmp_zero ?p nm (length n) \<longleftrightarrow> prefix n nm" unfolding r by (rule strncmp_zero_prefix [OF n(2)])
  have st: "search ?p = (if prefix n nm then Some (hit out) else search (print_opts os))"
    using search_step [OF pk out(1,2)] out(3) n(1) se by simp
  show ?case
  proof (cases "prefix n nm")
    case True
    have "describes out x" using out(3,4) x by (cases v) auto
    then show ?thesis using True st x unfolding pos by auto
  next
    case False
    then have "find (\<lambda>(n, v). prefix n nm) (x # os) = find (\<lambda>(n, v). prefix n nm) os" "search ?p = search (print_opts os)"
      using st x by simp_all
    then show ?thesis using Cons.IH [OF ok(2)] unfolding pos by (simp only:)
  qed
qed

end

interpretation getopt: option_search "\<lambda>p. getopt_loop p nm want" nm
  "\<lambda>cur. (True, if val_len cur > 0 \<and> want then (val cur, val_len cur) else (None, 0))" "(False, None, 0)"
  for nm want
  by unfold_locales (subst getopt_loop.simps, simp)+

interpretation check: option_search "\<lambda>p. check_loop p nm v vl" nm
  "\<lambda>cur. if (val cur = None) \<noteq> (\<not> v) then (False, None, 0)
         else if v \<and> vl then (True, val cur, val_len cur)
         else if \<not> v \<and> \<not> vl then (True, None, 0) else (False, None, 0)" "(False, None, 0)"
  for nm v vl
  by unfold_locales (subst check_loop.simps, simp)+

text \<open>C39: On a well-formed parameter line \<^verbatim>\<open>param_getopt\<close> and \<^verbatim>\<open>param_check\<close> return, and answer for the first
  option whose name is a prefix of the name asked for (not only for the option of that name): with
  its value, if it has one that is not empty, or without for \<^verbatim>\<open>param_getopt\<close>; \<^verbatim>\<open>param_check\<close> succeeds
  when the option has a value exactly if one is asked for.\<close>
theorem param_search_first_prefix:
  assumes "\<forall>x \<in> set os. opt_ok x"
  shows "case find (\<lambda>(n, v). prefix n nm) os of
      None \<Rightarrow> param_getopt (Some (print_opts os)) (Some nm) True True = Some (False, None, 0)
          \<and> param_check (Some (print_opts os)) (Some nm) True True = Some (False, None, 0)
    | Some (n, None) \<Rightarrow> param_getopt (Some (print_opts os)) (Some nm) True True = Some (True, None, 0)
          \<and> param_check (Some (print_opts os)) (Some nm) True True = Some (False, None, 0)
          \<and> param_check (Some (print_opts os)) (Some nm) False False = Some (True, None, 0)
    | Some (n, Some w) \<Rightarrow>
        (\<exists>q. take (length w) q = w
          \<and> param_getopt (Some (print_opts os)) (Some nm) True True = Some (True, if w = [] then (None, 0) else (Some q, length w)))
        \<and> (\<exists>q. take (length w) q = w \<and> param_check (Some (print_opts os)) (Some nm) True True = Some (True, Some q, length w))
        \<and> param_check (Some (print_opts os)) (Some nm) False False = Some (False, None, 0)"
proof -
  note s = getopt.search_print_opts [OF assms, of nm True] check.search_print_opts [OF assms, of nm True True]
    check.search_print_opts [OF assms, of nm False False]
  show ?thesis
  proof (cases "find (\<lambda>(n, v). prefix n nm) os")
    case None
    then show ?thesis using s by (simp add: param_getopt_def param_check_def)
  next
    case (Some x)
    obtain n v where x: "x = (n, v)" by (cases x)
    show ?thesis
    proof (cases v)
      case None
      then show ?thesis using s Some x by (auto simp: param_getopt_def param_check_def)
    next
      case (Some w)
      then show ?thesis using s \<open>find (\<lambda>(n, v). prefix n nm) os = Some x\<close> x
        by (auto simp: param_getopt_def param_check_def)
    qed
  qed
qed

text \<open>An unclosed quotation makes the scanner read behind the end of the line.\<close>

lemma unclosed_quote_reads_beyond:
  "param_getopt (Some (''a='' @ [CHR 0x22] @ ''b'')) (Some ''a'') True True = None"
  by (simp add: param_getopt_def getopt_loop.simps next_opt_def quoted_value_def incl_len_def excl_len_def
      param_delimchars_def param_nidchars_def Let_def)

section \<open>Witnesses\<close>

theorem param_search_first_prefix_witness:
  "\<exists>q. take 2 q = ''12'' \<and> param_getopt (Some (print_opts [(''my'', None), (''some'', Some ''12'')])) (Some ''something'') True True
     = Some (True, Some q, 2)"
  using param_search_first_prefix [of "[(''my'', None), (''some'', Some ''12'')]" "''something''"]
  by (auto simp: param_nidchars_def numeral_2_eq_2)

end
