(* ===== verification/Seg_Tables.thy ===== *)
theory Seg_Tables
  imports Phys_Mem
begin

text \<open>
  The descriptor tables of the x86 kernel: the global descriptor table and the task state segment of
  \<^verbatim>\<open>src/trunk/src/x86_kernel.c\<close> (\<^verbatim>\<open>set_descriptor\<close>, \<^verbatim>\<open>add_descriptor\<close>, \<^verbatim>\<open>init_GDT\<close>, \<^verbatim>\<open>init_TSS\<close>) and the
  interrupt descriptor table of \<^verbatim>\<open>src/trunk/src/x86_irq.c\<close> (\<^verbatim>\<open>set_IDT\<close>, \<^verbatim>\<open>init_IDT\<close>).

  The arrays are lists of records of their declared length; an access outside is \<open>None\<close>.  The
  addresses the linker gives to the tables and to the first exception handler are arguments, the
  port writes are a list.  \<open>seg_base\<close>, \<open>seg_limit\<close> and \<open>gate_offset\<close> read an entry the way the
  processor does.
\<close>

section \<open>Segment descriptors\<close>

record descriptor_t =
  limit_lo :: u16
  base_lo :: u16
  base_mid :: u8
  flags1 :: u8
  flags2 :: u8
  base_hi :: u8

record apm_table =
  apm_cseg :: u16
  apm_offset :: u32
  apm_cseg_16 :: u16
  apm_dseg :: u16
  apm_cseg_len :: u16
  apm_cseg_16_len :: u16
  apm_dseg_len :: u16

definition GDT_SIZE :: nat where "GDT_SIZE = 164"
definition KERNEL_CS :: u16 where "KERNEL_CS = 0x0008"
definition KERNEL_DS :: u16 where "KERNEL_DS = 0x0010"
definition USER_CS :: u16 where "USER_CS = 0x0018"
definition USER_DS :: u16 where "USER_DS = 0x0020"

definition zero_descriptor :: descriptor_t where
  "zero_descriptor = \<lparr>limit_lo = 0, base_lo = 0, base_mid = 0, flags1 = 0, flags2 = 0, base_hi = 0\<rparr>"

text \<open>The tables, the far pointer for the power management and the segment registers.\<close>

record segs =
  gdt :: "descriptor_t list"
  gdt_count :: nat
  gdt_ptr :: "u16 \<times> u32"
  apm_call_ptr :: "u16 \<times> u16 \<times> u16"
  reg_cs :: u16
  reg_ds :: u16
  reg_tr :: u16
  tss_ss0 :: u16
  tss_esp0 :: u32
  seg_tss :: u16

definition set_descriptor :: "nat \<Rightarrow> u32 \<Rightarrow> u32 \<Rightarrow> u32 \<Rightarrow> u32 \<Rightarrow> segs \<Rightarrow> segs option" where
  "set_descriptor index base len fl1 fl2 s =
     (if index \<ge> length (gdt s) then None
      else let s = s\<lparr>gdt := (gdt s)[index :=
             \<lparr>limit_lo = ucast (len AND 0xffff), base_lo = ucast (base AND 0xffff),
              base_mid = ucast (drop_bit 16 base), flags1 = ucast fl1,
              flags2 = ucast (drop_bit 16 len OR fl2), base_hi = ucast (drop_bit 24 base)\<rparr>]\<rparr>
           in Some (if index \<ge> gdt_count s then s\<lparr>gdt_count := index + 1\<rparr> else s))"

definition add_descriptor :: "u32 \<Rightarrow> u32 \<Rightarrow> u32 \<Rightarrow> u32 \<Rightarrow> segs \<Rightarrow> (nat \<times> segs) option" where
  "add_descriptor base len fl1 fl2 s =
     (let seg = gdt_count s * 8
      in case set_descriptor (gdt_count s) base len fl1 fl2 s of None \<Rightarrow> None | Some s \<Rightarrow> Some (seg, s))"

definition CHECK_FLAG :: "u32 \<Rightarrow> nat \<Rightarrow> bool" where
  "CHECK_FLAG flags b \<longleftrightarrow> flags AND push_bit b 1 \<noteq> 0"

definition init_apm :: "apm_table \<Rightarrow> segs \<Rightarrow> segs option" where
  "init_apm apm s = do {
     (seg_apm, s) \<leftarrow> add_descriptor (push_bit 4 (ucast (apm_cseg apm))) (ucast (apm_cseg_len apm) - 1) 0x9a 0x40 s;
     (_, s) \<leftarrow> add_descriptor (push_bit 4 (ucast (apm_cseg_16 apm))) (ucast (apm_cseg_16_len apm) - 1) 0x9a 0x00 s;
     (_, s) \<leftarrow> add_descriptor (push_bit 4 (ucast (apm_dseg apm))) (ucast (apm_dseg_len apm) - 1) 0x92 0x00 s;
     Some (s\<lparr>apm_call_ptr := (ucast (apm_offset apm AND 0xffff), ucast (drop_bit 16 (apm_offset apm)), of_nat seg_apm)\<rparr>)
   }"

definition init_GDT :: "u32 \<Rightarrow> apm_table \<Rightarrow> u32 \<Rightarrow> segs \<Rightarrow> segs option" where
  "init_GDT mbi_flags apm gdt_addr s = do {
     let s = s\<lparr>gdt := replicate GDT_SIZE zero_descriptor, gdt_count := 0\<rparr>;
     s \<leftarrow> set_descriptor 0 0 0 0 0 s;
     s \<leftarrow> set_descriptor 1 0 0xfffff 0x9a 0xc0 s;
     s \<leftarrow> set_descriptor 2 0 0xfffff 0x92 0xc0 s;
     s \<leftarrow> set_descriptor 3 0 0xbffff 0xfa 0xc0 s;
     s \<leftarrow> set_descriptor 4 0 0xbffff 0xf2 0xc0 s;
     s \<leftarrow> (if CHECK_FLAG mbi_flags 10 then init_apm apm s else Some (s\<lparr>apm_call_ptr := (0, 0, 0)\<rparr>));
     let s = s\<lparr>gdt_ptr := (of_nat (GDT_SIZE * 8), PHYS_MEM gdt_addr)\<rparr>;
     Some (s\<lparr>reg_ds := KERNEL_DS, reg_cs := KERNEL_CS\<rparr>)
   }"

text \<open>\<^verbatim>\<open>&base_tss - KERNEL_VIRT_BASE\<close> steps in units of \<^verbatim>\<open>sizeof(tss_t)\<close>, 104 bytes.\<close>

definition init_TSS :: "u32 \<Rightarrow> u32 \<Rightarrow> segs \<Rightarrow> segs option" where
  "init_TSS tss_addr esp s = do {
     let s = s\<lparr>tss_ss0 := KERNEL_DS, tss_esp0 := esp\<rparr>;
     (seg, s) \<leftarrow> add_descriptor (tss_addr - 0xC0000000 * 104) (104 - 1) 0x89 0x80 s;
     let s = s\<lparr>seg_tss := of_nat seg\<rparr>;
     Some (s\<lparr>reg_tr := seg_tss s\<rparr>)
   }"

section \<open>Interrupt descriptors\<close>

record idt_t =
  i_base_lo :: u16
  i_sel :: u16
  i_always0 :: u8
  i_flags :: u8
  i_base_hi :: u16

definition IDT_SIZE :: nat where "IDT_SIZE = 256"
definition IDTF_INT_GATE :: u32 where "IDTF_INT_GATE = 0x8E"
definition IDTF_DPL :: u32 where "IDTF_DPL = 0x20"
definition IRQ_BASE :: u8 where "IRQ_BASE = 0x20"

definition zero_gate :: idt_t where
  "zero_gate = \<lparr>i_base_lo = 0, i_sel = 0, i_always0 = 0, i_flags = 0, i_base_hi = 0\<rparr>"

record irqs =
  idt :: "idt_t list"
  idt_ptr :: "u16 \<times> u32"
  trap_handlers :: "u32 list"
  ports :: "(u16 \<times> u8) list"

definition set_IDT :: "nat \<Rightarrow> u32 \<Rightarrow> u16 \<Rightarrow> u32 \<Rightarrow> irqs \<Rightarrow> irqs option" where
  "set_IDT index base sel fl s =
     (if index \<ge> length (idt s) then None
      else Some (s\<lparr>idt := (idt s)[index :=
             (idt s ! index)\<lparr>i_base_lo := ucast (base AND 0xffff), i_base_hi := ucast (drop_bit 16 base),
                i_sel := sel, i_flags := ucast fl\<rparr>]\<rparr>))"

fun idt_loop :: "u32 \<Rightarrow> nat \<Rightarrow> nat \<Rightarrow> irqs \<Rightarrow> irqs option" where
  "idt_loop exc_0x00 i 0 s = Some s"
| "idt_loop exc_0x00 i (Suc n) s =
     (case set_IDT i (exc_0x00 + of_nat i * 16) KERNEL_CS IDTF_INT_GATE s of
        None \<Rightarrow> None | Some s \<Rightarrow> idt_loop exc_0x00 (i + 1) n s)"

definition outportb :: "u16 \<Rightarrow> u8 \<Rightarrow> irqs \<Rightarrow> irqs" where
  "outportb port v s = s\<lparr>ports := ports s @ [(port, v)]\<rparr>"

definition init_IDT :: "u32 \<Rightarrow> u32 \<Rightarrow> irqs \<Rightarrow> irqs option" where
  "init_IDT exc_0x00 idt_addr s = do {
     let s = s\<lparr>idt := replicate IDT_SIZE zero_gate\<rparr>;
     s \<leftarrow> idt_loop exc_0x00 0 IDT_SIZE s;
     s \<leftarrow> set_IDT 0x80 (exc_0x00 + 0x80 * 16) KERNEL_CS (IDTF_INT_GATE OR (IDTF_DPL * 3)) s;
     let s = outportb 0x20 0x11 s;
     let s = outportb 0x21 IRQ_BASE s;
     let s = outportb 0x21 0x04 s;
     let s = outportb 0x21 0x01 s;
     let s = outportb 0xA0 0x11 s;
     let s = outportb 0xA1 (IRQ_BASE + 8) s;
     let s = outportb 0xA1 0x02 s;
     let s = outportb 0xA1 0x01 s;
     let s = s\<lparr>trap_handlers := replicate IDT_SIZE 0\<rparr>;
     Some (s\<lparr>idt_ptr := (of_nat (IDT_SIZE * 8), idt_addr)\<rparr>)
   }"

section \<open>What the processor reads\<close>

definition seg_base :: "descriptor_t \<Rightarrow> u32" where
  "seg_base d = ucast (base_lo d) OR push_bit 16 (ucast (base_mid d)) OR push_bit 24 (ucast (base_hi d))"

definition seg_limit :: "descriptor_t \<Rightarrow> u32" where
  "seg_limit d = ucast (limit_lo d) OR push_bit 16 (ucast (flags2 d) AND 0xf)"

text \<open>The number of the last byte: with the granularity bit the limit counts pages.\<close>

definition seg_last :: "descriptor_t \<Rightarrow> u32" where
  "seg_last d = (if flags2 d AND 0x80 \<noteq> 0 then push_bit 12 (seg_limit d) OR 0xfff else seg_limit d)"

definition seg_dpl :: "descriptor_t \<Rightarrow> u8" where
  "seg_dpl d = drop_bit 5 (flags1 d) AND 3"

definition seg_code :: "descriptor_t \<Rightarrow> bool" where
  "seg_code d \<longleftrightarrow> flags1 d AND 8 \<noteq> 0"

definition gate_offset :: "idt_t \<Rightarrow> u32" where
  "gate_offset g = ucast (i_base_lo g) OR push_bit 16 (ucast (i_base_hi g))"

definition selected :: "segs \<Rightarrow> u16 \<Rightarrow> descriptor_t" where
  "selected s sel = gdt s ! (unat (drop_bit 3 sel))"

section \<open>Entries decode to what was stored\<close>

lemma mask_16: "(0xffff :: u32) = mask 16"
  by (simp add: mask_eq_exp_minus_1)

lemma mask_4: "(0xf :: u32) = mask 4"
  by (simp add: mask_eq_exp_minus_1)

lemma split_base:
  "(ucast (ucast (b AND 0xffff :: u32) :: u16) :: u32) OR push_bit 16 (ucast (ucast (drop_bit 16 b) :: u8))
     OR push_bit 24 (ucast (ucast (drop_bit 24 b) :: u8)) = b"
proof (rule bit_word_eqI)
  fix n assume n: "n < LENGTH(32)"
  consider "n < 16" | "16 \<le> n" "n < 24" | "24 \<le> n" by linarith
  then show "bit ((ucast (ucast (b AND 0xffff :: u32) :: u16) :: u32) OR push_bit 16 (ucast (ucast (drop_bit 16 b) :: u8))
     OR push_bit 24 (ucast (ucast (drop_bit 24 b) :: u8))) n \<longleftrightarrow> bit b n"
    using n by cases (auto simp: bit_simps mask_16)
qed

lemma split_offset:
  "(ucast (ucast (b AND 0xffff :: u32) :: u16) :: u32) OR push_bit 16 (ucast (ucast (drop_bit 16 b) :: u16)) = b"
proof (rule bit_word_eqI)
  fix n assume n: "n < LENGTH(32)"
  consider "n < 16" | "16 \<le> n" by linarith
  then show "bit ((ucast (ucast (b AND 0xffff :: u32) :: u16) :: u32) OR push_bit 16 (ucast (ucast (drop_bit 16 b) :: u16))) n
      \<longleftrightarrow> bit b n"
    using n by cases (auto simp: bit_simps mask_16)
qed

lemma bit_beyond: "unat (x :: u32) < 2 ^ k \<Longrightarrow> k \<le> n \<Longrightarrow> \<not> bit x n"
proof -
  assume "unat x < 2 ^ k" "k \<le> n"
  then have "unat x < 2 ^ n" by (meson less_le_trans one_le_numeral power_increasing)
  then have "\<not> bit (unat x) n" by (simp add: bit_nat_def)
  then show ?thesis by (simp add: bit_unsigned_iff)
qed

lemma split_limit:
  assumes "unat len < 2 ^ 20" "fl AND 0xf = 0"
  shows "(ucast (ucast (len AND 0xffff :: u32) :: u16) :: u32) OR push_bit 16 (ucast (ucast (drop_bit 16 len OR fl) :: u8) AND 0xf) = len"
proof (rule bit_word_eqI)
  fix n assume n: "n < LENGTH(32)"
  have f: "\<not> bit fl k" if "k < 4" for k
  proof -
    have "\<not> bit (fl AND 0xf) k" by (simp add: assms(2))
    then show ?thesis using that by (simp add: mask_4 bit_simps)
  qed
  consider "n < 16" | "16 \<le> n" "n < 20" | "20 \<le> n" by linarith
  then show "bit ((ucast (ucast (len AND 0xffff :: u32) :: u16) :: u32) OR push_bit 16 (ucast (ucast (drop_bit 16 len OR fl) :: u8) AND 0xf)) n
      \<longleftrightarrow> bit len n"
    using n f [of "n - 16"] bit_beyond [OF assms(1), of n] by cases (auto simp: bit_simps mask_16 mask_4)
qed

definition seg_entry :: "u32 \<Rightarrow> u32 \<Rightarrow> u32 \<Rightarrow> u32 \<Rightarrow> descriptor_t" where
  "seg_entry base len fl1 fl2 =
     \<lparr>limit_lo = ucast (len AND 0xffff), base_lo = ucast (base AND 0xffff), base_mid = ucast (drop_bit 16 base),
      flags1 = ucast fl1, flags2 = ucast (drop_bit 16 len OR fl2), base_hi = ucast (drop_bit 24 base)\<rparr>"

lemma set_descriptor_entry:
  "index < length (gdt s) \<Longrightarrow> set_descriptor index base len fl1 fl2 s =
     Some (s\<lparr>gdt := (gdt s)[index := seg_entry base len fl1 fl2], gdt_count := max (gdt_count s) (index + 1)\<rparr>)"
  by (simp add: set_descriptor_def seg_entry_def Let_def)

lemma add_descriptor_entry:
  "gdt_count s < length (gdt s) \<Longrightarrow> add_descriptor base len fl1 fl2 s =
     Some (gdt_count s * 8, s\<lparr>gdt := (gdt s)[gdt_count s := seg_entry base len fl1 fl2], gdt_count := gdt_count s + 1\<rparr>)"
  by (simp add: add_descriptor_def set_descriptor_entry)

lemma entry_base: "seg_base (seg_entry base len fl1 fl2) = base"
  using split_base [of base] by (simp add: seg_base_def seg_entry_def)

lemma entry_limit: "unat len < 2 ^ 20 \<Longrightarrow> fl2 AND 0xf = 0 \<Longrightarrow> seg_limit (seg_entry base len fl1 fl2) = len"
  using split_limit [of len fl2] by (simp add: seg_limit_def seg_entry_def)

text \<open>A descriptor decodes to what \<^verbatim>\<open>set_descriptor\<close> was given: for every base address, every limit of 20
  bits and flags that leave the limit bits alone the processor reads that base, limit and type, and no
  other entry of the table changes.\<close>
theorem set_descriptor_decodes:
  assumes "index < length (gdt s)" "unat len < 2 ^ 20" "fl2 AND 0xf = 0"
  shows "\<exists>s'. set_descriptor index base len fl1 fl2 s = Some s'
     \<and> seg_base (gdt s' ! index) = base \<and> seg_limit (gdt s' ! index) = len \<and> flags1 (gdt s' ! index) = ucast fl1
     \<and> (\<forall>j. j \<noteq> index \<longrightarrow> gdt s' ! j = gdt s ! j) \<and> length (gdt s') = length (gdt s)
     \<and> gdt_count s' = max (gdt_count s) (index + 1)"
  using assms by (simp add: set_descriptor_entry entry_base entry_limit) (simp add: seg_entry_def)

lemma unat_len_minus_1: "x \<noteq> 0 \<Longrightarrow> unat (ucast (x :: u16) - 1 :: u32) = unat x - 1"
proof -
  assume "x \<noteq> 0"
  then have "0 < unat x" by (simp add: unat_gt_0)
  moreover have "unat (ucast x :: u32) = unat x"
    using unsigned_less [of x, where ?'a = nat] by (simp add: unsigned_ucast_eq take_bit_eq_mod)
  ultimately show ?thesis using unat_minus_one [of "ucast x :: u32"] by fastforce
qed

lemma flat_flags:
  "flags2 (seg_entry 0 0xfffff fl1 0xc0) = 0xcf" "flags2 (seg_entry 0 0xbffff fl1 0xc0) = 0xcb" "flags1 (seg_entry b l fl1 fl2) = ucast fl1"
  by (simp_all add: seg_entry_def)

lemma flat_entries:
  "seg_last (seg_entry 0 0xfffff fl1 0xc0) = 0xffffffff" "seg_last (seg_entry 0 0xbffff fl1 0xc0) = 0xbfffffff"
  by (simp_all add: seg_last_def entry_limit flat_flags)

lemma init_apm_entries:
  assumes "gdt_count s + 3 \<le> length (gdt s)"
  shows "init_apm apm s = Some (s\<lparr>gdt := (gdt s)
       [gdt_count s := seg_entry (push_bit 4 (ucast (apm_cseg apm))) (ucast (apm_cseg_len apm) - 1) 0x9a 0x40,
        gdt_count s + 1 := seg_entry (push_bit 4 (ucast (apm_cseg_16 apm))) (ucast (apm_cseg_16_len apm) - 1) 0x9a 0x00,
        gdt_count s + 2 := seg_entry (push_bit 4 (ucast (apm_dseg apm))) (ucast (apm_dseg_len apm) - 1) 0x92 0x00],
       gdt_count := gdt_count s + 3,
       apm_call_ptr := (ucast (apm_offset apm AND 0xffff), ucast (drop_bit 16 (apm_offset apm)), of_nat (gdt_count s * 8))\<rparr>)"
  using assms by (simp add: init_apm_def add_descriptor_entry)

text \<open>The five fixed entries.\<close>

definition flat_gdt :: "descriptor_t list" where
  "flat_gdt = [seg_entry 0 0 0 0, seg_entry 0 0xfffff 0x9a 0xc0, seg_entry 0 0xfffff 0x92 0xc0, seg_entry 0 0xbffff 0xfa 0xc0,
     seg_entry 0 0xbffff 0xf2 0xc0] @ replicate 159 zero_descriptor"

lemma init_GDT_eq:
  "init_GDT mbi_flags apm gdt_addr s =
     (let s = s\<lparr>gdt := flat_gdt, gdt_count := 5\<rparr>
      in map_option (\<lambda>s. s\<lparr>gdt_ptr := (1312, PHYS_MEM gdt_addr), reg_ds := KERNEL_DS, reg_cs := KERNEL_CS\<rparr>)
        (if CHECK_FLAG mbi_flags 10 then init_apm apm s else Some (s\<lparr>apm_call_ptr := (0, 0, 0)\<rparr>)))"
proof -
  have "replicate (5 + 159) zero_descriptor = replicate 5 zero_descriptor @ replicate 159 zero_descriptor"
    by (rule replicate_add)
  moreover have "replicate 5 z = [z, z, z, z, z]" for z :: descriptor_t by (simp add: eval_nat_numeral)
  ultimately have r: "replicate GDT_SIZE zero_descriptor = zero_descriptor # zero_descriptor # zero_descriptor # zero_descriptor
      # zero_descriptor # replicate 159 zero_descriptor"
    by (simp add: GDT_SIZE_def)
  have five: "Suc (Suc (Suc (Suc (Suc 0)))) = 5" by simp
  show ?thesis
    unfolding init_GDT_def r
    by (simp add: set_descriptor_entry flat_gdt_def GDT_SIZE_def Let_def numeral_2_eq_2 numeral_3_eq_3 five
        map_conv_bind_option comp_def)
qed

text \<open>C30: \<^verbatim>\<open>init_GDT\<close> always succeeds and leaves the segments the rest of the kernel relies on.  The kernel
  selectors address flat code and data segments of 4 gigabytes at privilege level 0, the user selectors
  segments of level 3 that end right below the kernel's address space.  If the boot loader offers power
  management, the three entries behind them describe its segments, and the far pointer for the
  calls holds its entry point with the first of their selectors; else the far pointer is null.\<close>
theorem init_GDT_segments:
  assumes "apm_cseg_len apm \<noteq> 0" "apm_cseg_16_len apm \<noteq> 0" "apm_dseg_len apm \<noteq> 0"
  shows "\<exists>s'. init_GDT mbi_flags apm gdt_addr s = Some s' \<and> length (gdt s') = GDT_SIZE
    \<and> reg_cs s' = KERNEL_CS \<and> reg_ds s' = KERNEL_DS \<and> gdt_ptr s' = (1312, PHYS_MEM gdt_addr)
    \<and> (\<forall>sel \<in> {KERNEL_CS, KERNEL_DS}. seg_base (selected s' sel) = 0 \<and> seg_last (selected s' sel) = 0xffffffff
         \<and> seg_dpl (selected s' sel) = 0 \<and> (seg_code (selected s' sel) \<longleftrightarrow> sel = KERNEL_CS))
    \<and> (\<forall>sel \<in> {USER_CS, USER_DS}. seg_base (selected s' sel) = 0 \<and> seg_last (selected s' sel) + 1 = PAGE_OFFSET
         \<and> seg_dpl (selected s' sel) = 3 \<and> (seg_code (selected s' sel) \<longleftrightarrow> sel = USER_CS))
    \<and> (case apm_call_ptr s' of (lo, hi, sel) \<Rightarrow>
         if CHECK_FLAG mbi_flags 10
         then gdt_count s' = 8 \<and> word_cat hi lo = apm_offset apm
            \<and> seg_base (selected s' sel) = push_bit 4 (ucast (apm_cseg apm))
            \<and> seg_limit (selected s' sel) = ucast (apm_cseg_len apm) - 1
            \<and> seg_base (gdt s' ! 6) = push_bit 4 (ucast (apm_cseg_16 apm))
            \<and> seg_limit (gdt s' ! 6) = ucast (apm_cseg_16_len apm) - 1
            \<and> seg_base (gdt s' ! 7) = push_bit 4 (ucast (apm_dseg apm))
            \<and> seg_limit (gdt s' ! 7) = ucast (apm_dseg_len apm) - 1
         else gdt_count s' = 5 \<and> (lo, hi, sel) = (0, 0, 0))"
proof -
  let ?g = "if CHECK_FLAG mbi_flags 10 then flat_gdt
       [5 := seg_entry (push_bit 4 (ucast (apm_cseg apm))) (ucast (apm_cseg_len apm) - 1) 0x9a 0x40,
        6 := seg_entry (push_bit 4 (ucast (apm_cseg_16 apm))) (ucast (apm_cseg_16_len apm) - 1) 0x9a 0x00,
        7 := seg_entry (push_bit 4 (ucast (apm_dseg apm))) (ucast (apm_dseg_len apm) - 1) 0x92 0x00] else flat_gdt"
  let ?p = "if CHECK_FLAG mbi_flags 10
     then (ucast (apm_offset apm AND 0xffff), ucast (drop_bit 16 (apm_offset apm)), 40 :: u16) else (0, 0, 0)"
  have len: "length flat_gdt = 164" by (simp add: flat_gdt_def)
  obtain s' where s': "init_GDT mbi_flags apm gdt_addr s = Some s'" "gdt s' = ?g" "apm_call_ptr s' = ?p"
      "gdt_count s' = (if CHECK_FLAG mbi_flags 10 then 8 else 5)" "reg_cs s' = KERNEL_CS" "reg_ds s' = KERNEL_DS"
      "gdt_ptr s' = (1312, PHYS_MEM gdt_addr)"
    by (cases "CHECK_FLAG mbi_flags 10") (simp_all add: init_GDT_eq init_apm_entries len Let_def)
  have sel: "selected s' KERNEL_CS = seg_entry 0 0xfffff 0x9a 0xc0" "selected s' KERNEL_DS = seg_entry 0 0xfffff 0x92 0xc0"
      "selected s' USER_CS = seg_entry 0 0xbffff 0xfa 0xc0" "selected s' USER_DS = seg_entry 0 0xbffff 0xf2 0xc0"
    by (simp_all add: selected_def s'(2) KERNEL_CS_def KERNEL_DS_def USER_CS_def USER_DS_def) (simp_all add: flat_gdt_def)
  have d: "KERNEL_CS \<noteq> KERNEL_DS" "USER_CS \<noteq> USER_DS"
    by (simp_all add: KERNEL_CS_def KERNEL_DS_def USER_CS_def USER_DS_def)
  have lim: "unat (ucast x - 1 :: u32) < 2 ^ 20" if "x \<noteq> 0" for x :: u16
    using unat_len_minus_1 [OF that] unsigned_less [of x, where ?'a = nat] by simp
  have off: "word_cat (ucast (drop_bit 16 b) :: u16) (ucast (b AND 0xffff) :: u16) = b" for b :: u32
    by (rule bit_word_eqI) (auto simp: bit_word_cat_iff bit_simps mask_16)
  have apm: "CHECK_FLAG mbi_flags 10 \<Longrightarrow> selected s' 40 = gdt s' ! 5" by (simp add: selected_def)
  note l = entry_limit [OF lim [OF assms(1)]] entry_limit [OF lim [OF assms(2)]] entry_limit [OF lim [OF assms(3)]]
  show ?thesis
  proof (intro exI [of _ s'] conjI)
    show "length (gdt s') = GDT_SIZE" by (simp add: s'(2) len GDT_SIZE_def)
    show "\<forall>sel \<in> {KERNEL_CS, KERNEL_DS}. seg_base (selected s' sel) = 0 \<and> seg_last (selected s' sel) = 0xffffffff
         \<and> seg_dpl (selected s' sel) = 0 \<and> (seg_code (selected s' sel) \<longleftrightarrow> sel = KERNEL_CS)"
      using d by (simp add: sel entry_base flat_entries seg_dpl_def seg_code_def flat_flags)
    show "\<forall>sel \<in> {USER_CS, USER_DS}. seg_base (selected s' sel) = 0 \<and> seg_last (selected s' sel) + 1 = PAGE_OFFSET
         \<and> seg_dpl (selected s' sel) = 3 \<and> (seg_code (selected s' sel) \<longleftrightarrow> sel = USER_CS)"
      using d by (simp add: sel entry_base flat_entries seg_dpl_def seg_code_def flat_flags PAGE_OFFSET_def)
  qed (use s' in \<open>auto simp: apm off len entry_base l\<close>)
qed

text \<open>The address arithmetic of \<^verbatim>\<open>init_TSS\<close> is off by the factor \<^verbatim>\<open>sizeof(tss_t)\<close>; the offset vanishes
  modulo 2^32, and the descriptor points to the virtual address of the segment.\<close>

lemma init_TSS_base:
  assumes "gdt_count s < length (gdt s)"
  shows "\<exists>s'. init_TSS tss_addr esp s = Some s' \<and> seg_base (gdt s' ! gdt_count s) = tss_addr
     \<and> seg_tss s' = of_nat (gdt_count s * 8) \<and> reg_tr s' = seg_tss s'"
  using assms by (simp add: init_TSS_def add_descriptor_entry entry_base)

section \<open>Interrupt gates\<close>

definition gate :: "u32 \<Rightarrow> u16 \<Rightarrow> u32 \<Rightarrow> idt_t \<Rightarrow> idt_t" where
  "gate base sel fl g = g\<lparr>i_base_lo := ucast (base AND 0xffff), i_base_hi := ucast (drop_bit 16 base),
     i_sel := sel, i_flags := ucast fl\<rparr>"

lemma gate_simps [simp]:
  "gate_offset (gate base sel fl g) = base" "i_sel (gate base sel fl g) = sel" "i_flags (gate base sel fl g) = ucast fl"
  "i_always0 (gate base sel fl g) = i_always0 g"
  using split_offset [of base] by (simp_all add: gate_offset_def gate_def)

lemma set_IDT_gate:
  "index < length (idt s) \<Longrightarrow> set_IDT index base sel fl s = Some (s\<lparr>idt := (idt s)[index := gate base sel fl (idt s ! index)]\<rparr>)"
  by (simp add: set_IDT_def gate_def)

lemma idt_loop_gates:
  "i + n \<le> length (idt s) \<Longrightarrow> \<exists>t. idt_loop e i n s = Some (s\<lparr>idt := t\<rparr>) \<and> length t = length (idt s) \<and>
     (\<forall>j < length (idt s). t ! j = (if i \<le> j \<and> j < i + n then gate (e + of_nat j * 16) KERNEL_CS IDTF_INT_GATE (idt s ! j)
        else idt s ! j))"
proof (induction n arbitrary: i s)
  case (Suc n)
  let ?s = "s\<lparr>idt := (idt s)[i := gate (e + of_nat i * 16) KERNEL_CS IDTF_INT_GATE (idt s ! i)]\<rparr>"
  obtain t where t: "idt_loop e (i + 1) n ?s = Some (?s\<lparr>idt := t\<rparr>)" "length t = length (idt s)"
    "\<forall>j < length (idt s). t ! j = (if i + 1 \<le> j \<and> j < i + 1 + n
       then gate (e + of_nat j * 16) KERNEL_CS IDTF_INT_GATE (idt ?s ! j) else idt ?s ! j)"
    using Suc.IH [of "i + 1" ?s] Suc.prems by auto
  have "t ! j = (if i \<le> j \<and> j < i + Suc n then gate (e + of_nat j * 16) KERNEL_CS IDTF_INT_GATE (idt s ! j) else idt s ! j)"
    if "j < length (idt s)" for j
    using t(3) that Suc.prems by (cases "j = i") auto
  moreover have "idt_loop e i (Suc n) s = Some (s\<lparr>idt := t\<rparr>)" using t(1) Suc.prems by (simp add: set_IDT_gate)
  ultimately show ?case using t(2) by blast
next
  case 0
  show ?case by (rule exI [of _ "idt s"]) auto
qed

text \<open>\<^verbatim>\<open>init_IDT\<close> always succeeds: every one of the 256 gates leads to its own 16 byte stub behind the first
  exception handler, in the kernel's code segment, as an interrupt gate of privilege level 0, except for
  the system call gate 0x80, which user mode may call; no trap handler is installed, and the
  two interrupt controllers receive their initialization sequence with the vectors 0x20 and 0x28.\<close>
theorem init_IDT_gates:
  "\<exists>s'. init_IDT e addr s = Some s' \<and> length (idt s') = 256 \<and> idt_ptr s' = (2048, addr)
     \<and> (\<forall>j < 256. gate_offset (idt s' ! j) = e + of_nat j * 16 \<and> i_sel (idt s' ! j) = KERNEL_CS
          \<and> i_always0 (idt s' ! j) = 0 \<and> i_flags (idt s' ! j) = (if j = 0x80 then 0xEE else 0x8E))
     \<and> (\<forall>j < 256. trap_handlers s' ! j = 0)
     \<and> ports s' = ports s @ [(0x20, 0x11), (0x21, 0x20), (0x21, 0x04), (0x21, 0x01),
          (0xA0, 0x11), (0xA1, 0x28), (0xA1, 0x02), (0xA1, 0x01)]"
proof -
  let ?s = "s\<lparr>idt := replicate IDT_SIZE zero_gate\<rparr>"
  obtain t where t: "idt_loop e 0 IDT_SIZE ?s = Some (?s\<lparr>idt := t\<rparr>)" "length t = 256"
    "\<forall>j < 256. t ! j = gate (e + of_nat j * 16) KERNEL_CS IDTF_INT_GATE zero_gate"
    using idt_loop_gates [of 0 IDT_SIZE ?s e] by (auto simp: IDT_SIZE_def)
  let ?t = "t[128 := gate (e + 2048) KERNEL_CS (IDTF_INT_GATE OR (IDTF_DPL * 3)) (t ! 128)]"
  have "gate_offset (?t ! j) = e + of_nat j * 16 \<and> i_sel (?t ! j) = KERNEL_CS
          \<and> i_always0 (?t ! j) = 0 \<and> i_flags (?t ! j) = (if j = 0x80 then 0xEE else 0x8E)" if "j < 256" for j
    using that t(2,3) by (cases "j = 128") (simp_all add: IDTF_INT_GATE_def IDTF_DPL_def zero_gate_def)
  then show ?thesis
    using t(1,2) by (simp add: init_IDT_def set_IDT_gate outportb_def IRQ_BASE_def IDT_SIZE_def)
qed

section \<open>Witnesses\<close>

definition sample_segs :: segs where
  "sample_segs = \<lparr>gdt = replicate 164 zero_descriptor, gdt_count = 5, gdt_ptr = (0, 0), apm_call_ptr = (0, 0, 0),
     reg_cs = 0, reg_ds = 0, reg_tr = 0, tss_ss0 = 0, tss_esp0 = 0, seg_tss = 0\<rparr>"

theorem set_descriptor_decodes_witness:
  "\<exists>s. set_descriptor 5 0x12345678 0xbffff 0xfa 0xc0 sample_segs = Some s \<and> seg_base (gdt s ! 5) = 0x12345678
     \<and> seg_limit (gdt s ! 5) = 0xbffff"
  using set_descriptor_decodes [where index = 5 and s = sample_segs and len = "0xbffff" and ?fl2.0 = "0xc0" and base = "0x12345678" and ?fl1.0 = "0xfa"] by (auto simp: sample_segs_def)

definition sample_apm :: apm_table where
  "sample_apm = \<lparr>apm_cseg = 0xf000, apm_offset = 0x1234, apm_cseg_16 = 0xf000, apm_dseg = 0x40,
     apm_cseg_len = 0xffff, apm_cseg_16_len = 0xffff, apm_dseg_len = 0x100\<rparr>"

theorem init_GDT_segments_witness:
  "\<exists>s. init_GDT 0x400 sample_apm 0xC0200000 sample_segs = Some s \<and> seg_dpl (selected s USER_CS) = 3"
  using init_GDT_segments [of sample_apm "0x400" "0xC0200000" sample_segs] by (auto simp: sample_apm_def)

definition sample_irqs :: irqs where
  "sample_irqs = \<lparr>idt = [], idt_ptr = (0, 0), trap_handlers = [], ports = []\<rparr>"

theorem init_IDT_gates_witness:
  "\<exists>s. init_IDT 0xC0101000 0xC0300000 sample_irqs = Some s \<and> i_flags (idt s ! 128) = 0xEE
     \<and> gate_offset (idt s ! 128) = 0xC0101800"
  using init_IDT_gates [of "0xC0101000" "0xC0300000" sample_irqs] by auto

end
