(* ===== verification/Screen.thy ===== *)
theory Screen
  imports Libc_String
begin

text \<open>
  The text screen of the x86 kernel (\<^verbatim>\<open>src/trunk/src/x86_lib.c\<close>: \<^verbatim>\<open>cls\<close> and \<^verbatim>\<open>scr_putchar\<close>) and its serial
  console (\<^verbatim>\<open>ser_init\<close>, \<^verbatim>\<open>ser_putchar\<close>).

  The screen is memory: 25 lines of 80 cells of two bytes, the character and its attribute.  A new line is
  only executed when the next character arrives, so that the last line can be filled.  The serial port
  is a device whose answers to \<^verbatim>\<open>inportb\<close> are a stream of bytes; waiting for a device that never
  gets ready is not returning, the value \<open>None\<close>.
\<close>

section \<open>The screen\<close>

definition COLUMNS :: nat where "COLUMNS = 80"
definition LINES :: nat where "LINES = 25"
definition ATTRIBUTE :: u8 where "ATTRIBUTE = 7"
definition VIDEO :: nat where "VIDEO = 0xB8000"

record screen =
  xpos :: nat
  ypos :: nat
  video :: nat
  nl_pending :: bool
  nl_wrap :: bool
  vmem :: bytes

fun cls_loop :: "nat \<Rightarrow> nat \<Rightarrow> bytes \<Rightarrow> bytes" where
  "cls_loop v 0 m = m"
| "cls_loop v (Suc n) m = cls_loop (v + 1) n (m(v := 0))"

definition cls :: "screen \<Rightarrow> screen" where
  "cls s =
     (let s = s\<lparr>video := VIDEO\<rparr>;
          s = s\<lparr>vmem := cls_loop (video s) (COLUMNS * LINES * 2) (vmem s)\<rparr>
      in s\<lparr>xpos := 0, ypos := 0\<rparr>)"

text \<open>The part of \<^verbatim>\<open>scr_putchar\<close> that executes a pending new line.\<close>

definition new_line :: "screen \<Rightarrow> screen" where
  "new_line s =
     (let s = s\<lparr>xpos := 0, ypos := ypos s + 1\<rparr>;
          s = (if ypos s \<ge> LINES
               then let m = snd (memmove (video s) (video s + COLUMNS * 2) ((LINES - 1) * COLUMNS * 2) (vmem s));
                        m = snd (memset (video s + (LINES - 1) * COLUMNS * 2) 0 (COLUMNS * 2) m)
                    in s\<lparr>vmem := m, ypos := LINES - 1\<rparr>
               else s)
      in s\<lparr>nl_pending := False\<rparr>)"

definition put_cell :: "int \<Rightarrow> screen \<Rightarrow> screen" where
  "put_cell c s =
     (let s = s\<lparr>vmem := (vmem s)
            (video s + (xpos s + ypos s * COLUMNS) * 2 := word_of_int c,
             video s + (xpos s + ypos s * COLUMNS) * 2 + 1 := ATTRIBUTE)\<rparr>;
          s = s\<lparr>xpos := xpos s + 1\<rparr>
      in if xpos s \<ge> COLUMNS then s\<lparr>nl_pending := True, nl_wrap := True\<rparr> else s)"

definition scr_putchar :: "int \<Rightarrow> screen \<Rightarrow> screen" where
  "scr_putchar c s =
     (if c = 13 then s
      else let pend = nl_pending s; s = (if pend then new_line s else s)
           in if pend \<and> c = 10 \<and> nl_wrap s then s
           else if c = 10 then s\<lparr>nl_pending := True, nl_wrap := False\<rparr>
           else put_cell c s)"

section \<open>The serial port\<close>

text \<open>The stream of answers to \<^verbatim>\<open>inportb\<close> and the bytes written, with their ports.\<close>

record serial =
  answers :: "u8 list"
  writes :: "(int \<times> u8) list"

definition ser_port :: int where "ser_port = 0x3F8"

definition outportb_ser :: "int \<Rightarrow> int \<Rightarrow> serial \<Rightarrow> serial" where
  "outportb_ser port val d = d\<lparr>writes := writes d @ [(port, word_of_int val)]\<rparr>"

definition inportb :: "int \<Rightarrow> serial \<Rightarrow> (u8 \<times> serial) option" where
  "inportb port d = (case answers d of [] \<Rightarrow> None | x # xs \<Rightarrow> Some (x, d\<lparr>answers := xs\<rparr>))"

definition ser_init :: "serial \<Rightarrow> serial option" where
  "ser_init d = do {
     let d = outportb_ser (ser_port + 3) 3 d;
     (x, d) \<leftarrow> inportb (ser_port + 3) d;
     let d = outportb_ser (ser_port + 3) (uint (x OR 0x80)) d;
     let d = outportb_ser (ser_port + 1) 0 d;
     let d = outportb_ser ser_port 1 d;
     (x, d) \<leftarrow> inportb (ser_port + 3) d;
     Some (outportb_ser (ser_port + 3) (uint (x AND 0x7f)) d)
   }"

fun wait_ready :: "u8 list \<Rightarrow> u8 list option" where
  "wait_ready [] = None"
| "wait_ready (x # xs) = (if x AND 32 = 0 then wait_ready xs else Some xs)"

definition ser_putchar :: "int \<Rightarrow> serial \<Rightarrow> serial option" where
  "ser_putchar c d = do {
     (_, d) \<leftarrow> inportb (ser_port + 6) d;
     xs \<leftarrow> wait_ready (answers d);
     Some (outportb_ser ser_port c (d\<lparr>answers := xs\<rparr>))
   }"

section \<open>The invariant\<close>

definition screen_inv :: "screen \<Rightarrow> bool" where
  "screen_inv s \<longleftrightarrow> video s = VIDEO \<and> ypos s < LINES \<and> (xpos s < COLUMNS \<or> nl_pending s)"

abbreviation cell_addr :: "nat \<Rightarrow> nat \<Rightarrow> nat" where
  "cell_addr r k \<equiv> VIDEO + (k + r * COLUMNS) * 2"

definition scr_cell :: "screen \<Rightarrow> nat \<Rightarrow> nat \<Rightarrow> u8 \<times> u8" where
  "scr_cell s r k = (vmem s (cell_addr r k), vmem s (cell_addr r k + 1))"

definition outside :: "nat \<Rightarrow> bool" where
  "outside a \<longleftrightarrow> a < VIDEO \<or> VIDEO + COLUMNS * LINES * 2 \<le> a"

lemmas screen_consts = COLUMNS_def LINES_def

lemma cls_loop_block: "cls_loop v n m = (\<lambda>a. if v \<le> a \<and> a < v + n then 0 else m a)"
  by (induction n arbitrary: v m) (auto simp: fun_eq_iff)

lemma cell_inj:
  "k < COLUMNS \<Longrightarrow> k' < COLUMNS \<Longrightarrow> k + r * COLUMNS = k' + r' * COLUMNS \<longleftrightarrow> k = k' \<and> r = r'"
proof -
  assume "k < COLUMNS" "k' < COLUMNS"
  then have "(k + r * COLUMNS) div COLUMNS = r" "(k' + r' * COLUMNS) div COLUMNS = r'" by (simp_all add: screen_consts)
  then show ?thesis by auto
qed

lemma cell_inside: "r < LINES \<Longrightarrow> k < COLUMNS \<Longrightarrow> \<not> outside (cell_addr r k) \<and> \<not> outside (cell_addr r k + 1)"
  by (simp add: outside_def screen_consts)

text \<open>What scrolling does to memory.\<close>

definition scrolled :: "bytes \<Rightarrow> bytes" where
  "scrolled m = (\<lambda>a. if VIDEO \<le> a \<and> a < VIDEO + 3840 then m (a + 160)
     else if VIDEO + 3840 \<le> a \<and> a < VIDEO + 4000 then 0 else m a)"

lemma new_line_mem:
  assumes "screen_inv s"
  shows "vmem (new_line s) = (if ypos s = 24 then scrolled (vmem s) else vmem s)"
    "ypos (new_line s) = (if ypos s = 24 then 24 else ypos s + 1)" "xpos (new_line s) = 0" "video (new_line s) = VIDEO"
    "nl_pending (new_line s) = False" "nl_wrap (new_line s) = nl_wrap s"
proof -
  have v: "video s = VIDEO" "ypos s < 25" using assms by (simp_all add: screen_inv_def screen_consts)
  have "snd (memset (VIDEO + 3840) 0 160 (snd (memmove VIDEO (VIDEO + 160) 3840 m))) = scrolled m" for m
    by (auto simp: memset_def memmove_def bcopy_def bcopy_up_block memset_loop_block scrolled_def fun_eq_iff add.commute)
  then show "vmem (new_line s) = (if ypos s = 24 then scrolled (vmem s) else vmem s)"
    using v by (auto simp: new_line_def screen_consts Let_def)
  show "ypos (new_line s) = (if ypos s = 24 then 24 else ypos s + 1)" "xpos (new_line s) = 0" "video (new_line s) = VIDEO"
    "nl_pending (new_line s) = False" "nl_wrap (new_line s) = nl_wrap s"
    using v by (auto simp: new_line_def screen_consts Let_def)
qed

lemma scrolled_cell:
  assumes "r < LINES" "k < COLUMNS"
  shows "scrolled m (cell_addr r k) = (if r = 24 then 0 else m (cell_addr (r + 1) k))"
    "scrolled m (cell_addr r k + 1) = (if r = 24 then 0 else m (cell_addr (r + 1) k + 1))"
  using assms by (auto simp: scrolled_def screen_consts ac_simps)

lemma scrolled_outside: "outside a \<Longrightarrow> scrolled m a = m a"
  by (auto simp: scrolled_def outside_def screen_consts)

lemma put_cell_mem:
  assumes "video s = VIDEO" "ypos s < LINES" "xpos s < COLUMNS"
  shows "screen_inv (put_cell c s)" "outside a \<Longrightarrow> vmem (put_cell c s) a = vmem s a"
    "scr_cell (put_cell c s) (ypos s) (xpos s) = (word_of_int c, ATTRIBUTE)"
    "r < LINES \<Longrightarrow> k < COLUMNS \<Longrightarrow> (r, k) \<noteq> (ypos s, xpos s) \<Longrightarrow> scr_cell (put_cell c s) r k = scr_cell s r k"
proof -
  show "screen_inv (put_cell c s)" using assms by (auto simp: screen_inv_def put_cell_def Let_def)
  have m: "vmem (put_cell c s) = (vmem s)(cell_addr (ypos s) (xpos s) := word_of_int c, cell_addr (ypos s) (xpos s) + 1 := ATTRIBUTE)"
    using assms(1) by (simp add: put_cell_def Let_def)
  show "outside a \<Longrightarrow> vmem (put_cell c s) a = vmem s a" using cell_inside [OF assms(2,3)] by (auto simp: m)
  show "scr_cell (put_cell c s) (ypos s) (xpos s) = (word_of_int c, ATTRIBUTE)" by (simp add: scr_cell_def m)
  assume "r < LINES" "k < COLUMNS" "(r, k) \<noteq> (ypos s, xpos s)"
  then have n: "k + r * COLUMNS \<noteq> xpos s + ypos s * COLUMNS" using cell_inj [of k "xpos s" r "ypos s"] assms(3) by auto
  have "a * 2 \<noteq> b * 2 + 1" for a b :: nat by presburger
  then have "cell_addr r k \<noteq> cell_addr (ypos s) (xpos s) + 1" "cell_addr r k + 1 \<noteq> cell_addr (ypos s) (xpos s)"
    by (metis add.assoc add_left_cancel)+
  then show "scr_cell (put_cell c s) r k = scr_cell s r k" using n by (simp add: scr_cell_def m)
qed

text \<open>C33: Whatever is printed, the screen stays well-formed (the cursor inside the 25 lines, and inside the 80
  columns unless a new line is pending), and no byte outside the 4000 bytes of video memory changes.\<close>
theorem screen_safe:
  assumes "screen_inv s"
  shows "screen_inv (fold scr_putchar cs s) \<and> (\<forall>a. outside a \<longrightarrow> vmem (fold scr_putchar cs s) a = vmem s a)"
  using assms
proof (induction cs arbitrary: s)
  case (Cons c cs)
  have "screen_inv (scr_putchar c s) \<and> (\<forall>a. outside a \<longrightarrow> vmem (scr_putchar c s) a = vmem s a)"
  proof (cases "nl_pending s")
    case True
    note n = new_line_mem [OF Cons.prems]
    have y: "ypos (new_line s) < LINES" using n(2) Cons.prems by (auto simp: screen_inv_def screen_consts)
    have i: "screen_inv (new_line s)" using n(3,4) y by (simp add: screen_inv_def screen_consts)
    have o: "outside a \<Longrightarrow> vmem (new_line s) a = vmem s a" for a using n(1) scrolled_outside by simp
    have x: "xpos (new_line s) < COLUMNS" using n(3) by (simp add: screen_consts)
    show ?thesis using True i o put_cell_mem(1,2) [OF n(4) y x] Cons.prems
      by (auto simp: scr_putchar_def screen_inv_def Let_def)
  next
    case False
    then have "video s = VIDEO" "ypos s < LINES" "xpos s < COLUMNS" using Cons.prems by (simp_all add: screen_inv_def)
    from put_cell_mem(1,2) [OF this] False Cons.prems show ?thesis by (auto simp: scr_putchar_def screen_inv_def)
  qed
  then show ?case using Cons.IH [of "scr_putchar c s"] by simp
qed simp

text \<open>A printable character appears with the normal attribute in the cell at the cursor, or at the start of the next
  line if a new line is pending, and every other cell keeps its contents; only when the cursor has to leave
  the last line all lines move up by one, and the last line is blank but for the character.\<close>
theorem scr_putchar_cells:
  assumes "screen_inv s" "c \<noteq> 10" "c \<noteq> 13"
  defines "scroll \<equiv> nl_pending s \<and> ypos s = 24"
  defines "pos \<equiv> (if scroll then (24, 0) else if nl_pending s then (ypos s + 1, 0) else (ypos s, xpos s))"
  shows "scr_cell (scr_putchar c s) (fst pos) (snd pos) = (word_of_int c, 7)
    \<and> (\<forall>r < 25. \<forall>k < 80. (r, k) \<noteq> pos \<longrightarrow>
         scr_cell (scr_putchar c s) r k = (if \<not> scroll then scr_cell s r k else if r = 24 then (0, 0) else scr_cell s (r + 1) k))"
proof (cases "nl_pending s")
  case True
  note n = new_line_mem [OF assms(1)]
  have y: "ypos (new_line s) < LINES" using n(2) assms(1) by (auto simp: screen_inv_def screen_consts)
  have x: "xpos (new_line s) < COLUMNS" using n(3) by (simp add: screen_consts)
  have p: "pos = (ypos (new_line s), xpos (new_line s))" using True n(2,3) by (simp add: pos_def scroll_def)
  have c: "scr_putchar c s = put_cell c (new_line s)" using True assms(2,3) by (simp add: scr_putchar_def)
  have "scr_cell (new_line s) r k = (if \<not> scroll then scr_cell s r k else if r = 24 then (0, 0) else scr_cell s (r + 1) k)"
    if "r < LINES" "k < COLUMNS" for r k
    using scrolled_cell [OF that] True by (auto simp: scr_cell_def n(1) scroll_def)
  then show ?thesis using put_cell_mem(3,4) [OF n(4) y x, where c = c] unfolding c p
    by (simp add: screen_consts ATTRIBUTE_def)
next
  case False
  then have "video s = VIDEO" "ypos s < LINES" "xpos s < COLUMNS" using assms(1) by (simp_all add: screen_inv_def)
  moreover have "scr_putchar c s = put_cell c s" using False assms(2,3) by (simp add: scr_putchar_def)
  ultimately show ?thesis using put_cell_mem(3,4) [of s, where c = c] False
    by (simp add: screen_consts ATTRIBUTE_def pos_def scroll_def)
qed

lemma cls_blank:
  "screen_inv (cls s)" "r < LINES \<Longrightarrow> k < COLUMNS \<Longrightarrow> scr_cell (cls s) r k = (0, 0)"
  by (auto simp: cls_def screen_inv_def scr_cell_def cls_loop_block screen_consts Let_def)

section \<open>The serial port\<close>

lemma wait_ready_ex: "(\<exists>x \<in> set xs. x AND 32 \<noteq> 0) \<longleftrightarrow> (\<exists>ys. wait_ready xs = Some ys)"
  by (induction xs) auto

text \<open>C38: \<^verbatim>\<open>ser_putchar\<close> returns exactly when the port reports an empty transmitter at some time after the
  first read, and then it has written the character once, to the data port.\<close>
theorem ser_putchar_sends:
  "(\<exists>x \<in> set (tl (answers d)). x AND 32 \<noteq> 0) \<longleftrightarrow>
     (\<exists>d'. ser_putchar c d = Some d' \<and> writes d' = writes d @ [(0x3F8, word_of_int c)])"
proof (cases "answers d")
  case Nil
  then show ?thesis by (simp add: ser_putchar_def inportb_def)
next
  case (Cons y ys)
  then show ?thesis using wait_ready_ex [of ys]
    by (cases "wait_ready ys") (auto simp: ser_putchar_def inportb_def outportb_ser_def ser_port_def)
qed

section \<open>Witnesses\<close>

definition sample_screen :: screen where
  "sample_screen = \<lparr>xpos = 3, ypos = 24, video = VIDEO, nl_pending = True, nl_wrap = False, vmem = (\<lambda>_. 1)\<rparr>"

lemma sample_screen_inv: "screen_inv sample_screen"
  by (simp add: sample_screen_def screen_inv_def screen_consts)

theorem screen_safe_witness:
  "vmem (fold scr_putchar [65, 10, 66] sample_screen) 5 = 1"
proof -
  have "outside 5" by (simp add: outside_def VIDEO_def)
  then have "vmem (fold scr_putchar [65, 10, 66] sample_screen) 5 = vmem sample_screen 5"
    using screen_safe [OF sample_screen_inv] by blast
  also have "\<dots> = 1" by (simp add: sample_screen_def)
  finally show ?thesis .
qed

theorem scr_putchar_cells_witness:
  "scr_cell (scr_putchar 65 sample_screen) 24 0 = (65, 7) \<and> scr_cell (scr_putchar 65 sample_screen) 24 1 = (0, 0)"
  using scr_putchar_cells [OF sample_screen_inv, of 65] by (simp add: sample_screen_def)

end
