(* ===== verification/Static_Loader.thy ===== *)
theory Static_Loader
  imports Prelude "HOL-Library.Monad_Syntax"
begin

text \<open>
  The loader for statically linked programs (\<^verbatim>\<open>src/trunk/src/static_loader.c\<close>).

  A file is the list of its bytes.  What the loader does to the address space is the sequence of its calls
  of \<^verbatim>\<open>mmap\<close> and \<^verbatim>\<open>memset\<close>, in order, with their arguments; it ignores the results of \<^verbatim>\<open>mmap\<close>.  \<open>None\<close>
  stands for the use of bytes of the buffer that were not read.  The layout of \<^verbatim>\<open>Elf32_Ehdr\<close> and \<^verbatim>\<open>Elf32_Phdr\<close>
  and the values of the flags are those of the ELF specification and of the i386 Linux headers.
\<close>

section \<open>Data\<close>

definition PAGESIZE :: u32 where "PAGESIZE = 4096"

definition get8 :: "u8 list \<Rightarrow> nat \<Rightarrow> u32" where
  "get8 bs i = ucast (bs ! i)"

definition get16 :: "u8 list \<Rightarrow> nat \<Rightarrow> u32" where
  "get16 bs i = get8 bs i OR push_bit 8 (get8 bs (i + 1))"

definition get32 :: "u8 list \<Rightarrow> nat \<Rightarrow> u32" where
  "get32 bs i = get16 bs i OR push_bit 16 (get16 bs (i + 2))"

record phdr =
  p_type :: u32
  p_offset :: u32
  p_vaddr :: u32
  p_filesz :: u32
  p_memsz :: u32
  p_flags :: u32

definition PT_LOAD :: u32 where "PT_LOAD = 1"
definition PT_INTERP :: u32 where "PT_INTERP = 3"

text \<open>The backing of a mapping: the file from an offset on, or zero pages.\<close>

datatype backing = File u32 | Anonymous

datatype call = Mmap u32 u32 u32 backing | Memset u32 u32

section \<open>Operations\<close>

definition prot_flags :: "phdr \<Rightarrow> u32" where
  "prot_flags ph =
     (let flags = 0;
          flags = (if p_flags ph AND 4 \<noteq> 0 then flags OR 1 else flags);
          flags = (if p_flags ph AND 2 \<noteq> 0 then flags OR 2 else flags)
      in if p_flags ph AND 1 \<noteq> 0 then flags OR 4 else flags)"

definition load_segment :: "u32 \<Rightarrow> phdr \<Rightarrow> call list" where
  "load_segment pagesize ph =
     [Mmap (p_vaddr ph AND NOT (pagesize - 1)) (p_filesz ph + (p_offset ph AND (pagesize - 1))) (prot_flags ph)
        (File (p_offset ph AND NOT (pagesize - 1)))]
     @ (if p_filesz ph \<noteq> p_memsz ph
        then [Memset (p_vaddr ph + p_filesz ph) (pagesize - ((p_vaddr ph + p_filesz ph) AND (pagesize - 1)))] else [])
     @ (if p_filesz ph div pagesize \<noteq> p_memsz ph div pagesize
        then [Mmap (((p_vaddr ph + p_filesz ph) div pagesize + 1) * pagesize)
               (((p_memsz ph - p_filesz ph + pagesize - 1) div pagesize) * pagesize) (prot_flags ph) Anonymous] else [])"

definition phdr_at :: "u8 list \<Rightarrow> nat \<Rightarrow> phdr option" where
  "phdr_at buf off =
     (if length buf < off + 28 then None
      else Some \<lparr>p_type = get32 buf off, p_offset = get32 buf (off + 4), p_vaddr = get32 buf (off + 8),
             p_filesz = get32 buf (off + 16), p_memsz = get32 buf (off + 20), p_flags = get32 buf (off + 24)\<rparr>)"

fun sections_loop :: "u8 list \<Rightarrow> nat \<Rightarrow> nat \<Rightarrow> nat \<Rightarrow> call list \<Rightarrow> (bool \<times> call list) option" where
  "sections_loop buf psize offset 0 cs = Some (True, cs)"
| "sections_loop buf psize offset (Suc n) cs =
     (case phdr_at buf offset of None \<Rightarrow> None
      | Some ph \<Rightarrow>
         if p_type ph = PT_INTERP then Some (False, cs)
         else sections_loop buf psize (offset + psize) n
                (if p_type ph = PT_LOAD then cs @ load_segment PAGESIZE ph else cs))"

definition load_sections :: "u8 list \<Rightarrow> nat \<Rightarrow> nat \<Rightarrow> int \<Rightarrow> (bool \<times> call list) option" where
  "load_sections file psize pnum poff =
     (if poff < 0 then Some (False, [])
      else let buf = take (psize * pnum) (drop (nat poff) file)
           in if length buf < 1 then Some (False, []) else sections_loop buf psize 0 pnum [])"

definition load_elf :: "u8 list option \<Rightarrow> (u32 \<times> call list) option" where
  "load_elf file =
     (case file of None \<Rightarrow> Some (0, [])
      | Some f \<Rightarrow>
         let buf = take 52 f
         in if length buf < 52 then Some (0, [])
            else if \<not> (buf ! 0 = 0x7f \<and> buf ! 1 = 0x45 \<and> buf ! 2 = 0x4c \<and> buf ! 3 = 0x46) then Some (0, [])
            else case load_sections f (unat (get16 buf 42)) (unat (get16 buf 44)) (sint (get32 buf 28)) of
              None \<Rightarrow> None
            | Some (ok, cs) \<Rightarrow> if ok then Some (get32 buf 24, cs) else Some (0, cs))"

text \<open>The outcome: the process ends with a status, or the program starts with the remaining arguments.\<close>

datatype outcome = Exit int | Start u32 "string list"

definition load_static :: "(string \<Rightarrow> u8 list option) \<Rightarrow> string list \<Rightarrow> (outcome \<times> call list) option" where
  "load_static files argv =
     (if length argv < 2 then Some (Exit 1, [])
      else case load_elf (files (argv ! 1)) of
        None \<Rightarrow> None
      | Some (entry, cs) \<Rightarrow> if entry = 0 then Some (Exit 1, cs) else Some (Start entry (tl argv), cs))"

section \<open>Pages\<close>

lemma and_not_page: "unat (x AND NOT 4095 :: u32) = unat x - unat x mod 4096"
proof -
  have "x AND NOT 4095 = x AND NOT (mask 12)" by (simp add: mask_eq_exp_minus_1)
  also have "\<dots> = push_bit 12 (drop_bit 12 x)" by (rule bit_word_eqI) (auto simp: bit_simps)
  finally have "unat (x AND NOT 4095) = (unat x div 4096 * 4096) mod 4294967296"
    by (simp add: unat_push_bit_word unat_drop_bit_word)
  moreover have "unat x div 4096 * 4096 \<le> unat x" by simp
  ultimately show ?thesis using unat_lt2p32 [of x] by (simp add: minus_mod_eq_div_mult)
qed

lemma page_start: "unat (x AND - 4096 :: u32) = unat x - unat x mod 4096"
  using and_not_page [of x] by simp

lemma and_page: "unat (x AND 4095 :: u32) = unat x mod 4096"
proof -
  have "x AND 4095 = take_bit 12 x" by (simp add: take_bit_eq_mask mask_eq_exp_minus_1)
  then have "unat (x AND 4095) = take_bit 12 (unat x)" by (simp add: unsigned_take_bit_eq)
  then show ?thesis by (simp add: take_bit_eq_mod)
qed

section \<open>The image of a segment\<close>

text \<open>The addresses at which a call puts bytes of the file, and the addresses it fills with zeros.\<close>

fun file_byte :: "call \<Rightarrow> nat \<Rightarrow> nat option" where
  "file_byte (Mmap a len prot (File off)) x =
     (if unat a \<le> x \<and> x < unat a + unat len then Some (unat off + (x - unat a)) else None)"
| "file_byte _ x = None"

fun zeroes :: "call \<Rightarrow> nat \<Rightarrow> bool" where
  "zeroes (Memset a n) x \<longleftrightarrow> unat a \<le> x \<and> x < unat a + unat n"
| "zeroes (Mmap a len prot Anonymous) x \<longleftrightarrow> unat a \<le> x \<and> x < unat a + unat len"
| "zeroes _ x \<longleftrightarrow> False"

lemma unat_add_small: "unat (a :: u32) + unat b < 4294967296 \<Longrightarrow> unat (a + b) = unat a + unat b"
  by (simp add: unat_add_32)

lemma page_mask: "PAGESIZE - 1 = 4095" "unat PAGESIZE = 4096"
  by (simp_all add: PAGESIZE_def)

lemma file_part:
  assumes "unat (p_vaddr ph) mod 4096 = unat (p_offset ph) mod 4096"
    "unat (p_offset ph) + unat (p_filesz ph) < 4294967296" "i < unat (p_filesz ph)"
  shows "file_byte (hd (load_segment PAGESIZE ph)) (unat (p_vaddr ph) + i) = Some (unat (p_offset ph) + i)"
proof -
  let ?v = "unat (p_vaddr ph)" and ?o = "unat (p_offset ph)" and ?f = "unat (p_filesz ph)"
  have o: "?o mod 4096 \<le> ?o" by simp
  then have l: "unat (p_filesz ph + (p_offset ph AND 4095)) = ?f + ?o mod 4096"
    using assms(2) by (subst unat_add_small) (simp_all add: and_page)
  have "?v mod 4096 \<le> ?v" by simp
  then show ?thesis using assms(1,3) o
    by (simp add: load_segment_def page_mask page_start l)
qed

lemma unat_page_rest: "unat (PAGESIZE - (x AND (PAGESIZE - 1))) = 4096 - unat x mod 4096"
proof -
  have "x AND 4095 \<le> PAGESIZE" by (simp add: word_le_nat_alt and_page page_mask)
  then show ?thesis by (simp add: unat_sub page_mask and_page)
qed

lemma unat_pages: "unat q * 4096 < 4294967296 \<Longrightarrow> unat (q * PAGESIZE) = unat q * 4096"
  by (simp add: unat_word_ariths page_mask)

lemma unat_next_page:
  assumes "(unat q + 1) * 4096 < 4294967296"
  shows "unat ((q + 1) * PAGESIZE) = (unat q + 1) * 4096"
proof -
  have "unat (q + 1) = unat q + 1" using assms by (simp add: unat_add_32)
  with unat_pages [of "q + 1"] assms show ?thesis by simp
qed

lemma zero_part:
  fixes ph :: phdr
  defines "v \<equiv> unat (p_vaddr ph)" and "f \<equiv> unat (p_filesz ph)" and "m \<equiv> unat (p_memsz ph)"
  assumes "v + m + 8192 < 4294967296" "f \<le> i" "i < m"
    "f div 4096 \<noteq> m div 4096 \<or> (v + m - 1) div 4096 = (v + f) div 4096"
  shows "\<exists>c \<in> set (tl (load_segment PAGESIZE ph)). zeroes c (v + i)"
proof -
  let ?e = "p_vaddr ph + p_filesz ph"
  have e: "unat ?e = v + f" using assms(4-6) by (subst unat_add_small) (simp_all add: v_def f_def)
  have ne: "p_filesz ph \<noteq> p_memsz ph" using assms(5,6) by (auto simp: f_def m_def)
  have ms: "Memset ?e (PAGESIZE - (?e AND (PAGESIZE - 1))) \<in> set (tl (load_segment PAGESIZE ph))"
    using ne by (simp add: load_segment_def)
  show ?thesis
  proof (cases "(v + i) div 4096 = (v + f) div 4096")
    case True
    have "v + f \<le> v + i" "v + i < v + f + (4096 - (v + f) mod 4096)"
      using assms(5) True div_mult_mod_eq [of "v + i" 4096] div_mult_mod_eq [of "v + f" 4096] mod_less_divisor [of 4096 "v + i"]
      by (simp, linarith)
    then have "zeroes (Memset ?e (PAGESIZE - (?e AND (PAGESIZE - 1)))) (v + i)"
      by (simp add: unat_page_rest e)
    with ms show ?thesis by blast
  next
    case False
    have "(v + f) div 4096 \<le> (v + i) div 4096" "(v + i) div 4096 \<le> (v + m - 1) div 4096"
      using assms(5,6) by (intro div_le_mono; simp)+
    then have d: "f div 4096 \<noteq> m div 4096" using assms(7) False by linarith
    let ?a = "(?e div PAGESIZE + 1) * PAGESIZE" and ?l = "((p_memsz ph - p_filesz ph + PAGESIZE - 1) div PAGESIZE) * PAGESIZE"
    have mm: "Mmap ?a ?l (prot_flags ph) Anonymous \<in> set (tl (load_segment PAGESIZE ph))"
    proof -
      have "p_filesz ph div PAGESIZE \<noteq> p_memsz ph div PAGESIZE"
        using d unat_div [of "p_filesz ph" PAGESIZE] unat_div [of "p_memsz ph" PAGESIZE] by (auto simp: page_mask f_def m_def)
      then show ?thesis by (simp add: load_segment_def)
    qed
    have k: "unat (?e div PAGESIZE) = (v + f) div 4096" by (simp add: unat_div e page_mask)
    have b: "((v + f) div 4096 + 1) * 4096 < 4294967296" "((v + f) div 4096 + 1) * 4096 \<le> v + i"
    proof -
      have "(v + f) div 4096 + 1 \<le> (v + i) div 4096" using False \<open>(v + f) div 4096 \<le> (v + i) div 4096\<close> by simp
      then show "((v + f) div 4096 + 1) * 4096 \<le> v + i" by (simp only: less_eq_div_iff_mult_less_eq [of 4096])
      then show "((v + f) div 4096 + 1) * 4096 < 4294967296" using assms(4,6) by linarith
    qed
    have a: "unat ?a = ((v + f) div 4096 + 1) * 4096"
      using unat_next_page [of "?e div PAGESIZE"] b(1) unfolding k by blast
    have s: "unat (p_memsz ph - p_filesz ph) = m - f"
      using assms(5,6) by (simp add: unat_sub word_le_nat_alt f_def m_def)
    have s': "unat (p_memsz ph - p_filesz ph + PAGESIZE - 1) = m - f + 4095"
    proof -
      have eq: "p_memsz ph - p_filesz ph + PAGESIZE - 1 = (p_memsz ph - p_filesz ph) + 4095"
        unfolding page_mask(1) [symmetric] by (simp only: add_diff_eq)
      show ?thesis unfolding eq using s assms(4) by (subst unat_add_small) simp_all
    qed
    have l: "unat ?l = (m - f + 4095) div 4096 * 4096"
    proof -
      have "(m - f + 4095) div 4096 * 4096 \<le> m - f + 4095" by simp
      then show ?thesis using assms(4) unat_pages [of "(p_memsz ph - p_filesz ph + PAGESIZE - 1) div PAGESIZE"]
        unfolding unat_div s' page_mask(2) by linarith
    qed
    have up: "v + f \<le> ((v + f) div 4096 + 1) * 4096" "m - f \<le> (m - f + 4095) div 4096 * 4096"
      using dividend_less_div_times [of 4096 "v + f"] dividend_less_div_times [of 4096 "m - f + 4095"] by simp_all
    have "v + i < (v + f) + (m - f)" using assms(5,6) by simp
    also have "\<dots> \<le> ((v + f) div 4096 + 1) * 4096 + (m - f + 4095) div 4096 * 4096" by (rule add_mono [OF up])
    finally have "zeroes (Mmap ?a ?l (prot_flags ph) Anonymous) (v + i)" unfolding zeroes.simps a l using b(2) by blast
    with mm show ?thesis by blast
  qed
qed


text \<open>Where the test of the code is not enough: a small segment across a page boundary leaves its last page
  without memory.\<close>

definition straddling :: phdr where
  "straddling = \<lparr>p_type = PT_LOAD, p_offset = 0xf00, p_vaddr = 0x8049f00, p_filesz = 0x80, p_memsz = 0x200, p_flags = 6\<rparr>"

lemma straddling_rest_missing:
  "load_segment PAGESIZE straddling = [Mmap 0x8049000 0xf80 3 (File 0), Memset 0x8049f80 0x80]"
  by (simp add: load_segment_def straddling_def PAGESIZE_def prot_flags_def Let_def)

section \<open>Whole files\<close>

definition put16 :: "u32 \<Rightarrow> u8 list" where
  "put16 w = [ucast w, ucast (drop_bit 8 w)]"

definition put32 :: "u32 \<Rightarrow> u8 list" where
  "put32 w = put16 w @ put16 (drop_bit 16 w)"

definition phdr_bytes :: "phdr \<Rightarrow> u8 list" where
  "phdr_bytes ph = put32 (p_type ph) @ put32 (p_offset ph) @ put32 (p_vaddr ph) @ put32 0
     @ put32 (p_filesz ph) @ put32 (p_memsz ph) @ put32 (p_flags ph) @ put32 0x1000"

definition e_ident :: "u8 list" where
  "e_ident = [0x7f, 0x45, 0x4c, 0x46, 1, 1, 1, 0] @ replicate 8 0"

definition elf_header :: "u32 \<Rightarrow> nat \<Rightarrow> u8 list" where
  "elf_header entry n = e_ident @ put16 2 @ put16 3 @ put32 1
     @ put32 entry @ put32 52 @ put32 0 @ put32 0 @ put16 52 @ put16 32 @ put16 (of_nat n) @ put16 40 @ put16 0 @ put16 0"

definition elf_file :: "u32 \<Rightarrow> phdr list \<Rightarrow> u8 list \<Rightarrow> u8 list" where
  "elf_file entry phs rest = elf_header entry (length phs) @ concat (map phdr_bytes phs) @ rest"

lemma put_length [simp]: "length (put16 w) = 2" "length (put32 w) = 4" "length (phdr_bytes ph) = 32" "length (elf_header e n) = 52"
  by (simp_all add: put16_def put32_def phdr_bytes_def elf_header_def e_ident_def)

lemma length_e_ident [simp]: "length e_ident = 16"
  by (simp add: e_ident_def)

lemma get16_skip: "length xs \<le> i \<Longrightarrow> get16 (xs @ ys) i = get16 ys (i - length xs)"
  by (simp add: get16_def get8_def nth_append Suc_diff_le)

lemma get32_skip: "length xs \<le> i \<Longrightarrow> get32 (xs @ ys) i = get32 ys (i - length xs)"
  using add_diff_assoc2 [of "length xs" i 2] by (simp add: get32_def get16_skip Suc_diff_le)

lemma get16_put16: "get16 (put16 w @ ys) 0 = take_bit 16 w"
  by (rule bit_word_eqI) (auto simp: get16_def get8_def put16_def bit_simps)

lemma get32_put32: "get32 (put32 w @ ys) 0 = w"
proof -
  have "get16 (put16 w @ put16 (drop_bit 16 w) @ ys) (0 + 2) = take_bit 16 (drop_bit 16 w)"
    by (subst get16_skip) (simp_all add: get16_put16)
  then have "get32 (put32 w @ ys) 0 = take_bit 16 w OR push_bit 16 (take_bit 16 (drop_bit 16 w))"
    by (simp only: get32_def put32_def append_assoc get16_put16)
  also have "\<dots> = w" by (rule bit_word_eqI) (auto simp: bit_simps)
  finally show ?thesis .
qed

lemma phdr_at_bytes: "phdr_at (xs @ phdr_bytes ph @ ys) (length xs) = Some ph"
  by (simp add: phdr_at_def phdr_bytes_def get32_skip get32_put32)

lemma phdr_at_cut: "length buf' \<ge> off + 28 \<Longrightarrow> phdr_at (buf' @ ys) off = phdr_at buf' off"
  by (simp add: phdr_at_def get32_def get16_def get8_def nth_append)

definition loaded :: "phdr list \<Rightarrow> call list" where
  "loaded phs = concat (map (load_segment PAGESIZE) (filter (\<lambda>ph. p_type ph = PT_LOAD) phs))"

lemma sections_loop_bytes:
  "sections_loop (xs @ concat (map phdr_bytes phs)) 32 (length xs) (length phs) cs =
     (let static = takeWhile (\<lambda>ph. p_type ph \<noteq> PT_INTERP) phs
      in Some (static = phs, cs @ loaded static))"
proof (induction phs arbitrary: xs cs)
  case Nil
  then show ?case by (simp add: loaded_def)
next
  case (Cons ph phs)
  have p: "phdr_at (xs @ phdr_bytes ph @ concat (map phdr_bytes phs)) (length xs) = Some ph" by (rule phdr_at_bytes)
  show ?case
  proof (cases "p_type ph = PT_INTERP")
    case True
    then show ?thesis using p by (simp add: loaded_def)
  next
    case False
    then show ?thesis using p Cons.IH [of "xs @ phdr_bytes ph" "if p_type ph = PT_LOAD then cs @ load_segment PAGESIZE ph else cs"]
      by (simp add: loaded_def Let_def)
  qed
qed


section \<open>Witnesses\<close>

definition sample_phdr :: phdr where
  "sample_phdr = \<lparr>p_type = PT_LOAD, p_offset = 0xf00, p_vaddr = 0x8049f00, p_filesz = 0x80, p_memsz = 0x2200, p_flags = 6\<rparr>"



end
