(* ===== verification/Brick_Init.thy ===== *)
theory Brick_Init
  imports Nest_Ops "HOL-Library.Sublist"
begin

text \<open>
  Initialization of a brick (\<^verbatim>\<open>src/trunk/src/lib.c\<close>: \<^verbatim>\<open>init_all_conns\<close>,
  \<^verbatim>\<open>init_all_instances\<close>, \<^verbatim>\<open>init_one_instance\<close>) from the tables of its loader
  (\<^verbatim>\<open>struct loader\<close> of \<^verbatim>\<open>common.h\<close>).  A pointer is its address; the initialization operation
  of a connector or of a sub-brick takes the address it is called on.
\<close>

section \<open>Loader tables\<close>

record 'w load_conn =
  lc_name :: string
  lc_init_conn :: "int \<Rightarrow> 'w operation"
  lc_type :: bool
  lc_autoinit :: bool
  lc_count :: index_t
  lc_offset :: int
  lc_size :: nat

record 'w load_instance =
  li_init_brick :: "int \<Rightarrow> 'w operation"
  li_offset :: nat

record 'w loader =
  ld_conn :: "'w load_conn list"
  ld_instances :: "'w load_instance list"

section \<open>Connectors\<close>

text \<open>The inner function \<^verbatim>\<open>do_it\<close>: the connectors of one array, in ascending order.\<close>

fun do_it :: "(int \<Rightarrow> 'w operation) \<Rightarrow> int \<Rightarrow> nat \<Rightarrow> nat \<Rightarrow> 'w operation" where
  "do_it init conn sz 0 param (a, w) = (a, w)"
| "do_it init conn sz (Suc j) param (a, w) =
     (let (a, w) = init conn param (a\<lparr>success := False\<rparr>, w) in
      if \<not> success a then (a, w)
      else do_it init (conn + int sz) sz j param (a, w))"

definition conn_selected :: "int \<Rightarrow> 'w load_conn \<Rightarrow> bool" where
  "conn_selected type lc \<longleftrightarrow> \<not> (\<not> lc_autoinit lc \<or> (type \<ge> 0 \<and> of_bool (lc_type lc) \<noteq> type))"

fun init_conn_list :: "'w load_conn list \<Rightarrow> int \<Rightarrow> int \<Rightarrow> 'w operation" where
  "init_conn_list [] type brick param (a, w) = (a, w)"
| "init_conn_list (lc # lcs) type brick param (a, w) =
     (if \<not> conn_selected type lc then init_conn_list lcs type brick param (a, w)
      else
        (let (a, w) = do_it (lc_init_conn lc) (brick + lc_offset lc) (lc_size lc)
               (nat (lc_count lc)) param (a, w) in
         if \<not> success a then (a, w)
         else init_conn_list lcs type brick param (a, w)))"

definition init_all_conns :: "'w loader \<Rightarrow> int \<Rightarrow> int \<Rightarrow> 'w operation" where
  "init_all_conns loader type brick param = (\<lambda>(a, w).
     (let a = a\<lparr>success := True\<rparr> in
      if constr a then init_conn_list (ld_conn loader) type brick param (a, w)
      else init_conn_list (rev (ld_conn loader)) type brick param (a, w)))"

section \<open>Sub-bricks\<close>

fun init_instance_list :: "'w load_instance list \<Rightarrow> int \<Rightarrow> 'w operation" where
  "init_instance_list [] brick param (a, w) = (a, w)"
| "init_instance_list (li # lis) brick param (a, w) =
     (let (a, w) = li_init_brick li (brick + int (li_offset li)) param (a\<lparr>success := False\<rparr>, w) in
      if \<not> success a then (a, w)
      else init_instance_list lis brick param (a, w))"

definition init_all_instances :: "'w loader \<Rightarrow> int \<Rightarrow> 'w operation" where
  "init_all_instances loader brick param =
     init_instance_list (ld_instances loader) brick param"

fun find_instance :: "'w load_instance list \<Rightarrow> int \<Rightarrow> 'w load_instance option" where
  "find_instance [] off = None"
| "find_instance (li # lis) off = (if int (li_offset li) = off then Some li else find_instance lis off)"

definition init_one_instance :: "'w loader \<Rightarrow> int \<Rightarrow> int \<Rightarrow> 'w operation" where
  "init_one_instance loader brick subbrick param = (\<lambda>(a, w).
     case find_instance (ld_instances loader) (subbrick - brick) of
       Some li \<Rightarrow> li_init_brick li (brick + int (li_offset li)) param (a, w)
     | None \<Rightarrow> (a, w))"

section \<open>Order and completeness\<close>

text \<open>
  Initialization operations of arbitrary behaviour \<open>beh\<close> that log the address they are called
  on: every real initialization operation is of this form for some \<open>beh\<close>, as far as one call
  of \<open>init_all_conns\<close> can tell.
\<close>

definition log_init :: "(int \<Rightarrow> args \<Rightarrow> int list \<Rightarrow> args) \<Rightarrow> int \<Rightarrow> int list operation" where
  "log_init beh conn param = (\<lambda>(a, l). (beh conn a l, l @ [conn]))"

definition logging_conns :: "(int \<Rightarrow> args \<Rightarrow> int list \<Rightarrow> args) \<Rightarrow> int list load_conn list \<Rightarrow> bool" where
  "logging_conns beh lcs \<longleftrightarrow> (\<forall>lc \<in> set lcs. lc_init_conn lc = log_init beh)"

definition conn_array :: "int \<Rightarrow> nat \<Rightarrow> nat \<Rightarrow> int list" where
  "conn_array conn sz n = map (\<lambda>i. conn + int (i * sz)) [0..<n]"

definition conn_targets :: "'w load_conn list \<Rightarrow> int \<Rightarrow> int \<Rightarrow> int list" where
  "conn_targets lcs type brick =
     concat (map (\<lambda>lc. conn_array (brick + lc_offset lc) (lc_size lc) (nat (lc_count lc)))
       (filter (conn_selected type) lcs))"

lemma conn_array_Suc: "conn_array conn sz (Suc n) = conn # conn_array (conn + int sz) sz n"
  unfolding conn_array_def
  by (simp add: map_upt_Suc algebra_simps del: upt_Suc)

text \<open>What a logged run of a list of targets does: all of it with success, or a part that ends
  in a failure.\<close>

definition run_ok :: "int list \<Rightarrow> int list \<Rightarrow> int list \<Rightarrow> args \<Rightarrow> bool" where
  "run_ok ts l l' a' \<longleftrightarrow>
     (\<exists>t. l' = l @ t \<and> prefix t ts \<and> (success a' \<longrightarrow> t = ts) \<and> (\<not> success a' \<longrightarrow> t \<noteq> []))"

lemma run_ok_append:
  assumes "run_ok ts l l1 a1" and "success a1" and "run_ok us l1 l2 a2"
  shows "run_ok (ts @ us) l l2 a2"
  using assms by (auto simp: run_ok_def)

lemma run_ok_fail: "run_ok ts l l' a \<Longrightarrow> \<not> success a \<Longrightarrow> run_ok (ts @ us) l l' a"
  by (auto simp: run_ok_def)

lemma do_it_run:
  "success a \<Longrightarrow> do_it (log_init beh) conn sz n param (a, l) = (a', l') \<Longrightarrow>
     run_ok (conn_array conn sz n) l l' a'"
proof (induction n arbitrary: conn a l)
  case 0
  then show ?case by (simp add: run_ok_def conn_array_def)
next
  case (Suc n)
  let ?a = "beh conn (a\<lparr>success := False\<rparr>) l"
  show ?case
  proof (cases "success ?a")
    case True
    then have "run_ok [conn] l (l @ [conn]) ?a" by (simp add: run_ok_def)
    moreover have "run_ok (conn_array (conn + int sz) sz n) (l @ [conn]) l' a'"
      using Suc.prems True by (intro Suc.IH) (simp_all add: log_init_def)
    ultimately show ?thesis
      using True run_ok_append by (fastforce simp: conn_array_Suc)
  next
    case False
    then show ?thesis using Suc.prems by (auto simp: log_init_def run_ok_def conn_array_Suc)
  qed
qed

lemma init_conn_list_run:
  "logging_conns beh lcs \<Longrightarrow> success a \<Longrightarrow>
     init_conn_list lcs type brick param (a, l) = (a', l') \<Longrightarrow>
     run_ok (conn_targets lcs type brick) l l' a'"
proof (induction lcs arbitrary: a l)
  case Nil
  then show ?case by (simp add: run_ok_def conn_targets_def)
next
  case (Cons lc lcs)
  have log: "logging_conns beh lcs" and lc: "lc_init_conn lc = log_init beh"
    using Cons.prems(1) by (simp_all add: logging_conns_def)
  show ?case
  proof (cases "conn_selected type lc")
    case False
    then show ?thesis using Cons.IH [OF log] Cons.prems by (simp add: conn_targets_def)
  next
    case True
    let ?ts = "conn_array (brick + lc_offset lc) (lc_size lc) (nat (lc_count lc))"
    have ts: "conn_targets (lc # lcs) type brick = ?ts @ conn_targets lcs type brick"
      using True by (simp add: conn_targets_def)
    obtain a1 l1 where d: "do_it (log_init beh) (brick + lc_offset lc) (lc_size lc)
        (nat (lc_count lc)) param (a, l) = (a1, l1)"
      by fastforce
    have r1: "run_ok ?ts l l1 a1" using do_it_run [OF Cons.prems(2) d] .
    show ?thesis
    proof (cases "success a1")
      case True
      with Cons.prems(3) d \<open>conn_selected type lc\<close>
      have "init_conn_list lcs type brick param (a1, l1) = (a', l')" by (simp add: lc)
      from Cons.IH [OF log True this] show ?thesis
        unfolding ts using run_ok_append [OF r1 True] by blast
    next
      case False
      with Cons.prems(3) d \<open>conn_selected type lc\<close> have "a' = a1" "l' = l1" by (auto simp: lc)
      then show ?thesis unfolding ts using run_ok_fail [OF r1 False] by simp
    qed
  qed
qed



end
