(* ===== verification/Linked.thy ===== *)
theory Linked
  imports Main "HOL-Library.Monad_Syntax"
begin

text \<open>
  Singly linked lists in a store with one function per structure field, for the control brick: the loops
  over such lists as the sources write them, and what they compute on a list that is well linked.
  A loop over a cyclic list has no result, \<open>None\<close>.
\<close>

section \<open>Loops over a list\<close>

text \<open>\<^verbatim>\<open>for(p = head; p; p = p->next) if (P(p)) return p;\<close> and the nodes such a loop visits.\<close>

partial_function (option) find_node :: "('a \<Rightarrow> 'a option) \<Rightarrow> ('a \<Rightarrow> bool) \<Rightarrow> 'a option \<Rightarrow> 'a option option" where
  "find_node nx P p = (case p of None \<Rightarrow> Some None | Some x \<Rightarrow> if P x then Some (Some x) else find_node nx P (nx x))"

partial_function (option) visit :: "('a \<Rightarrow> 'a option) \<Rightarrow> 'a option \<Rightarrow> 'a list option" where
  "visit nx p = (case p of None \<Rightarrow> Some [] | Some x \<Rightarrow> do { xs \<leftarrow> visit nx (nx x); Some (x # xs) })"

text \<open>A pointer to the pointer that leads to a node: the head of the list, or the field of another node.
  \<open>find_place\<close> is \<^verbatim>\<open>for(ptr = &head; *ptr; ptr = &(*ptr)->next) if (*ptr == x) ...\<close>; it returns \<open>None\<close> in
  the place of the pointer when the list ends first.\<close>

datatype 'a place = Head | Next 'a

fun at_place :: "'a option \<Rightarrow> ('a \<Rightarrow> 'a option) \<Rightarrow> 'a place \<Rightarrow> 'a option" where
  "at_place h nx Head = h"
| "at_place h nx (Next x) = nx x"

partial_function (option) find_place ::
    "'a option \<Rightarrow> ('a \<Rightarrow> 'a option) \<Rightarrow> 'a \<Rightarrow> 'a place \<Rightarrow> 'a place option option" where
  "find_place h nx x p = (case at_place h nx p of
     None \<Rightarrow> Some None
   | Some y \<Rightarrow> if y = x then Some (Some p) else find_place h nx x (Next y))"

declare find_node.simps [code] visit.simps [code] find_place.simps [code]

section \<open>Well linked lists\<close>

fun linked :: "('a \<Rightarrow> 'a option) \<Rightarrow> 'a option \<Rightarrow> 'a list \<Rightarrow> bool" where
  "linked nx p [] \<longleftrightarrow> p = None"
| "linked nx p (x # xs) \<longleftrightarrow> p = Some x \<and> linked nx (nx x) xs"

lemma linked_None [simp]: "linked nx None xs \<longleftrightarrow> xs = []"
  by (cases xs) auto

lemma linked_unique: "linked nx p xs \<Longrightarrow> linked nx p ys \<Longrightarrow> xs = ys"
  by (induction xs arbitrary: p ys) (auto, metis linked.elims(2) option.inject option.distinct(1))

lemma linked_nodes_cong: "(\<And>x. x \<in> set xs \<Longrightarrow> nx' x = nx x) \<Longrightarrow> linked nx' p xs = linked nx p xs"
  by (induction xs arbitrary: p) auto

lemma linked_upd [simp]: "x \<notin> set xs \<Longrightarrow> linked (nx(x := q)) p xs = linked nx p xs"
  by (rule linked_nodes_cong) auto

fun path :: "('a \<Rightarrow> 'a option) \<Rightarrow> 'a option \<Rightarrow> 'a list \<Rightarrow> 'a option \<Rightarrow> bool" where
  "path nx p [] q \<longleftrightarrow> p = q"
| "path nx p (x # xs) q \<longleftrightarrow> p = Some x \<and> path nx (nx x) xs q"

lemma linked_append: "linked nx p (xs @ ys) \<longleftrightarrow> (\<exists>q. path nx p xs q \<and> linked nx q ys)"
  by (induction xs arbitrary: p) auto

lemma path_cong: "(\<And>x. x \<in> set xs \<Longrightarrow> nx' x = nx x) \<Longrightarrow> path nx' p xs q = path nx p xs q"
  by (induction xs arbitrary: p) auto

lemma path_upd [simp]: "x \<notin> set xs \<Longrightarrow> path (nx(x := r)) p xs q = path nx p xs q"
  by (rule path_cong) auto

lemma path_snoc [simp]: "path nx p (xs @ [x]) q \<longleftrightarrow> path nx p xs (Some x) \<and> nx x = q"
  by (induction xs arbitrary: p) auto

lemma linked_distinct: "linked nx p xs \<Longrightarrow> distinct xs"
proof (induction xs arbitrary: p)
  case (Cons x xs)
  have "x \<notin> set xs"
  proof
    assume "x \<in> set xs"
    then obtain ys zs where "xs = ys @ x # zs" by (meson split_list)
    moreover have "linked nx (Some x) (x # xs)" using Cons.prems by simp
    ultimately have "linked nx (Some x) (x # zs)" using Cons.prems by (auto simp: linked_append)
    then have "x # zs = x # xs" using \<open>linked nx (Some x) (x # xs)\<close> linked_unique by metis
    with \<open>xs = ys @ x # zs\<close> show False by (metis append_Cons append_self_conv2 length_append length_Cons list.inject not_add_less2 lessI less_add_Suc2)
  qed
  then show ?case using Cons by auto
qed simp

lemma visit_linked: "linked nx p xs \<Longrightarrow> visit nx p = Some xs"
  by (induction xs arbitrary: p) (simp_all add: visit.simps)

lemma find_node_linked: "linked nx p xs \<Longrightarrow> find_node nx P p = Some (find P xs)"
  by (induction xs arbitrary: p) (simp_all add: find_node.simps)

lemma find_place_linked:
  "linked nx (at_place h nx p) (ys @ x # zs) \<Longrightarrow> x \<notin> set ys \<Longrightarrow>
     find_place h nx x p = Some (Some (if ys = [] then p else Next (last ys)))"
proof (induction ys arbitrary: p)
  case Nil
  then show ?case by (subst find_place.simps) simp
next
  case (Cons y ys)
  then show ?case using Cons.IH [of "Next y"] by (subst find_place.simps) auto
qed

lemma find_place_end:
  "linked nx (at_place h nx p) xs \<Longrightarrow> x \<notin> set xs \<Longrightarrow> find_place h nx x p = Some None"
proof (induction xs arbitrary: p)
  case Nil
  then show ?case by (subst find_place.simps) simp
next
  case (Cons y ys)
  then show ?case using Cons.IH [of "Next y"] by (subst find_place.simps) auto
qed

text \<open>Writing \<open>x->next\<close> through the pointer takes \<open>x\<close> out of the list.\<close>

lemma unlink_next:
  assumes "linked nx h (ys @ x # zs)" "ys \<noteq> []"
  shows "linked (nx(last ys := nx x)) h (ys @ zs)"
proof -
  obtain us u where u: "ys = us @ [u]" using assms(2) by (metis rev_exhaust)
  have "distinct (ys @ x # zs)" using assms(1) by (rule linked_distinct)
  with assms(1) show ?thesis
    by (auto simp: u linked_append)
qed

lemma unlink_head: "linked nx h (x # zs) \<Longrightarrow> linked nx (nx x) zs"
  by simp

lemma remove1_split: "x \<notin> set ys \<Longrightarrow> remove1 x (ys @ x # zs) = ys @ zs"
  by (induction ys) auto

lemma unlink_list:
  assumes "linked nx h xs" "x \<in> set xs"
  obtains (head) "find_place h nx x Head = Some (Some Head)" "linked nx (nx x) (remove1 x xs)"
  | (later) y where "find_place h nx x Head = Some (Some (Next y))" "y \<in> set xs" "y \<noteq> x"
      "linked (nx(y := nx x)) h (remove1 x xs)"
proof -
  obtain ys zs where xs: "xs = ys @ x # zs" "x \<notin> set ys" using split_list_first assms(2) by metis
  have f: "find_place h nx x Head = Some (Some (if ys = [] then Head else Next (last ys)))"
    using assms(1) xs by (intro find_place_linked) auto
  show thesis
  proof (cases "ys = []")
    case True
    then show thesis using f assms(1) xs head by simp
  next
    case False
    then show thesis
      using f assms(1) xs unlink_next [of nx h ys x zs] later [of "last ys"] remove1_split [OF xs(2)] last_in_set by force
  qed
qed

lemma map_remove1_inj: "inj f \<Longrightarrow> map f (remove1 x xs) = remove1 (f x) (map f xs)"
  by (induction xs) (auto simp: inj_eq)

text \<open>Appending behind the last node.\<close>

lemma linked_snoc:
  assumes "linked nx h xs" "x \<notin> set xs" "xs \<noteq> []" "nx x = None"
  shows "linked (nx(last xs := Some x)) h (xs @ [x])"
proof -
  obtain us u where u: "xs = us @ [u]" using assms(3) by (metis rev_exhaust)
  have "distinct xs" using assms(1) by (rule linked_distinct)
  with assms show ?thesis
    by (auto simp: u linked_append)
qed

end
