(* ===== verification/Control_Graph.thy ===== *)
theory Control_Graph
  imports Brick_Init Linked
begin

text \<open>
  The connections between bricks as the control brick keeps them (\<^verbatim>\<open>src/trunk/src/control_simple.ath\<close>: the
  structures, \<^verbatim>\<open>type_connect\<close>, \<^verbatim>\<open>inner_connect\<close>, \<^verbatim>\<open>outer_connect\<close>, \<^verbatim>\<open>disconnect\<close> and \<^verbatim>\<open>disconnect_all\<close>).

  An output or an entry of the main directory heads the list of the inputs connected to it; the list
  is linked through the inputs.  A second list of the same kind links the instances of the
  connectors.  The store has one function per field of a structure, from references to values; a
  connector header and the instance behind it share the reference.  \<open>None\<close> in a pointer field is the
  null pointer, \<open>None\<close> as a result stands for the use of a null or wild pointer and for an endless loop.

  The configuration is the one without \<^verbatim>\<open>DEBUG\<close> and \<^verbatim>\<open>ROLAND_NIESE\<close>, which no file of the sources defines.
\<close>

section \<open>Data\<close>

type_synonym brick_ref = nat

text \<open>\<^verbatim>\<open>&brick->connector[k]\<close>, or a header from \<^verbatim>\<open>malloc\<close> for a dynamic array.\<close>

datatype conn_ref = Slot brick_ref nat | Dyn nat

text \<open>A \<^verbatim>\<open>struct connector_link *\<close>: the first field of a connector header or of an entry of the main directory.\<close>

datatype link_ref = Conn conn_ref | Dir nat

text \<open>The parameter string of a connector: none, the one of its brick (the same pointer), its own one,
  or a pointer to a string that has been freed.\<close>

datatype c_param = P_null | P_brick | P_own string | P_freed

record gen_type =
  gen_typename :: string
  gen_table :: nat
  gen_offset :: int

record 'w conn_desc = "'w load_conn" +
  lc_static_info :: string
  lc_gen_type :: "gen_type list"
  lc_init_code :: "int \<Rightarrow> int \<Rightarrow> 'w \<Rightarrow> 'w"
  lc_export :: bool
  lc_start_index :: index_t
  lc_sect_count :: index_t

record 'w brick_desc =
  bd_name :: string
  bd_static_info :: string
  bd_instance_size :: nat
  bd_conn_totalcount :: nat
  bd_conn :: "'w conn_desc list"
  bd_dynamic_init :: "int \<Rightarrow> string \<Rightarrow> mand_t \<Rightarrow> 'w \<Rightarrow> mand_t \<times> 'w"
  bd_dynamic_exit :: "int \<Rightarrow> string \<Rightarrow> 'w \<Rightarrow> 'w"
  bd_init_brick :: "int \<Rightarrow> 'w operation"

text \<open>The fields of \<^verbatim>\<open>connector_link\<close>, \<^verbatim>\<open>connector_header\<close>, \<^verbatim>\<open>struct input\<close> and \<^verbatim>\<open>struct output\<close>, of
  \<^verbatim>\<open>brick_header\<close>, of the main directory, and the data of the brick.\<close>

record 'w control =
  l_first :: "link_ref \<Rightarrow> link_ref option"
  l_chain :: "link_ref \<Rightarrow> link_ref option"
  conn_next :: "conn_ref \<Rightarrow> conn_ref option"
  belonging :: "conn_ref \<Rightarrow> brick_ref option"
  c_instance :: "conn_ref \<Rightarrow> int"
  c_param :: "conn_ref \<Rightarrow> c_param"
  h_load_conn :: "conn_ref \<Rightarrow> 'w conn_desc option"
  c_index :: "conn_ref \<Rightarrow> index_t"
  in_connect :: "conn_ref \<Rightarrow> conn_ref option"
  rev_next :: "conn_ref \<Rightarrow> conn_ref option"
  rev_chain :: "conn_ref \<Rightarrow> conn_ref option"
  b_addr :: "brick_ref \<Rightarrow> addr_t"
  hash_next :: "brick_ref \<Rightarrow> brick_ref option"
  b_instance :: "brick_ref \<Rightarrow> int"
  b_param :: "brick_ref \<Rightarrow> string option"
  b_loader :: "brick_ref \<Rightarrow> 'w brick_desc"
  connectors :: "brick_ref \<Rightarrow> conn_ref option"
  last_conn :: "brick_ref \<Rightarrow> conn_ref option"
  gen_tables :: "int \<Rightarrow> nat option"
  main_name :: "nat \<Rightarrow> string"
  brick_hash :: "nat \<Rightarrow> brick_ref option"
  last_addr :: addr_t
  ctl_mand :: mand_t
  counter :: index_t
  allocs :: nat

section \<open>Types of connectors\<close>

text \<open>\<^verbatim>\<open>strcmp\<close>\<close>

fun str_cmp :: "string \<Rightarrow> string \<Rightarrow> int" where
  "str_cmp [] [] = 0"
| "str_cmp [] (d # t) = - int (chr_nat d)"
| "str_cmp (c # s) [] = int (chr_nat c)"
| "str_cmp (c # s) (d # t) = (if c = d then str_cmp s t else int (chr_nat c) - int (chr_nat d))"

text \<open>The inner and the outer loop of \<^verbatim>\<open>type_connect\<close>.\<close>

fun type_search :: "int \<Rightarrow> string \<Rightarrow> gen_type list \<Rightarrow> int \<times> gen_type list" where
  "type_search compare want [] = (compare, [])"
| "type_search compare want (t # ts) =
     (let compare = str_cmp (gen_typename t) want in
      if compare \<ge> 0 then (compare, t # ts) else type_search compare want ts)"

fun type_loop :: "int \<Rightarrow> gen_type list \<Rightarrow> gen_type list \<Rightarrow> (int \<Rightarrow> nat option) \<Rightarrow> bool \<times> (int \<Rightarrow> nat option)" where
  "type_loop base [] outs m = (True, m)"
| "type_loop base (i # is) outs m =
     (let (compare, outs) = type_search (-1) (gen_typename i) outs in
      if compare \<noteq> 0 then (False, m)
      else type_loop base is outs (m(base + gen_offset i := Some (gen_table (hd outs)))))"

definition type_connect :: "conn_ref \<Rightarrow> conn_ref \<Rightarrow> 'w control \<Rightarrow> (bool \<times> 'w control) option" where
  "type_connect out_h in_h s = do {
     od \<leftarrow> h_load_conn s out_h;
     id \<leftarrow> h_load_conn s in_h;
     if \<not> lc_type od \<or> lc_type id then Some (False, s)
     else do {
       b \<leftarrow> belonging s in_h;
       let (ok, m) = type_loop (b_instance s b) (lc_gen_type id) (lc_gen_type od) (gen_tables s);
       Some (ok, s\<lparr>gen_tables := m\<rparr>) } }"

section \<open>Connecting\<close>

definition inner_connect :: "conn_ref \<Rightarrow> conn_ref \<Rightarrow> 'w control \<Rightarrow> (bool \<times> 'w control) option" where
  "inner_connect out_h in_h s = do {
     od \<leftarrow> h_load_conn s out_h;
     id \<leftarrow> h_load_conn s in_h;
     if \<not> lc_type od \<or> lc_type id then Some (False, s)
     else if lc_sect_count id > lc_sect_count od then Some (False, s)
     else
       (let s = s\<lparr>in_connect := (in_connect s)(in_h := Some out_h)\<rparr>;
            s = s\<lparr>rev_next := (rev_next s)(in_h := rev_chain s out_h)\<rparr>;
            s = s\<lparr>rev_chain := (rev_chain s)(out_h := Some in_h)\<rparr>
        in Some (True, s)) }"

definition outer_connect :: "link_ref \<Rightarrow> link_ref \<Rightarrow> 'w control \<Rightarrow> 'w control" where
  "outer_connect out_h in_h s =
     (let s = s\<lparr>l_first := (l_first s)(in_h := Some out_h)\<rparr>;
          s = s\<lparr>l_chain := (l_chain s)(in_h := l_first s out_h)\<rparr>
      in s\<lparr>l_first := (l_first s)(out_h := Some in_h)\<rparr>)"

section \<open>Disconnecting\<close>

text \<open>\<^verbatim>\<open>LINK_TO_CONN\<close>, which is meaningful for the link of a connector only.\<close>

fun LINK_TO_CONN :: "link_ref \<Rightarrow> conn_ref option" where
  "LINK_TO_CONN (Conn c) = Some c"
| "LINK_TO_CONN (Dir i) = None"

fun set_link :: "link_ref \<Rightarrow> link_ref place \<Rightarrow> link_ref option \<Rightarrow> 'w control \<Rightarrow> 'w control" where
  "set_link out_l Head v s = s\<lparr>l_first := (l_first s)(out_l := v)\<rparr>"
| "set_link out_l (Next y) v s = s\<lparr>l_chain := (l_chain s)(y := v)\<rparr>"

fun set_rev :: "conn_ref \<Rightarrow> conn_ref place \<Rightarrow> conn_ref option \<Rightarrow> 'w control \<Rightarrow> 'w control" where
  "set_rev out_h Head v s = s\<lparr>rev_chain := (rev_chain s)(out_h := v)\<rparr>"
| "set_rev out_h (Next y) v s = s\<lparr>rev_next := (rev_next s)(y := v)\<rparr>"

text \<open>The part of \<^verbatim>\<open>disconnect\<close> on the instances: \<^verbatim>\<open>while(*other != input)\<close> runs into a null pointer when the
  input is missing from the list.\<close>

definition unlink_input :: "conn_ref \<Rightarrow> 'w control \<Rightarrow> 'w control option" where
  "unlink_input input s = do {
     out_h \<leftarrow> in_connect s input;
     found \<leftarrow> find_place (rev_chain s out_h) (rev_next s) input Head;
     other \<leftarrow> found;
     let s = set_rev out_h other (rev_next s input) s;
     Some (s\<lparr>in_connect := (in_connect s)(input := None)\<rparr>) }"

definition types_fit :: "conn_ref \<Rightarrow> conn_ref \<Rightarrow> 'w control \<Rightarrow> bool option" where
  "types_fit out_h in_h s = do {
     od \<leftarrow> h_load_conn s out_h;
     id \<leftarrow> h_load_conn s in_h;
     Some (lc_type od \<and> \<not> lc_type id) }"

definition disconnect :: "conn_ref \<Rightarrow> 'w control \<Rightarrow> (bool \<times> 'w control) option" where
  "disconnect in_h s = (case l_first s (Conn in_h) of
     None \<Rightarrow> Some (False, s)
   | Some out_l \<Rightarrow> do {
       let inner = (l_chain s out_l = None);
       fit \<leftarrow> (if inner then do { out_h \<leftarrow> LINK_TO_CONN out_l; types_fit out_h in_h s } else Some True);
       if \<not> fit then Some (False, s)
       else do {
         found \<leftarrow> find_place (l_first s out_l) (l_chain s) (Conn in_h) Head;
         case found of
           None \<Rightarrow> Some (False, s)
         | Some ptr \<Rightarrow> do {
             let s = set_link out_l ptr (l_chain s (Conn in_h)) s;
             let s = s\<lparr>l_first := (l_first s)(Conn in_h := None)\<rparr>;
             s \<leftarrow> (if inner then unlink_input in_h s else Some s);
             Some (True, s) } } })"

definition disconnect_all :: "conn_ref \<Rightarrow> 'w control \<Rightarrow> 'w control option" where
  "disconnect_all out_h s = do {
     ins \<leftarrow> visit (l_chain s) (l_first s (Conn out_h));
     cs \<leftarrow> those (map LINK_TO_CONN ins);
     let s = fold (\<lambda>c s. s\<lparr>l_first := (l_first s)(Conn c := None), in_connect := (in_connect s)(c := None)\<rparr>) cs s;
     Some (s\<lparr>l_first := (l_first s)(Conn out_h := None)\<rparr>) }"

section \<open>The types of an output cover those of the input\<close>

lemma str_cmp_refl [simp]: "str_cmp s s = 0"
  by (induction s) auto

lemma chr_pos [simp]: "0 < (of_char c :: nat) \<longleftrightarrow> c \<noteq> NUL"
proof -
  have "(of_char NUL :: nat) = 0" by simp
  then show ?thesis by (metis of_char_eq_iff gr0I less_nat_zero_code)
qed

lemma str_cmp_zero: "no_nul s \<Longrightarrow> no_nul t \<Longrightarrow> str_cmp s t = 0 \<longleftrightarrow> s = t"
  by (induction s t rule: str_cmp.induct) auto

lemma str_cmp_neg: "str_cmp s t = - str_cmp t s"
  by (induction s t rule: str_cmp.induct) auto

lemma str_cmp_trans:
  "str_cmp s t < 0 \<Longrightarrow> str_cmp t u < 0 \<Longrightarrow> str_cmp s u < 0"
proof (induction s arbitrary: t u)
  case Nil
  then show ?case by (cases t; cases u) (auto split: if_splits)
next
  case (Cons c s)
  then show ?case by (cases t; cases u) (auto split: if_splits)
qed

definition ascending :: "gen_type list \<Rightarrow> bool" where
  "ascending ts \<longleftrightarrow> sorted_wrt (\<lambda>a b. str_cmp (gen_typename a) (gen_typename b) < 0) ts
     \<and> (\<forall>t \<in> set ts. no_nul (gen_typename t))"

lemma ascending_Cons:
  "ascending (t # ts) \<longleftrightarrow>
     no_nul (gen_typename t) \<and> (\<forall>u \<in> set ts. str_cmp (gen_typename t) (gen_typename u) < 0) \<and> ascending ts"
  by (auto simp: ascending_def)

lemma ascending_dropWhile: "ascending ts \<Longrightarrow> ascending (dropWhile P ts)"
  by (induction ts) (auto simp: ascending_Cons)

lemma type_search_drops:
  "type_search k want outs = (k', outs') \<Longrightarrow> k < 0 \<Longrightarrow>
     outs' = dropWhile (\<lambda>t. str_cmp (gen_typename t) want < 0) outs
     \<and> (if outs' = [] then k' < 0 else k' = str_cmp (gen_typename (hd outs')) want)"
proof (induction k want outs rule: type_search.induct)
  case (2 k want t ts)
  then show ?case
    by (cases "str_cmp (gen_typename t) want < 0") (auto simp: Let_def)
qed simp

lemma type_search_result:
  assumes "ascending outs" "no_nul want" "type_search (-1) want outs = (k, outs')"
  shows "outs' = dropWhile (\<lambda>t. str_cmp (gen_typename t) want < 0) outs"
    and "k = 0 \<longleftrightarrow> want \<in> gen_typename ` set outs"
    and "k = 0 \<Longrightarrow> gen_typename (hd outs') = want \<and> hd outs' \<in> set outs"
proof -
  let ?P = "\<lambda>t. str_cmp (gen_typename t) want < 0"
  have d: "outs' = dropWhile ?P outs" and k: "if outs' = [] then k < 0 else k = str_cmp (gen_typename (hd outs')) want"
    using type_search_drops [OF assms(3)] by simp_all
  show "outs' = dropWhile ?P outs" by (rule d)
  have kept: "want \<in> gen_typename ` set outs \<longleftrightarrow> want \<in> gen_typename ` set outs'"
    unfolding d by (induction outs) auto
  have sub: "set outs' \<subseteq> set outs" unfolding d by (auto dest: set_dropWhileD)
  show k0: "k = 0 \<longleftrightarrow> want \<in> gen_typename ` set outs"
  proof (cases outs')
    case Nil
    then show ?thesis using k kept by simp
  next
    case (Cons t ts)
    have a: "ascending (t # ts)" using assms(1) d Cons ascending_dropWhile by metis
    have "\<not> ?P t" using d Cons dropWhile_eq_Cons_conv by metis
    moreover have "str_cmp (gen_typename t) want < 0" if "want \<in> gen_typename ` set ts"
      using that a by (auto simp: ascending_Cons)
    moreover have "k = 0 \<longleftrightarrow> gen_typename t = want"
      using k Cons a assms(2) by (simp add: ascending_Cons str_cmp_zero)
    ultimately show ?thesis using kept Cons by auto
  qed
  show "gen_typename (hd outs') = want \<and> hd outs' \<in> set outs" if "k = 0"
  proof -
    have ne: "outs' \<noteq> []" using k that by auto
    moreover have "no_nul (gen_typename (hd outs'))"
      using ne sub assms(1) hd_in_set by (fastforce simp: ascending_def)
    ultimately show ?thesis using k that sub assms(2) str_cmp_zero hd_in_set by (metis (no_types) subsetD)
  qed
qed

lemma dropped_types:
  assumes "\<forall>n \<in> N. str_cmp want n < 0"
  shows "N \<subseteq> gen_typename ` set (dropWhile (\<lambda>t. str_cmp (gen_typename t) want < 0) outs) \<longleftrightarrow> N \<subseteq> gen_typename ` set outs"
proof (induction outs)
  case (Cons t ts)
  have "gen_typename t \<notin> N" if "str_cmp (gen_typename t) want < 0"
    using assms that str_cmp_trans [of "gen_typename t" want "gen_typename t"] by auto
  then show ?case using Cons by auto
qed simp

lemma type_loop_covers:
  "ascending ins \<Longrightarrow> ascending outs \<Longrightarrow>
     fst (type_loop base ins outs m) \<longleftrightarrow> gen_typename ` set ins \<subseteq> gen_typename ` set outs"
proof (induction ins arbitrary: outs m)
  case (Cons i "is")
  obtain k outs' where s: "type_search (-1) (gen_typename i) outs = (k, outs')" by fastforce
  note r = type_search_result [OF Cons.prems(2) _ s]
  have i: "no_nul (gen_typename i)" "ascending is" "\<forall>n \<in> gen_typename ` set is. str_cmp (gen_typename i) n < 0"
    using Cons.prems(1) by (auto simp: ascending_Cons)
  show ?case
  proof (cases "k = 0")
    case True
    then show ?thesis using Cons.IH [OF i(2), of outs'] r i Cons.prems(2) s dropped_types [OF i(3), of outs]
      by (simp add: ascending_dropWhile)
  next
    case False
    then show ?thesis using r(2) i(1) s by auto
  qed
qed simp

lemma type_loop_tables:
  "ascending ins \<Longrightarrow> ascending outs \<Longrightarrow> distinct (map gen_offset ins) \<Longrightarrow> type_loop base ins outs m = (True, m') \<Longrightarrow>
     (\<forall>i \<in> set ins. \<exists>t \<in> set outs. gen_typename t = gen_typename i \<and> m' (base + gen_offset i) = Some (gen_table t))
     \<and> (\<forall>a. a - base \<notin> gen_offset ` set ins \<longrightarrow> m' a = m a)"
proof (induction ins arbitrary: outs m)
  case (Cons i "is")
  obtain k outs' where s: "type_search (-1) (gen_typename i) outs = (k, outs')" by fastforce
  note r = type_search_result [OF Cons.prems(2) _ s]
  have i: "no_nul (gen_typename i)" using Cons.prems(1) by (auto simp: ascending_Cons)
  have k: "k = 0" using Cons.prems(4) s by (auto split: if_splits)
  let ?m = "m(base + gen_offset i := Some (gen_table (hd outs')))"
  have "(\<forall>i \<in> set is. \<exists>t \<in> set outs'. gen_typename t = gen_typename i \<and> m' (base + gen_offset i) = Some (gen_table t))
     \<and> (\<forall>a. a - base \<notin> gen_offset ` set is \<longrightarrow> m' a = ?m a)"
  proof (rule Cons.IH)
    show "ascending is" "distinct (map gen_offset is)" using Cons.prems by (simp_all add: ascending_Cons)
    show "ascending outs'" using r(1) i Cons.prems(2) by (simp add: ascending_dropWhile)
    show "type_loop base is outs' ?m = (True, m')" using Cons.prems(4) unfolding type_loop.simps s k by simp
  qed
  moreover have "set outs' \<subseteq> set outs" using r(1) i by (auto dest: set_dropWhileD)
  moreover have "hd outs' \<in> set outs \<and> gen_typename (hd outs') = gen_typename i" using r(3) k i by auto
  ultimately show ?case using Cons.prems(3) by (fastforce simp: image_iff)
qed simp

lemma type_connect_result:
  assumes "h_load_conn s out_h = Some od" "h_load_conn s in_h = Some idc" "lc_type od" "\<not> lc_type idc"
    "belonging s in_h = Some b" "ascending (lc_gen_type idc)" "ascending (lc_gen_type od)"
    "distinct (map gen_offset (lc_gen_type idc))"
  shows "\<exists>ok m. type_connect out_h in_h s = Some (ok, s\<lparr>gen_tables := m\<rparr>)
    \<and> (ok \<longleftrightarrow> gen_typename ` set (lc_gen_type idc) \<subseteq> gen_typename ` set (lc_gen_type od))
    \<and> (ok \<longrightarrow> (\<forall>i \<in> set (lc_gen_type idc). \<exists>t \<in> set (lc_gen_type od).
          gen_typename t = gen_typename i \<and> m (b_instance s b + gen_offset i) = Some (gen_table t))
        \<and> (\<forall>a. a - b_instance s b \<notin> gen_offset ` set (lc_gen_type idc) \<longrightarrow> m a = gen_tables s a))"
proof -
  obtain ok m where l: "type_loop (b_instance s b) (lc_gen_type idc) (lc_gen_type od) (gen_tables s) = (ok, m)"
    by fastforce
  have c: "ok \<longleftrightarrow> gen_typename ` set (lc_gen_type idc) \<subseteq> gen_typename ` set (lc_gen_type od)"
    using type_loop_covers [OF assms(6,7)] l by (metis fst_conv)
  have r: "type_connect out_h in_h s = Some (ok, s\<lparr>gen_tables := m\<rparr>)"
    using assms(1-5) l by (simp add: type_connect_def)
  show ?thesis
  proof (intro exI conjI)
    show "type_connect out_h in_h s = Some (ok, s\<lparr>gen_tables := m\<rparr>)" by (rule r)
  qed (use c type_loop_tables [OF assms(6-8)] l in auto)
qed

section \<open>The graph of connections\<close>

text \<open>
  The abstract state gives for every output, and for every entry of the main directory, the inputs that are
  connected to it, latest first.
\<close>

definition is_output :: "'w control \<Rightarrow> conn_ref \<Rightarrow> bool" where
  "is_output s c \<longleftrightarrow> (case h_load_conn s c of None \<Rightarrow> False | Some d \<Rightarrow> lc_type d)"

definition is_input :: "'w control \<Rightarrow> conn_ref \<Rightarrow> bool" where
  "is_input s c \<longleftrightarrow> (case h_load_conn s c of None \<Rightarrow> False | Some d \<Rightarrow> \<not> lc_type d)"

fun source :: "'w control \<Rightarrow> link_ref \<Rightarrow> bool" where
  "source s (Conn c) = is_output s c"
| "source s (Dir i) = True"

definition outer_ok :: "'w control \<Rightarrow> (link_ref \<Rightarrow> conn_ref list) \<Rightarrow> bool" where
  "outer_ok s G \<longleftrightarrow>
     (\<forall>l. if source s l then linked (l_chain s) (l_first s l) (map Conn (G l)) else G l = [])
     \<and> (\<forall>c l. is_input s c \<longrightarrow> (l_first s (Conn c) = Some l \<longleftrightarrow> c \<in> set (G l)))
     \<and> (\<forall>l. \<forall>c \<in> set (G l). is_input s c)
     \<and> (\<forall>c. is_output s c \<longrightarrow> l_chain s (Conn c) = None)
     \<and> (\<forall>i. G (Dir i) \<noteq> [] \<longrightarrow> l_chain s (Dir i) \<noteq> None)"

definition inner_ok :: "'w control \<Rightarrow> (link_ref \<Rightarrow> conn_ref list) \<Rightarrow> bool" where
  "inner_ok s G \<longleftrightarrow>
     (\<forall>c. is_output s c \<longrightarrow> linked (rev_next s) (rev_chain s c) (G (Conn c)))
     \<and> (\<forall>c oc. is_input s c \<longrightarrow> (in_connect s c = Some oc \<longleftrightarrow> c \<in> set (G (Conn oc))))"

definition graph :: "'w control \<Rightarrow> (link_ref \<Rightarrow> conn_ref list) \<Rightarrow> bool" where
  "graph s G \<longleftrightarrow> outer_ok s G \<and> inner_ok s G
     \<and> (\<forall>c. h_load_conn s c = None \<longrightarrow>
          l_first s (Conn c) = None \<and> l_chain s (Conn c) = None \<and> in_connect s c = None \<and> rev_chain s c = None)"

lemma io_exclusive [simp]: "is_input s c \<Longrightarrow> \<not> is_output s c"
  by (auto simp: is_input_def is_output_def split: option.splits)

lemma conn_kinds_cong:
  "h_load_conn s' = h_load_conn s \<Longrightarrow> is_output s' = is_output s \<and> is_input s' = is_input s \<and> source s' = source s"
proof -
  assume a: "h_load_conn s' = h_load_conn s"
  then have o: "is_output s' = is_output s" "is_input s' = is_input s" by (auto simp: is_output_def is_input_def fun_eq_iff)
  moreover have "source s' l = source s l" for l using o by (cases l) auto
  ultimately show ?thesis by auto
qed

lemma outer_ok_cong:
  "h_load_conn s' = h_load_conn s \<Longrightarrow> l_first s' = l_first s \<Longrightarrow> l_chain s' = l_chain s \<Longrightarrow> outer_ok s' G = outer_ok s G"
  using conn_kinds_cong [of s' s] unfolding outer_ok_def by presburger

lemma inner_ok_cong:
  "h_load_conn s' = h_load_conn s \<Longrightarrow> in_connect s' = in_connect s \<Longrightarrow> rev_next s' = rev_next s \<Longrightarrow>
     rev_chain s' = rev_chain s \<Longrightarrow> inner_ok s' G = inner_ok s G"
  using conn_kinds_cong [of s' s] unfolding inner_ok_def by presburger

lemma outer_okD:
  assumes "outer_ok s G"
  shows "source s l \<Longrightarrow> linked (l_chain s) (l_first s l) (map Conn (G l))" "\<not> source s l \<Longrightarrow> G l = []"
    "is_input s c \<Longrightarrow> l_first s (Conn c) = Some l \<longleftrightarrow> c \<in> set (G l)" "c \<in> set (G l) \<Longrightarrow> is_input s c"
    "is_output s c \<Longrightarrow> l_chain s (Conn c) = None" "G (Dir i) \<noteq> [] \<Longrightarrow> l_chain s (Dir i) \<noteq> None"
  using assms by (auto simp: outer_ok_def)

lemma inner_okD:
  assumes "inner_ok s G"
  shows "is_output s c \<Longrightarrow> linked (rev_next s) (rev_chain s c) (G (Conn c))"
    "is_input s c \<Longrightarrow> in_connect s c = Some oc \<longleftrightarrow> c \<in> set (G (Conn oc))"
  using assms by (auto simp: inner_ok_def)

lemma unique_source:
  assumes "outer_ok s G" "c \<in> set (G l)" "c \<in> set (G l')"
  shows "l = l'"
  using outer_okD(3,4) [OF assms(1)] assms(2,3) by (metis option.inject)

lemma outer_connect_ok:
  assumes ok: "outer_ok s G" and o: "source s l" and c: "is_input s c" "l_first s (Conn c) = None"
    and s': "s' = (case l of Conn oc \<Rightarrow> outer_connect l (Conn c) s
      | Dir i \<Rightarrow> (outer_connect l (Conn c) s)\<lparr>l_chain := (l_chain (outer_connect l (Conn c) s))(l := Some l)\<rparr>)"
  shows "outer_ok s' (G(l := c # G l))"
proof -
  have k: "is_output s' = is_output s" "is_input s' = is_input s" "source s' = source s"
    using conn_kinds_cong [of s' s] by (auto simp: s' outer_connect_def split: link_ref.splits)
  have ne: "l \<noteq> Conn c" using o c(1) by auto
  have f: "l_first s' = (l_first s)(Conn c := Some l, l := Some (Conn c))"
    using ne by (auto simp: s' outer_connect_def Let_def split: link_ref.splits)
  have ch: "l_chain s' x = (if x = Conn c then l_first s l else if x = l \<and> (\<exists>i. l = Dir i) then Some l else l_chain s x)" for x
    using ne by (auto simp: s' outer_connect_def Let_def split: link_ref.splits)
  have fresh: "c \<notin> set (G l')" for l' using outer_okD(3) [OF ok c(1)] c(2) by auto
  have lists: "linked (l_chain s') p (map Conn (G l')) = linked (l_chain s) p (map Conn (G l'))" for p l'
    using fresh ne by (intro linked_nodes_cong) (auto simp: ch)
  show ?thesis
    unfolding outer_ok_def k
  proof (intro conjI allI impI ballI)
    fix l' show "if source s l' then linked (l_chain s') (l_first s' l') (map Conn ((G(l := c # G l)) l')) else (G(l := c # G l)) l' = []"
      using outer_okD(1,2) [OF ok] lists o ne c io_exclusive by (auto simp: f ch)
  next
    fix d l' assume "is_input s d"
    then show "(l_first s' (Conn d) = Some l') = (d \<in> set ((G(l := c # G l)) l'))"
      using outer_okD(3) [OF ok, of d] fresh ne o io_exclusive by (auto simp: f)
  next
    fix l' d assume "d \<in> set ((G(l := c # G l)) l')"
    then show "is_input s d" using outer_okD(4) [OF ok] c by (auto split: if_splits)
  next
    fix d assume "is_output s d"
    then show "l_chain s' (Conn d) = None" using outer_okD(5) [OF ok] c io_exclusive by (auto simp: ch)
  next
    fix i assume "(G(l := c # G l)) (Dir i) \<noteq> []"
    then show "l_chain s' (Dir i) \<noteq> None" using outer_okD(6) [OF ok] by (auto simp: ch split: if_splits)
  qed
qed

lemma inner_connect_ok:
  assumes ok: "inner_ok s G" and o: "is_output s oc" and c: "is_input s c" "\<And>l. c \<notin> set (G l)"
    and r: "inner_connect oc c s = Some (True, s')"
  shows "inner_ok s' (G(Conn oc := c # G (Conn oc)))"
proof -
  have s': "s' = s\<lparr>in_connect := (in_connect s)(c := Some oc), rev_next := (rev_next s)(c := rev_chain s oc),
      rev_chain := (rev_chain s)(oc := Some c)\<rparr>"
    using r by (auto simp: inner_connect_def Let_def split: bind_splits if_splits)
  have k: "is_output s' = is_output s" "is_input s' = is_input s"
    using conn_kinds_cong [of s' s] by (auto simp: s')
  show ?thesis
    unfolding inner_ok_def k
  proof (intro conjI allI impI)
    fix d assume "is_output s d"
    then show "linked (rev_next s') (rev_chain s' d) ((G(Conn oc := c # G (Conn oc))) (Conn d))"
      using inner_okD(1) [OF ok] c(2) by (auto simp: s')
  next
    fix d o' assume "is_input s d"
    then show "(in_connect s' d = Some o') = (d \<in> set ((G(Conn oc := c # G (Conn oc))) (Conn o')))"
      using inner_okD(2) [OF ok, of d] c(2) by (auto simp: s')
  qed
qed

lemma inner_connect_result:
  "inner_connect oc c s = Some (ok, s') \<Longrightarrow>
     l_first s' = l_first s \<and> l_chain s' = l_chain s \<and> h_load_conn s' = h_load_conn s
     \<and> (\<forall>d. d \<noteq> c \<longrightarrow> in_connect s' d = in_connect s d) \<and> (\<forall>d. d \<noteq> oc \<longrightarrow> rev_chain s' d = rev_chain s d)"
  by (auto simp: inner_connect_def Let_def split: bind_splits if_splits)

text \<open>Taking an input out of the lists.\<close>

lemma unlink_outer_ok:
  assumes ok: "outer_ok s G" and c: "c \<in> set (G l)"
  obtains ptr where "find_place (l_first s l) (l_chain s) (Conn c) Head = Some (Some ptr)"
    "outer_ok (let s' = set_link l ptr (l_chain s (Conn c)) s in s'\<lparr>l_first := (l_first s')(Conn c := None)\<rparr>)
       (G(l := remove1 c (G l)))"
    "ptr = Head \<or> ptr \<in> Next ` Conn ` set (G l)"
proof -
  have i: "is_input s c" using outer_okD(4) [OF ok c] .
  have src: "source s l" using outer_okD(2) [OF ok, of l] c by (metis list.set_cases list.discI)
  have li: "linked (l_chain s) (l_first s l) (map Conn (G l))" using outer_okD(1) [OF ok src] .
  have dist: "distinct (G l)" using linked_distinct [OF li] by (simp add: distinct_map)
  have m: "map Conn (remove1 c (G l)) = remove1 (Conn c) (map Conn (G l))"
    by (rule map_remove1_inj) (simp add: inj_def)
  have ne: "l \<noteq> Conn c" using src i by auto
  have "outer_ok s' (G(l := remove1 c (G l)))"
    if f: "l_first s' = (l_first s)(l := p, Conn c := None)" and h: "h_load_conn s' = h_load_conn s"
      and r: "linked (l_chain s') p (remove1 (Conn c) (map Conn (G l)))"
      and ch: "\<And>x. x \<notin> Conn ` set (G l) \<Longrightarrow> l_chain s' x = l_chain s x" for s' p
  proof -
    have k: "is_output s' = is_output s" "is_input s' = is_input s" "source s' = source s"
      using conn_kinds_cong [OF h] by auto
    have lists: "linked (l_chain s') q (map Conn (G l')) = linked (l_chain s) q (map Conn (G l'))" if "l' \<noteq> l" for q l'
      using that unique_source [OF ok] by (intro linked_nodes_cong ch) auto
    show ?thesis
      unfolding outer_ok_def k
    proof (intro conjI allI impI ballI)
      fix l' show "if source s l' then linked (l_chain s') (l_first s' l') (map Conn ((G(l := remove1 c (G l))) l'))
          else (G(l := remove1 c (G l))) l' = []"
        using outer_okD(1,2) [OF ok] lists src ne i r by (auto simp: f m)
    next
      fix d l' assume d: "is_input s d"
      then have "l \<noteq> Conn d" using src by auto
      then show "(l_first s' (Conn d) = Some l') = (d \<in> set ((G(l := remove1 c (G l))) l'))"
        using outer_okD(3) [OF ok d] unique_source [OF ok, of d] c dist by (auto simp: f)
    next
      fix l' d assume "d \<in> set ((G(l := remove1 c (G l))) l')"
      then show "is_input s d" using outer_okD(4) [OF ok] notin_set_remove1 by (fastforce split: if_splits)
    next
      fix d assume "is_output s d"
      moreover from this have "Conn d \<notin> Conn ` set (G l)" using outer_okD(4) [OF ok, of d l] by auto
      ultimately show "l_chain s' (Conn d) = None" using outer_okD(5) [OF ok] ch by auto
    next
      fix j assume "(G(l := remove1 c (G l))) (Dir j) \<noteq> []"
      then have "G (Dir j) \<noteq> []" by (auto split: if_splits)
      moreover have "Dir j \<notin> Conn ` set (G l)" by auto
      ultimately show "l_chain s' (Dir j) \<noteq> None" using outer_okD(6) [OF ok] ch by simp
    qed
  qed
  note keep = this
  have "Conn c \<in> set (map Conn (G l))" using c by simp
  with li show thesis
  proof (cases rule: unlink_list)
    case head
    then show thesis by (intro that [of Head] keep [of _ "l_chain s (Conn c)"]) (auto simp: fun_upd_twist ne)
  next
    case (later y)
    then show thesis by (intro that [of "Next y"] keep [of _ "l_first s l"]) (auto simp: fun_upd_twist ne)
  qed
qed

lemma unlink_input_ok:
  assumes outer: "outer_ok s0 G" and ok: "inner_ok s G" and h: "h_load_conn s = h_load_conn s0" and c: "c \<in> set (G (Conn oc))"
  obtains s' where "unlink_input c s = Some s'" "inner_ok s' (G(Conn oc := remove1 c (G (Conn oc))))"
    "l_first s' = l_first s" "l_chain s' = l_chain s" "h_load_conn s' = h_load_conn s"
    "\<And>d. h_load_conn s d = None \<Longrightarrow> in_connect s' d = in_connect s d \<and> rev_chain s' d = rev_chain s d"
proof -
  have k0: "is_output s = is_output s0" "is_input s = is_input s0" using conn_kinds_cong [OF h] by auto
  have i: "is_input s c" using outer_okD(4) [OF outer c] k0 by simp
  have src: "is_output s oc" using outer_okD(2) [OF outer, of "Conn oc"] c k0 by (metis list.set_cases list.discI source.simps(1))
  have li: "linked (rev_next s) (rev_chain s oc) (G (Conn oc))" using inner_okD(1) [OF ok src] .
  have dist: "distinct (G (Conn oc))" using linked_distinct [OF li] .
  have conn: "in_connect s c = Some oc" using inner_okD(2) [OF ok i] c by simp
  have keep: "inner_ok s' (G(Conn oc := remove1 c (G (Conn oc))))"
    if f: "rev_chain s' = (rev_chain s)(oc := p)" and h: "h_load_conn s' = h_load_conn s" and ic: "in_connect s' = (in_connect s)(c := None)"
      and r: "linked (rev_next s') p (remove1 c (G (Conn oc)))"
      and ch: "\<And>x. x \<notin> set (G (Conn oc)) \<Longrightarrow> rev_next s' x = rev_next s x" for s' p
  proof -
    have k: "is_output s' = is_output s" "is_input s' = is_input s" using conn_kinds_cong [OF h] by auto
    have lists: "linked (rev_next s') q (G (Conn o')) = linked (rev_next s) q (G (Conn o'))" if "o' \<noteq> oc" for q o'
      using that unique_source [OF outer] by (intro linked_nodes_cong ch) auto
    show ?thesis
      unfolding inner_ok_def k
    proof (intro conjI allI impI)
      fix d assume "is_output s d"
      then show "linked (rev_next s') (rev_chain s' d) ((G(Conn oc := remove1 c (G (Conn oc)))) (Conn d))"
        using inner_okD(1) [OF ok] lists r by (auto simp: f)
    next
      fix d o' assume d: "is_input s d"
      then show "(in_connect s' d = Some o') = (d \<in> set ((G(Conn oc := remove1 c (G (Conn oc)))) (Conn o')))"
        using inner_okD(2) [OF ok d] unique_source [OF outer, of d] c dist by (auto simp: ic)
    qed
  qed
  have oc: "h_load_conn s oc \<noteq> None" "h_load_conn s c \<noteq> None" using src i by (auto simp: is_output_def is_input_def split: option.splits)
  from li c show thesis
  proof (cases rule: unlink_list)
    case head
    let ?s = "s\<lparr>rev_chain := (rev_chain s)(oc := rev_next s c), in_connect := (in_connect s)(c := None)\<rparr>"
    have e: "unlink_input c s = Some ?s" using head conn by (simp add: unlink_input_def)
    show thesis by (rule that [OF e keep]) (use head oc in auto)
  next
    case (later y)
    let ?s = "s\<lparr>rev_next := (rev_next s)(y := rev_next s c), in_connect := (in_connect s)(c := None)\<rparr>"
    have e: "unlink_input c s = Some ?s" using later conn by (simp add: unlink_input_def)
    show thesis by (rule that [OF e keep [of _ "rev_chain s oc"]]) (use later oc in auto)
  qed
qed

text \<open>Connecting and disconnecting on the graph.\<close>

definition attach :: "link_ref \<Rightarrow> conn_ref \<Rightarrow> (link_ref \<Rightarrow> conn_ref list) \<Rightarrow> link_ref \<Rightarrow> conn_ref list" where
  "attach l c G = G(l := c # G l)"

definition detach :: "conn_ref \<Rightarrow> (link_ref \<Rightarrow> conn_ref list) \<Rightarrow> link_ref \<Rightarrow> conn_ref list" where
  "detach c G = (\<lambda>l. remove1 c (G l))"

definition unconnected :: "conn_ref \<Rightarrow> (link_ref \<Rightarrow> conn_ref list) \<Rightarrow> bool" where
  "unconnected c G \<longleftrightarrow> (\<forall>l. c \<notin> set (G l))"

lemma detach_unconnected: "unconnected c G \<Longrightarrow> detach c G = G"
  by (auto simp: detach_def unconnected_def fun_eq_iff remove1_idem)

lemma detach_one: "outer_ok s G \<Longrightarrow> c \<in> set (G l) \<Longrightarrow> detach c G = G(l := remove1 c (G l))"
proof -
  assume a: "outer_ok s G" "c \<in> set (G l)"
  have "c \<notin> set (G l')" if "l' \<noteq> l" for l' using that unique_source [OF a(1)] a(2) by blast
  then show ?thesis by (auto simp: detach_def fun_eq_iff remove1_idem)
qed

lemma detach_attach: "unconnected c G \<Longrightarrow> detach c (attach l c G) = G"
  by (auto simp: attach_def detach_def unconnected_def fun_eq_iff remove1_idem)

lemma graph_unconnected: "graph s G \<Longrightarrow> is_input s c \<Longrightarrow> l_first s (Conn c) = None \<longleftrightarrow> unconnected c G"
  using outer_okD(3) [of s G c] by (auto simp: graph_def unconnected_def) (metis option.exhaust)

lemma disconnect_result:
  assumes g: "graph s G" and c: "is_input s c"
  shows "\<exists>s'. disconnect c s = Some (\<not> unconnected c G, s') \<and> graph s' (detach c G) \<and> h_load_conn s' = h_load_conn s"
proof (cases "l_first s (Conn c)")
  case None
  then show ?thesis using graph_unconnected [OF g c] g by (simp add: disconnect_def detach_unconnected)
next
  case (Some l)
  have ok: "outer_ok s G" "inner_ok s G" using g by (auto simp: graph_def)
  have cl: "c \<in> set (G l)" using outer_okD(3) [OF ok(1) c] Some by auto
  then have u: "\<not> unconnected c G" by (auto simp: unconnected_def)
  have src: "source s l" using outer_okD(2) [OF ok(1), of l] cl by (metis list.set_cases list.discI)
  obtain ptr where p: "find_place (l_first s l) (l_chain s) (Conn c) Head = Some (Some ptr)"
    "outer_ok (let s' = set_link l ptr (l_chain s (Conn c)) s in s'\<lparr>l_first := (l_first s')(Conn c := None)\<rparr>)
       (G(l := remove1 c (G l)))" and ptr: "ptr = Head \<or> ptr \<in> Next ` Conn ` set (G l)"
    using unlink_outer_ok [OF ok(1) cl] .
  define s1 where "s1 = (let s' = set_link l ptr (l_chain s (Conn c)) s in s'\<lparr>l_first := (l_first s')(Conn c := None)\<rparr>)"
  have s1: "h_load_conn s1 = h_load_conn s" "in_connect s1 = in_connect s" "rev_next s1 = rev_next s" "rev_chain s1 = rev_chain s"
    by (cases ptr; simp add: s1_def Let_def)+
  have created: "h_load_conn s d \<noteq> None" if "d \<in> set (G l) \<or> l = Conn d" for d
    using that outer_okD(4) [OF ok(1), of d l] src by (auto simp: is_input_def is_output_def split: option.splits)
  have blank: "l_first s1 (Conn d) = None \<and> l_chain s1 (Conn d) = None" if "h_load_conn s d = None" for d
  proof -
    have "d \<notin> set (G l)" "l \<noteq> Conn d" using created [of d] that by blast+
    moreover have "l_first s (Conn d) = None" "l_chain s (Conn d) = None" using g that by (auto simp: graph_def)
    ultimately show ?thesis using ptr by (cases ptr) (auto simp: s1_def)
  qed
  have i1: "inner_ok s1 G" using ok(2) inner_ok_cong [OF s1] by simp
  note one = detach_one [OF ok(1) cl]
  show ?thesis
  proof (cases l)
    case (Dir i)
    moreover have "G l \<noteq> []" using cl by (cases "G l") auto
    ultimately obtain x where "l_chain s l = Some x" using outer_okD(6) [OF ok(1), of i] by auto
    then have "disconnect c s = Some (True, s1)" using Some p(1) by (simp add: disconnect_def s1_def Let_def)
    moreover have "inner_ok s1 (G(l := remove1 c (G l)))" using i1 Dir by (simp add: inner_ok_def)
    ultimately show ?thesis using u p(2) blank g s1 one unfolding s1_def [symmetric] by (simp add: graph_def)
  next
    case (Conn oc)
    obtain s' where s': "unlink_input c s1 = Some s'" "inner_ok s' (G(Conn oc := remove1 c (G (Conn oc))))"
      "l_first s' = l_first s1" "l_chain s' = l_chain s1" "h_load_conn s' = h_load_conn s1"
      "\<And>d. h_load_conn s1 d = None \<Longrightarrow> in_connect s' d = in_connect s1 d \<and> rev_chain s' d = rev_chain s1 d"
      using unlink_input_ok [OF ok(1) i1 s1(1)] cl Conn by metis
    have o: "is_output s oc" using src Conn by simp
    then have "l_chain s l = None" using outer_okD(5) [OF ok(1)] Conn by simp
    moreover have "types_fit oc c s = Some True"
      using o c by (auto simp: types_fit_def is_output_def is_input_def split: option.splits)
    ultimately have "disconnect c s = Some (True, s')"
      using Some p(1) s'(1) Conn by (simp add: disconnect_def s1_def Let_def)
    moreover have "outer_ok s' (G(l := remove1 c (G l)))"
      using p(2) outer_ok_cong [OF s'(5,3,4)] unfolding s1_def [symmetric] by simp
    ultimately show ?thesis using u s' s1 blank g one Conn by (simp add: graph_def)
  qed
qed

lemma connect_dir:
  assumes g: "graph s G" and c: "is_input s c" "unconnected c G"
  shows "graph (let s' = outer_connect (Dir i) (Conn c) s in s'\<lparr>l_chain := (l_chain s')(Dir i := Some (Dir i))\<rparr>) (attach (Dir i) c G)"
    (is "graph ?s' _")
proof -
  have f: "l_first s (Conn c) = None" using graph_unconnected [OF g c(1)] c(2) by simp
  have "outer_ok ?s' (attach (Dir i) c G)"
    unfolding attach_def using g c f by (intro outer_connect_ok [of s]) (simp_all add: graph_def Let_def)
  moreover have "inner_ok ?s' G" using g inner_ok_cong [of ?s' s G] by (simp add: graph_def outer_connect_def Let_def)
  then have "inner_ok ?s' (attach (Dir i) c G)" by (simp add: inner_ok_def attach_def)
  moreover have "h_load_conn s c \<noteq> None" using c(1) by (auto simp: is_input_def split: option.splits)
  ultimately show ?thesis using g by (auto simp: graph_def outer_connect_def Let_def)
qed

lemma connect_conn:
  assumes g: "graph s G" and c: "is_input s c" "unconnected c G" and o: "is_output s oc"
    and r: "inner_connect oc c s = Some (True, s1)"
  shows "graph (outer_connect (Conn oc) (Conn c) s1) (attach (Conn oc) c G)" (is "graph ?s' _")
proof -
  note r1 = inner_connect_result [OF r]
  have k: "is_output s1 = is_output s" "is_input s1 = is_input s" "source s1 = source s"
    using r1 conn_kinds_cong [of s1 s] by auto
  have f: "l_first s1 (Conn c) = None" using graph_unconnected [OF g c(1)] c(2) r1 by simp
  have "outer_ok s1 G" using g r1 outer_ok_cong [of s1 s] by (simp add: graph_def)
  then have "outer_ok ?s' (attach (Conn oc) c G)"
    unfolding attach_def using c f o k by (intro outer_connect_ok [of s1]) simp_all
  moreover have "inner_ok s1 (attach (Conn oc) c G)"
    unfolding attach_def using g c o r by (intro inner_connect_ok [of s]) (simp_all add: graph_def unconnected_def)
  then have "inner_ok ?s' (attach (Conn oc) c G)" using inner_ok_cong [of ?s' s1] by (simp add: outer_connect_def Let_def)
  moreover have "h_load_conn s c \<noteq> None" "h_load_conn s oc \<noteq> None"
    using c(1) o by (auto simp: is_input_def is_output_def split: option.splits)
  ultimately show ?thesis using g r1 by (auto simp: graph_def outer_connect_def Let_def)
qed

text \<open>Only the link fields change.\<close>

definition relinked :: "'w control \<Rightarrow> 'w control \<Rightarrow> bool" where
  "relinked s s' \<longleftrightarrow>
     conn_next s' = conn_next s \<and> belonging s' = belonging s \<and> c_instance s' = c_instance s \<and> c_param s'
     = c_param s \<and> h_load_conn s' = h_load_conn s \<and> c_index s' = c_index s \<and> b_addr s' = b_addr s \<and>
     hash_next s' = hash_next s \<and> b_instance s' = b_instance s \<and> b_param s' = b_param s \<and> b_loader s' =
     b_loader s \<and> connectors s' = connectors s \<and> last_conn s' = last_conn s \<and> gen_tables s' = gen_tables
     s \<and> main_name s' = main_name s \<and> brick_hash s' = brick_hash s \<and> last_addr s' = last_addr s \<and>
     ctl_mand s' = ctl_mand s \<and> counter s' = counter s \<and> allocs s' = allocs s"

lemma relinked_refl [simp]: "relinked s s"
  by (simp add: relinked_def)

lemma relinked_trans: "relinked s s' \<Longrightarrow> relinked s' s'' \<Longrightarrow> relinked s s''"
  by (simp add: relinked_def)

lemma relinked_upd [simp]:
  assumes "relinked s s'"
  shows "relinked s (s'\<lparr>l_first := f\<rparr>)" "relinked s (s'\<lparr>l_chain := f\<rparr>)" "relinked s (s'\<lparr>in_connect := g\<rparr>)"
    "relinked s (s'\<lparr>rev_next := g\<rparr>)" "relinked s (s'\<lparr>rev_chain := g\<rparr>)"
  using assms by (simp_all add: relinked_def)

lemma relinked_set [simp]:
  assumes "relinked s s'"
  shows "relinked s (set_link l p v s')" "relinked s (set_rev c q w s')"
  using assms by (cases p; simp) (cases q; simp add: assms)

lemma unlink_input_relinked: "unlink_input c s = Some s' \<Longrightarrow> relinked s s'"
  by (auto simp: unlink_input_def Let_def split: bind_splits)

lemma disconnect_relinked: "disconnect c s = Some (b, s') \<Longrightarrow> relinked s s'"
  unfolding disconnect_def Let_def
  by (auto split: option.splits bind_splits if_splits dest!: unlink_input_relinked intro: relinked_trans [rotated])

lemma outer_connect_relinked [simp]: "relinked s s' \<Longrightarrow> relinked s (outer_connect l l' s')"
  by (simp add: outer_connect_def Let_def)

lemma inner_connect_relinked: "inner_connect oc c s = Some (b, s') \<Longrightarrow> relinked s s'"
  by (auto simp: inner_connect_def Let_def split: bind_splits if_splits)

end
