(* ===== verification/Control_Simple.thy ===== *)
theory Control_Simple
  imports Control_Graph Numerals
begin

text \<open>
  The control brick (\<^verbatim>\<open>src/trunk/src/control_simple.ath\<close>): it creates and deletes bricks, instantiates their
  connectors and connects them, on behalf of the operations of its output.

  The loader tables are an argument, and so is the code of the other bricks in them: the initialization of
  a brick or of a connector acts on the state \<open>'w\<close> of the rest of the system and does not call the control
  brick back.  \<open>malloc\<close> answers by the number of the call; the references of the store are these
  numbers, so that no reference is used twice.  \<^verbatim>\<open>@.check\<close> returns from the operation, \<^verbatim>\<open>@.abort\<close> ends the
  program and is \<open>None\<close>, as is the use of a pointer to freed memory.  An argument structure that the
  preprocessor leaves partly uninitialized is zero in the other fields.
\<close>

section \<open>The environment\<close>

record 'w env =
  env_malloc :: "nat \<Rightarrow> nat \<Rightarrow> int option"
  loaders :: "'w brick_desc list"
  initialized :: "conn_ref \<Rightarrow> 'w \<Rightarrow> bool"
  root_sid :: "string option"
  put_text :: "paddr_t \<Rightarrow> string \<Rightarrow> 'w \<Rightarrow> 'w"
  put_infos :: "conn_info list \<Rightarrow> 'w \<Rightarrow> 'w"

type_synonym 'w ctl_op = "string \<Rightarrow> args \<times> 'w control \<times> 'w \<Rightarrow> (args \<times> 'w control \<times> 'w) option"

definition malloc :: "'w env \<Rightarrow> nat \<Rightarrow> 'w control \<Rightarrow> (nat \<times> int) option \<times> 'w control" where
  "malloc e sz s = (map_option (Pair (allocs s)) (env_malloc e (allocs s) sz), s\<lparr>allocs := Suc (allocs s)\<rparr>)"

section \<open>Main directory\<close>

definition REPRES_MAX :: nat where "REPRES_MAX = 4096"
definition BRICK_HASH_MAX :: nat where "BRICK_HASH_MAX = 1024 * 2"
definition MAINDIR_MAX :: nat where "MAINDIR_MAX = 32"

text \<open>A name of eight or more characters does not fit into \<^verbatim>\<open>sname_t\<close> with its NUL.\<close>

definition new_main_dir :: "string \<Rightarrow> 'w control \<Rightarrow> (bool \<times> 'w control) option" where
  "new_main_dir nm s =
     (if 8 \<le> length nm then None
      else case find (\<lambda>i. main_name s i = []) [0..<MAINDIR_MAX] of
        Some i \<Rightarrow> Some (True, s\<lparr>main_name := (main_name s)(i := nm)\<rparr>)
      | None \<Rightarrow> Some (False, s))"

definition find_main_dir :: "string \<Rightarrow> 'w control \<Rightarrow> nat option" where
  "find_main_dir nm s = find (\<lambda>i. main_name s i = nm) [0..<MAINDIR_MAX]"

section \<open>Loader table and brick hash\<close>

definition find_loader :: "'w env \<Rightarrow> string \<Rightarrow> 'w brick_desc option" where
  "find_loader e nm = find (\<lambda>l. bd_name l = nm) (loaders e)"

definition brick_hash_fn :: "addr_t \<Rightarrow> nat" where
  "brick_hash_fn addr = unat (ucast addr :: u32) div REPRES_MAX mod BRICK_HASH_MAX"

definition insert_brick_hash :: "brick_ref \<Rightarrow> 'w control \<Rightarrow> 'w control" where
  "insert_brick_hash brick s =
     (let index = brick_hash_fn (b_addr s brick);
          s = s\<lparr>hash_next := (hash_next s)(brick := brick_hash s index)\<rparr>
      in s\<lparr>brick_hash := (brick_hash s)(index := Some brick)\<rparr>)"

definition find_brick_hash :: "addr_t \<Rightarrow> 'w control \<Rightarrow> brick_ref option option" where
  "find_brick_hash addr s = find_node (hash_next s) (\<lambda>b. b_addr s b = addr) (brick_hash s (brick_hash_fn addr))"

section \<open>Connectors\<close>

definition find_load_conn :: "brick_ref \<Rightarrow> string \<Rightarrow> 'w control \<Rightarrow> 'w conn_desc option" where
  "find_load_conn brick nm s = find (\<lambda>d. lc_export d \<and> lc_name d = nm) (bd_conn (b_loader s brick))"

text \<open>\<^verbatim>\<open>memset\<close> of a connector header; the instance behind it is cleared when it is allocated.\<close>

definition clear_conns :: "(conn_ref \<Rightarrow> bool) \<Rightarrow> 'w control \<Rightarrow> 'w control" where
  "clear_conns P s = s\<lparr>
     l_first := (\<lambda>l. case l of Conn c \<Rightarrow> if P c then None else l_first s l | Dir i \<Rightarrow> l_first s l),
     l_chain := (\<lambda>l. case l of Conn c \<Rightarrow> if P c then None else l_chain s l | Dir i \<Rightarrow> l_chain s l),
     conn_next := (\<lambda>c. if P c then None else conn_next s c),
     belonging := (\<lambda>c. if P c then None else belonging s c),
     c_instance := (\<lambda>c. if P c then 0 else c_instance s c),
     c_param := (\<lambda>c. if P c then P_null else c_param s c),
     h_load_conn := (\<lambda>c. if P c then None else h_load_conn s c),
     c_index := (\<lambda>c. if P c then 0 else c_index s c),
     in_connect := (\<lambda>c. if P c then None else in_connect s c),
     rev_next := (\<lambda>c. if P c then None else rev_next s c),
     rev_chain := (\<lambda>c. if P c then None else rev_chain s c)\<rparr>"

text \<open>A dynamic array has the count 0; the result of its \<^verbatim>\<open>malloc\<close> is not checked.\<close>

definition new_conn :: "'w env \<Rightarrow> brick_ref \<Rightarrow> 'w conn_desc \<Rightarrow> 'w control \<Rightarrow> (conn_ref option \<times> 'w control) option" where
  "new_conn e brick d s =
     (if lc_count d = 0 then
        (case malloc e 32 s of
           (None, s) \<Rightarrow> None
         | (Some (n, p), s) \<Rightarrow>
             (let s = clear_conns (\<lambda>c. c = Dyn n) s;
                  s = s\<lparr>c_index := (c_index s)(Dyn n := counter s), counter := counter s + 1\<rparr>
              in Some (Some (Dyn n), s)))
      else case find (\<lambda>i. c_param s (Slot brick (nat (lc_start_index d) + i)) = P_null) [0..<nat (lc_count d)] of
        Some i \<Rightarrow> (let c = Slot brick (nat (lc_start_index d) + i)
                   in Some (Some c, s\<lparr>c_index := (c_index s)(c := int i)\<rparr>))
      | None \<Rightarrow> Some (None, s))"

definition get_conn :: "brick_ref \<Rightarrow> 'w conn_desc \<Rightarrow> index_t \<Rightarrow> 'w control \<Rightarrow> conn_ref option option" where
  "get_conn brick d i s =
     (if lc_count d = 0 then find_node (conn_next s) (\<lambda>c. c_index s c = i) (connectors s brick)
      else if i < 0 \<or> i \<ge> lc_count d then Some None
      else Some (Some (Slot brick (nat (lc_start_index d) + nat i))))"

definition find_conn :: "brick_ref \<Rightarrow> string \<Rightarrow> index_t \<Rightarrow> 'w control \<Rightarrow> conn_ref option option" where
  "find_conn brick nm i s = (case find_load_conn brick nm s of
     None \<Rightarrow> Some None
   | Some d \<Rightarrow> get_conn brick d i s)"

fun param_search :: "brick_ref \<Rightarrow> string \<Rightarrow> 'w control \<Rightarrow> conn_ref list \<Rightarrow> conn_ref option option" where
  "param_search brick p s [] = Some None"
| "param_search brick p s (c # cs) = (case c_param s c of
     P_null \<Rightarrow> param_search brick p s cs
   | P_own q \<Rightarrow> if q = p then Some (Some c) else param_search brick p s cs
   | P_brick \<Rightarrow> do { q \<leftarrow> b_param s brick; if q = p then Some (Some c) else param_search brick p s cs }
   | P_freed \<Rightarrow> None)"

definition find_param :: "brick_ref \<Rightarrow> string \<Rightarrow> 'w control \<Rightarrow> conn_ref option option" where
  "find_param brick p s = do { cs \<leftarrow> visit (conn_next s) (connectors s brick); param_search brick p s cs }"

definition create_conn ::
    "'w env \<Rightarrow> brick_ref \<Rightarrow> conn_ref \<Rightarrow> 'w conn_desc \<Rightarrow> index_t \<Rightarrow> 'w control \<times> 'w \<Rightarrow> ('w control \<times> 'w) option" where
  "create_conn e brick c d i = (\<lambda>(s, w).
     let s = s\<lparr>belonging := (belonging s)(c := Some brick), h_load_conn := (h_load_conn s)(c := Some d),
               c_index := (c_index s)(c := i)\<rparr>
     in if lc_count d = 0 then
          (case malloc e (lc_size d) s of
             (None, s) \<Rightarrow> None
           | (Some (n, p), s) \<Rightarrow>
               Some (s\<lparr>c_instance := (c_instance s)(c := p)\<rparr>, lc_init_code d p (b_instance s brick) w))
        else Some (s\<lparr>c_instance := (c_instance s)(c := b_instance s brick + lc_offset d + int (lc_size d) * i)\<rparr>, w))"

definition insert_conn :: "brick_ref \<Rightarrow> conn_ref \<Rightarrow> 'w control \<Rightarrow> 'w control" where
  "insert_conn brick c s =
     (let s = (case last_conn s brick of
            None \<Rightarrow> s\<lparr>connectors := (connectors s)(brick := Some c)\<rparr>
          | Some l \<Rightarrow> s\<lparr>conn_next := (conn_next s)(l := Some c)\<rparr>)
      in s\<lparr>last_conn := (last_conn s)(brick := Some c)\<rparr>)"

section \<open>Bricks\<close>

text \<open>The loops of \<^verbatim>\<open>create_brick\<close>: the members of one array of inputs, and all exported arrays of inputs.\<close>

fun create_array :: "'w env \<Rightarrow> brick_ref \<Rightarrow> 'w conn_desc \<Rightarrow> nat list \<Rightarrow> 'w control \<times> 'w \<Rightarrow> ('w control \<times> 'w) option" where
  "create_array e brick d [] (s, w) = Some (s, w)"
| "create_array e brick d (k # ks) (s, w) = do {
     let c = Slot brick (nat (lc_start_index d) + k);
     (s, w) \<leftarrow> create_conn e brick c d (int k) (s, w);
     create_array e brick d ks (insert_conn brick c s, w) }"

fun create_inputs :: "'w env \<Rightarrow> brick_ref \<Rightarrow> 'w conn_desc list \<Rightarrow> 'w control \<times> 'w \<Rightarrow> ('w control \<times> 'w) option" where
  "create_inputs e brick [] (s, w) = Some (s, w)"
| "create_inputs e brick (d # ds) (s, w) =
     (if \<not> lc_type d \<and> lc_export d then
        do { (s, w) \<leftarrow> create_array e brick d [0..<nat (lc_count d)] (s, w); create_inputs e brick ds (s, w) }
      else create_inputs e brick ds (s, w))"

definition create_brick ::
    "'w env \<Rightarrow> brick_ref \<Rightarrow> 'w brick_desc \<Rightarrow> string \<Rightarrow> mand_t \<Rightarrow> 'w control \<times> 'w \<Rightarrow> (mand_t \<times> 'w control \<times> 'w) option" where
  "create_brick e brick ld p mand = (\<lambda>(s, w). do {
     let s = s\<lparr>b_loader := (b_loader s)(brick := ld)\<rparr>;
     let (mand, w) = bd_dynamic_init ld (b_instance s brick) p mand w;
     (s, w) \<leftarrow> create_inputs e brick (bd_conn ld) (s, w);
     Some (mand, s, w) })"

definition new_brick ::
    "'w env \<Rightarrow> string \<Rightarrow> string \<Rightarrow> mand_t \<Rightarrow> 'w control \<times> 'w \<Rightarrow> (brick_ref option \<times> mand_t \<times> 'w control \<times> 'w) option" where
  "new_brick e nm p mand = (\<lambda>(s, w). case find_loader e nm of
     None \<Rightarrow> Some (None, mand, s, w)
   | Some ld \<Rightarrow>
       (let pre_len = bd_conn_totalcount ld * 32 + 32 in
        case malloc e (bd_instance_size ld + pre_len) s of
          (None, s) \<Rightarrow> Some (None, mand, s, w)
        | (Some (brick, space), s) \<Rightarrow>
            (let s = clear_conns (\<lambda>c. case c of Slot b k \<Rightarrow> b = brick | Dyn n \<Rightarrow> False) s;
                 s = s\<lparr>b_addr := (b_addr s)(brick := 0), hash_next := (hash_next s)(brick := None),
                       connectors := (connectors s)(brick := None), last_conn := (last_conn s)(brick := None)\<rparr>;
                 s = s\<lparr>b_instance := (b_instance s)(brick := space + int pre_len)\<rparr>;
                 sid = (case root_sid e of None \<Rightarrow> [] | Some r \<Rightarrow> r)
             in case malloc e (length p + length sid + 1) s of
                  (None, s) \<Rightarrow> Some (None, mand, s, w)
                | (Some _, s) \<Rightarrow> do {
                    let s = s\<lparr>b_param := (b_param s)(brick := Some (p @ sid))\<rparr>;
                    (mand, s, w) \<leftarrow> create_brick e brick ld (p @ sid) mand (s, w);
                    Some (Some brick, mand, s, w) })))"

text \<open>\<^verbatim>\<open>free\<close> of a parameter string of a connector.\<close>

definition free_param :: "brick_ref \<Rightarrow> conn_ref \<Rightarrow> 'w control \<Rightarrow> 'w control option" where
  "free_param brick c s = (case c_param s c of
     P_null \<Rightarrow> Some s
   | P_own p \<Rightarrow> Some (s\<lparr>c_param := (c_param s)(c := P_freed)\<rparr>)
   | P_brick \<Rightarrow> if b_param s brick = None then None else Some (s\<lparr>b_param := (b_param s)(brick := None)\<rparr>)
   | P_freed \<Rightarrow> None)"

definition own_param :: "'w control \<Rightarrow> conn_ref \<Rightarrow> bool" where
  "own_param s c \<longleftrightarrow> c_param s c \<noteq> P_null \<and> c_param s c \<noteq> P_brick"

text \<open>The two loops of \<^verbatim>\<open>delete_brick\<close> over the connectors.\<close>

fun delete_outputs :: "brick_ref \<Rightarrow> string \<Rightarrow> conn_ref list \<Rightarrow> 'w control \<times> 'w \<Rightarrow> ('w control \<times> 'w) option" where
  "delete_outputs brick p [] (s, w) = Some (s, w)"
| "delete_outputs brick p (c # cs) (s, w) = do {
     d \<leftarrow> h_load_conn s c;
     if \<not> lc_type d then delete_outputs brick p cs (s, w)
     else do {
       s \<leftarrow> disconnect_all c s;
       if own_param s c then do {
         let (a, w) = lc_init_conn d (c_instance s c) p (zero_args\<lparr>destr := True, op_code := opcode_output_init\<rparr>, w);
         s \<leftarrow> free_param brick c s;
         delete_outputs brick p cs (s\<lparr>c_param := (c_param s)(c := P_null)\<rparr>, w) }
       else delete_outputs brick p cs (s, w) } }"

fun delete_inputs :: "brick_ref \<Rightarrow> conn_ref list \<Rightarrow> 'w control \<Rightarrow> 'w control option" where
  "delete_inputs brick [] s = Some s"
| "delete_inputs brick (c # cs) s = do {
     d \<leftarrow> h_load_conn s c;
     if lc_type d then delete_inputs brick cs s
     else do {
       (_, s) \<leftarrow> disconnect c s;
       s \<leftarrow> (if own_param s c then free_param brick c s else Some s);
       delete_inputs brick cs s } }"

fun set_hash :: "nat \<Rightarrow> brick_ref place \<Rightarrow> brick_ref option \<Rightarrow> 'w control \<Rightarrow> 'w control" where
  "set_hash i Head v s = s\<lparr>brick_hash := (brick_hash s)(i := v)\<rparr>"
| "set_hash i (Next b) v s = s\<lparr>hash_next := (hash_next s)(b := v)\<rparr>"

definition output_connected :: "'w control \<Rightarrow> conn_ref \<Rightarrow> bool option" where
  "output_connected s c = do { d \<leftarrow> h_load_conn s c; Some (lc_type d \<and> l_first s (Conn c) \<noteq> None) }"

definition delete_brick :: "brick_ref \<Rightarrow> string \<Rightarrow> 'w control \<times> 'w \<Rightarrow> (bool \<times> 'w control \<times> 'w) option" where
  "delete_brick brick p = (\<lambda>(s, w). do {
     let i = brick_hash_fn (b_addr s brick);
     found \<leftarrow> find_place (brick_hash s i) (hash_next s) brick Head;
     case found of
       None \<Rightarrow> Some (False, s, w)
     | Some ptr \<Rightarrow> do {
         cs \<leftarrow> visit (conn_next s) (connectors s brick);
         conns \<leftarrow> those (map (output_connected s) cs);
         if True \<in> set conns then Some (False, s, w)
         else do {
           let s = set_hash i ptr (hash_next s brick) s;
           let w = bd_dynamic_exit (b_loader s brick) (b_instance s brick) p w;
           (s, w) \<leftarrow> delete_outputs brick p cs (s, w);
           s \<leftarrow> delete_inputs brick cs s;
           _ \<leftarrow> b_param s brick;
           Some (True, s\<lparr>b_param := (b_param s)(brick := None)\<rparr>, w) } } })"

section \<open>Information about a brick\<close>

text \<open>The macro \<^verbatim>\<open>PR\<close>: it appends to the text and leaves the function with 0 when the text does not fit.
  \<open>Inl\<close> is the text at that point, of which the buffer has the first characters; \<open>PR_then\<close> continues
  with the text otherwise.\<close>

type_synonym printed = "string + string"

definition PR :: "int \<Rightarrow> string \<Rightarrow> string \<Rightarrow> printed option" where
  "PR len t x = Some (if int (length (x @ t)) \<ge> len then Inl (x @ t) else Inr (x @ t))"

fun PR_then :: "printed option \<Rightarrow> (string \<Rightarrow> printed option) \<Rightarrow> printed option" where
  "PR_then None f = None"
| "PR_then (Some (Inl x)) f = Some (Inl x)"
| "PR_then (Some (Inr x)) f = f x"

text \<open>The connectors of a chain, as \<^verbatim>\<open>%llx:%s\<close> separated by commas.\<close>

definition conn_text :: "'w control \<Rightarrow> conn_ref \<Rightarrow> string option" where
  "conn_text s c = do {
     b \<leftarrow> belonging s c;
     d \<leftarrow> h_load_conn s c;
     Some (show_nat 16 (unat (b_addr s b)) @ '':'' @ lc_name d) }"

fun print_chain :: "int \<Rightarrow> 'w control \<Rightarrow> bool \<Rightarrow> conn_ref list \<Rightarrow> string \<Rightarrow> printed option" where
  "print_chain len s fst_one [] x = Some (Inr x)"
| "print_chain len s fst_one (c # cs) x = do {
     t \<leftarrow> conn_text s c;
     PR_then (PR len ((if fst_one then [] else '','') @ t) x) (print_chain len s False cs) }"

definition chain_conns :: "'w control \<Rightarrow> link_ref option \<Rightarrow> conn_ref list option" where
  "chain_conns s l = do { ls \<leftarrow> visit (l_chain s) l; those (map LINK_TO_CONN ls) }"

fun print_dirs :: "int \<Rightarrow> 'w control \<Rightarrow> nat list \<Rightarrow> string \<Rightarrow> printed option" where
  "print_dirs len s [] x = Some (Inr x)"
| "print_dirs len s (i # is) x =
     (if main_name s i = [] then print_dirs len s is x
      else
        PR_then (PR len (''  output='' @ main_name s i @ '' {'' @ [NL] @ ''    connect '' @ main_name s i @ ''='') x) (\<lambda>x. do {
        cs \<leftarrow> chain_conns s (l_first s (Dir i));
        PR_then (print_chain len s True cs x) (\<lambda>x.
        PR_then (PR len ([NL] @ ''  }'' @ [NL]) x) (print_dirs len s is)) }))"

text \<open>\<^verbatim>\<open>root_sid\<close> is printed with \<^verbatim>\<open>%s\<close>; for a null pointer \<^verbatim>\<open>snprintf\<close> prints \<^verbatim>\<open>(null)\<close>.\<close>

definition main_dir_info :: "'w env \<Rightarrow> int \<Rightarrow> 'w control \<Rightarrow> printed option" where
  "main_dir_info e len s =
     PR_then (PR len (''brick=ATHOMUX_MAINDIR {'' @ [NL]) []) (\<lambda>x.
     PR_then (PR len (''b_param ATHOMUX_MAINDIR='' @ (case root_sid e of None \<Rightarrow> ''(null)'' | Some t \<Rightarrow> t) @ [NL]) x) (\<lambda>x.
     PR_then (print_dirs len s [0..<MAINDIR_MAX] x) (PR len (''}'' @ [NL]))))"

definition param_text :: "brick_ref \<Rightarrow> 'w control \<Rightarrow> conn_ref \<Rightarrow> string option" where
  "param_text brick s c = (case c_param s c of
     P_null \<Rightarrow> None | P_own p \<Rightarrow> Some p | P_brick \<Rightarrow> b_param s brick | P_freed \<Rightarrow> None)"

definition print_c_param :: "int \<Rightarrow> brick_ref \<Rightarrow> 'w control \<Rightarrow> conn_ref \<Rightarrow> string \<Rightarrow> string \<Rightarrow> printed option" where
  "print_c_param len brick s c nm x = do {
     p \<leftarrow> param_text brick s c;
     if p = [] then Some (Inr x) else PR len (''    c_param '' @ nm @ ''='' @ p @ [NL]) x }"

text \<open>Where an input is connected to: an entry of the main directory is recognized by its \<^verbatim>\<open>chain\<close>.\<close>

definition peer_text :: "'w control \<Rightarrow> link_ref \<Rightarrow> string option" where
  "peer_text s l = (case (l_chain s l, l) of
     (Some _, Dir i) \<Rightarrow> Some (show_nat 16 0 @ '':'' @ main_name s i)
   | (Some _, Conn c) \<Rightarrow> None
   | (None, l) \<Rightarrow> do { c \<leftarrow> LINK_TO_CONN l; conn_text s c })"

definition print_peer :: "int \<Rightarrow> 'w control \<Rightarrow> conn_ref \<Rightarrow> string \<Rightarrow> string \<Rightarrow> printed option" where
  "print_peer len s c nm x = (case l_first s (Conn c) of
     None \<Rightarrow> Some (Inr x)
   | Some l \<Rightarrow> do { t \<leftarrow> peer_text s l; PR len (''    connect '' @ nm @ ''=='' @ t @ [NL]) x })"

fun print_inputs :: "int \<Rightarrow> brick_ref \<Rightarrow> 'w control \<Rightarrow> conn_ref list \<Rightarrow> string \<Rightarrow> printed option" where
  "print_inputs len brick s [] x = Some (Inr x)"
| "print_inputs len brick s (c # cs) x = do {
     d \<leftarrow> h_load_conn s c;
     if lc_type d \<or> c_param s c = P_null then print_inputs len brick s cs x
     else
       PR_then (PR len (''  input='' @ lc_name d @ '' {'' @ [NL]) x) (\<lambda>x.
       PR_then (print_c_param len brick s c (lc_name d) x) (\<lambda>x.
       PR_then (PR len (lc_static_info d) x) (\<lambda>x.
       PR_then (print_peer len s c (lc_name d) x) (\<lambda>x.
       PR_then (PR len (''  }'' @ [NL]) x) (print_inputs len brick s cs))))) }"

definition print_initialized :: "int \<Rightarrow> brick_ref \<Rightarrow> 'w control \<Rightarrow> conn_ref \<Rightarrow> 'w conn_desc \<Rightarrow> string \<Rightarrow> printed option" where
  "print_initialized len brick s c d x =
     PR_then (PR len (''  output='' @ lc_name d @ '' {'' @ [NL]) x) (\<lambda>x.
     PR_then (print_c_param len brick s c (lc_name d) x) (\<lambda>x.
     PR_then (PR len (lc_static_info d @ ''    connect '' @ lc_name d @ ''='') x) (\<lambda>x. do {
     ins \<leftarrow> chain_conns s (l_first s (Conn c));
     PR_then (print_chain len s True ins x) (PR len [NL]) })))"

fun print_outputs :: "int \<Rightarrow> brick_ref \<Rightarrow> 'w control \<Rightarrow> bool \<Rightarrow> conn_ref list \<Rightarrow> string \<Rightarrow> printed option" where
  "print_outputs len brick s added [] x = Some (Inr x)"
| "print_outputs len brick s added (c # cs) x = do {
     d \<leftarrow> h_load_conn s c;
     if \<not> lc_type d \<or> (c_param s c = P_null \<and> added) then print_outputs len brick s added cs x
     else
       PR_then (PR len (''  output='' @ lc_name d @ '' {'' @ [NL]) x) (\<lambda>x.
       PR_then (if c_param s c \<noteq> P_null then print_initialized len brick s c d x
                else PR len (''  output=='' @ lc_name d @ '' {'' @ [NL]) x) (\<lambda>x.
       PR_then (PR len (''  }'' @ [NL]) x) (print_outputs len brick s (added \<or> c_param s c = P_null) cs))) }"

definition gen_info :: "int \<Rightarrow> brick_ref \<Rightarrow> 'w control \<Rightarrow> printed option" where
  "gen_info len brick s = (let ld = b_loader s brick in
     PR_then (PR len (''brick='' @ bd_name ld @ '' {'' @ [NL]) []) (\<lambda>x. do {
     p \<leftarrow> b_param s brick;
     PR_then (if p = [] then Some (Inr x) else PR len (''  b_param '' @ bd_name ld @ ''='' @ p @ [NL]) x) (\<lambda>x.
     PR_then (PR len (bd_static_info ld) x) (\<lambda>x. do {
     cs \<leftarrow> visit (conn_next s) (connectors s brick);
     PR_then (print_inputs len brick s cs x) (\<lambda>x.
     PR_then (print_outputs len brick s False cs x) (PR len (''}'' @ [NL]))) })) }))"

section \<open>The operations of the output\<close>

text \<open>The lookups that most operations begin with; each returns when it finds nothing.\<close>

definition with_brick :: "addr_t \<Rightarrow> (brick_ref \<Rightarrow> args \<times> 'w control \<times> 'w \<Rightarrow> (args \<times> 'w control \<times> 'w) option) \<Rightarrow>
    args \<times> 'w control \<times> 'w \<Rightarrow> (args \<times> 'w control \<times> 'w) option" where
  "with_brick addr f = (\<lambda>(a, s, w). do {
     found \<leftarrow> find_brick_hash addr s;
     case found of None \<Rightarrow> Some (a, s, w) | Some brick \<Rightarrow> f brick (a, s, w) })"

definition with_conn :: "conn_info \<Rightarrow> (brick_ref \<Rightarrow> conn_ref \<Rightarrow> args \<times> 'w control \<times> 'w \<Rightarrow> (args \<times> 'w control \<times> 'w) option) \<Rightarrow>
    args \<times> 'w control \<times> 'w \<Rightarrow> (args \<times> 'w control \<times> 'w) option" where
  "with_conn ci f = with_brick (conn_addr ci) (\<lambda>brick (a, s, w). do {
     found \<leftarrow> find_conn brick (conn_name ci) (conn_index ci) s;
     case found of None \<Rightarrow> Some (a, s, w) | Some c \<Rightarrow> f brick c (a, s, w) })"

text \<open>\<^verbatim>\<open>$instbrick\<close>: a brick that is missing is created and entered, then its initialization is called if asked for.\<close>

definition enter_brick :: "'w env \<Rightarrow> string \<Rightarrow> args \<times> 'w control \<times> 'w \<Rightarrow> (brick_ref option \<times> args \<times> 'w control \<times> 'w) option" where
  "enter_brick e param = (\<lambda>(a, s, w). do {
     (r, mand, s, w) \<leftarrow> new_brick e (args.name a) param (ctl_mand s) (s, w);
     let s = s\<lparr>ctl_mand := mand\<rparr>;
     case r of
       None \<Rightarrow> Some (None, a, s, w)
     | Some brick \<Rightarrow>
         (let s = s\<lparr>b_addr := (b_addr s)(brick := log_addr a)\<rparr>
          in Some (Some brick, a\<lparr>success := True\<rparr>, insert_brick_hash brick s, w)) })"

definition init_brick :: "string \<Rightarrow> brick_ref \<Rightarrow> args \<times> 'w control \<times> 'w \<Rightarrow> args \<times> 'w control \<times> 'w" where
  "init_brick param brick = (\<lambda>(a, s, w).
     if constr a \<or> destr a then
       (let (a, w) = bd_init_brick (b_loader s brick) (b_instance s brick) param
              (a\<lparr>success := False, op_code := opcode_brick_init\<rparr>, w)
        in (a, s, w))
     else (a, s, w))"

definition ctl_instbrick :: "'w env \<Rightarrow> 'w ctl_op" where
  "ctl_instbrick e param = (\<lambda>(a, s, w).
     if log_addr a = 0 then Some (a, s, w)
     else do {
       found \<leftarrow> find_brick_hash (log_addr a) s;
       (res, x) \<leftarrow> (case found of Some brick \<Rightarrow> Some (Some brick, a, s, w) | None \<Rightarrow> enter_brick e param (a, s, w));
       case res of None \<Rightarrow> Some x | Some brick \<Rightarrow> Some (init_brick param brick x) })"

definition ctl_deinstbrick :: "'w ctl_op" where
  "ctl_deinstbrick param = (\<lambda>(a, s, w).
     if log_addr a = 0 then Some (a, s, w)
     else with_brick (log_addr a) (\<lambda>brick (a, s, w). do {
       (ok, s, w) \<leftarrow> delete_brick brick param (s, w);
       Some (a\<lparr>success := ok\<rparr>, s, w) }) (a, s, w))"

text \<open>\<^verbatim>\<open>$instconn\<close>: the connector is a free one or the one with the index asked for, unless it is instantiated
  already.\<close>

definition choose_conn :: "'w env \<Rightarrow> brick_ref \<Rightarrow> 'w conn_desc \<Rightarrow> index_t \<Rightarrow> 'w control \<Rightarrow> (conn_ref option \<times> 'w control) option" where
  "choose_conn e brick d i s =
     (if i < 0 then new_conn e brick d s
      else do {
        c \<leftarrow> get_conn brick d i s;
        Some (case c of None \<Rightarrow> None | Some c \<Rightarrow> if own_param s c then None else Some c, s) })"

definition alloc_param :: "'w env \<Rightarrow> conn_ref \<Rightarrow> string \<Rightarrow> 'w control \<Rightarrow> bool \<times> 'w control" where
  "alloc_param e c param s =
     (if c_param s c \<noteq> P_null then (True, s)
      else case malloc e (length param + 1) s of
        (None, s) \<Rightarrow> (False, s)
      | (Some _, s) \<Rightarrow> (True, s\<lparr>c_param := (c_param s)(c := P_own param)\<rparr>))"

definition inst_found :: "'w env \<Rightarrow> brick_ref \<Rightarrow> 'w conn_desc \<Rightarrow> conn_ref \<Rightarrow> 'w ctl_op" where
  "inst_found e brick d c param = (\<lambda>(a, s, w). do {
     let (room, s) = alloc_param e c param s;
     if \<not> room then Some (a, s, w)
     else do {
       let old = belonging s c;
       (s, w) \<leftarrow> (if old = None then create_conn e brick c d (c_index s c) (s, w) else Some (s, w));
       let (a, w) = lc_init_conn d (c_instance s c) param (a\<lparr>op_code := opcode_output_init\<rparr>, w);
       if \<not> success a then do { s \<leftarrow> free_param brick c s; Some (a, s, w) }
       else do {
         let s = (if old = None then insert_conn brick c s else s);
         c1 \<leftarrow> conn1 a;
         Some (a\<lparr>conn1 := Some (c1\<lparr>conn_index := c_index s c\<rparr>), success := True\<rparr>, s, w) } } })"

definition inst_named :: "'w env \<Rightarrow> conn_info \<Rightarrow> string \<Rightarrow> brick_ref \<Rightarrow> args \<times> 'w control \<times> 'w \<Rightarrow> (args \<times> 'w control \<times> 'w) option" where
  "inst_named e c1 param brick = (\<lambda>(a, s, w). case find_load_conn brick (conn_name c1) s of
     None \<Rightarrow> Some (a, s, w)
   | Some d \<Rightarrow> do {
       (c, s) \<leftarrow> choose_conn e brick d (conn_index c1) s;
       case c of
         None \<Rightarrow> Some (a, s, w)
       | Some c \<Rightarrow> inst_found e brick d c param (a, s, w) })"

definition ctl_instconn :: "'w env \<Rightarrow> 'w ctl_op" where
  "ctl_instconn e param = (\<lambda>(a, s, w). do {
     c1 \<leftarrow> conn1 a;
     if conn_addr c1 = 0 then do {
       (ok, s) \<leftarrow> new_main_dir (conn_name c1) s;
       Some (if ok then a\<lparr>success := True\<rparr> else a, s, w) }
     else with_brick (conn_addr c1) (inst_named e c1 param) (a, s, w) })"

definition deinst_found :: "string \<Rightarrow> brick_ref \<Rightarrow> conn_ref \<Rightarrow> args \<times> 'w control \<times> 'w \<Rightarrow> (args \<times> 'w control \<times> 'w) option" where
  "deinst_found param brick c = (\<lambda>(a, s, w). case h_load_conn s c of
     None \<Rightarrow> Some (a, s, w)
   | Some d \<Rightarrow>
       if \<not> own_param s c \<or> l_first s (Conn c) \<noteq> None then Some (a, s, w)
       else do {
         let code = (if lc_type d then opcode_output_init else opcode_input_init);
         let (_, w) = lc_init_conn d (c_instance s c) param (zero_args\<lparr>destr := True, op_code := code\<rparr>, w);
         s \<leftarrow> free_param brick c s;
         Some (a\<lparr>success := True\<rparr>, s\<lparr>c_param := (c_param s)(c := P_null)\<rparr>, w) })"

definition ctl_deinstconn :: "'w ctl_op" where
  "ctl_deinstconn param = (\<lambda>(a, s, w). do {
     c1 \<leftarrow> conn1 a;
     if conn_addr c1 = 0 then Some (a, s, w)
     else with_conn c1 (deinst_found param) (a, s, w) })"

text \<open>The lazy instantiation in \<^verbatim>\<open>$connect\<close>: a call of \<^verbatim>\<open>$instconn\<close> with an argument structure of its own that
  shares the connector description.\<close>

definition lazy_instconn :: "'w env \<Rightarrow> string \<Rightarrow> conn_ref \<Rightarrow> conn_info \<Rightarrow> mand_t \<Rightarrow> 'w control \<times> 'w \<Rightarrow> (bool \<times> conn_info \<times> 'w control \<times> 'w) option" where
  "lazy_instconn e param c ci mand = (\<lambda>(s, w).
     if initialized e c w then Some (True, ci, s, w)
     else do {
       (t, s, w) \<leftarrow> ctl_instconn e param (zero_args\<lparr>conn1 := Some ci, constr := True, mandate := mand, op_code := opcode_instconn\<rparr>, s, w);
       ci \<leftarrow> conn1 t;
       Some (success t, ci, s, w) })"

text \<open>\<^verbatim>\<open>$connect\<close> to an output: both ends are instantiated if need be, then connected; a failure then ends the
  program.\<close>

definition join_found :: "conn_ref \<Rightarrow> conn_ref \<Rightarrow> 'w control \<Rightarrow> 'w control option" where
  "join_found other c s = do {
     (ok, s) \<leftarrow> type_connect other c s;
     if \<not> ok then None
     else do {
       (ok, s) \<leftarrow> inner_connect other c s;
       if \<not> ok then None else Some (outer_connect (Conn other) (Conn c) s) } }"

definition connect_output :: "'w env \<Rightarrow> conn_ref \<Rightarrow> conn_info \<Rightarrow> string \<Rightarrow> brick_ref \<Rightarrow> conn_ref \<Rightarrow>
    args \<times> 'w control \<times> 'w \<Rightarrow> (args \<times> 'w control \<times> 'w) option" where
  "connect_output e c c2 param brick2 other = (\<lambda>(a, s, w). case h_load_conn s other of
     None \<Rightarrow> Some (a, s, w)
   | Some d \<Rightarrow>
       if \<not> lc_type d then Some (a, s, w)
       else do {
         (ok, c2, s, w) \<leftarrow> lazy_instconn e param other c2 (mandate a) (s, w);
         let a = a\<lparr>conn2 := Some c2\<rparr>;
         if \<not> ok \<or> c_param s other = P_null then Some (a, s, w)
         else do { s \<leftarrow> join_found other c s; Some (a\<lparr>success := True\<rparr>, s, w) } })"

definition connect_input :: "'w env \<Rightarrow> conn_info \<Rightarrow> conn_info \<Rightarrow> string \<Rightarrow> brick_ref \<Rightarrow> conn_ref \<Rightarrow>
    args \<times> 'w control \<times> 'w \<Rightarrow> (args \<times> 'w control \<times> 'w) option" where
  "connect_input e c1 c2 param brick c = (\<lambda>(a, s, w). do {
     d \<leftarrow> h_load_conn s c;
     if lc_type d \<or> l_first s (Conn c) \<noteq> None then Some (a, s, w)
     else if conn_addr c2 = 0 then
       (case find_main_dir (conn_name c2) s of
          None \<Rightarrow> Some (a, s, w)
        | Some i \<Rightarrow>
            (let s = outer_connect (Dir i) (Conn c) s;
                 s = s\<lparr>l_chain := (l_chain s)(Dir i := Some (Dir i))\<rparr>
             in Some (a\<lparr>success := True\<rparr>, s, w)))
     else do {
       (ok, c1, s, w) \<leftarrow> lazy_instconn e param c c1 (mandate a) (s, w);
       let a = a\<lparr>conn1 := Some c1\<rparr>;
       if \<not> ok then Some (a, s, w) else with_conn c2 (connect_output e c c2 param) (a, s, w) } })"

definition ctl_connect :: "'w env \<Rightarrow> 'w ctl_op" where
  "ctl_connect e param = (\<lambda>(a, s, w). do {
     c1 \<leftarrow> conn1 a;
     c2 \<leftarrow> conn2 a;
     with_conn c1 (connect_input e c1 c2 param) (a, s, w) })"

definition disconnect_found :: "brick_ref \<Rightarrow> conn_ref \<Rightarrow> args \<times> 'w control \<times> 'w \<Rightarrow> (args \<times> 'w control \<times> 'w) option" where
  "disconnect_found brick c = (\<lambda>(a, s, w). case h_load_conn s c of
     None \<Rightarrow> Some (a, s, w)
   | Some d \<Rightarrow>
       if lc_type d \<or> l_first s (Conn c) = None then Some (a, s, w)
       else do { (_, s) \<leftarrow> disconnect c s; Some (a\<lparr>success := True\<rparr>, s, w) })"

definition ctl_disconnect :: "'w ctl_op" where
  "ctl_disconnect param = (\<lambda>(a, s, w). do { c1 \<leftarrow> conn1 a; with_conn c1 disconnect_found (a, s, w) })"

text \<open>The macro \<^verbatim>\<open>mk_conn_info\<close>: with too little room it leaves the operation with \<^verbatim>\<open>conn_len\<close> as it was.\<close>

definition conn_info_of :: "'w control \<Rightarrow> conn_ref \<Rightarrow> conn_info option" where
  "conn_info_of s c = do {
     b \<leftarrow> belonging s c;
     d \<leftarrow> h_load_conn s c;
     Some \<lparr>conn_addr = b_addr s b, conn_index = c_index s c, conn_name = lc_name d\<rparr> }"

definition mk_conn_info :: "'w env \<Rightarrow> link_ref option \<Rightarrow> args \<times> 'w control \<times> 'w \<Rightarrow> (args \<times> 'w control \<times> 'w) option" where
  "mk_conn_info e l = (\<lambda>(a, s, w). do {
     cs \<leftarrow> chain_conns s l;
     infos \<leftarrow> those (map (conn_info_of s) cs);
     let rest = unat (of_int (conn_len a) :: u32);
     let n = rest div 20;
     if res_conn a = None \<and> take n infos \<noteq> [] then None
     else if n < length infos then Some (a, s, put_infos e (take n infos) w)
     else Some (a\<lparr>conn_len := conn_len a - sint (of_nat (rest - 20 * length infos) :: u32)\<rparr>, s, put_infos e infos w) })"

definition ctl_getconn :: "'w env \<Rightarrow> 'w ctl_op" where
  "ctl_getconn e param = (\<lambda>(a, s, w). do {
     c1 \<leftarrow> conn1 a;
     if conn_addr c1 = 0 then
       (case find_main_dir (conn_name c1) s of
          None \<Rightarrow> Some (a, s, w)
        | Some i \<Rightarrow> mk_conn_info e (l_first s (Dir i)) (a\<lparr>success := True\<rparr>, s, w))
     else with_conn c1 (\<lambda>brick c (a, s, w). mk_conn_info e (l_first s (Conn c)) (a\<lparr>success := True\<rparr>, s, w)) (a, s, w) })"

definition ctl_findconn :: "'w env \<Rightarrow> 'w ctl_op" where
  "ctl_findconn e param = (\<lambda>(a, s, w). do {
     c1 \<leftarrow> conn1 a;
     with_brick (conn_addr c1) (\<lambda>brick (a, s, w). do {
       c \<leftarrow> find_param brick param s;
       case c of
         None \<Rightarrow> Some (a, s, w)
       | Some c \<Rightarrow> do {
           d \<leftarrow> h_load_conn s c;
           let a = a\<lparr>conn1 := Some (c1\<lparr>conn_name := lc_name d, conn_index := c_index s c\<rparr>), success := True\<rparr>;
           if res_conn a = None then Some (a, s, w) else mk_conn_info e (l_first s (Conn c)) (a, s, w) } }) (a, s, w) })"

text \<open>\<^verbatim>\<open>$trans\<close>: reading prints the brick or the main directory into the buffer, writing hands the text to the
  sub-instance \<^verbatim>\<open>adapt\<close>, an argument here.  \<open>put_info\<close> takes the result of the print routines: the
  number they return and what the buffer has.  A length that is negative as an \<^verbatim>\<open>int\<close> is outside the
  contract of \<^verbatim>\<open>snprintf\<close>.\<close>

definition put_info :: "'w env \<Rightarrow> int \<Rightarrow> nat \<Rightarrow> printed \<Rightarrow> args \<times> 'w control \<times> 'w \<Rightarrow> args \<times> 'w control \<times> 'w" where
  "put_info e len extra r = (\<lambda>(a, s, w). case r of
     Inl x \<Rightarrow> (a\<lparr>phys_len := 0\<rparr>, s, if len = 0 then w else put_text e (phys_addr a) (take (nat len - 1) x) w)
   | Inr x \<Rightarrow> (a\<lparr>phys_len := of_nat (length x + extra)\<rparr>, s, put_text e (phys_addr a) x w))"

definition succeed :: "args \<times> 's \<Rightarrow> args \<times> 's" where
  "succeed = (\<lambda>(a, s). (a\<lparr>success := True\<rparr>, s))"

definition ctl_trans :: "'w env \<Rightarrow> 'w ctl_op \<Rightarrow> 'w ctl_op" where
  "ctl_trans e adapt param = (\<lambda>(a, s, w).
     if direction a = direct_read then
       (let len = sint (ucast (log_len a) :: u32) in
        if len < 0 then None
        else if log_addr a = 0 then do {
          r \<leftarrow> main_dir_info e len s;
          Some (succeed (put_info e len 0 r (a, s, w))) }
        else with_brick (log_addr a) (\<lambda>brick (a, s, w). do {
          r \<leftarrow> gen_info len brick s;
          Some (succeed (put_info e len 1 r (a, s, w))) }) (a, s, w))
     else if direction a = direct_write then map_option succeed (adapt param (a, s, w))
     else Some (succeed (a, s, w)))"

definition ctl_gadr :: "'w ctl_op" where
  "ctl_gadr param = (\<lambda>(a, s, w).
     let a = (if log_len a = 0 then a\<lparr>log_len := of_nat REPRES_MAX\<rparr> else a);
         a = a\<lparr>log_addr := last_addr s\<rparr>
     in Some (a\<lparr>success := True\<rparr>, s\<lparr>last_addr := last_addr s + log_len a\<rparr>, w))"

section \<open>The table of the output\<close>

text \<open>As operations of a table the definitions act on the state of a running program, \<open>None\<close> being the state of
  one that has ended.  \<^verbatim>\<open>$get\<close>, \<^verbatim>\<open>$createget\<close> and \<^verbatim>\<open>$put\<close> end it; the defaults of \<open>Nest_Ops\<close> complete the table.\<close>

type_synonym 'w running = "('w control \<times> 'w) option"

definition run_op :: "'w ctl_op \<Rightarrow> 'w running operation" where
  "run_op f param = (\<lambda>(a, st). case st of
     None \<Rightarrow> (a, None)
   | Some (s, w) \<Rightarrow> (case f param (a, s, w) of None \<Rightarrow> (a, None) | Some (a, s, w) \<Rightarrow> (a, Some (s, w))))"

definition sub_op :: "'w running operation \<Rightarrow> 'w ctl_op" where
  "sub_op f param = (\<lambda>(a, s, w). case f param (a, Some (s, w)) of
     (a, None) \<Rightarrow> None
   | (a, Some (s, w)) \<Rightarrow> Some (a, s, w))"

definition control_impl :: "'w env \<Rightarrow> 'w running operation \<Rightarrow> 'w running brick_impl" where
  "control_impl e adapt sect c = map_option run_op (case c of
     opcode_output_init \<Rightarrow> Some (\<lambda>param x. Some (succeed x))
   | opcode_instbrick \<Rightarrow> Some (ctl_instbrick e)
   | opcode_deinstbrick \<Rightarrow> Some ctl_deinstbrick
   | opcode_instconn \<Rightarrow> Some (ctl_instconn e)
   | opcode_deinstconn \<Rightarrow> Some ctl_deinstconn
   | opcode_connect \<Rightarrow> Some (ctl_connect e)
   | opcode_disconnect \<Rightarrow> Some ctl_disconnect
   | opcode_getconn \<Rightarrow> Some (ctl_getconn e)
   | opcode_findconn \<Rightarrow> Some (ctl_findconn e)
   | opcode_trans \<Rightarrow> Some (ctl_trans e (sub_op adapt))
   | opcode_wait \<Rightarrow> Some (\<lambda>param x. Some (succeed x))
   | opcode_create \<Rightarrow> Some (\<lambda>param x. Some (succeed x))
   | opcode_delete \<Rightarrow> Some (\<lambda>param x. Some (succeed x))
   | opcode_get \<Rightarrow> Some (\<lambda>param x. None)
   | opcode_createget \<Rightarrow> Some (\<lambda>param x. None)
   | opcode_put \<Rightarrow> Some (\<lambda>param x. None)
   | opcode_gadr \<Rightarrow> Some ctl_gadr
   | _ \<Rightarrow> None)"

text \<open>\<^verbatim>\<open>$brick_init\<close>, which the loader table of the brick names: the initializations of \<open>Brick_Init\<close>, whatever comes of them.\<close>

definition ctl_brick_init :: "'w loader \<Rightarrow> int \<Rightarrow> 'w operation" where
  "ctl_brick_init loader brick param x =
     (let x = init_all_conns loader 0 brick param x;
          x = init_all_instances loader brick param x;
          x = init_all_conns loader 1 brick param x
      in succeed x)"

section \<open>The first brick\<close>

text \<open>\<^verbatim>\<open>static_init\<close>: the control brick creates itself, with its own output instantiated by hand, at the address
  behind the main directory, and connects its input \<^verbatim>\<open>hook\<close> to a new entry of the main directory.
  \<open>statics\<close> stands for the static initialization of the other brick types.\<close>

definition empty_control :: "'w control" where
  "empty_control = \<lparr> l_first = Map.empty, l_chain = Map.empty, conn_next = Map.empty, belonging = Map.empty, c_instance = (\<lambda>_. 0),
     c_param = (\<lambda>_. P_null), h_load_conn = Map.empty, c_index = (\<lambda>_. 0), in_connect = Map.empty, rev_next = Map.empty,
     rev_chain = Map.empty, b_addr = (\<lambda>_. 0), hash_next = Map.empty, b_instance = (\<lambda>_. 0), b_param = Map.empty,
     b_loader = (\<lambda>_. \<lparr> bd_name = [], bd_static_info = [], bd_instance_size = 0, bd_conn_totalcount = 0, bd_conn = [],
       bd_dynamic_init = (\<lambda>_ _ m w. (m, w)), bd_dynamic_exit = (\<lambda>_ _ w. w), bd_init_brick = (\<lambda>_. missing_stub) \<rparr>),
     connectors = Map.empty, last_conn = Map.empty, gen_tables = Map.empty, main_name = (\<lambda>_. []), brick_hash = Map.empty,
     last_addr = 0, ctl_mand = 10, counter = 10000, allocs = 0 \<rparr>"

definition static_init :: "'w env \<Rightarrow> ('w \<Rightarrow> 'w) \<Rightarrow> mand_t \<Rightarrow> 'w \<Rightarrow> ('w control \<times> 'w) option" where
  "static_init e statics base_mand w = do {
     (r, mand, s, w) \<leftarrow> new_brick e ''control_simple'' ''self-booted-by-default-init'' base_mand (empty_control, w);
     boot \<leftarrow> r;
     let w = statics w;
     d \<leftarrow> find_load_conn boot ''control'' s;
     let c = Slot boot (nat (lc_start_index d));
     (s, w) \<leftarrow> create_conn e boot c d 0 (s, w);
     let s = s\<lparr>c_param := (c_param s)(c := P_own ''default-control'')\<rparr>;
     let s = insert_conn boot c s;
     let s = s\<lparr>c_param := (c_param s)(Slot boot 1 := P_brick)\<rparr>;
     let s = s\<lparr>b_addr := (b_addr s)(boot := of_nat REPRES_MAX), last_addr := of_nat REPRES_MAX + of_nat REPRES_MAX\<rparr>;
     let (_, w) = bd_init_brick (b_loader s boot) (b_instance s boot) [] (zero_args\<lparr>constr := True\<rparr>, w);
     let s = insert_brick_hash boot s;
     let root1 = \<lparr>conn_addr = 0, conn_index = 0, conn_name = ''control''\<rparr>;
     (_, s, w) \<leftarrow> ctl_instconn e [] (zero_args\<lparr>conn1 := Some root1\<rparr>, s, w);
     (_, s, w) \<leftarrow> ctl_connect e []
       (zero_args\<lparr>conn1 := Some \<lparr>conn_addr = b_addr s boot, conn_index = 0, conn_name = ''hook''\<rparr>, conn2 := Some root1\<rparr>, s, w);
     Some (s, w) }"

end
