(* ===== verification/Control_Inv.thy ===== *)
theory Control_Inv
  imports Control_Simple
begin

text \<open>
  The invariant of the control brick: the hash table of bricks, the list of connectors of each brick and the
  graph of connections are well-formed and agree, and no connection leads to a connector of a deleted
  brick.  Every operation keeps it.
\<close>

section \<open>The invariant\<close>

text \<open>\<open>H i\<close> is the chain of bricks with hash value \<open>i\<close>, \<open>L b\<close> the connectors of brick \<open>b\<close>, \<open>G\<close> the graph.\<close>

definition live :: "(nat \<Rightarrow> brick_ref list) \<Rightarrow> brick_ref \<Rightarrow> bool" where
  "live H b \<longleftrightarrow> (\<exists>i. b \<in> set (H i))"

definition hash_ok :: "'w control \<Rightarrow> (nat \<Rightarrow> brick_ref list) \<Rightarrow> bool" where
  "hash_ok s H \<longleftrightarrow> (\<forall>i. linked (hash_next s) (brick_hash s i) (H i) \<and> distinct (map (b_addr s) (H i))
     \<and> (\<forall>b \<in> set (H i). brick_hash_fn (b_addr s b) = i))"

fun conn_id :: "conn_ref \<Rightarrow> nat" where
  "conn_id (Slot b k) = b"
| "conn_id (Dyn n) = n"

definition listed :: "'w control \<Rightarrow> conn_ref list \<Rightarrow> brick_ref \<Rightarrow> bool" where
  "listed s cs b \<longleftrightarrow> linked (conn_next s) (connectors s b) cs
     \<and> last_conn s b = (if cs = [] then None else Some (last cs))
     \<and> set cs = {c. belonging s c = Some b} \<and> (\<forall>c \<in> set cs. c_param s c \<noteq> P_freed) \<and> b_param s b \<noteq> None"

definition owned :: "'w control \<Rightarrow> bool" where
  "owned s \<longleftrightarrow> (\<forall>c. (belonging s c = None \<longleftrightarrow> h_load_conn s c = None) \<and> (belonging s c = None \<longrightarrow> conn_next s c = None))
     \<and> (\<forall>b k b'. belonging s (Slot b k) = Some b' \<longrightarrow> b' = b)
     \<and> (\<forall>c b. belonging s c = Some b \<longrightarrow> b < allocs s \<and> conn_id c < allocs s)"

text \<open>A connection is well typed: the output has the generic types and the sections of the input.\<close>

definition fits :: "'w control \<Rightarrow> conn_ref \<Rightarrow> conn_ref \<Rightarrow> bool" where
  "fits s oc c \<longleftrightarrow> (case (h_load_conn s oc, h_load_conn s c) of
     (Some od, Some idc) \<Rightarrow> fst (type_loop 0 (lc_gen_type idc) (lc_gen_type od) Map.empty) \<and> lc_sect_count idc \<le> lc_sect_count od
   | _ \<Rightarrow> False)"

definition typed :: "'w control \<Rightarrow> (link_ref \<Rightarrow> conn_ref list) \<Rightarrow> bool" where
  "typed s G \<longleftrightarrow> (\<forall>oc. \<forall>c \<in> set (G (Conn oc)). fits s oc c)"

lemma typed_cong: "h_load_conn s' = h_load_conn s \<Longrightarrow> typed s' G = typed s G"
  by (simp add: typed_def fits_def)

lemma typed_mono: "typed s G \<Longrightarrow> (\<And>l. set (G' l) \<subseteq> set (G l)) \<Longrightarrow> typed s G'"
  by (auto simp: typed_def)

lemma typed_grow: "typed s G \<Longrightarrow> (\<And>c d. h_load_conn s c = Some d \<Longrightarrow> h_load_conn s' c = Some d) \<Longrightarrow> typed s' G"
  by (fastforce simp: typed_def fits_def split: option.splits)

lemma type_loop_result: "fst (type_loop base ins outs m) = fst (type_loop base' ins outs m')"
  by (induction ins arbitrary: outs m m') (auto split: prod.splits)

definition alive_ends :: "'w control \<Rightarrow> (link_ref \<Rightarrow> conn_ref list) \<Rightarrow> (nat \<Rightarrow> brick_ref list) \<Rightarrow> bool" where
  "alive_ends s G H \<longleftrightarrow> (\<forall>c l. c \<in> set (G l) \<or> (l = Conn c \<and> G l \<noteq> []) \<longrightarrow> (\<exists>b. live H b \<and> belonging s c = Some b))
     \<and> typed s G"

text \<open>The bricks of \<open>B\<close> are not in the hash table yet but have their list of connectors.\<close>

definition wfx :: "'w env \<Rightarrow> 'w control \<Rightarrow> (link_ref \<Rightarrow> conn_ref list) \<Rightarrow> (nat \<Rightarrow> brick_ref list) \<Rightarrow> (brick_ref \<Rightarrow> conn_ref list) \<Rightarrow>
    brick_ref set \<Rightarrow> bool" where
  "wfx e s G H L B \<longleftrightarrow> graph s G \<and> hash_ok s H \<and> owned s \<and> alive_ends s G H
     \<and> (\<forall>b. live H b \<or> b \<in> B \<longrightarrow> listed s (L b) b \<and> b < allocs s \<and> b_loader s b \<in> set (loaders e))"

definition wfr :: "'w env \<Rightarrow> 'w control \<Rightarrow> (link_ref \<Rightarrow> conn_ref list) \<Rightarrow> (nat \<Rightarrow> brick_ref list) \<Rightarrow> (brick_ref \<Rightarrow> conn_ref list) \<Rightarrow> bool" where
  "wfr e s G H L \<longleftrightarrow> graph s G \<and> hash_ok s H \<and> owned s \<and> alive_ends s G H
     \<and> (\<forall>b. live H b \<longrightarrow> listed s (L b) b \<and> b < allocs s \<and> b_loader s b \<in> set (loaders e))"

lemma wfr_wfx: "wfr e s G H L = wfx e s G H L {}"
  by (simp add: wfr_def wfx_def)

definition ctl_wf :: "'w env \<Rightarrow> 'w control \<Rightarrow> bool" where
  "ctl_wf e s \<longleftrightarrow> (\<exists>G H L. wfr e s G H L)"

text \<open>What the control brick relies on in the code of the bricks: the initialization of a connector succeeds.\<close>

definition inits_succeed :: "'w env \<Rightarrow> bool" where
  "inits_succeed e \<longleftrightarrow> (\<forall>ld \<in> set (loaders e). \<forall>d \<in> set (bd_conn ld). \<forall>i p a w. success (fst (lc_init_conn d i p (a, w))))"

lemma ownedD:
  assumes "owned s"
  shows "belonging s c = None \<longleftrightarrow> h_load_conn s c = None" "belonging s c = None \<Longrightarrow> conn_next s c = None"
    "belonging s (Slot b k) = Some b' \<Longrightarrow> b' = b" "belonging s c = Some b' \<Longrightarrow> conn_id c < allocs s" "belonging s c = Some b' \<Longrightarrow> b' < allocs s"
  using assms by (auto simp: owned_def)

lemma graph_cong:
  "h_load_conn s' = h_load_conn s \<Longrightarrow> l_first s' = l_first s \<Longrightarrow> l_chain s' = l_chain s \<Longrightarrow> in_connect s' = in_connect s \<Longrightarrow>
     rev_next s' = rev_next s \<Longrightarrow> rev_chain s' = rev_chain s \<Longrightarrow> graph s' G = graph s G"
  unfolding graph_def using outer_ok_cong [of s' s] inner_ok_cong [of s' s] by presburger

lemma wfr_cong:
  assumes "h_load_conn s' = h_load_conn s" "l_first s' = l_first s" "l_chain s' = l_chain s" "in_connect s' = in_connect s"
    "rev_next s' = rev_next s" "rev_chain s' = rev_chain s" "conn_next s' = conn_next s" "belonging s' = belonging s"
    "c_param s' = c_param s" "b_addr s' = b_addr s" "hash_next s' = hash_next s" "b_param s' = b_param s" "b_loader s' = b_loader s"
    "connectors s' = connectors s" "last_conn s' = last_conn s" "brick_hash s' = brick_hash s" "allocs s' = allocs s"
  shows "wfr e s' G H L = wfr e s G H L" "wfx e s' G H L B = wfx e s G H L B"
  unfolding wfr_def wfx_def graph_cong [OF assms(1-6)] by (simp_all add: assms(7-) assms(1) hash_ok_def listed_def owned_def alive_ends_def typed_cong [OF assms(1)])

lemma wfr_relinked:
  assumes "wfr e s G H L" "relinked s s'" "graph s' G'" "alive_ends s G' H"
  shows "wfr e s' G' H L"
  using assms typed_cong [of s' s] by (simp add: wfr_def relinked_def hash_ok_def listed_def owned_def alive_ends_def)

lemma find_brick:
  assumes "hash_ok s H"
  shows "find_brick_hash a s = Some (find (\<lambda>b. b_addr s b = a) (H (brick_hash_fn a)))"
  unfolding find_brick_hash_def using assms by (intro find_node_linked) (simp add: hash_ok_def)

lemma find_brick_live:
  assumes "hash_ok s H" "find_brick_hash a s = Some (Some b)"
  shows "live H b \<and> b_addr s b = a"
  using assms by (auto simp: find_brick find_Some_iff live_def intro: nth_mem)

lemma find_brick_none:
  assumes "hash_ok s H" "find_brick_hash a s = Some None" "live H b"
  shows "b_addr s b \<noteq> a"
  using assms by (auto simp: find_brick find_None_iff live_def hash_ok_def)

text \<open>A connector that is found belongs to its brick, unless it has not been created yet.\<close>

lemma wfr_listed: "wfr e s G H L \<Longrightarrow> live H b \<Longrightarrow> listed s (L b) b"
  by (simp add: wfr_def)

lemma listed_belongs: "listed s cs b \<Longrightarrow> c \<in> set cs \<longleftrightarrow> belonging s c = Some b"
  by (auto simp: listed_def)

lemma get_conn_belongs:
  assumes "wfr e s G H L" "live H b" "get_conn b d i s = Some (Some c)"
  shows "(\<exists>k. c = Slot b k \<and> lc_count d \<noteq> 0) \<or> belonging s c = Some b"
proof (cases "lc_count d = 0")
  case True
  have l: "listed s (L b) b" using assms by (simp add: wfr_def)
  then have "find_node (conn_next s) (\<lambda>c. c_index s c = i) (connectors s b) = Some (find (\<lambda>c. c_index s c = i) (L b))"
    by (intro find_node_linked) (simp add: listed_def)
  then have "c \<in> set (L b)" using assms(3) True by (auto simp: get_conn_def find_Some_iff)
  then show ?thesis using l by (auto simp: listed_def)
next
  case False
  then show ?thesis using assms(3) by (auto simp: get_conn_def split: if_splits)
qed

lemma found_conn_belongs:
  assumes "wfr e s G H L" "live H b" "find_conn b nm i s = Some (Some c)" "h_load_conn s c \<noteq> None"
  shows "belonging s c = Some b"
proof -
  obtain d where "get_conn b d i s = Some (Some c)" using assms(3) by (auto simp: find_conn_def split: option.splits)
  from get_conn_belongs [OF assms(1,2) this] assms(1,4) show ?thesis
    by (cases "belonging s c") (auto simp: wfr_def owned_def)
qed

section \<open>Connections\<close>

lemma attach_alive:
  assumes "alive_ends s G H" "belonging s c = Some b" "live H b"
    "\<And>oc. l = Conn oc \<Longrightarrow> fits s oc c \<and> (\<exists>b. live H b \<and> belonging s oc = Some b)"
  shows "alive_ends s (attach l c G) H"
  using assms unfolding alive_ends_def attach_def typed_def by (auto split: if_splits)

lemma detach_alive: "alive_ends s G H \<Longrightarrow> alive_ends s (detach c G) H"
proof -
  assume a: "alive_ends s G H"
  have "set (remove1 c (G l)) \<subseteq> set (G l)" "remove1 c (G l) \<noteq> [] \<Longrightarrow> G l \<noteq> []" for l
    using set_remove1_subset by (fastforce, auto)
  moreover from this have "typed s (detach c G)" using a typed_mono [of s G "detach c G"] by (simp add: alive_ends_def detach_def)
  ultimately show ?thesis using a unfolding alive_ends_def detach_def by (metis subsetD)
qed

lemma join_fits:
  assumes "type_connect oc c s = Some (True, s\<lparr>gen_tables := m\<rparr>)" "inner_connect oc c (s\<lparr>gen_tables := m\<rparr>) = Some (True, s1)"
  shows "fits (s\<lparr>gen_tables := m\<rparr>) oc c"
proof -
  obtain od idc b where d: "h_load_conn s oc = Some od" "h_load_conn s c = Some idc"
    "fst (type_loop (b_instance s b) (lc_gen_type idc) (lc_gen_type od) (gen_tables s))"
    using assms(1) by (auto simp: type_connect_def split: bind_splits if_splits prod.splits) (metis fst_conv)
  moreover have "lc_sect_count idc \<le> lc_sect_count od"
    using assms(2) d by (auto simp: inner_connect_def Let_def split: if_splits)
  ultimately show ?thesis using type_loop_result [of "b_instance s b" _ _ "gen_tables s" 0] by (simp add: fits_def)
qed

lemma join_keeps:
  assumes w: "wfr e s G H L" and c: "is_input s c" "l_first s (Conn c) = None" "belonging s c = Some b" "live H b"
    and o: "is_output s oc" "belonging s oc = Some b'" "live H b'" and r: "join_found oc c s = Some s'"
  shows "wfr e s' (attach (Conn oc) c G) H L \<and> relinked (s\<lparr>gen_tables := gen_tables s'\<rparr>) s'"
proof -
  obtain m where tc: "type_connect oc c s = Some (True, s\<lparr>gen_tables := m\<rparr>)"
    using r by (auto simp: join_found_def type_connect_def Let_def split: bind_splits prod.splits if_splits)
  let ?s = "s\<lparr>gen_tables := m\<rparr>"
  obtain s1 where ic: "inner_connect oc c ?s = Some (True, s1)" and s': "s' = outer_connect (Conn oc) (Conn c) s1"
    using r tc by (auto simp: join_found_def split: bind_splits if_splits)
  have w1: "wfr e ?s G H L" using w wfr_cong(1) [of ?s s] by simp
  then have g: "graph ?s G" by (simp add: wfr_def)
  have k: "is_input ?s c" "is_output ?s oc" using c(1) o(1) by (simp_all add: is_input_def is_output_def)
  have "unconnected c G" using graph_unconnected [OF g k(1)] c(2) by simp
  then have "graph s' (attach (Conn oc) c G)" using connect_conn [OF g k(1) _ k(2) ic] s' by simp
  moreover have rl: "relinked ?s s'" using inner_connect_relinked [OF ic] s' by simp
  moreover have "fits ?s oc c" using join_fits [OF tc] ic k by simp
  then have "alive_ends ?s (attach (Conn oc) c G) H"
    using w1 c o by (intro attach_alive [of ?s G H c b]) (auto simp: wfr_def)
  ultimately show ?thesis using wfr_relinked [OF w1] by (auto simp: relinked_def)
qed

lemma dir_keeps:
  assumes w: "wfr e s G H L" and c: "is_input s c" "l_first s (Conn c) = None" "belonging s c = Some b" "live H b"
  shows "wfr e (let s' = outer_connect (Dir i) (Conn c) s in s'\<lparr>l_chain := (l_chain s')(Dir i := Some (Dir i))\<rparr>) (attach (Dir i) c G) H L"
proof -
  have g: "graph s G" using w by (simp add: wfr_def)
  have "unconnected c G" using graph_unconnected [OF g c(1)] c(2) by simp
  from connect_dir [OF g c(1) this] show ?thesis
    using w c by (intro wfr_relinked [OF w] attach_alive) (auto simp: wfr_def Let_def)
qed

lemma disconnect_keeps:
  assumes w: "wfr e s G H L" and c: "is_input s c"
  obtains s' where "disconnect c s = Some (\<not> unconnected c G, s')" "wfr e s' (detach c G) H L" "relinked s s'"
proof -
  have g: "graph s G" using w by (simp add: wfr_def)
  obtain s' where s': "disconnect c s = Some (\<not> unconnected c G, s')" "graph s' (detach c G)"
    using disconnect_result [OF g c] by blast
  show thesis
    using w s' disconnect_relinked [OF s'(1)] by (intro that [of s'] wfr_relinked [OF w] detach_alive) (auto simp: wfr_def)
qed

section \<open>Creating connectors\<close>

lemma wfx_allocs: "wfx e s G H L B \<Longrightarrow> allocs s \<le> n \<Longrightarrow> wfx e (s\<lparr>allocs := n\<rparr>) G H L B"
proof -
  assume w: "wfx e s G H L B" and n: "allocs s \<le> n"
  have "graph (s\<lparr>allocs := n\<rparr>) G = graph s G" by (rule graph_cong) simp_all
  moreover have "owned (s\<lparr>allocs := n\<rparr>)"
  proof -
    have "b < n \<and> conn_id c < n" if "belonging s c = Some b" for c b
      using that w n by (simp add: wfx_def owned_def) (meson less_le_trans)
    then show ?thesis using w by (simp add: wfx_def owned_def)
  qed
  ultimately show ?thesis using w n by (auto simp: wfx_def hash_ok_def listed_def alive_ends_def typed_def fits_def dest: less_le_trans)
qed

lemma wfr_allocs: "wfr e s G H L \<Longrightarrow> allocs s \<le> n \<Longrightarrow> wfr e (s\<lparr>allocs := n\<rparr>) G H L"
  unfolding wfr_wfx by (rule wfx_allocs)

lemma wfr_param: "wfr e s G H L \<Longrightarrow> p \<noteq> P_freed \<Longrightarrow> wfr e (s\<lparr>c_param := (c_param s)(c := p)\<rparr>) G H L"
proof -
  assume w: "wfr e s G H L" and p: "p \<noteq> P_freed"
  have "graph (s\<lparr>c_param := (c_param s)(c := p)\<rparr>) G = graph s G" by (rule graph_cong) simp_all
  then show ?thesis using w p by (auto simp: wfr_def hash_ok_def listed_def owned_def alive_ends_def typed_def fits_def)
qed

lemma graph_create:
  assumes g: "graph s G" and c: "h_load_conn s c = None"
  shows "graph (s\<lparr>h_load_conn := (h_load_conn s)(c := Some d)\<rparr>) G" (is "graph ?s G")
proof -
  have ok: "outer_ok s G" "inner_ok s G" using g by (simp_all add: graph_def)
  have blank: "l_first s (Conn c) = None" "l_chain s (Conn c) = None" "in_connect s c = None" "rev_chain s c = None"
    using g c by (auto simp: graph_def)
  have k: "is_output ?s x = (if x = c then lc_type d else is_output s x)" "is_input ?s x = (if x = c then \<not> lc_type d else is_input s x)" for x
    by (auto simp: is_output_def is_input_def)
  have nc: "\<not> is_output s c" "\<not> is_input s c" using c by (auto simp: is_output_def is_input_def)
  have e: "G (Conn c) = []" using outer_okD(2) [OF ok(1), of "Conn c"] nc by simp
  have u: "c \<notin> set (G l)" for l using outer_okD(4) [OF ok(1), of c l] nc by blast
  have src: "source ?s l = (if l = Conn c then lc_type d else source s l)" for l by (cases l) (auto simp: k)
  have "outer_ok ?s G"
    unfolding outer_ok_def
  proof (intro conjI allI impI ballI)
    fix l show "if source ?s l then linked (l_chain ?s) (l_first ?s l) (map Conn (G l)) else G l = []"
      using outer_okD(1,2) [OF ok(1), of l] blank e by (auto simp: src)
  next
    fix x l assume "is_input ?s x"
    then show "(l_first ?s (Conn x) = Some l) = (x \<in> set (G l))" using outer_okD(3) [OF ok(1), of x l] blank u by (auto simp: k split: if_splits)
  next
    fix l x assume "x \<in> set (G l)"
    then show "is_input ?s x" using outer_okD(4) [OF ok(1), of x l] u by (auto simp: k)
  next
    fix x assume "is_output ?s x"
    then show "l_chain ?s (Conn x) = None" using outer_okD(5) [OF ok(1), of x] blank by (auto simp: k split: if_splits)
  next
    fix i assume "G (Dir i) \<noteq> []"
    then show "l_chain ?s (Dir i) \<noteq> None" using outer_okD(6) [OF ok(1), of i] by simp
  qed
  moreover have "inner_ok ?s G"
    using ok(2) blank e u by (auto simp: inner_ok_def k)
  ultimately show ?thesis using g by (auto simp: graph_def)
qed

text \<open>Creating a connector and appending it to the list of its brick.\<close>

lemma create_insert_keeps:
  assumes w: "wfx e s G H L B" and b: "live H b \<or> b \<in> B" and c: "belonging s c = None" "conn_id c < allocs s" "\<And>b' k. c = Slot b' k \<Longrightarrow> b' = b"
    and p: "c_param s c \<noteq> P_freed"
    and s': "s' = insert_conn b c (s\<lparr>belonging := (belonging s)(c := Some b), h_load_conn := (h_load_conn s)(c := Some d)\<rparr>)"
  shows "wfx e s' G H (L(b := L b @ [c])) B"
proof -
  have l: "listed s (L b) b" and o: "owned s" and bb: "b < allocs s" using w b by (auto simp: wfx_def)
  have hc: "h_load_conn s c = None" "conn_next s c = None" using o c(1) by (auto simp: owned_def)
  have cn: "c \<notin> set (L x)" if "live H x \<or> x \<in> B" for x using w that c(1) by (auto simp: wfx_def listed_def)
  have last_in: "last (L b) \<in> set (L b)" if "L b \<noteq> []" using that by simp
  have other: "last (L b) \<notin> set (L x)" if "live H x \<or> x \<in> B" "x \<noteq> b" "L b \<noteq> []" for x
    using w that b last_in [OF that(3)] by (fastforce simp: wfx_def listed_def)
  have g: "graph s' G"
  proof -
    have "graph (s\<lparr>h_load_conn := (h_load_conn s)(c := Some d)\<rparr>) G" using w hc(1) by (intro graph_create) (auto simp: wfx_def)
    then show ?thesis by (subst graph_cong [of s' "s\<lparr>h_load_conn := (h_load_conn s)(c := Some d)\<rparr>"])
        (auto simp: s' insert_conn_def Let_def split: option.splits)
  qed
  have f: "belonging s' = (belonging s)(c := Some b)" "h_load_conn s' = (h_load_conn s)(c := Some d)" "c_param s' = c_param s"
    "b_param s' = b_param s" "allocs s' = allocs s" "b_loader s' = b_loader s" "hash_next s' = hash_next s" "brick_hash s' = brick_hash s"
    "b_addr s' = b_addr s" "last_conn s' = (last_conn s)(b := Some c)"
    "connectors s' = (if L b = [] then (connectors s)(b := Some c) else connectors s)"
    "conn_next s' = (if L b = [] then conn_next s else (conn_next s)(last (L b) := Some c))"
    using l by (auto simp: s' insert_conn_def Let_def listed_def split: option.splits)
  have "listed s' ((L(b := L b @ [c])) x) x" if x: "live H x \<or> x \<in> B" for x
  proof (cases "x = b")
    case True
    have "linked (conn_next s') (connectors s' b) (L b @ [c])"
      using l cn [OF b] hc(2) linked_snoc [of "conn_next s" "connectors s b" "L b" c] by (auto simp: f listed_def)
    then show ?thesis using True l p by (auto simp: listed_def f)
  next
    case False
    have lx: "listed s (L x) x" using w x by (auto simp: wfx_def)
    have "linked (conn_next s') (connectors s' x) (L x)" using lx False other [OF x False] by (auto simp: f listed_def)
    then show ?thesis using lx False cn [OF x] by (auto simp: listed_def f)
  qed
  moreover have "owned s'"
    unfolding owned_def
  proof (intro conjI allI impI)
    fix x assume n: "belonging s' x = None"
    then have "x \<noteq> c" "belonging s x = None" by (auto simp: f split: if_splits)
    moreover from this have "x \<noteq> last (L b)" if "L b \<noteq> []" using last_in [OF that] l by (auto simp: listed_def)
    ultimately show "conn_next s' x = None" using o by (auto simp: f owned_def)
  next
    fix x show "(belonging s' x = None) = (h_load_conn s' x = None)" using o by (auto simp: f owned_def)
  next
    fix x k b' assume "belonging s' (Slot x k) = Some b'"
    then show "b' = x" using o c(3) by (auto simp: f owned_def split: if_splits)
  next
    fix x y assume "belonging s' x = Some y"
    then show "y < allocs s'" "conn_id x < allocs s'" using o bb c(2) by (auto simp: f owned_def split: if_splits)
  qed
  moreover have "alive_ends s' G H"
  proof -
    have "alive_ends s G H" using w by (simp add: wfx_def)
    moreover have "h_load_conn s' x = Some dx" if "h_load_conn s x = Some dx" for x dx using that hc(1) by (auto simp: f)
    then have "typed s' G" using \<open>alive_ends s G H\<close> typed_grow [of s G s'] by (simp add: alive_ends_def)
    ultimately show ?thesis using c(1) by (fastforce simp: alive_ends_def f)
  qed
  ultimately show ?thesis using w g by (auto simp: wfx_def hash_ok_def f)
qed

lemma create_conn_result:
  assumes "create_conn e b c d i (s, w) = Some (s2, w2)"
  obtains n x y where "s2 = s\<lparr>belonging := (belonging s)(c := Some b), h_load_conn := (h_load_conn s)(c := Some d),
      c_index := x, allocs := n, c_instance := y\<rparr>" "allocs s \<le> n"
proof -
  have "s2 = s\<lparr>belonging := (belonging s)(c := Some b), h_load_conn := (h_load_conn s)(c := Some d),
      c_index := c_index s2, allocs := allocs s2, c_instance := c_instance s2\<rparr> \<and> allocs s \<le> allocs s2"
    using assms by (cases "lc_count d = 0") (auto simp: create_conn_def malloc_def Let_def split: option.splits)
  then show thesis using that by metis
qed

lemma created_keeps:
  assumes w: "wfx e s G H L B" and b: "live H b \<or> b \<in> B" and c: "belonging s c = None" "conn_id c < allocs s" "\<And>b' k. c = Slot b' k \<Longrightarrow> b' = b"
    and p: "c_param s c \<noteq> P_freed" and r: "create_conn e b c d i (s, v) = Some (s2, v2)"
  shows "wfx e (insert_conn b c s2) G H (L(b := L b @ [c])) B"
proof -
  obtain n x y where s2: "s2 = s\<lparr>belonging := (belonging s)(c := Some b), h_load_conn := (h_load_conn s)(c := Some d),
      c_index := x, allocs := n, c_instance := y\<rparr>" "allocs s \<le> n"
    using create_conn_result [OF r] .
  let ?s = "insert_conn b c (s\<lparr>belonging := (belonging s)(c := Some b), h_load_conn := (h_load_conn s)(c := Some d)\<rparr>)"
  have "wfx e ?s G H (L(b := L b @ [c])) B" by (rule create_insert_keeps [OF w b c p refl])
  moreover have "allocs ?s = allocs s" by (simp add: insert_conn_def Let_def split: option.splits)
  ultimately have "wfx e (?s\<lparr>allocs := n\<rparr>) G H (L(b := L b @ [c])) B" using s2(2) by (intro wfx_allocs) simp_all
  moreover have "wfx e (insert_conn b c s2) G H (L(b := L b @ [c])) B = wfx e (?s\<lparr>allocs := n\<rparr>) G H (L(b := L b @ [c])) B"
    by (rule wfr_cong(2)) (auto simp: s2(1) insert_conn_def Let_def split: option.splits)
  ultimately show ?thesis by simp
qed

section \<open>Operations on connectors\<close>

text \<open>Instantiation adds connectors and leaves connections alone.\<close>

definition grows :: "'w control \<Rightarrow> 'w control \<Rightarrow> bool" where
  "grows s s' \<longleftrightarrow> l_first s' = l_first s \<and> (\<forall>c d. h_load_conn s c = Some d \<longrightarrow> h_load_conn s' c = Some d)
     \<and> (\<forall>c b. belonging s c = Some b \<longrightarrow> belonging s' c = Some b) \<and> b_addr s' = b_addr s"

lemma grows_refl [simp]: "grows s s"
  by (simp add: grows_def)

lemma grows_input: "grows s s' \<Longrightarrow> is_input s c \<Longrightarrow> is_input s' c"
  by (auto simp: grows_def is_input_def split: option.splits)

lemma grows_output: "grows s s' \<Longrightarrow> is_output s c \<Longrightarrow> is_output s' c"
  by (auto simp: grows_def is_output_def split: option.splits)

lemma alloc_param_result:
  assumes "alloc_param e c param s = (room, s1)"
  obtains n q where "s1 = s\<lparr>allocs := n, c_param := q\<rparr>" "allocs s \<le> n" "q = c_param s \<or> q = (c_param s)(c := P_own param)"
proof -
  have "s1 = s\<lparr>allocs := allocs s1, c_param := c_param s1\<rparr> \<and> allocs s \<le> allocs s1
      \<and> (c_param s1 = c_param s \<or> c_param s1 = (c_param s)(c := P_own param))"
    using assms by (auto simp: alloc_param_def malloc_def split: prod.splits option.splits if_splits)
  then show thesis using that by metis
qed

text \<open>A connector that \<^verbatim>\<open>$instconn\<close> may take.\<close>

definition pick :: "'w control \<Rightarrow> brick_ref \<Rightarrow> conn_ref \<Rightarrow> bool" where
  "pick s b c \<longleftrightarrow> conn_id c < allocs s \<and> (belonging s c = None \<or> belonging s c = Some b) \<and> (\<forall>b' k. c = Slot b' k \<longrightarrow> b' = b)
     \<and> c_param s c \<noteq> P_freed"

lemma alloc_param_keeps:
  assumes w: "wfr e s G H L" and c: "pick s b c" and r: "alloc_param e c param s = (room, s1)"
  shows "wfr e s1 G H L \<and> pick s1 b c \<and> belonging s1 = belonging s \<and> h_load_conn s1 = h_load_conn s \<and> l_first s1 = l_first s
    \<and> b_loader s1 = b_loader s \<and> b_addr s1 = b_addr s"
proof -
  obtain n q where n: "s1 = s\<lparr>allocs := n, c_param := q\<rparr>" "allocs s \<le> n" "q = c_param s \<or> q = (c_param s)(c := P_own param)"
    using alloc_param_result [OF r] .
  have "wfr e (s\<lparr>allocs := n\<rparr>) G H L" using wfr_allocs [OF w n(2)] .
  then have "wfr e s1 G H L" using n(3) wfr_param [of e "s\<lparr>allocs := n\<rparr>" G H L "P_own param" c] by (auto simp: n(1))
  then show ?thesis using n c by (auto simp: pick_def)
qed

lemma inst_found_keeps:
  assumes w: "wfr e s G H L" and ok: "inits_succeed e" and b: "live H b" and d: "d \<in> set (bd_conn (b_loader s b))"
    and c: "pick s b c" and r: "inst_found e b d c param (a, s, v) = Some (a', s', v')"
  shows "\<exists>L'. wfr e s' G H L' \<and> grows s s'"
proof -
  obtain room s1 where p: "alloc_param e c param s = (room, s1)" by fastforce
  note f1 = alloc_param_keeps [OF w c p]
  show ?thesis
  proof (cases room)
    case False
    then have "s' = s1" using r p by (simp add: inst_found_def)
    then show ?thesis using f1 by (auto simp: grows_def)
  next
    case True
    obtain s2 v2 where s2: "(if belonging s1 c = None then create_conn e b c d (c_index s1 c) (s1, v) else Some (s1, v)) = Some (s2, v2)"
      using r p True by (auto simp: inst_found_def Let_def split: bind_splits)
    obtain a3 v3 where i: "lc_init_conn d (c_instance s2 c) param (a\<lparr>op_code := opcode_output_init\<rparr>, v2) = (a3, v3)" by fastforce
    have su: "success a3"
      using ok d w b i unfolding inits_succeed_def wfr_def by (metis fst_conv)
    have s': "s' = (if belonging s1 c = None then insert_conn b c s2 else s2)"
      using r p True s2 i su by (auto simp: inst_found_def Let_def split: bind_splits)
    show ?thesis
    proof (cases "belonging s1 c")
      case None
      then have cr: "create_conn e b c d (c_index s1 c) (s1, v) = Some (s2, v2)" using s2 by simp
      have "wfr e s' G H (L(b := L b @ [c]))"
        unfolding wfr_wfx using created_keeps [OF _ _ _ _ _ _ cr, of G H L "{}"] b None f1 s' by (auto simp: pick_def wfr_wfx)
      moreover have "h_load_conn s c = None" using w None f1 by (auto simp: wfr_def owned_def)
      then have "grows s s'" using None s' f1
        by - (rule create_conn_result [OF cr], auto simp: grows_def insert_conn_def Let_def split: option.splits)
      ultimately show ?thesis by blast
    next
      case (Some x)
      then have "s' = s1" using s2 s' by simp
      then show ?thesis using f1 by (auto simp: grows_def)
    qed
  qed
qed

lemma find_load_conn_in: "find_load_conn b nm s = Some d \<Longrightarrow> d \<in> set (bd_conn (b_loader s b))"
  by (auto simp: find_load_conn_def find_Some_iff)

lemma clear_fresh:
  assumes w: "wfr e s G H L" and P: "\<And>c. P c \<Longrightarrow> allocs s \<le> conn_id c"
  shows "wfr e (clear_conns P s) G H L \<and> l_first (clear_conns P s) = l_first s"
proof -
  have o: "owned s" and g: "graph s G" using w by (auto simp: wfr_def)
  have none: "belonging s c = None" if "P c" for c
    using P [OF that] ownedD(4) [OF o, of c] by (cases "belonging s c") (auto simp: not_le)
  then have blank: "h_load_conn s c = None" "conn_next s c = None" "l_first s (Conn c) = None" "l_chain s (Conn c) = None"
    "in_connect s c = None" "rev_chain s c = None" if "P c" for c
    using that o g by (auto simp: owned_def graph_def)
  have fields: "h_load_conn (clear_conns P s) = h_load_conn s" "l_first (clear_conns P s) = l_first s" "l_chain (clear_conns P s) = l_chain s"
    "in_connect (clear_conns P s) = in_connect s" "rev_chain (clear_conns P s) = rev_chain s"
    "conn_next (clear_conns P s) = conn_next s" "belonging (clear_conns P s) = belonging s"
    using blank none by (auto simp: clear_conns_def fun_eq_iff split: link_ref.splits)
  have rn: "rev_next (clear_conns P s) c = rev_next s c" if "is_input s c" for c
    using that blank(1) [of c] by (auto simp: clear_conns_def is_input_def)
  have G: "graph (clear_conns P s) G"
  proof -
    have "outer_ok (clear_conns P s) G" using g outer_ok_cong [of "clear_conns P s" s] fields by (simp add: graph_def)
    moreover have "linked (rev_next (clear_conns P s)) p (G l) = linked (rev_next s) p (G l)" for p l
      using g by (intro linked_nodes_cong rn) (auto simp: graph_def outer_ok_def)
    then have "inner_ok (clear_conns P s) G"
      using g conn_kinds_cong [of "clear_conns P s" s] fields by (simp add: graph_def inner_ok_def)
    ultimately show ?thesis using g by (simp add: graph_def fields)
  qed
  have rest: "b_addr (clear_conns P s) = b_addr s" "hash_next (clear_conns P s) = hash_next s" "b_param (clear_conns P s) = b_param s"
    "b_loader (clear_conns P s) = b_loader s" "connectors (clear_conns P s) = connectors s" "last_conn (clear_conns P s) = last_conn s"
    "brick_hash (clear_conns P s) = brick_hash s" "allocs (clear_conns P s) = allocs s"
    by (simp_all add: clear_conns_def)
  have p: "c_param (clear_conns P s) c \<noteq> P_freed" if "c_param s c \<noteq> P_freed" for c using that by (simp add: clear_conns_def)
  have "typed (clear_conns P s) G = typed s G" by (rule typed_cong [OF fields(1)])
  then show ?thesis using w G p fields by (auto simp: wfr_def hash_ok_def listed_def owned_def alive_ends_def rest)
qed

lemma clear_conns_allocs: "clear_conns P (s\<lparr>allocs := n\<rparr>) = (clear_conns P s)\<lparr>allocs := n\<rparr>"
  by (simp add: clear_conns_def cong: if_cong link_ref.case_cong)

lemma clear_conns_sel [simp]:
  "b_addr (clear_conns P s) = b_addr s" "hash_next (clear_conns P s) = hash_next s" "b_instance (clear_conns P s) = b_instance s"
  "b_param (clear_conns P s) = b_param s" "b_loader (clear_conns P s) = b_loader s" "connectors (clear_conns P s) = connectors s"
  "last_conn (clear_conns P s) = last_conn s" "brick_hash (clear_conns P s) = brick_hash s" "allocs (clear_conns P s) = allocs s"
  "counter (clear_conns P s) = counter s"
  by (simp_all add: clear_conns_def)

lemma slot_owner: "owned s \<Longrightarrow> belonging s (Slot b k) \<noteq> Some b \<Longrightarrow> belonging s (Slot b k) = None"
  by (cases "belonging s (Slot b k)") (auto simp: owned_def)

lemma new_conn_keeps:
  assumes w: "wfr e s G H L" and b: "live H b" and r: "new_conn e b d s = Some (c, s1)"
  shows "wfr e s1 G H L \<and> grows s s1 \<and> b_loader s1 = b_loader s \<and> (\<forall>c'. c = Some c' \<longrightarrow> pick s1 b c')"
proof (cases "lc_count d = 0")
  case True
  then obtain p where p: "env_malloc e (allocs s) 32 = Some p"
    using r by (auto simp: new_conn_def malloc_def split: option.splits)
  let ?n = "allocs s"
  define s2 where "s2 = clear_conns (\<lambda>c. c = Dyn ?n) s"
  have s1: "c = Some (Dyn ?n)" "s1 = s2\<lparr>allocs := Suc ?n, c_index := (c_index s2)(Dyn ?n := counter s), counter := counter s + 1\<rparr>"
    using r True p by (auto simp: new_conn_def malloc_def Let_def clear_conns_allocs s2_def)
  have o: "owned s" using w by (simp add: wfr_def)
  have w2: "wfr e s2 G H L" "l_first s2 = l_first s" using clear_fresh [OF w, of "\<lambda>c. c = Dyn ?n"] by (auto simp: s2_def)
  have "wfr e (s2\<lparr>allocs := Suc ?n\<rparr>) G H L" using w2(1) by (intro wfr_allocs) (simp_all add: s2_def clear_conns_def)
  then have w1: "wfr e s1 G H L" by (subst wfr_cong(1) [of s1 "s2\<lparr>allocs := Suc ?n\<rparr>"]) (simp_all add: s1(2))
  have nb: "belonging s (Dyn ?n) = None" using ownedD(4) [OF o, of "Dyn ?n"] by (cases "belonging s (Dyn ?n)") auto
  then have "h_load_conn s (Dyn ?n) = None" using ownedD(1) [OF o] by simp
  then have "grows s s1" using nb w2(2) by (auto simp: grows_def s1(2)) (auto simp: s2_def clear_conns_def)
  then show ?thesis using w1 by (auto simp: s1 pick_def) (auto simp: s2_def clear_conns_def)
next
  case False
  show ?thesis
  proof (cases c)
    case None
    then show ?thesis using w r False by (auto simp: new_conn_def Let_def split: option.splits)
  next
    case (Some c')
    then obtain i where i: "c' = Slot b (nat (lc_start_index d) + i)" "c_param s c' = P_null"
      "s1 = s\<lparr>c_index := (c_index s)(c' := int i)\<rparr>"
      using r False by (auto simp: new_conn_def Let_def find_Some_iff split: option.splits)
    have "wfr e s1 G H L" using w by (subst wfr_cong(1) [of s1 s]) (simp_all add: i(3))
    moreover have "pick s1 b c'" using w b i by (auto simp: pick_def wfr_def dest: slot_owner)
    ultimately show ?thesis using Some by (auto simp: grows_def i(3))
  qed
qed

lemma get_conn_pick:
  assumes w: "wfr e s G H L" and b: "live H b" and r: "get_conn b d i s = Some (Some c)" and p: "\<not> own_param s c"
  shows "pick s b c"
proof -
  have o: "owned s" and l: "b < allocs s" using w b by (auto simp: wfr_def)
  show ?thesis
    using get_conn_belongs [OF w b r] l p ownedD(3) [OF o] ownedD(4) [OF o, of c]
    by (auto simp: pick_def own_param_def dest: slot_owner [OF o])
qed

lemma with_brick_cases:
  assumes "hash_ok s H" "with_brick addr f (a, s, v) = Some r"
  obtains "r = (a, s, v)" | b where "live H b" "b_addr s b = addr" "f b (a, s, v) = Some r"
proof -
  obtain found where f: "find_brick_hash addr s = Some found" using find_brick [OF assms(1)] by blast
  show thesis
  proof (cases found)
    case None
    then show thesis using assms(2) f that(1) by (simp add: with_brick_def)
  next
    case (Some b)
    then show thesis using assms f that(2) [of b] find_brick_live [OF assms(1)] by (simp add: with_brick_def)
  qed
qed

lemma with_conn_cases:
  assumes "hash_ok s H" "with_conn ci f (a, s, v) = Some r"
  obtains "r = (a, s, v)" | b c where "live H b" "b_addr s b = conn_addr ci" "find_conn b (conn_name ci) (conn_index ci) s = Some (Some c)" "f b c (a, s, v) = Some r"
  using assms unfolding with_conn_def
  by (elim with_brick_cases [OF assms(1)]) (auto split: bind_splits option.splits)

lemma inst_named_keeps:
  assumes w: "wfr e s G H L" and ok: "inits_succeed e" and b: "live H b" and r: "inst_named e c1 param b (a, s, v) = Some (a', s', v')"
  shows "\<exists>L'. wfr e s' G H L' \<and> grows s s'"
proof (cases "find_load_conn b (conn_name c1) s")
  case None
  then show ?thesis using w r by (auto simp: inst_named_def)
next
  case (Some d)
  obtain c s1 where c: "choose_conn e b d (conn_index c1) s = Some (c, s1)"
    using r Some by (auto simp: inst_named_def split: bind_splits)
  have s1: "wfr e s1 G H L \<and> grows s s1 \<and> b_loader s1 = b_loader s \<and> (\<forall>c'. c = Some c' \<longrightarrow> pick s1 b c')"
  proof (cases "conn_index c1 < 0")
    case True
    then show ?thesis using c new_conn_keeps [OF w b] by (simp add: choose_conn_def)
  next
    case False
    then show ?thesis using c w get_conn_pick [OF w b] by (auto simp: choose_conn_def split: bind_splits option.splits if_splits)
  qed
  show ?thesis
  proof (cases c)
    case None
    then show ?thesis using r Some c s1 by (auto simp: inst_named_def)
  next
    case c': (Some c')
    have "inst_found e b d c' param (a, s1, v) = Some (a', s', v')" using r Some c c' by (simp add: inst_named_def)
    then obtain L' where "wfr e s' G H L'" "grows s1 s'"
      using s1 c' find_load_conn_in [OF Some] inst_found_keeps [OF _ ok b, of s1] by metis
    then show ?thesis using s1 by (auto simp: grows_def)
  qed
qed

lemma new_main_dir_keeps:
  "wfr e s G H L \<Longrightarrow> new_main_dir nm s = Some (ok, s') \<Longrightarrow> wfr e s' G H L \<and> grows s s'"
proof -
  assume w: "wfr e s G H L" and r: "new_main_dir nm s = Some (ok, s')"
  have s': "s' = s\<lparr>main_name := main_name s'\<rparr>" using r by (auto simp: new_main_dir_def split: if_splits option.splits)
  have "wfr e s' G H L = wfr e s G H L" by (rule wfr_cong(1)) (subst s', simp)+
  moreover have "grows s s'" by (subst s') (simp add: grows_def)
  ultimately show ?thesis using w by simp
qed

lemma ctl_instconn_keeps:
  assumes w: "wfr e s G H L" and ok: "inits_succeed e" and r: "ctl_instconn e param (a, s, v) = Some (a', s', v')"
  shows "\<exists>L'. wfr e s' G H L' \<and> grows s s'"
proof -
  obtain c1 where c1: "conn1 a = Some c1" using r by (auto simp: ctl_instconn_def split: bind_splits)
  have h: "hash_ok s H" using w by (simp add: wfr_def)
  show ?thesis
  proof (cases "conn_addr c1 = 0")
    case True
    then show ?thesis using r c1 new_main_dir_keeps [OF w] by (auto simp: ctl_instconn_def split: bind_splits)
  next
    case False
    then have "with_brick (conn_addr c1) (inst_named e c1 param) (a, s, v) = Some (a', s', v')" using r c1 by (simp add: ctl_instconn_def)
    with h show ?thesis
      by (cases rule: with_brick_cases) (use w inst_named_keeps [OF w ok] in auto)
  qed
qed

lemma lazy_keeps:
  assumes w: "wfr e s G H L" and ok: "inits_succeed e" and r: "lazy_instconn e param c ci m (s, v) = Some (b, ci', s', v')"
  shows "\<exists>L'. wfr e s' G H L' \<and> grows s s'"
  using r w ctl_instconn_keeps [OF w ok] by (auto simp: lazy_instconn_def split: if_splits bind_splits)

text \<open>Where \<^verbatim>\<open>$connect\<close> connects to: an entry of the main directory, or an output of the brick named.\<close>

definition target :: "'w control \<Rightarrow> 'w control \<Rightarrow> conn_info \<Rightarrow> link_ref \<Rightarrow> bool" where
  "target s s' ci l \<longleftrightarrow> (case l of
     Dir i \<Rightarrow> conn_addr ci = 0 \<and> find_main_dir (conn_name ci) s = Some i
   | Conn oc \<Rightarrow> conn_addr ci \<noteq> 0 \<and> is_output s' oc \<and> (\<exists>b. belonging s' oc = Some b \<and> b_addr s' b = conn_addr ci))"

lemma target_addr: "conn_addr ci \<noteq> 0 \<Longrightarrow> target s s' ci l \<Longrightarrow> target t s' ci l"
  by (auto simp: target_def split: link_ref.splits)

lemma connect_output_keeps:
  assumes w: "wfr e s G H L" and ok: "inits_succeed e" and c: "is_input s c" "l_first s (Conn c) = None" "belonging s c = Some b" "live H b"
    and addr: "conn_addr c2 \<noteq> 0"
    and r: "with_conn c2 (connect_output e c c2 param) (a, s, v) = Some (a', s', v')"
  shows "\<exists>G' L'. wfr e s' G' H L' \<and> (G' = G \<and> success a' = success a \<or> success a' \<and> (\<exists>l. target s s' c2 l \<and> G' = attach l c G))"
proof -
  have h: "hash_ok s H" using w by (simp add: wfr_def)
  show ?thesis
    using h r
  proof (cases rule: with_conn_cases)
    case 1
    then show ?thesis using w by auto
  next
    case (2 b2 oc)
    show ?thesis
    proof (cases "\<exists>d. h_load_conn s oc = Some d \<and> lc_type d")
      case False
      then show ?thesis using 2(4) w by (auto simp: connect_output_def split: option.splits)
    next
      case True
      then obtain d where d: "h_load_conn s oc = Some d" "lc_type d" by blast
      have b2: "belonging s oc = Some b2" using found_conn_belongs [OF w 2(1,3)] d by simp
      obtain k ci s1 v1 where z: "lazy_instconn e param oc c2 (mandate a) (s, v) = Some (k, ci, s1, v1)"
        using 2(4) d by (auto simp: connect_output_def split: bind_splits)
      obtain L1 where w1: "wfr e s1 G H L1" "grows s s1" using lazy_keeps [OF w ok z] by blast
      show ?thesis
      proof (cases "\<not> k \<or> c_param s1 oc = P_null")
        case True
        then have "s' = s1" "success a' = success a" using 2(4) d z by (auto simp: connect_output_def)
        then show ?thesis using w1(1) by auto
      next
        case False
        then have j: "join_found oc c s1 = Some s'" "success a'" using 2(4) d z by (auto simp: connect_output_def split: bind_splits)
        have k: "is_input s1 c" "is_output s1 oc" "l_first s1 (Conn c) = None" "belonging s1 c = Some b" "belonging s1 oc = Some b2"
          using w1(2) c d b2 grows_input grows_output [OF w1(2), of oc] by (auto simp: grows_def is_output_def)
        from join_keeps [OF w1(1) k(1,3,4) c(4) k(2,5) 2(1) j(1)]
        have w': "wfr e s' (attach (Conn oc) c G) H L1" and rl: "relinked (s1\<lparr>gen_tables := gen_tables s'\<rparr>) s'" by auto
        have "is_output s' oc" "belonging s' oc = Some b2" "b_addr s' = b_addr s1"
          using rl k by (auto simp: relinked_def is_output_def)
        moreover have "b_addr s1 b2 = conn_addr c2" using w1(2) 2(2) by (simp add: grows_def)
        ultimately show ?thesis using w' j(2) addr by (auto simp: target_def intro!: exI [of _ "Conn oc"])
      qed
    qed
  qed
qed

lemma connect_input_keeps:
  assumes w: "wfr e s G H L" and ok: "inits_succeed e" and b: "live H b" "find_conn b nm i s = Some (Some c)"
    and r: "connect_input e c1 c2 param b c (a, s, v) = Some (a', s', v')"
  shows "\<exists>G' L'. wfr e s' G' H L' \<and> (G' = G \<and> success a' = success a \<or>
    success a' \<and> unconnected c G \<and> is_input s c \<and> (\<exists>l. target s s' c2 l \<and> G' = attach l c G))"
proof -
  obtain d where d: "h_load_conn s c = Some d" using r by (auto simp: connect_input_def split: bind_splits)
  have bel: "belonging s c = Some b" using found_conn_belongs [OF w b] d by simp
  have g: "graph s G" using w by (simp add: wfr_def)
  show ?thesis
  proof (cases "lc_type d \<or> l_first s (Conn c) \<noteq> None")
    case True
    then have "s' = s" "a' = a" using r d by (auto simp: connect_input_def)
    then show ?thesis using w by auto
  next
    case False
    then have c: "is_input s c" "l_first s (Conn c) = None" using d by (auto simp: is_input_def)
    have u: "unconnected c G" using graph_unconnected [OF g c(1)] c(2) by simp
    show ?thesis
    proof (cases "conn_addr c2 = 0")
      case dir: True
      show ?thesis
      proof (cases "find_main_dir (conn_name c2) s")
        case None
        then have "s' = s" "a' = a" using r d False dir by (auto simp: connect_input_def)
        then show ?thesis using w by auto
      next
        case (Some j)
        then have s': "s' = (let s' = outer_connect (Dir j) (Conn c) s in s'\<lparr>l_chain := (l_chain s')(Dir j := Some (Dir j))\<rparr>)" "success a'"
          using r d False dir by (auto simp: connect_input_def Let_def)
        have "target s s' c2 (Dir j)" using Some dir by (simp add: target_def)
        moreover have "wfr e s' (attach (Dir j) c G) H L" unfolding s'(1) by (rule dir_keeps [OF w c bel b(1)])
        ultimately show ?thesis using s'(2) u c by auto
      qed
    next
      case addr: False
      obtain k ci s1 v1 where z: "lazy_instconn e param c c1 (mandate a) (s, v) = Some (k, ci, s1, v1)"
        using r d False addr by (auto simp: connect_input_def split: bind_splits)
      obtain L1 where w1: "wfr e s1 G H L1" "grows s s1" using lazy_keeps [OF w ok z] by blast
      show ?thesis
      proof (cases k)
        case False
        then have "s' = s1" "success a' = success a" using r d \<open>\<not> (lc_type d \<or> l_first s (Conn c) \<noteq> None)\<close> addr z by (auto simp: connect_input_def)
        then show ?thesis using w1(1) by auto
      next
        case True
        then have wc: "with_conn c2 (connect_output e c c2 param) (a\<lparr>conn1 := Some ci\<rparr>, s1, v1) = Some (a', s', v')"
          using r d False addr z by (simp add: connect_input_def)
        have "is_input s1 c" "l_first s1 (Conn c) = None" "belonging s1 c = Some b"
          using w1(2) c bel grows_input by (auto simp: grows_def)
        from connect_output_keeps [OF w1(1) ok this b(1) addr wc] obtain G' L' where
          G': "wfr e s' G' H L'" "G' = G \<and> success a' = success a \<or> success a' \<and> (\<exists>l. target s1 s' c2 l \<and> G' = attach l c G)" by auto
        moreover from this(2) have "G' = G \<and> success a' = success a \<or> success a' \<and> (\<exists>l. target s s' c2 l \<and> G' = attach l c G)"
          using target_addr [OF addr, of s1 s' _ s] by blast
        ultimately show ?thesis using u c(1) by (intro exI [of _ G'] exI [of _ L']) auto
      qed
    qed
  qed
qed

text \<open>\<^verbatim>\<open>$connect\<close> and \<^verbatim>\<open>$disconnect\<close> on the graph.\<close>

lemma connect_keeps:
  assumes w: "wfr e s G H L" and ok: "inits_succeed e" and a: "conn1 a = Some c1" "conn2 a = Some c2"
    and r: "ctl_connect e param (a, s, v) = Some (a', s', v')"
  shows "\<exists>G' L'. wfr e s' G' H L' \<and> (G' = G \<and> success a' = success a \<or>
    success a' \<and> (\<exists>b c l. live H b \<and> b_addr s b = conn_addr c1 \<and> find_conn b (conn_name c1) (conn_index c1) s = Some (Some c) \<and>
           is_input s c \<and> unconnected c G \<and> target s s' c2 l \<and> G' = attach l c G))"
proof -
  have h: "hash_ok s H" using w by (simp add: wfr_def)
  have "with_conn c1 (connect_input e c1 c2 param) (a, s, v) = Some (a', s', v')" using r a by (simp add: ctl_connect_def)
  with h show ?thesis
  proof (cases rule: with_conn_cases)
    case 1
    then show ?thesis using w by auto
  next
    case (2 b c)
    from connect_input_keeps [OF w ok 2(1,3) 2(4)] obtain G' L' where
      "wfr e s' G' H L'" "G' = G \<and> success a' = success a \<or> success a' \<and> unconnected c G \<and> is_input s c \<and> (\<exists>l. target s s' c2 l \<and> G' = attach l c G)" by blast
    then show ?thesis using 2(1-3) by (intro exI [of _ G'] exI [of _ L']) auto
  qed
qed

lemma disconnect_op_keeps:
  assumes w: "wfr e s G H L" and a: "conn1 a = Some c1" and r: "ctl_disconnect param (a, s, v) = Some (a', s', v')"
  shows "\<exists>G'. wfr e s' G' H L \<and> (G' = G \<and> success a' = success a \<or>
    success a' \<and> (\<exists>b c. live H b \<and> b_addr s b = conn_addr c1 \<and> find_conn b (conn_name c1) (conn_index c1) s = Some (Some c) \<and>
           is_input s c \<and> \<not> unconnected c G \<and> G' = detach c G))"
proof -
  have h: "hash_ok s H" and g: "graph s G" using w by (simp_all add: wfr_def)
  have "with_conn c1 disconnect_found (a, s, v) = Some (a', s', v')" using r a by (simp add: ctl_disconnect_def)
  with h show ?thesis
  proof (cases rule: with_conn_cases)
    case 1
    then show ?thesis using w by auto
  next
    case (2 b c)
    show ?thesis
    proof (cases "is_input s c \<and> l_first s (Conn c) \<noteq> None")
      case False
      then have "s' = s" "a' = a" using 2(4) by (auto simp: disconnect_found_def is_input_def split: option.splits if_splits)
      then show ?thesis using w by auto
    next
      case True
      then have u: "\<not> unconnected c G" using graph_unconnected [OF g, of c] by auto
      obtain s1 where s1: "disconnect c s = Some (\<not> unconnected c G, s1)" "wfr e s1 (detach c G) H L"
        using disconnect_keeps [OF w, of c] True by metis
      then have "s' = s1" "success a'" using 2(4) True by (auto simp: disconnect_found_def is_input_def split: option.splits)
      then show ?thesis using s1(2) u True 2(1-3) by (intro exI [of _ "detach c G"]) auto
    qed
  qed
qed

lemma deinstconn_keeps:
  assumes w: "wfr e s G H L" and r: "ctl_deinstconn param (a, s, v) = Some (a', s', v')"
  shows "wfr e s' G H L"
proof -
  have h: "hash_ok s H" using w by (simp_all add: wfr_def)
  obtain c1 where c1: "conn1 a = Some c1" using r by (auto simp: ctl_deinstconn_def split: bind_splits)
  have found: "wfr e s' G H L" if f: "deinst_found param b c (a, s, v) = Some (a', s', v')" for b c
  proof -
    have "s' = s \<or> (\<exists>q. own_param s c \<and> s' = s\<lparr>c_param := q(c := P_null)\<rparr> \<and> q(c := P_null) = (c_param s)(c := P_null))"
      using f by (auto simp: deinst_found_def free_param_def own_param_def Let_def split: option.splits if_splits bind_splits prod.splits c_param.splits)
    then show ?thesis using w wfr_param [OF w, of P_null c] by auto
  qed
  show ?thesis
  proof (cases "conn_addr c1 = 0")
    case True
    then show ?thesis using r c1 w by (simp add: ctl_deinstconn_def)
  next
    case False
    then have "with_conn c1 (deinst_found param) (a, s, v) = Some (a', s', v')" using r c1 by (simp add: ctl_deinstconn_def)
    with h show ?thesis by (cases rule: with_conn_cases) (use w found in auto)
  qed
qed

end
