(* ===== verification/Control_Bricks.thy ===== *)
theory Control_Bricks
  imports Control_Inv
begin

text \<open>
  Creating and deleting bricks keeps the invariant of the control brick: a new brick gets its inputs and enters
  the hash table, a brick with a connected output stays, any other one leaves the table and its inputs
  leave the graph.
\<close>

section \<open>Creating bricks\<close>

text \<open>The connectors of a brick have slots of their own in the table of the loader.\<close>

definition slots_of :: "'w conn_desc \<Rightarrow> nat list" where
  "slots_of d = map (\<lambda>k. nat (lc_start_index d) + k) [0..<nat (lc_count d)]"

definition tables_ok :: "'w env \<Rightarrow> bool" where
  "tables_ok e \<longleftrightarrow> (\<forall>ld \<in> set (loaders e). distinct (concat (map slots_of (bd_conn ld))))"

definition input_slots :: "'w conn_desc list \<Rightarrow> nat list" where
  "input_slots ds = concat (map slots_of (filter (\<lambda>d. \<not> lc_type d \<and> lc_export d) ds))"

lemma input_slots_sub: "set (input_slots ds) \<subseteq> set (concat (map slots_of ds))"
  by (auto simp: input_slots_def)

definition fills :: "brick_ref \<Rightarrow> nat set \<Rightarrow> 'w control \<Rightarrow> 'w control \<Rightarrow> bool" where
  "fills b S s s' \<longleftrightarrow> (\<forall>c. c \<notin> Slot b ` S \<longrightarrow> belonging s' c = belonging s c) \<and> c_param s' = c_param s \<and> b_loader s' = b_loader s
     \<and> b_addr s' = b_addr s \<and> l_first s' = l_first s"

lemma fills_refl [simp]: "fills b S s s"
  by (simp add: fills_def)

lemma fills_trans: "fills b S s s' \<Longrightarrow> fills b S' s' s'' \<Longrightarrow> fills b (S \<union> S') s s''"
  unfolding fills_def image_Un by (metis UnCI)

lemma fills_slot: "fills b S s s' \<Longrightarrow> k \<notin> S \<Longrightarrow> belonging s' (Slot b k) = belonging s (Slot b k)"
  by (auto simp: fills_def)

lemma create_array_keeps:
  "wfx e s G H L {b} \<Longrightarrow> create_array e b d ks (s, v) = Some (s', v') \<Longrightarrow> distinct ks \<Longrightarrow>
     (\<And>k. k \<in> set ks \<Longrightarrow> belonging s (Slot b (nat (lc_start_index d) + k)) = None) \<Longrightarrow> (\<And>k. c_param s (Slot b k) = P_null) \<Longrightarrow>
     \<exists>cs. wfx e s' G H (L(b := cs)) {b} \<and> fills b ((\<lambda>k. nat (lc_start_index d) + k) ` set ks) s s'"
proof (induction ks arbitrary: s v L)
  case Nil
  then show ?case by (intro exI [of _ "L b"]) auto
next
  case (Cons k ks)
  let ?c = "Slot b (nat (lc_start_index d) + k)"
  obtain s2 v2 where c: "create_conn e b ?c d (int k) (s, v) = Some (s2, v2)"
    and r: "create_array e b d ks (insert_conn b ?c s2, v2) = Some (s', v')"
    using Cons.prems(2) by (auto simp: Let_def split: bind_splits)
  let ?s = "insert_conn b ?c s2"
  have b: "b < allocs s" using Cons.prems(1) by (auto simp: wfx_def)
  have w2: "wfx e ?s G H (L(b := L b @ [?c])) {b}"
    using created_keeps [OF Cons.prems(1) _ _ _ _ _ c] Cons.prems(4,5) b by auto
  have f: "fills b {nat (lc_start_index d) + k} s ?s"
    by (rule create_conn_result [OF c]) (auto simp: fills_def insert_conn_def Let_def split: option.splits)
  have ne: "belonging ?s (Slot b (nat (lc_start_index d) + j)) = None" if "j \<in> set ks" for j
    using fills_slot [OF f, of "nat (lc_start_index d) + j"] Cons.prems(3,4) that by auto
  have np: "c_param ?s (Slot b j) = P_null" for j using f Cons.prems(5) by (simp add: fills_def)
  have "distinct ks" using Cons.prems(3) by simp
  from Cons.IH [OF w2 r this ne np] obtain cs where "wfx e s' G H (L(b := cs)) {b}"
    "fills b ((\<lambda>k. nat (lc_start_index d) + k) ` set ks) ?s s'" unfolding fun_upd_upd by blast
  moreover from this(2) have "fills b ((\<lambda>k. nat (lc_start_index d) + k) ` set (k # ks)) s s'" using fills_trans [OF f] by simp
  ultimately show ?case by blast
qed

lemma create_inputs_keeps:
  "wfx e s G H L {b} \<Longrightarrow> create_inputs e b ds (s, v) = Some (s', v') \<Longrightarrow> distinct (concat (map slots_of ds)) \<Longrightarrow>
     (\<And>k. k \<in> set (concat (map slots_of ds)) \<Longrightarrow> belonging s (Slot b k) = None) \<Longrightarrow> (\<And>k. c_param s (Slot b k) = P_null) \<Longrightarrow>
     \<exists>cs. wfx e s' G H (L(b := cs)) {b} \<and> fills b (set (input_slots ds)) s s'"
proof (induction ds arbitrary: s v L)
  case Nil
  then show ?case by (intro exI [of _ "L b"]) auto
next
  case (Cons d ds)
  let ?S = "(\<lambda>k. nat (lc_start_index d) + k) ` {0..<nat (lc_count d)}"
  have S: "set (slots_of d) = ?S" by (simp add: slots_of_def)
  have d: "distinct (concat (map slots_of ds))" "set (slots_of d) \<inter> set (concat (map slots_of ds)) = {}"
    using Cons.prems(3) by auto
  show ?case
  proof (cases "\<not> lc_type d \<and> lc_export d")
    case True
    then obtain s1 v1 where a: "create_array e b d [0..<nat (lc_count d)] (s, v) = Some (s1, v1)"
      and r: "create_inputs e b ds (s1, v1) = Some (s', v')" using Cons.prems(2) by (auto split: bind_splits)
    obtain cs where w1: "wfx e s1 G H (L(b := cs)) {b}" and f: "fills b ?S s s1"
      using create_array_keeps [OF Cons.prems(1) a] Cons.prems(4,5) S by auto
    have ne: "belonging s1 (Slot b k) = None" if "k \<in> set (concat (map slots_of ds))" for k
    proof -
      have "k \<notin> ?S" using that d(2) S by blast
      then show ?thesis using fills_slot [OF f] that Cons.prems(4) [of k] by simp
    qed
    have np: "c_param s1 (Slot b j) = P_null" for j using f Cons.prems(5) by (simp add: fills_def)
    from Cons.IH [OF w1 r d(1) ne np] obtain cs' where "wfx e s' G H (L(b := cs')) {b}"
      "fills b (set (input_slots ds)) s1 s'" unfolding fun_upd_upd by blast
    moreover from this(2) have "fills b (set (input_slots (d # ds))) s s'"
      using fills_trans [OF f] S True by (simp add: input_slots_def)
    ultimately show ?thesis by blast
  next
    case False
    then have r: "create_inputs e b ds (s, v) = Some (s', v')" using Cons.prems(2) by auto
    have ne: "belonging s (Slot b k) = None" if "k \<in> set (concat (map slots_of ds))" for k
      using that Cons.prems(4) [of k] by simp
    from Cons.IH [OF Cons.prems(1) r d(1) ne Cons.prems(5)] obtain cs where
      "wfx e s' G H (L(b := cs)) {b}" "fills b (set (input_slots ds)) s s'" by blast
    moreover have "input_slots (d # ds) = input_slots ds" using False by (auto simp: input_slots_def)
    ultimately show ?thesis by metis
  qed
qed

text \<open>The state in which \<^verbatim>\<open>new_brick\<close> has allocated and cleared the memory of a brick.\<close>

lemma fresh_brick_keeps:
  assumes w: "wfr e s G H L" and new: "\<And>b. b \<noteq> allocs s \<Longrightarrow> bp b = b_param s b \<and> bl b = b_loader s b"
    and s': "s' = (clear_conns (\<lambda>c. case c of Slot b k \<Rightarrow> b = allocs s | Dyn n \<Rightarrow> False) s)\<lparr>allocs := n,
      b_addr := (b_addr s)(allocs s := x), hash_next := (hash_next s)(allocs s := None), connectors := (connectors s)(allocs s := None),
      last_conn := (last_conn s)(allocs s := None), b_instance := i, b_param := bp, b_loader := bl\<rparr>" and n: "allocs s < n"
  shows "wfr e s' G H (L(allocs s := [])) \<and> (bp (allocs s) \<noteq> None \<and> bl (allocs s) \<in> set (loaders e) \<longrightarrow> wfx e s' G H (L(allocs s := [])) {allocs s}) \<and> \<not> live H (allocs s) \<and> (\<forall>k. belonging s' (Slot (allocs s) k) = None)
    \<and> (\<forall>k. c_param s' (Slot (allocs s) k) = P_null)"
proof -
  let ?b = "allocs s" and ?P = "\<lambda>c. case c of Slot b k \<Rightarrow> b = allocs s | Dyn n \<Rightarrow> False"
  define t where "t = clear_conns ?P s"
  have wt: "wfr e t G H L" using clear_fresh [OF w, of ?P] by (auto simp: t_def split: conn_ref.splits)
  have at: "allocs t = allocs s" "b_addr t = b_addr s" "hash_next t = hash_next s" "connectors t = connectors s"
    "last_conn t = last_conn s" "b_param t = b_param s" "b_loader t = b_loader s" by (simp_all add: t_def clear_conns_def)
  have nl: "\<not> live H ?b" using w by (auto simp: wfr_def)
  have ot: "owned t" using wt by (simp add: wfr_def)
  have none: "belonging t c \<noteq> Some ?b" for c using ownedD(5) [OF ot, of c ?b] at by auto
  have g: "graph s' G" using wt graph_cong [of s' t] by (simp add: wfr_def s' t_def)
  have h: "hash_ok s' H"
  proof -
    have nb: "b \<noteq> ?b" if "b \<in> set (H j)" for b j using that nl by (auto simp: live_def)
    have "?b \<notin> set (H j)" for j using nl by (auto simp: live_def)
    then have "linked (hash_next s') (brick_hash s' j) (H j)" for j
      using wt by (auto simp: wfr_def hash_ok_def s' t_def [symmetric] at)
    moreover have "distinct (map (b_addr s') (H j))" for j
    proof -
      have "map (b_addr s') (H j) = map (b_addr t) (H j)" using nb by (auto simp: s' t_def [symmetric] at)
      moreover have "distinct (map (b_addr t) (H j))" using wt by (simp add: wfr_def hash_ok_def)
      ultimately show ?thesis by (simp only:)
    qed
    moreover have "b_addr s' b = b_addr t b" if "b \<in> set (H j)" for b j using nb [OF that] by (simp add: s' t_def [symmetric] at)
    ultimately show ?thesis using wt by (simp add: wfr_def hash_ok_def)
  qed
  have f: "belonging s' = belonging t" "h_load_conn s' = h_load_conn t" "conn_next s' = conn_next t" "c_param s' = c_param t" "allocs s' = n"
    by (simp_all add: s' t_def)
  have "b < n \<and> conn_id c < n" if "belonging t c = Some b" for c b
    using ownedD(4,5) [OF ot that] n at by (simp add: less_trans)
  then have o: "owned s'" using ot by (simp add: owned_def f)
  have a: "alive_ends s' G H" using wt typed_cong [of s' t] by (simp add: wfr_def alive_ends_def f)
  have li: "listed s' ((L(?b := [])) b) b \<and> b < allocs s' \<and> b_loader s' b \<in> set (loaders e)" 
    if "live H b \<or> (b = ?b \<and> bp ?b \<noteq> None \<and> bl ?b \<in> set (loaders e))" for b
  proof (cases "b = ?b")
    case True
    then show ?thesis using none n that nl by (auto simp: listed_def f) (simp_all add: s')
  next
    case False
    then have "live H b" using that by simp
    then have "listed t (L b) b" "b < allocs t" "b_loader t b \<in> set (loaders e)" using wt by (auto simp: wfr_def)
    moreover have "connectors s' b = connectors t b" "last_conn s' b = last_conn t b" "b_param s' b = b_param t b" "b_loader s' b = b_loader t b"
      using False new [OF False] by (simp_all add: s' t_def [symmetric] at)
    ultimately show ?thesis using False n at(1) by (simp add: listed_def f)
  qed
  have sl: "belonging s' (Slot ?b k) = None" "c_param s' (Slot ?b k) = P_null" for k by (simp_all add: f) (simp_all add: t_def clear_conns_def)
  show ?thesis using g h o a li nl sl unfolding wfx_def wfr_def by auto
qed

lemma wfx_drop: "wfx e s G H L B \<Longrightarrow> wfr e s G H L"
  by (simp add: wfx_def wfr_def)

lemma new_brick_keeps:
  assumes w: "wfr e s G H L" and ok: "tables_ok e" and r: "new_brick e nm p m (s, v) = Some (res, m', s', v')"
  shows "\<exists>L'. wfr e s' G H L' \<and> (\<forall>b. res = Some b \<longrightarrow> wfx e s' G H L' {b} \<and> \<not> live H b
      \<and> (\<exists>ld. find_loader e nm = Some ld \<and> b_loader s' b = ld \<and> (\<forall>k. k \<notin> set (input_slots (bd_conn ld)) \<longrightarrow> belonging s' (Slot b k) = None))
      \<and> (\<forall>k. c_param s' (Slot b k) = P_null))
    \<and> (\<forall>x. live H x \<longrightarrow> b_addr s' x = b_addr s x)"
proof (cases "find_loader e nm")
  case None
  then show ?thesis using r w by (auto simp: new_brick_def)
next
  case (Some ld)
  have ld: "ld \<in> set (loaders e)" using Some by (auto simp: find_loader_def find_Some_iff)
  have nl: "\<not> live H (allocs s)" using w by (auto simp: wfr_def)
  let ?pre = "bd_conn_totalcount ld * 32 + 32" and ?b = "allocs s" and ?sid = "case root_sid e of None \<Rightarrow> [] | Some r \<Rightarrow> r"
  show ?thesis
  proof (cases "env_malloc e ?b (bd_instance_size ld + ?pre)")
    case None
    then have "s' = s\<lparr>allocs := Suc ?b\<rparr>" "res = None" using r Some by (auto simp: new_brick_def malloc_def Let_def)
    then show ?thesis using wfr_allocs [OF w, of "Suc ?b"] by auto
  next
    case sp: (Some space)
    define t where "t = (\<lambda>n bp bl. (clear_conns (\<lambda>c. case c of Slot b k \<Rightarrow> b = ?b | Dyn n \<Rightarrow> False) s)\<lparr>allocs := n,
      b_addr := (b_addr s)(?b := 0), hash_next := (hash_next s)(?b := None), connectors := (connectors s)(?b := None),
      last_conn := (last_conn s)(?b := None), b_instance := (b_instance s)(?b := space + int ?pre), b_param := bp, b_loader := bl\<rparr>)"
    show ?thesis
    proof (cases "env_malloc e (Suc ?b) (length p + length ?sid + 1)")
      case None
      then have s': "s' = t (Suc (Suc ?b)) (b_param s) (b_loader s)" and "res = None"
        using r Some sp by (auto simp: new_brick_def malloc_def Let_def t_def clear_conns_allocs intro!: control.equality)
      moreover have "wfr e s' G H (L(?b := []))" using fresh_brick_keeps [OF w _ s' [unfolded t_def]] by simp
      moreover have "b_addr s' = (b_addr s)(?b := 0)" using s' by (simp add: t_def)
      ultimately show ?thesis using nl by (metis fun_upd_other option.distinct(1))
    next
      case par: (Some q)
      let ?bp = "(b_param s)(?b := Some (p @ ?sid))" and ?bl = "(b_loader s)(?b := ld)"
      define s1 where "s1 = t (Suc (Suc ?b)) ?bp ?bl"
      obtain v1 where ci: "create_inputs e ?b (bd_conn ld) (s1, v1) = Some (s', v')" "res = Some ?b"
      proof -
        let ?s = "(clear_conns (\<lambda>c. case c of Slot b k \<Rightarrow> b = ?b | Dyn n \<Rightarrow> False) s)\<lparr>allocs := Suc ?b, b_addr := (b_addr s)(?b := 0),
          hash_next := (hash_next s)(?b := None), connectors := (connectors s)(?b := None), last_conn := (last_conn s)(?b := None),
          b_instance := (b_instance s)(?b := space + int ?pre), allocs := Suc (Suc ?b), b_param := ?bp, b_loader := ?bl\<rparr>"
        have "?s = s1" by (rule control.equality) (simp_all add: s1_def t_def)
        moreover obtain v1 where "create_inputs e ?b (bd_conn ld) (?s, v1) = Some (s', v')" "res = Some ?b"
          using r Some sp par by (auto simp: new_brick_def malloc_def Let_def create_brick_def clear_conns_allocs split: bind_splits prod.splits)
        ultimately show thesis using that by simp
      qed
      have f: "wfx e s1 G H (L(?b := [])) {?b}" "\<not> live H ?b" "\<And>k. belonging s1 (Slot ?b k) = None" "\<And>k. c_param s1 (Slot ?b k) = P_null"
        using fresh_brick_keeps [OF w _ s1_def [unfolded t_def]] ld by simp_all
      have "distinct (concat (map slots_of (bd_conn ld)))" using ok ld by (auto simp: tables_ok_def)
      from create_inputs_keeps [OF f(1) ci(1) this f(3,4)] obtain cs where
        c: "wfx e s' G H ((L(?b := []))(?b := cs)) {?b}" "fills ?b (set (input_slots (bd_conn ld))) s1 s'" by blast
      have "b_addr s' = (b_addr s)(?b := 0)" using c(2) by (simp add: fills_def s1_def t_def)
      then have "\<forall>x. live H x \<longrightarrow> b_addr s' x = b_addr s x" using nl by auto
      moreover have "b_loader s' ?b = ld" using c(2) by (simp add: fills_def s1_def t_def)
      moreover have "belonging s' (Slot ?b k) = None" if "k \<notin> set (input_slots (bd_conn ld))" for k
        using fills_slot [OF c(2) that] f(3) by simp
      moreover have "c_param s' (Slot ?b k) = P_null" for k using c(2) f(4) by (simp add: fills_def)
      ultimately show ?thesis using c(1) ci(2) f(2) wfx_drop Some by blast
    qed
  qed
qed

lemma insert_hash_keeps:
  assumes w: "wfx e s G H L {b}" and nl: "\<not> live H b" and addr: "\<And>x. live H x \<Longrightarrow> b_addr s x \<noteq> addr"
    and s': "s' = insert_brick_hash b (s\<lparr>b_addr := (b_addr s)(b := addr)\<rparr>)"
  shows "wfr e s' G (H(brick_hash_fn addr := b # H (brick_hash_fn addr))) L" (is "wfr e s' G ?H L")
proof -
  let ?i = "brick_hash_fn addr"
  have f: "b_addr s' = (b_addr s)(b := addr)" "hash_next s' = (hash_next s)(b := brick_hash s ?i)" "brick_hash s' = (brick_hash s)(?i := Some b)"
    by (simp_all add: s' insert_brick_hash_def Let_def)
  have nb: "b \<notin> set (H j)" for j using nl by (auto simp: live_def)
  have lv: "live ?H x \<longleftrightarrow> live H x \<or> x = b" for x
  proof -
    have set_H: "set (?H j) = (if j = ?i then insert b (set (H j)) else set (H j))" for j by auto
    show ?thesis unfolding live_def set_H by (metis insert_iff)
  qed
  have ho: "hash_ok s H" using w by (simp add: wfx_def)
  have "hash_ok s' ?H"
    unfolding hash_ok_def
  proof (intro allI conjI ballI)
    fix j
    have old: "linked (hash_next s) (brick_hash s j) (H j)" "distinct (map (b_addr s) (H j))" "\<forall>x \<in> set (H j). brick_hash_fn (b_addr s x) = j"
      using ho by (auto simp: hash_ok_def)
    show "linked (hash_next s') (brick_hash s' j) (?H j)" using old(1) nb by (auto simp: f)
    have m: "map (b_addr s') (H j) = map (b_addr s) (H j)" using nb by (auto simp: f)
    have "addr \<notin> b_addr s ` set (H j)" using addr by (auto simp: live_def)
    then show "distinct (map (b_addr s') (?H j))" using old(2) m nb by (auto simp: f simp del: map_eq_conv)
    fix x assume "x \<in> set (?H j)"
    then show "brick_hash_fn (b_addr s' x) = j" using old(3) nb by (auto simp: f split: if_splits)
  qed
  moreover have "graph s' G" using w graph_cong [of s' s] by (simp add: wfx_def s' insert_brick_hash_def Let_def)
  moreover have "owned s'" using w by (simp add: wfx_def owned_def s' insert_brick_hash_def Let_def)
  moreover have "alive_ends s' G ?H"
  proof -
    have "alive_ends s G H" "belonging s' = belonging s" using w by (simp_all add: wfx_def s' insert_brick_hash_def Let_def)
    moreover have "typed s' G = typed s G" by (rule typed_cong) (simp add: s' insert_brick_hash_def Let_def)
    ultimately show ?thesis unfolding alive_ends_def lv by (metis (no_types))
  qed
  moreover have "listed s' (L x) x \<and> x < allocs s' \<and> b_loader s' x \<in> set (loaders e)" if "live ?H x" for x
    using w that lv by (auto simp: wfx_def listed_def s' insert_brick_hash_def Let_def)
  ultimately show ?thesis by (simp add: wfr_def)
qed

lemma instbrick_keeps:
  assumes w: "wfr e s G H L" and ok: "tables_ok e" and r: "ctl_instbrick e param (a, s, v) = Some (a', s', v')"
  shows "\<exists>H' L'. wfr e s' G H' L'"
proof (cases "log_addr a = 0")
  case True
  then show ?thesis using r w by (auto simp: ctl_instbrick_def)
next
  case False
  have h: "hash_ok s H" using w by (simp add: wfr_def)
  obtain found where f: "find_brick_hash (log_addr a) s = Some found" using find_brick [OF h] by blast
  show ?thesis
  proof (cases found)
    case (Some b)
    then have "s' = s" using r False f by (auto simp: ctl_instbrick_def init_brick_def split: prod.splits if_splits)
    then show ?thesis using w by auto
  next
    case None
    obtain res m s1 v1 where n: "new_brick e (args.name a) param (ctl_mand s) (s, v) = Some (res, m, s1, v1)"
      using r False f None by (auto simp: ctl_instbrick_def enter_brick_def split: bind_splits)
    obtain L1 where w1: "wfr e s1 G H L1" "\<And>b. res = Some b \<Longrightarrow> wfx e s1 G H L1 {b} \<and> \<not> live H b"
      "\<And>x. live H x \<Longrightarrow> b_addr s1 x = b_addr s x" using new_brick_keeps [OF w ok n] by blast
    let ?s = "s1\<lparr>ctl_mand := m\<rparr>"
    show ?thesis
    proof (cases res)
      case None
      then have "s' = ?s" using r False f \<open>found = None\<close> n by (auto simp: ctl_instbrick_def enter_brick_def)
      then show ?thesis using w1(1) wfr_cong(1) [of ?s s1 e G H L1] by auto
    next
      case (Some b)
      have s': "s' = insert_brick_hash b (?s\<lparr>b_addr := (b_addr ?s)(b := log_addr a)\<rparr>)"
        using r False f None n Some by (auto simp: ctl_instbrick_def enter_brick_def init_brick_def split: prod.splits if_splits)
      have "wfx e ?s G H L1 {b}" using w1(2) [OF Some] wfr_cong(2) [of ?s s1 e G H L1 "{b}"] by simp
      moreover have "b_addr ?s x \<noteq> log_addr a" if "live H x" for x using find_brick_none [OF h _ that] f None w1(3) [OF that] by simp
      ultimately show ?thesis using insert_hash_keeps [OF _ _ _ s'] w1(2) [OF Some] by blast
    qed
  qed
qed

section \<open>Deleting bricks\<close>

lemma free_own:
  "own_param s c \<Longrightarrow> c_param s c \<noteq> P_freed \<Longrightarrow> free_param b c s = Some (s\<lparr>c_param := (c_param s)(c := P_freed)\<rparr>)"
  by (auto simp: own_param_def free_param_def split: c_param.splits)

lemma delete_outputs_result:
  assumes "\<forall>c \<in> set cs. h_load_conn s c \<noteq> None \<and> (is_output s c \<longrightarrow> l_first s (Conn c) = None) \<and> c_param s c \<noteq> P_freed"
  shows "\<exists>q w'. delete_outputs b p cs (s, w) = Some (s\<lparr>c_param := q\<rparr>, w') \<and> (\<forall>c. c \<notin> set cs \<longrightarrow> q c = c_param s c)
    \<and> (\<forall>c. c_param s c \<noteq> P_freed \<longrightarrow> q c \<noteq> P_freed)"
  using assms
proof (induction cs arbitrary: s w)
  case Nil
  then show ?case by (intro exI [of _ "c_param s"]) auto
next
  case (Cons c cs)
  obtain d where d: "h_load_conn s c = Some d" using Cons.prems by auto
  show ?case
  proof (cases "lc_type d")
    case False
    then show ?thesis using Cons.IH [of s w] Cons.prems d by auto
  next
    case True
    then have o: "is_output s c" and f: "l_first s (Conn c) = None" using Cons.prems d by (auto simp: is_output_def)
    have da: "disconnect_all c s = Some s"
      using f by (simp add: disconnect_all_def visit.simps fun_upd_idem)
    show ?thesis
    proof (cases "own_param s c")
      case False
      then show ?thesis using Cons.IH [of s w] Cons.prems d True da by auto
    next
      case own: True
      obtain a1 w1 where i: "lc_init_conn d (c_instance s c) p (zero_args\<lparr>destr := True, op_code := opcode_output_init\<rparr>, w) = (a1, w1)" by fastforce
      let ?s = "s\<lparr>c_param := (c_param s)(c := P_null)\<rparr>"
      have k: "is_output ?s = is_output s" using conn_kinds_cong [of ?s s] by simp
      have step: "delete_outputs b p (c # cs) (s, w) = delete_outputs b p cs (?s, w1)"
        using d True da own i free_own [OF own] Cons.prems by simp
      have pre: "\<forall>c \<in> set cs. h_load_conn ?s c \<noteq> None \<and> (is_output ?s c \<longrightarrow> l_first ?s (Conn c) = None) \<and> c_param ?s c \<noteq> P_freed"
        using Cons.prems by (simp add: k)
      from Cons.IH [OF pre, of w1] obtain q w' where "delete_outputs b p cs (?s, w1) = Some (?s\<lparr>c_param := q\<rparr>, w')"
        "\<forall>c. c \<notin> set cs \<longrightarrow> q c = c_param ?s c" "\<forall>c. c_param ?s c \<noteq> P_freed \<longrightarrow> q c \<noteq> P_freed" by blast
      then show ?thesis using step by (intro exI [of _ q] exI [of _ w']) auto
    qed
  qed
qed

text \<open>The connectors \<open>cs\<close> are taken out of the graph.\<close>

definition purge :: "conn_ref list \<Rightarrow> (link_ref \<Rightarrow> conn_ref list) \<Rightarrow> link_ref \<Rightarrow> conn_ref list" where
  "purge cs G = fold detach cs G"

lemma purge_subset: "set (purge cs G l) \<subseteq> set (G l)"
proof (induction cs arbitrary: G)
  case (Cons c cs)
  have "set (detach c G l) \<subseteq> set (G l)" by (simp add: detach_def set_remove1_subset)
  then show ?case using Cons.IH [of "detach c G"] by (auto simp: purge_def)
qed (simp add: purge_def)

lemma purge_gone:
  assumes "\<And>l. distinct (G l)" "c \<in> set cs"
  shows "c \<notin> set (purge cs G l)"
  using assms
proof (induction cs arbitrary: G)
  case (Cons d cs)
  have dist: "distinct (detach d G l)" for l using Cons.prems(1) by (simp add: detach_def)
  have "c \<notin> set (detach d G l)" if "c = d" using that Cons.prems(1) by (simp add: detach_def)
  then show ?case using Cons dist purge_subset [of cs "detach d G" l] by (auto simp: purge_def)
qed simp

lemma purge_filter:
  assumes "\<And>l. distinct (G l)"
  shows "purge cs G l = filter (\<lambda>c. c \<notin> set cs) (G l)"
  using assms
proof (induction cs arbitrary: G)
  case (Cons c cs)
  have "distinct (detach c G l)" for l using Cons.prems by (simp add: detach_def)
  from Cons.IH [OF this] show ?case using Cons.prems
    by (simp add: purge_def detach_def distinct_remove1_removeAll removeAll_filter_not_eq) (metis (no_types, lifting))
qed (simp add: purge_def)

lemma graph_distinct: "graph s G \<Longrightarrow> distinct (G l)"
  using linked_distinct [of "l_chain s" "l_first s l" "map Conn (G l)"] outer_okD(1,2) [of s G l]
  by (cases "source s l") (auto simp: graph_def distinct_map)

lemma graph_param: "graph (s\<lparr>c_param := q\<rparr>) G = graph s G"
  by (rule graph_cong) simp_all

lemma delete_inputs_result:
  assumes "graph s G" "\<forall>c \<in> set cs. h_load_conn s c \<noteq> None \<and> c_param s c \<noteq> P_freed" "distinct cs"
  shows "\<exists>s'. delete_inputs b cs s = Some s' \<and> graph s' (purge cs G) \<and> relinked (s\<lparr>c_param := c_param s'\<rparr>) s'
    \<and> (\<forall>c. c \<notin> set cs \<longrightarrow> c_param s' c = c_param s c)"
  using assms
proof (induction cs arbitrary: s G)
  case Nil
  then show ?case by (simp add: purge_def)
next
  case (Cons c cs)
  obtain d where d: "h_load_conn s c = Some d" using Cons.prems by auto
  have dist: "distinct cs" "c \<notin> set cs" using Cons.prems(3) by auto
  show ?case
  proof (cases "lc_type d")
    case True
    then have "\<not> is_input s c" using d by (simp add: is_input_def)
    then have "unconnected c G" using Cons.prems(1) by (auto simp: unconnected_def graph_def outer_ok_def)
    then have "purge (c # cs) G = purge cs G" by (simp add: purge_def detach_unconnected)
    then show ?thesis using Cons.IH [of s G] Cons.prems d True dist by auto
  next
    case False
    then have i: "is_input s c" using d by (simp add: is_input_def)
    obtain k s1 where s1: "disconnect c s = Some (k, s1)" "graph s1 (detach c G)" using disconnect_result [OF Cons.prems(1) i] by blast
    have rl: "relinked s s1" using disconnect_relinked [OF s1(1)] .
    then have p1: "c_param s1 = c_param s" "h_load_conn s1 = h_load_conn s" by (auto simp: relinked_def)
    define q where "q = (if own_param s1 c then (c_param s)(c := P_freed) else c_param s)"
    have f: "(if own_param s1 c then free_param b c s1 else Some s1) = Some (s1\<lparr>c_param := q\<rparr>)"
      using free_own [of s1 c b] Cons.prems(2) p1 by (auto simp: q_def)
    have "graph (s1\<lparr>c_param := q\<rparr>) (detach c G)" using s1(2) by (simp add: graph_param)
    moreover have "\<forall>x \<in> set cs. h_load_conn (s1\<lparr>c_param := q\<rparr>) x \<noteq> None \<and> c_param (s1\<lparr>c_param := q\<rparr>) x \<noteq> P_freed"
      using Cons.prems(2) dist p1 by (auto simp: q_def)
    ultimately obtain s' where s': "delete_inputs b cs (s1\<lparr>c_param := q\<rparr>) = Some s'" "graph s' (purge cs (detach c G))"
      "relinked (s1\<lparr>c_param := q, c_param := c_param s'\<rparr>) s'" "\<forall>x. x \<notin> set cs \<longrightarrow> c_param s' x = q x"
      using Cons.IH [of "s1\<lparr>c_param := q\<rparr>" "detach c G"] dist(1) by auto
    have "delete_inputs b (c # cs) s = Some s'" using d False s1(1) f s'(1) by simp
    moreover have "relinked (s\<lparr>c_param := c_param s'\<rparr>) s'" using rl s'(3) by (simp add: relinked_def)
    moreover have "\<forall>x. x \<notin> set (c # cs) \<longrightarrow> c_param s' x = c_param s x" using s'(4) by (auto simp: q_def)
    ultimately show ?thesis using s'(2) by (auto simp: purge_def)
  qed
qed

lemma outputs_checked:
  assumes g: "graph s G" and c: "\<forall>c \<in> set cs. h_load_conn s c \<noteq> None"
  shows "those (map (output_connected s) cs) = Some (map (\<lambda>c. is_output s c \<and> G (Conn c) \<noteq> []) cs)"
proof -
  have "output_connected s c = Some (is_output s c \<and> G (Conn c) \<noteq> [])" if "c \<in> set cs" for c
  proof -
    obtain d where d: "h_load_conn s c = Some d" using c \<open>c \<in> set cs\<close> by auto
    have "l_first s (Conn c) = None \<longleftrightarrow> G (Conn c) = []" if "lc_type d"
      using outer_okD(1) [of s G "Conn c"] g d that by (cases "G (Conn c)") (auto simp: graph_def is_output_def)
    then show ?thesis using d by (auto simp: output_connected_def is_output_def)
  qed
  then show ?thesis using c by (induction cs) auto
qed

lemma hash_remove:
  assumes h: "hash_ok s H" and b: "b \<in> set (H i)" and ptr: "find_place (brick_hash s i) (hash_next s) b Head = Some (Some ptr)"
  shows "hash_ok (set_hash i ptr (hash_next s b) s) (\<lambda>j. remove1 b (H j))"
proof -
  have at: "brick_hash_fn (b_addr s x) = j" if "x \<in> set (H j)" for x j using h that by (simp add: hash_ok_def)
  have i: "b \<in> set (H j) \<longleftrightarrow> j = i" for j using at b by metis
  have rm: "remove1 b (H j) = H j" if "j \<noteq> i" for j using i that by (simp add: remove1_idem)
  have li: "linked (hash_next s) (brick_hash s j) (H j)" for j using h by (simp add: hash_ok_def)
  have dis: "x \<notin> set (H j)" if "x \<in> set (H i)" "j \<noteq> i" for x j using at that by metis
  let ?s = "set_hash i ptr (hash_next s b) s"
  have "linked (hash_next ?s) (brick_hash ?s j) (remove1 b (H j))" for j
    using li [of i] b
  proof (cases rule: unlink_list)
    case head
    then show ?thesis using ptr li rm by (cases "j = i") auto
  next
    case (later y)
    then show ?thesis using ptr li rm dis [of y j] by (cases "j = i") auto
  qed
  moreover have "b_addr ?s = b_addr s" by (cases ptr) simp_all
  moreover have "distinct (map (b_addr s) (remove1 b (H j)))" for j
    using h by (auto simp: hash_ok_def distinct_map intro: inj_on_subset dest: set_remove1_subset [THEN subsetD])
  moreover have "brick_hash_fn (b_addr s x) = j" if "x \<in> set (remove1 b (H j))" for x j
    using that at set_remove1_subset [of b "H j"] by blast
  ultimately show ?thesis unfolding hash_ok_def by simp
qed

text \<open>\<^verbatim>\<open>delete_brick\<close> refuses while an output of the brick is connected, and otherwise removes the brick from the hash
  table and its inputs from the graph.\<close>

lemma delete_brick_result:
  assumes w: "wfr e s G H L" and b: "live H b"
  shows "if \<exists>c \<in> set (L b). is_output s c \<and> G (Conn c) \<noteq> [] then delete_brick b p (s, v) = Some (False, s, v)
    else \<exists>s' v'. delete_brick b p (s, v) = Some (True, s', v') \<and> wfr e s' (purge (L b) G) (\<lambda>j. remove1 b (H j)) L
      \<and> b_addr s' = b_addr s \<and> belonging s' = belonging s \<and> h_load_conn s' = h_load_conn s"
proof -
  let ?i = "brick_hash_fn (b_addr s b)"
  have g: "graph s G" and h: "hash_ok s H" and o: "owned s" and al: "alive_ends s G H" and lb: "listed s (L b) b" using w b by (auto simp: wfr_def)
  have bi: "b \<in> set (H ?i)" using b h by (auto simp: live_def hash_ok_def)
  have "linked (hash_next s) (brick_hash s ?i) (H ?i)" using h by (simp add: hash_ok_def)
  then obtain ptr where ptr: "find_place (brick_hash s ?i) (hash_next s) b Head = Some (Some ptr)"
    using bi by (cases rule: unlink_list) auto
  have vis: "visit (conn_next s) (connectors s b) = Some (L b)" using lb by (intro visit_linked) (simp add: listed_def)
  have "h_load_conn s c \<noteq> None" if "c \<in> set (L b)" for c
    using that ownedD(1) [OF o, of c] listed_belongs [OF lb, of c] by simp
  then have load: "\<forall>c \<in> set (L b). h_load_conn s c \<noteq> None" by blast
  note chk = outputs_checked [OF g load]
  show ?thesis
  proof (cases "\<exists>c \<in> set (L b). is_output s c \<and> G (Conn c) \<noteq> []")
    case True
    then have "True \<in> set (map (\<lambda>c. is_output s c \<and> G (Conn c) \<noteq> []) (L b))" by auto
    then show ?thesis using True ptr vis chk by (simp add: delete_brick_def Let_def)
  next
    case False
    define s1 where "s1 = set_hash ?i ptr (hash_next s b) s"
    have f1: "h_load_conn s1 = h_load_conn s" "l_first s1 = l_first s" "l_chain s1 = l_chain s" "in_connect s1 = in_connect s" "rev_next s1 = rev_next s"
      "rev_chain s1 = rev_chain s" "c_param s1 = c_param s" "belonging s1 = belonging s" "conn_next s1 = conn_next s" "allocs s1 = allocs s"
      "connectors s1 = connectors s" "last_conn s1 = last_conn s" "b_param s1 = b_param s" "b_loader s1 = b_loader s" "b_addr s1 = b_addr s"
      by (cases ptr; simp add: s1_def)+
    have k1: "is_output s1 = is_output s" using conn_kinds_cong [OF f1(1)] by simp
    have g1: "graph s1 G" using g graph_cong [OF f1(1-6)] by simp
    have "l_first s (Conn c) = None" if "c \<in> set (L b)" "is_output s c" for c
      using outer_okD(1) [of s G "Conn c"] g False that by (auto simp: graph_def)
    then have pre: "\<forall>c \<in> set (L b). h_load_conn s1 c \<noteq> None \<and> (is_output s1 c \<longrightarrow> l_first s1 (Conn c) = None) \<and> c_param s1 c \<noteq> P_freed"
      using load lb by (auto simp: f1 k1 listed_def)
    obtain q v1 where d1: "delete_outputs b p (L b) (s1, bd_dynamic_exit (b_loader s1 b) (b_instance s1 b) p v) = Some (s1\<lparr>c_param := q\<rparr>, v1)"
      "\<forall>c. c \<notin> set (L b) \<longrightarrow> q c = c_param s c" "\<forall>c. c_param s c \<noteq> P_freed \<longrightarrow> q c \<noteq> P_freed"
      using delete_outputs_result [OF pre] f1(7) by metis
    have dl: "distinct (L b)" using lb linked_distinct by (auto simp: listed_def)
    have "\<forall>c \<in> set (L b). h_load_conn (s1\<lparr>c_param := q\<rparr>) c \<noteq> None \<and> c_param (s1\<lparr>c_param := q\<rparr>) c \<noteq> P_freed"
      using pre d1(3) f1(7) by auto
    then obtain s2 where d2: "delete_inputs b (L b) (s1\<lparr>c_param := q\<rparr>) = Some s2" "graph s2 (purge (L b) G)"
      "relinked (s1\<lparr>c_param := c_param s2\<rparr>) s2" "\<forall>c. c \<notin> set (L b) \<longrightarrow> c_param s2 c = q c"
      using delete_inputs_result [of "s1\<lparr>c_param := q\<rparr>" G "L b" b] g1 dl by (auto simp: graph_param)
    define s' where "s' = s2\<lparr>b_param := (b_param s2)(b := None)\<rparr>"
    have f2: "belonging s' = belonging s" "h_load_conn s' = h_load_conn s" "conn_next s' = conn_next s" "allocs s' = allocs s"
      "connectors s' = connectors s" "last_conn s' = last_conn s" "b_loader s' = b_loader s" "b_param s2 = b_param s"
      "hash_next s' = hash_next s1" "brick_hash s' = brick_hash s1" "b_addr s' = b_addr s1"
      using d2(3) by (simp_all add: relinked_def s'_def f1)
    have "delete_brick b p (s, v) = Some (True, s', v1)"
      using ptr vis chk False d1(1) d2(1) lb f2(8) by (auto simp: delete_brick_def Let_def s1_def [symmetric] s'_def listed_def)
    moreover have "wfr e s' (purge (L b) G) (\<lambda>j. remove1 b (H j)) L" (is "wfr e s' _ ?H L")
      unfolding wfr_def
    proof (intro conjI allI impI)
      have lv: "live ?H x \<longleftrightarrow> live H x \<and> x \<noteq> b" for x
        using h by (auto simp: live_def hash_ok_def distinct_map)
      show "graph s' (purge (L b) G)" using d2(2) graph_cong [of s' s2] by (simp add: s'_def)
      show "hash_ok s' ?H" using hash_remove [OF h bi ptr] unfolding s1_def [symmetric] by (simp add: hash_ok_def f2)
      show "owned s'" using o by (simp add: owned_def f2)
      show "alive_ends s' (purge (L b) G) ?H"
        unfolding alive_ends_def f2
      proof (intro conjI allI impI)
        show "typed s' (purge (L b) G)"
          using al typed_mono [of s G "purge (L b) G"] purge_subset [of "L b" G] typed_cong [of s' s] f2 by (simp add: alive_ends_def)
        fix c l assume c: "c \<in> set (purge (L b) G l) \<or> (l = Conn c \<and> purge (L b) G l \<noteq> [])"
        have "G l \<noteq> []" if "purge (L b) G l \<noteq> []" using that purge_subset [of "L b" G l] by (cases "G l") auto
        then obtain x where x: "live H x" "belonging s c = Some x" using al c purge_subset [of "L b" G l] unfolding alive_ends_def by blast
        moreover have "x \<noteq> b"
        proof
          assume "x = b"
          then have cb: "c \<in> set (L b)" using x listed_belongs [OF lb] by simp
          then have "c \<notin> set (purge (L b) G l)" using purge_gone [of G c "L b" l] graph_distinct [OF g] by blast
          then have "l = Conn c" "G (Conn c) \<noteq> []" using c \<open>purge (L b) G l \<noteq> [] \<Longrightarrow> G l \<noteq> []\<close> by auto
          moreover from this have "is_output s c" using outer_okD(2) [of s G "Conn c"] g by (auto simp: graph_def)
          ultimately show False using False cb by blast
        qed
        ultimately show "\<exists>b. live ?H b \<and> belonging s c = Some b" using lv by blast
      qed
      fix x assume "live ?H x"
      then have x: "live H x" "x \<noteq> b" using lv by auto
      then have lx: "listed s (L x) x" using w by (simp add: wfr_def)
      have "c \<notin> set (L b)" if "c \<in> set (L x)" for c using that x(2) listed_belongs [OF lx, of c] listed_belongs [OF lb, of c] by simp
      then have "c_param s' c = c_param s c" if "c \<in> set (L x)" for c using that d1(2) d2(4) by (simp add: s'_def)
      then show "listed s' (L x) x" using lx x(2) f2 by (auto simp: listed_def s'_def)
      show "x < allocs s'" "b_loader s' x \<in> set (loaders e)" using w x f2 by (auto simp: wfr_def)
    qed
    moreover have "b_addr s' = b_addr s" using f2 f1 by simp
    ultimately show ?thesis using False f2(1,2) by auto
  qed
qed

end
