(* ===== verification/Control_Ops.thy ===== *)
theory Control_Ops
  imports Control_Bricks
begin

text \<open>
  The operations of the control brick as a whole: every one keeps the invariant, \<^verbatim>\<open>static_init\<close> establishes it,
  \<^verbatim>\<open>$connect\<close> and \<^verbatim>\<open>$disconnect\<close> refine adding and removing an edge of the graph of connections, and deleting a brick
  leaves no link to it.
\<close>

section \<open>The invariant of the running program\<close>

text \<open>What the control brick relies on: initializations succeed and the connectors of a brick type have slots of
  their own.\<close>

definition env_ok :: "'w env \<Rightarrow> bool" where
  "env_ok e \<longleftrightarrow> inits_succeed e \<and> tables_ok e"

definition keeps_wf :: "'w env \<Rightarrow> 'w ctl_op \<Rightarrow> bool" where
  "keeps_wf e f \<longleftrightarrow> (\<forall>p a s w a' s' w'. ctl_wf e s \<longrightarrow> f p (a, s, w) = Some (a', s', w') \<longrightarrow> ctl_wf e s')"

definition running_ok :: "'w env \<Rightarrow> 'w running \<Rightarrow> bool" where
  "running_ok e st \<longleftrightarrow> (case st of None \<Rightarrow> True | Some (s, w) \<Rightarrow> ctl_wf e s)"

lemma keeps_wfI: "(\<And>p a s w a' s' w' G H L. wfr e s G H L \<Longrightarrow> f p (a, s, w) = Some (a', s', w') \<Longrightarrow> ctl_wf e s') \<Longrightarrow> keeps_wf e f"
  by (auto simp: keeps_wf_def ctl_wf_def)

lemma keeps_same: "(\<And>p a s w a' s' w'. f p (a, s, w) = Some (a', s', w') \<Longrightarrow> s' = s) \<Longrightarrow> keeps_wf e f"
  unfolding keeps_wf_def by blast

lemma instbrick_wf: "env_ok e \<Longrightarrow> keeps_wf e (ctl_instbrick e)"
  using instbrick_keeps [of e] by (intro keeps_wfI) (metis env_ok_def ctl_wf_def)

lemma deinstbrick_wf: "keeps_wf e ctl_deinstbrick"
proof (rule keeps_wfI)
  fix p a s w a' s' w' G H L
  assume wf: "wfr e s G H L" and r: "ctl_deinstbrick p (a, s, w) = Some (a', s', w')"
  have h: "hash_ok s H" using wf by (simp add: wfr_def)
  have del: "ctl_wf e s'" if "live H b" "delete_brick b p (s, w) = Some (ok, s', v')" for b ok v'
    using delete_brick_result [OF wf that(1), of p w] that(2) wf by (auto simp: ctl_wf_def split: if_splits)
  show "ctl_wf e s'"
  proof (cases "log_addr a = 0")
    case False
    then have "with_brick (log_addr a) (\<lambda>brick (a, s, w). do {
       (ok, s, w) \<leftarrow> delete_brick brick p (s, w);
       Some (a\<lparr>success := ok\<rparr>, s, w) }) (a, s, w) = Some (a', s', w')" using r by (simp add: ctl_deinstbrick_def)
    with h show ?thesis
      by (cases rule: with_brick_cases) (use wf del in \<open>auto simp: ctl_wf_def split: bind_splits\<close>)
  qed (use r wf in \<open>auto simp: ctl_deinstbrick_def ctl_wf_def\<close>)
qed

lemma instconn_wf: "env_ok e \<Longrightarrow> keeps_wf e (ctl_instconn e)"
  using ctl_instconn_keeps [of e] by (fastforce intro!: keeps_wfI simp: env_ok_def ctl_wf_def)

lemma deinstconn_wf: "keeps_wf e ctl_deinstconn"
  using deinstconn_keeps [of e] by (fastforce intro!: keeps_wfI simp: ctl_wf_def)

lemma connect_wf: "env_ok e \<Longrightarrow> keeps_wf e (ctl_connect e)"
proof (rule keeps_wfI)
  fix p a s w a' s' w' G H L
  assume e: "env_ok e" and wf: "wfr e s G H L" and r: "ctl_connect e p (a, s, w) = Some (a', s', w')"
  obtain c1 c2 where "conn1 a = Some c1" "conn2 a = Some c2" using r by (auto simp: ctl_connect_def split: bind_splits)
  then show "ctl_wf e s'" using connect_keeps [OF wf _ _ _ r, of c1 c2] e unfolding env_ok_def ctl_wf_def by blast
qed

lemma disconnect_wf: "keeps_wf e ctl_disconnect"
proof (rule keeps_wfI)
  fix p a s w a' s' w' G H L
  assume wf: "wfr e s G H L" and r: "ctl_disconnect p (a, s, w) = Some (a', s', w')"
  obtain c1 where "conn1 a = Some c1" using r by (auto simp: ctl_disconnect_def split: bind_splits)
  then show "ctl_wf e s'" using disconnect_op_keeps [OF wf _ r, of c1] unfolding ctl_wf_def by blast
qed

lemma mk_conn_info_same: "mk_conn_info e l (a, s, w) = Some (a', s', w') \<Longrightarrow> s' = s"
  by (auto simp: mk_conn_info_def Let_def split: bind_splits if_splits)

lemma with_brick_same:
  "(\<And>b a'' w''. f b (a'', s, w'') = Some (a', s', w') \<Longrightarrow> s' = s) \<Longrightarrow> with_brick addr f (a, s, w) = Some (a', s', w') \<Longrightarrow> s' = s"
  by (auto simp: with_brick_def split: bind_splits option.splits)

lemma getconn_wf: "keeps_wf e (ctl_getconn e')"
  by (rule keeps_same)
    (auto simp: ctl_getconn_def with_conn_def split: bind_splits if_splits option.splits
      dest!: with_brick_same [rotated] dest: mk_conn_info_same)

lemma findconn_wf: "keeps_wf e (ctl_findconn e')"
  by (rule keeps_same)
    (auto simp: ctl_findconn_def Let_def split: bind_splits if_splits option.splits
      dest!: with_brick_same [rotated] dest: mk_conn_info_same)

lemma put_info_same [simp]: "fst (snd (put_info e len x r (a, s, w))) = s"
  by (auto simp: put_info_def split: sum.splits)

lemma succeed_state [simp]: "snd (succeed x) = snd x"
  by (simp add: succeed_def split_beta)

lemma put_info_state: "Some (succeed (put_info e len x r (a, s, w))) = Some (a', s', w') \<Longrightarrow> s' = s"
  by (metis fst_conv option.inject put_info_same snd_conv succeed_state)

lemma trans_wf:
  assumes "keeps_wf e adapt"
  shows "keeps_wf e (ctl_trans e' adapt)"
proof -
  have "s' = s \<or> (\<exists>a1 w1 a2 w2. adapt p (a1, s, w1) = Some (a2, s', w2))" if "ctl_trans e' adapt p (a, s, w) = Some (a', s', w')" for p a s w a' s' w'
    using that by (auto simp: ctl_trans_def Let_def succeed_def split: bind_splits if_splits
        dest!: with_brick_same [rotated] put_info_state [unfolded succeed_def, simplified])
  then show ?thesis using assms unfolding keeps_wf_def by blast
qed

lemma gadr_wf: "keeps_wf e ctl_gadr"
proof (rule keeps_wfI)
  fix p a s w a' s' w' G H L
  assume wf: "wfr e s G H L" and r: "ctl_gadr p (a, s, w) = Some (a', s', w')"
  have "wfr e s' G H L = wfr e s G H L" by (rule wfr_cong(1)) (use r in \<open>auto simp: ctl_gadr_def Let_def\<close>)
  then show "ctl_wf e s'" using wf unfolding ctl_wf_def by blast
qed

lemma run_op_keeps: "keeps_wf e f \<Longrightarrow> running_ok e st \<Longrightarrow> running_ok e (snd (run_op f p (a, st)))"
  unfolding keeps_wf_def by (fastforce simp: run_op_def running_ok_def split: option.splits)

lemmas control_ops_wf = instbrick_wf deinstbrick_wf instconn_wf deinstconn_wf connect_wf disconnect_wf getconn_wf findconn_wf
  trans_wf gadr_wf

lemma control_impl_keeps:
  assumes e: "env_ok e" "keeps_wf e (sub_op adapt)" and g: "control_impl e adapt sect c = Some g" and st: "running_ok e st"
  shows "running_ok e (snd (g p (a, st)))"
proof -
  have "keeps_wf e (\<lambda>param x. Some (succeed x))" "keeps_wf e (\<lambda>param x. None)"
    by (auto intro!: keeps_same simp: succeed_def)
  then obtain f where "g = run_op f" "keeps_wf e f"
    using g control_ops_wf [of e] e by (cases c) (auto simp: control_impl_def)
  then show ?thesis using run_op_keeps [OF _ st] by simp
qed

section \<open>The first brick\<close>

text \<open>The tables of the control brick itself: it has an output \<^verbatim>\<open>control\<close>.\<close>

definition control_loaded :: "'w env \<Rightarrow> bool" where
  "control_loaded e \<longleftrightarrow> (case find_loader e ''control_simple'' of None \<Rightarrow> False
     | Some ld \<Rightarrow> (case find (\<lambda>d. lc_export d \<and> lc_name d = ''control'') (bd_conn ld) of None \<Rightarrow> False
         | Some d \<Rightarrow> lc_type d \<and> lc_count d = 1))"

lemma empty_control_wf: "wfr e empty_control (\<lambda>_. []) (\<lambda>_. []) (\<lambda>_. [])"
  by (simp add: wfr_def graph_def outer_ok_def inner_ok_def hash_ok_def owned_def alive_ends_def typed_def live_def is_output_def
      is_input_def empty_control_def)

lemma wfx_param: "wfx e s G H L B \<Longrightarrow> p \<noteq> P_freed \<Longrightarrow> wfx e (s\<lparr>c_param := (c_param s)(c := p)\<rparr>) G H L B"
proof -
  assume w: "wfx e s G H L B" and p: "p \<noteq> P_freed"
  let ?s = "s\<lparr>c_param := (c_param s)(c := p)\<rparr>"
  have "graph ?s G = graph s G" "typed ?s G = typed s G" by (rule graph_cong typed_cong; simp)+
  then show ?thesis using w p by (auto simp: wfx_def hash_ok_def listed_def owned_def alive_ends_def)
qed

lemma output_slot_free:
  assumes "d \<in> set ds" "lc_type d" "lc_count d = 1" "distinct (concat (map slots_of ds))"
  shows "nat (lc_start_index d) \<notin> set (input_slots ds)"
proof
  assume "nat (lc_start_index d) \<in> set (input_slots ds)"
  then obtain d' where d': "d' \<in> set ds" "\<not> lc_type d'" "nat (lc_start_index d) \<in> set (slots_of d')"
    by (auto simp: input_slots_def)
  have "nat (lc_start_index d) \<in> set (slots_of d)" using assms(3) by (simp add: slots_of_def)
  moreover have "d \<noteq> d'" using d'(2) assms(2) by auto
  then have "set (slots_of d) \<inter> set (slots_of d') = {} \<or> slots_of d = slots_of d'"
    using assms(1,4) d'(1) by (auto simp: distinct_concat_iff)
  ultimately show False using d' assms by (induction ds) auto
qed

lemma insert_conn_param: "insert_conn b c (s\<lparr>c_param := q\<rparr>) = (insert_conn b c s)\<lparr>c_param := q\<rparr>"
  by (auto simp: insert_conn_def Let_def split: option.splits)

lemma static_init_wf:
  assumes e: "env_ok e" "control_loaded e" and r: "static_init e statics m w = Some (s', w')"
  shows "ctl_wf e s'"
proof -
  obtain boot mand s1 w1 where nb: "new_brick e ''control_simple'' ''self-booted-by-default-init'' m (empty_control, w) = Some (Some boot, mand, s1, w1)"
    using r by (auto simp: static_init_def split: bind_splits)
  obtain d where d: "find_load_conn boot ''control'' s1 = Some d" using r nb by (auto simp: static_init_def split: bind_splits)
  let ?c = "Slot boot (nat (lc_start_index d))"
  obtain s2 w2 where cc: "create_conn e boot ?c d 0 (s1, statics w1) = Some (s2, w2)"
    using r nb d by (auto simp: static_init_def Let_def split: bind_splits)
  define s3 where "s3 = (insert_conn boot ?c (s2\<lparr>c_param := (c_param s2)(?c := P_own ''default-control'')\<rparr>))"
  define s4 where "s4 = s3\<lparr>c_param := (c_param s3)(Slot boot 1 := P_brick)\<rparr>"
  define s5 where "s5 = insert_brick_hash boot (s4\<lparr>b_addr := (b_addr s4)(boot := of_nat REPRES_MAX), last_addr := of_nat REPRES_MAX + of_nat REPRES_MAX\<rparr>)"
  obtain a6 a w5 a5 s6 w6 b where ops: "ctl_instconn e [] (a, s5, w5) = Some (a5, s6, w6)" "ctl_connect e [] (b, s6, w6) = Some (a6, s', w')"
    using r nb d cc by (auto simp: static_init_def Let_def s3_def s4_def s5_def split: bind_splits prod.splits)
  from new_brick_keeps [OF empty_control_wf _ nb] e(1) obtain L ld where
    wx: "wfx e s1 (\<lambda>_. []) (\<lambda>_. []) L {boot}" and ld: "find_loader e ''control_simple'' = Some ld" "b_loader s1 boot = ld"
    and free: "\<And>k. k \<notin> set (input_slots (bd_conn ld)) \<Longrightarrow> belonging s1 (Slot boot k) = None"
    and null: "c_param s1 ?c = P_null"
    by (auto simp: env_ok_def)
  have dd: "d \<in> set (bd_conn ld)" "lc_type d" "lc_count d = 1"
    using d ld e(2) find_load_conn_in [OF d] by (auto simp: control_loaded_def find_load_conn_def)
  have "distinct (concat (map slots_of (bd_conn ld)))" using e(1) ld by (auto simp: env_ok_def tables_ok_def find_loader_def find_Some_iff)
  from free [OF output_slot_free [OF dd this]] have "belonging s1 ?c = None" .
  moreover have "boot < allocs s1" using wx by (auto simp: wfx_def)
  ultimately have w3: "wfx e (insert_conn boot ?c s2) (\<lambda>_. []) (\<lambda>_. []) (L(boot := L boot @ [?c])) {boot}"
    using created_keeps [OF wx _ _ _ _ _ cc] null by auto
  have "wfx e s4 (\<lambda>_. []) (\<lambda>_. []) (L(boot := L boot @ [?c])) {boot}"
  proof -
    have "c_param (insert_conn boot ?c s2) = c_param s2" by (simp add: insert_conn_def Let_def split: option.splits)
    then have "wfx e s3 (\<lambda>_. []) (\<lambda>_. []) (L(boot := L boot @ [?c])) {boot}"
      using wfx_param [OF w3, of "P_own ''default-control''" ?c] by (simp add: s3_def insert_conn_param)
    then show ?thesis unfolding s4_def by (rule wfx_param) simp
  qed
  from insert_hash_keeps [OF this _ _ refl, of "of_nat REPRES_MAX"]
  have "wfr e (insert_brick_hash boot (s4\<lparr>b_addr := (b_addr s4)(boot := of_nat REPRES_MAX)\<rparr>)) (\<lambda>_. [])
      ((\<lambda>_. [])(brick_hash_fn (of_nat REPRES_MAX) := [boot])) (L(boot := L boot @ [?c]))" by (simp add: live_def)
  moreover have "wfr e s5 G H L = wfr e (insert_brick_hash boot (s4\<lparr>b_addr := (b_addr s4)(boot := of_nat REPRES_MAX)\<rparr>)) G H L" for G H L
    by (rule wfr_cong(1)) (simp_all add: s5_def insert_brick_hash_def Let_def)
  ultimately have "ctl_wf e s5" unfolding ctl_wf_def by metis
  then show ?thesis using ops instconn_wf [OF e(1)] connect_wf [OF e(1)] unfolding keeps_wf_def by blast
qed

end
