(* ===== verification/Adapt_Strat.thy ===== *)
theory Adapt_Strat
  imports Control_Ops Strat_Scan
begin

text \<open>
  The brick \<^verbatim>\<open>adapt_strat.ath\<close>, which the control brick holds as its sub-instance \<^verbatim>\<open>adapt\<close>: its \<^verbatim>\<open>$trans\<close> reads a strategy
  text with the scanners of \<open>Strat_Scan\<close> and calls the operations of the control brick it names.  The
  operations of the brick behind its input are an argument, and so is \<^verbatim>\<open>malloc\<close>; messages are not state.
\<close>

section \<open>The interpreter\<close>

type_synonym 's fop = "string \<Rightarrow> args \<times> 's \<Rightarrow> (args \<times> 's) option"

text \<open>\<^verbatim>\<open>@=call :<strat$...\<close>: the operation code is set for the call and restored behind it.\<close>

definition call_op :: "(op_t \<Rightarrow> 's fop) \<Rightarrow> op_t \<Rightarrow> 's fop" where
  "call_op ops c param = (\<lambda>(a, s). do {
     (a', s) \<leftarrow> ops c param (a\<lparr>op_code := c\<rparr>, s);
     Some (a'\<lparr>op_code := op_code a\<rparr>, s) })"

text \<open>How the body of one round of the loop ends.\<close>

datatype next_step = Return | Continue string

text \<open>The value of the first \<^verbatim>\<open>b_param\<close> line at or behind the position, with the text behind it; \<open>None\<close> for
  the failure of \<^verbatim>\<open>malloc\<close>.\<close>

definition brick_param :: "(nat \<Rightarrow> 's \<Rightarrow> bool \<times> 's) \<Rightarrow> string \<Rightarrow> 's \<Rightarrow> ((string \<times> string) option \<times> 's) option" where
  "brick_param room buf s = (case scan_single ''b_param'' 7 buf of
     None \<Rightarrow> Some (Some ([], buf), s)
   | Some tmp \<Rightarrow> do {
       (opc, buf) \<leftarrow> scan_op (skip_blanks tmp);
       if opc = CHR '':'' then do {
         let tmp = skip_blanks buf;
         let p = takeWhile (\<lambda>c. c \<noteq> NL) tmp;
         let (ok, s) = room (length p + 1) s;
         Some (if ok then Some (p, skip_line tmp) else None, s) }
       else Some (Some ([], buf), s) })"

definition brick_cmd :: "(op_t \<Rightarrow> 's fop) \<Rightarrow> (nat \<Rightarrow> 's \<Rightarrow> bool \<times> 's) \<Rightarrow> string \<Rightarrow> string \<Rightarrow> args \<times> 's \<Rightarrow> (next_step \<times> args \<times> 's) option" where
  "brick_cmd ops room param buf = (\<lambda>(a, s). do {
     (opc, buf) \<leftarrow> scan_op buf;
     let (_, buf, nm) = scan_table_copy id_table buf (args.name a) 24;
     let a = a\<lparr>args.name := nm\<rparr>;
     if opc = CHR '':'' then do {
       (found, s) \<leftarrow> brick_param room (skip_line buf) s;
       case found of
         None \<Rightarrow> Some (Return, a, s)
       | Some (param_str, buf) \<Rightarrow> do {
           (a, s) \<leftarrow> call_op ops opcode_instbrick param_str (a\<lparr>constr := True, destr := False\<rparr>, s);
           Some (if success a then Continue buf else Return, a, s) } }
     else if opc = CHR ''/'' then do {
       (a, s) \<leftarrow> call_op ops opcode_deinstbrick param (a\<lparr>destr := True\<rparr>, s);
       Some (Return, a, s) }
     else Some (Continue (skip_line buf), a, s) })"

text \<open>The label \<^verbatim>\<open>test\<close> and the lines behind it.\<close>

definition test_skip :: "string \<Rightarrow> args \<Rightarrow> next_step" where
  "test_skip buf a = (if success a then Continue (skip_line buf) else Return)"

definition conn_cmd :: "(op_t \<Rightarrow> 's fop) \<Rightarrow> string \<Rightarrow> string \<Rightarrow> args \<times> 's \<Rightarrow> (next_step \<times> args \<times> 's) option" where
  "conn_cmd ops param buf = (\<lambda>(a, s). do {
     (opc, buf) \<leftarrow> scan_op buf;
     c1 \<leftarrow> conn1 a;
     let (found, buf, c1) = scan_connstr buf c1;
     let a = a\<lparr>conn1 := Some c1\<rparr>;
     if \<not> found then Some (Return, a, s)
     else if opc = CHR '':'' \<or> opc = CHR ''+'' \<or> opc = CHR ''-'' \<or> opc = CHR ''^'' then do {
       let a = a\<lparr>constr := (opc = CHR ''+'' \<or> opc = CHR ''^''), destr := (opc = CHR ''-'' \<or> opc = CHR ''^'')\<rparr>;
       (a, s) \<leftarrow> call_op ops opcode_instconn param (a, s);
       Some (test_skip buf a, a, s) }
     else if opc = CHR ''/'' then do {
       (a, s) \<leftarrow> call_op ops opcode_deinstconn param (a\<lparr>constr := False, destr := True\<rparr>, s);
       Some (test_skip buf a, a, s) }
     else Some (Continue (skip_line buf), a, s) })"

lemma skip_blanks_len: "length (skip_blanks s) \<le> length s"
  by (rule length_skip_blanks)

lemma skip_past_len: "length (skip_past e s) \<le> length s"
  by (induction s) auto

lemma scan_table_copy_len: "length (fst (snd (scan_table_copy T str res n))) \<le> length str"
  using length_skip_blanks [of str] by (auto simp: scan_table_copy_def scan_body2_def Let_def)

lemma scan_connstr_len: "length (fst (snd (scan_connstr str c))) \<le> length str"
proof -
  obtain n t nm where t: "scan_table_copy id_table (skip_blanks str) (conn_name c) sizeof_sname = (n, t, nm)" by (cases "scan_table_copy id_table (skip_blanks str) (conn_name c) sizeof_sname")
  have "length t \<le> length str"
    using scan_table_copy_len [of id_table "skip_blanks str" "conn_name c" sizeof_sname] length_skip_blanks [of str] t by simp
  moreover have "length (skip_past CHR '']'' (tl t)) \<le> length t" using skip_past_len [of "CHR '']''" "tl t"] by simp
  ultimately show ?thesis using t by (auto simp: scan_connstr_def Let_def split: option.splits)
qed

lemma scan_connstraddr_le: "length (fst (snd (scan_connstraddr str c))) \<le> length str"
proof -
  define t where "t = fst (snd (scan_table hex_table (skip_blanks str)))"
  have "length t \<le> length str"
    using length_skip_blanks [of str] length_skip_blanks [of "skip_blanks str"] by (simp add: t_def scan_table_def scan_body_def Let_def)
  moreover have "length (fst (snd (scan_connstr (tl t) d))) \<le> length t" for d using scan_connstr_len [of "tl t" d] by simp
  ultimately show ?thesis by (auto simp: scan_connstraddr_def t_def Let_def split_beta intro: order_trans)
qed

lemma scan_connstraddr_len: "scan_connstraddr str c = (True, str', c') \<Longrightarrow> length str' < length str"
proof -
  assume r: "scan_connstraddr str c = (True, str', c')"
  define t where "t = fst (snd (scan_table hex_table (skip_blanks str)))"
  have "length t \<le> length str"
    using length_skip_blanks [of str] length_skip_blanks [of "skip_blanks str"] by (simp add: t_def scan_table_def scan_body_def Let_def)
  moreover obtain d where "scan_connstr (tl t) d = (True, str', c')" "peek t = CHR '':''"
    using r by (auto simp: scan_connstraddr_def t_def Let_def split: prod.splits if_splits)
  moreover from this have "length str' < length t" using scan_connstr_len [of "tl t" d] by (cases t) auto
  ultimately show ?thesis by simp
qed

text \<open>The loop over the connectors of a \<^verbatim>\<open>connect\<close> line.\<close>

function connect_loop :: "(op_t \<Rightarrow> 's fop) \<Rightarrow> string \<Rightarrow> string \<Rightarrow> args \<times> 's \<Rightarrow> (next_step \<times> args \<times> 's) option" where
  "connect_loop ops param buf (a, s) = (case conn2 a of
     None \<Rightarrow> None
   | Some c2 \<Rightarrow> (case scan_connstraddr buf c2 of
       (False, buf, c2) \<Rightarrow> Some (Continue (skip_line buf), a\<lparr>conn2 := Some c2\<rparr>, s)
     | (True, buf, c2) \<Rightarrow> (case call_op ops opcode_connect param (a\<lparr>conn2 := Some c2, success := False\<rparr>, s) of
         None \<Rightarrow> None
       | Some (a, s) \<Rightarrow> if \<not> success a then Some (Return, a, s) else connect_loop ops param buf (a, s))))"
  by pat_completeness auto

termination connect_loop
  by (relation "measure (\<lambda>(_, _, buf, _). length buf)") (auto dest: scan_connstraddr_len sym)

declare connect_loop.simps [simp del]

definition connect_cmd :: "(op_t \<Rightarrow> 's fop) \<Rightarrow> string \<Rightarrow> string \<Rightarrow> args \<times> 's \<Rightarrow> (next_step \<times> args \<times> 's) option" where
  "connect_cmd ops param buf = (\<lambda>(a, s). do {
     c1 \<leftarrow> conn1 a;
     let (found, buf, c1) = scan_connstr buf c1;
     let a = a\<lparr>conn1 := Some c1\<rparr>;
     if \<not> found then Some (Return, a, s)
     else do {
       (opc, buf) \<leftarrow> scan_op buf;
       if opc = CHR ''/'' then do {
         (a, s) \<leftarrow> call_op ops opcode_disconnect param (a, s);
         Some (test_skip buf a, a, s) }
       else if opc \<noteq> CHR '':'' then Some (Continue (skip_line buf), a, s)
       else connect_loop ops param buf (a, s) } })"

text \<open>Every round takes the keyword off the text and leaves no more than the rest.\<close>

fun rest_len :: "next_step \<Rightarrow> nat" where
  "rest_len Return = 0"
| "rest_len (Continue buf) = length buf"

lemma scan_op_len: "scan_op str = Some (opc, str') \<Longrightarrow> length str' \<le> length str"
  by (auto simp: scan_op_def Let_def split: list.splits if_splits)

lemma scan_single_len: "scan_single k n s = Some s' \<Longrightarrow> length s' \<le> length s"
proof (induction k n s rule: scan_single.induct)
  case (1 k n s)
  note len = length_skip_blanks [of s] length_skip_line_le [of "skip_blanks s"] length_skip_blanks [of "drop n (skip_blanks s)"]
  show ?case
  proof (cases "skip_blanks s = [] \<or> strncmp_eq (skip_blanks s) k n")
    case True
    then show ?thesis using 1(2) len by (subst (asm) scan_single.simps) (auto simp: Let_def split: if_splits)
  next
    case False
    then have "scan_single k n (skip_line (skip_blanks s)) = Some s'" using 1(2) by (subst (asm) scan_single.simps) (simp add: Let_def)
    then show ?thesis using 1(1) [OF refl] False len by fastforce
  qed
qed

lemma scan_multi_len:
  "\<forall>(k, n) \<in> set keys. 0 < n \<Longrightarrow> scan_multi keys s = (r, s') \<Longrightarrow> 0 \<le> r \<Longrightarrow> length s' < length s"
proof (induction keys s arbitrary: s' rule: scan_multi.induct)
  case (1 keys s)
  note len = length_skip_blanks [of s] length_skip_line_le [of "skip_blanks s"]
  have ne: "skip_blanks s \<noteq> []" using 1(3,4) by (subst (asm) scan_multi.simps) (auto simp: Let_def)
  show ?case
  proof (cases "scan_keys (skip_blanks s) keys 0")
    case None
    then have "scan_multi keys (skip_line (skip_blanks s)) = (r, s')" using 1(3) ne by (subst (asm) scan_multi.simps) (simp add: Let_def)
    from 1(1) [OF refl ne None 1(2) this 1(4)] len show ?thesis by simp
  next
    case (Some z)
    obtain i n where z: "z = (i, n)" by fastforce
    have "scan_keys t ks j = Some (i, n) \<Longrightarrow> \<forall>(k, n) \<in> set ks. 0 < n \<Longrightarrow> 0 < n" for t ks j
      by (induction ks arbitrary: j) (auto split: if_splits)
    then have "0 < n" using Some z 1(2) by blast
    then have "length (drop n (skip_blanks s)) < length s" using ne len by (cases "skip_blanks s") auto
    moreover have "s' = skip_blanks (drop n (skip_blanks s))" using 1(3) ne Some z by (subst (asm) scan_multi.simps) (simp add: Let_def)
    ultimately show ?thesis using length_skip_blanks [of "drop n (skip_blanks s)"] by simp
  qed
qed

lemma brick_param_len: "brick_param room buf s = Some (Some (p, buf'), s') \<Longrightarrow> length buf' \<le> length buf"
  using length_skip_blanks length_skip_line_le
  by (auto simp: brick_param_def Let_def split: option.splits bind_splits if_splits prod.splits dest!: scan_single_len scan_op_len)
    (meson le_trans)+

lemma brick_cmd_len: "brick_cmd ops room param buf x = Some (r, y) \<Longrightarrow> rest_len r \<le> length buf"
proof -
  assume r: "brick_cmd ops room param buf x = Some (r, y)"
  obtain a s where x: "x = (a, s)" by fastforce
  obtain opc b1 where o: "scan_op buf = Some (opc, b1)" using r by (auto simp: brick_cmd_def x split: bind_splits)
  obtain n b2 nm where t: "scan_table_copy id_table b1 (args.name a) 24 = (n, b2, nm)" by (cases "scan_table_copy id_table b1 (args.name a) 24")
  have "length (skip_line b2) \<le> length buf"
    using scan_op_len [OF o] scan_table_copy_len [of id_table b1 "args.name a" 24] t length_skip_line_le [of b2] by simp
  then show ?thesis
    using r o t by (auto simp: brick_cmd_def x Let_def split: bind_splits if_splits option.splits dest!: brick_param_len)
qed

lemma test_skip_len: "rest_len (test_skip buf a) \<le> length buf"
  using length_skip_line_le by (simp add: test_skip_def)

lemma conn_cmd_len: "conn_cmd ops param buf x = Some (r, y) \<Longrightarrow> rest_len r \<le> length buf"
proof -
  assume r: "conn_cmd ops param buf x = Some (r, y)"
  obtain a s where x: "x = (a, s)" by fastforce
  obtain opc b1 c1 where o: "scan_op buf = Some (opc, b1)" "conn1 a = Some c1" using r by (auto simp: conn_cmd_def x split: bind_splits)
  obtain ok b2 c2 where t: "scan_connstr b1 c1 = (ok, b2, c2)" by (cases "scan_connstr b1 c1")
  have b2: "length b2 \<le> length buf" using scan_op_len [OF o(1)] scan_connstr_len [of b1 c1] t by simp
  have "r = Return \<or> (\<exists>a. r = test_skip b2 a) \<or> r = Continue (skip_line b2)"
    using r o t by (auto simp: conn_cmd_def x Let_def split: bind_splits if_splits)
  then show ?thesis using b2 test_skip_len [of b2] length_skip_line_le [of b2] by (auto intro: order_trans)
qed

lemma connect_loop_len: "connect_loop ops param buf x = Some (r, y) \<Longrightarrow> rest_len r \<le> length buf"
proof (induction ops param buf x rule: connect_loop.induct)
  case (1 ops param buf a s)
  note unfold = connect_loop.simps [of ops param buf a s]
  obtain c2 where c2: "conn2 a = Some c2" using 1(2) unfold by (auto split: option.splits)
  obtain ok b c where sc: "scan_connstraddr buf c2 = (ok, b, c)" by (cases "scan_connstraddr buf c2")
  have len: "length b \<le> length buf" using scan_connstraddr_le [of buf c2] sc by simp
  show ?case
  proof (cases ok)
    case False
    then show ?thesis using 1(2) unfold c2 sc len length_skip_line_le [of b] by auto
  next
    case True
    obtain a1 s1 where call: "call_op ops opcode_connect param (a\<lparr>conn2 := Some c, success := False\<rparr>, s) = Some (a1, s1)"
      using 1(2) unfold c2 sc True by (auto split: option.splits)
    show ?thesis
    proof (cases "success a1")
      case False
      then show ?thesis using 1(2) unfold c2 sc call True by auto
    next
      case suc: True
      then have "connect_loop ops param b (a1, s1) = Some (r, y)" using 1(2) unfold c2 sc call True by simp
      from 1(1) [OF c2 sc [symmetric] _ refl call refl _ this] True suc len show ?thesis by simp
    qed
  qed
qed

lemma connect_cmd_len: "connect_cmd ops param buf x = Some (r, y) \<Longrightarrow> rest_len r \<le> length buf"
proof -
  assume r: "connect_cmd ops param buf x = Some (r, y)"
  obtain a s where x: "x = (a, s)" by fastforce
  obtain c1 where c1: "conn1 a = Some c1" using r by (auto simp: connect_cmd_def x split: bind_splits)
  obtain ok b1 c2 where t: "scan_connstr buf c1 = (ok, b1, c2)" by (cases "scan_connstr buf c1")
  show ?thesis
  proof (cases ok)
    case False
    then show ?thesis using r c1 t by (auto simp: connect_cmd_def x)
  next
    case True
    obtain opc b2 where o: "scan_op b1 = Some (opc, b2)" using r c1 t True by (auto simp: connect_cmd_def x Let_def split: bind_splits)
    have b2: "length b2 \<le> length buf" using scan_op_len [OF o(1)] scan_connstr_len [of buf c1] t by simp
    have "(\<exists>a. r = test_skip b2 a) \<or> r = Continue (skip_line b2) \<or> (\<exists>z. connect_loop ops param b2 z = Some (r, y))"
      using r c1 o t True by (auto simp: connect_cmd_def x Let_def split: bind_splits if_splits)
    then show ?thesis using b2 test_skip_len [of b2] length_skip_line_le [of b2] connect_loop_len [of ops param b2 _ r y] by (auto intro: order_trans)
  qed
qed

definition strat_cmd :: "(op_t \<Rightarrow> 's fop) \<Rightarrow> (nat \<Rightarrow> 's \<Rightarrow> bool \<times> 's) \<Rightarrow> string \<Rightarrow> int \<Rightarrow> string \<Rightarrow> args \<times> 's \<Rightarrow> (next_step \<times> args \<times> 's) option" where
  "strat_cmd ops room param code buf = (\<lambda>(a, s).
     if code = 0 then brick_cmd ops room param buf (a, s)
     else if code = 1 \<or> code = 2 then conn_cmd ops param buf (a, s)
     else if code = 3 then connect_cmd ops param buf (a, s)
     else Some (Return, a\<lparr>success := True\<rparr>, s))"

lemma strat_cmd_len: "strat_cmd ops room param code buf x = Some (r, y) \<Longrightarrow> rest_len r \<le> length buf"
  by (auto simp: strat_cmd_def brick_cmd_len conn_cmd_len connect_cmd_len split: prod.splits if_splits)

lemma strat_cmd_neg: "strat_cmd ops room param code buf x = Some (Continue r, y) \<Longrightarrow> 0 \<le> code"
  by (auto simp: strat_cmd_def split: prod.splits if_splits)

function adapt_loop :: "(op_t \<Rightarrow> 's fop) \<Rightarrow> (nat \<Rightarrow> 's \<Rightarrow> bool \<times> 's) \<Rightarrow> string \<Rightarrow> string \<Rightarrow> args \<times> 's \<Rightarrow> (args \<times> 's) option" where
  "adapt_loop ops room param buf (a, s) = (case scan_multi strat_keywords buf of (code, buf) \<Rightarrow>
     (case strat_cmd ops room param code buf (a\<lparr>success := False\<rparr>, s) of
        None \<Rightarrow> None
      | Some (Return, a, s) \<Rightarrow> Some (a, s)
      | Some (Continue buf, a, s) \<Rightarrow> adapt_loop ops room param buf (a, s)))"
  by pat_completeness auto

lemma adapt_loop_shorter:
  "scan_multi strat_keywords buf = (code, buf') \<Longrightarrow> strat_cmd ops room param code buf' x = Some (Continue b, y) \<Longrightarrow> length b < length buf"
  using scan_multi_len [of strat_keywords buf code buf'] strat_cmd_neg [of ops room param code buf' x b y]
    strat_cmd_len [of ops room param code buf' x "Continue b" y] by (auto simp: strat_keywords_def)

termination adapt_loop
  by (relation "measure (\<lambda>(_, _, _, buf, _). length buf)") (auto dest!: sym [of _ "scan_multi _ _"] dest: adapt_loop_shorter)

declare adapt_loop.simps [simp del]

text \<open>\<^verbatim>\<open>$trans\<close> and, for every other operation, \<^verbatim>\<open>$op\<close>, which hands the operation on.  \<open>text_at\<close> is the text at an address.\<close>

definition adapt_op :: "(op_t \<Rightarrow> 's fop) \<Rightarrow> 's fop" where
  "adapt_op ops param = (\<lambda>(a, s). ops (op_code a) param (a, s))"

definition adapt_trans :: "(op_t \<Rightarrow> 's fop) \<Rightarrow> (nat \<Rightarrow> 's \<Rightarrow> bool \<times> 's) \<Rightarrow> (paddr_t \<Rightarrow> 's \<Rightarrow> string) \<Rightarrow> 's fop" where
  "adapt_trans ops room text_at param = (\<lambda>(a, s).
     if direction a = direct_read then adapt_op ops param (a, s)
     else if direction a = direct_write then
       (let c1 = \<lparr>conn_addr = log_addr a, conn_index = 0, conn_name = []\<rparr>;
            c2 = \<lparr>conn_addr = 0, conn_index = 0, conn_name = []\<rparr>
        in adapt_loop ops room param (text_at (phys_addr a) s) (a\<lparr>conn1 := Some c1, conn2 := Some c2\<rparr>, s))
     else Some (a, s))"

section \<open>What the operations keep, the interpreter keeps\<close>

locale strategy_target =
  fixes ops :: "op_t \<Rightarrow> 's fop"
    and room :: "nat \<Rightarrow> 's \<Rightarrow> bool \<times> 's"
    and I :: "'s \<Rightarrow> bool"
  assumes ops_keep: "I s \<Longrightarrow> ops c p (a, s) = Some (a', s') \<Longrightarrow> I s'"
    and room_keeps: "I s \<Longrightarrow> I (snd (room n s))"
begin

lemma call_keeps: "call_op ops c p (a, s) = Some (a', s') \<Longrightarrow> I s \<Longrightarrow> I s'"
  by (auto simp: call_op_def split: bind_splits dest: ops_keep [rotated])

lemma param_keeps: "brick_param room buf s = Some (r, s') \<Longrightarrow> I s \<Longrightarrow> I s'"
proof -
  assume r: "brick_param room buf s = Some (r, s')" and I: "I s"
  have "s' = s \<or> (\<exists>n. s' = snd (room n s))"
    using r by (auto simp: brick_param_def Let_def split: option.splits bind_splits if_splits prod.splits) (metis snd_conv)+
  then show "I s'" using I room_keeps by auto
qed

lemma brick_keeps: "brick_cmd ops room p buf (a, s) = Some (r, a', s') \<Longrightarrow> I s \<Longrightarrow> I s'"
  by (auto simp: brick_cmd_def Let_def split: option.splits bind_splits if_splits prod.splits dest!: param_keeps call_keeps)

lemma conn_keeps: "conn_cmd ops p buf (a, s) = Some (r, a', s') \<Longrightarrow> I s \<Longrightarrow> I s'"
  by (auto simp: conn_cmd_def Let_def split: option.splits bind_splits if_splits prod.splits dest!: call_keeps)

lemma loop_keeps: "connect_loop ops p buf (a, s) = Some (r, a', s') \<Longrightarrow> I s \<Longrightarrow> I s'"
proof (induction "length buf" arbitrary: buf a s rule: less_induct)
  case less
  note unfold = connect_loop.simps [of ops p buf a s]
  obtain c2 where c2: "conn2 a = Some c2" using less(2) unfold by (auto split: option.splits)
  obtain ok b c where sc: "scan_connstraddr buf c2 = (ok, b, c)" by (cases "scan_connstraddr buf c2")
  show ?case
  proof (cases ok)
    case True
    then obtain a1 s1 where call: "call_op ops opcode_connect p (a\<lparr>conn2 := Some c, success := False\<rparr>, s) = Some (a1, s1)"
      using less(2) unfold c2 sc by (auto split: option.splits)
    have "length b < length buf" using sc True scan_connstraddr_len by simp
    then show ?thesis
      using less(1) [of b a1 s1] less(2) unfold c2 sc True call call_keeps [OF call less(3)] by (auto split: if_splits)
  qed (use less(2,3) unfold c2 sc in auto)
qed

lemma connect_line_keeps: "connect_cmd ops p buf (a, s) = Some (r, a', s') \<Longrightarrow> I s \<Longrightarrow> I s'"
  by (auto simp: connect_cmd_def Let_def split: option.splits bind_splits if_splits prod.splits dest!: call_keeps loop_keeps)

lemma cmd_keeps: "strat_cmd ops room p code buf (a, s) = Some (r, a', s') \<Longrightarrow> I s \<Longrightarrow> I s'"
  by (auto simp: strat_cmd_def split: if_splits dest: brick_keeps conn_keeps connect_line_keeps)

lemma interpreter_keeps: "adapt_loop ops room p buf (a, s) = Some (a', s') \<Longrightarrow> I s \<Longrightarrow> I s'"
proof (induction "length buf" arbitrary: buf a s rule: less_induct)
  case less
  note unfold = adapt_loop.simps [of ops room p buf a s]
  obtain code b where sc: "scan_multi strat_keywords buf = (code, b)" by (cases "scan_multi strat_keywords buf")
  obtain r a1 s1 where cmd: "strat_cmd ops room p code b (a\<lparr>success := False\<rparr>, s) = Some (r, a1, s1)"
    using less(2) unfold sc by (auto split: option.splits)
  have I: "I s1" using cmd_keeps [OF cmd less(3)] .
  show ?case
  proof (cases r)
    case Return
    then show ?thesis using less(2) unfold sc cmd I by simp
  next
    case (Continue b')
    then show ?thesis using less(1) [OF adapt_loop_shorter [OF sc cmd [unfolded Continue]] _ I] less(2) unfold sc cmd by simp
  qed
qed

lemma trans_keeps: "adapt_trans ops room text_at p (a, s) = Some (a', s') \<Longrightarrow> I s \<Longrightarrow> I s'"
  by (auto simp: adapt_trans_def adapt_op_def Let_def split: if_splits dest: interpreter_keeps ops_keep [rotated])

end

section \<open>The control brick with its sub-instance\<close>

text \<open>The brick behind the input of \<^verbatim>\<open>adapt\<close> is the control brick itself.  The operations that \<^verbatim>\<open>adapt\<close> calls do not call it
  back: \<^verbatim>\<open>$trans\<close> is handed on for reading only.\<close>

definition no_adapt :: "'w running operation" where
  "no_adapt param = (\<lambda>(a, st). (a, None))"

definition strat_ops :: "'w env \<Rightarrow> op_t \<Rightarrow> ('w control \<times> 'w) fop" where
  "strat_ops e c = sub_op (brick_table (control_impl e no_adapt) 0 c)"

definition getmem :: "'w env \<Rightarrow> nat \<Rightarrow> 'w control \<times> 'w \<Rightarrow> bool \<times> 'w control \<times> 'w" where
  "getmem e n = (\<lambda>(s, w). case malloc e n s of (r, s) \<Rightarrow> (r \<noteq> None, s, w))"

definition adapt_of :: "'w env \<Rightarrow> (paddr_t \<Rightarrow> 'w control \<times> 'w \<Rightarrow> string) \<Rightarrow> 'w running operation" where
  "adapt_of e text_at = run_op (adapt_trans (strat_ops e) (getmem e) text_at)"

definition control_brick :: "'w env \<Rightarrow> (paddr_t \<Rightarrow> 'w control \<times> 'w \<Rightarrow> string) \<Rightarrow> 'w running brick_impl" where
  "control_brick e text_at = control_impl e (adapt_of e text_at)"

lemma sub_run [simp]: "sub_op (run_op f) = f"
  by (auto simp: sub_op_def run_op_def fun_eq_iff split: option.splits)

text \<open>Reading does not reach the sub-instance, so leaving it out in \<open>strat_ops\<close> changes nothing.\<close>

lemma trans_read_no_adapt:
  "direction a = direct_read \<Longrightarrow> control_impl e adapt s opcode_trans = Some f \<Longrightarrow> control_impl e adapt' s opcode_trans = Some g \<Longrightarrow>
     f p (a, st) = g p (a, st)"
  by (auto simp: control_impl_def run_op_def ctl_trans_def split: option.splits)

lemma control_impl_same: "c \<noteq> opcode_trans \<Longrightarrow> control_impl e adapt s c = control_impl e adapt' s c"
  by (cases c) (simp_all add: control_impl_def)

interpretation base: brick_contract "control_impl e no_adapt" "\<lambda>st. env_ok e \<longrightarrow> running_ok e st"
  for e :: "'w env"
proof unfold_locales
  fix s c f p a and st :: "'w running"
  assume f: "control_impl e no_adapt s c = Some f" and st: "env_ok e \<longrightarrow> running_ok e st"
  have "keeps_wf e (sub_op no_adapt)" by (auto simp: keeps_wf_def sub_op_def no_adapt_def)
  then show "env_ok e \<longrightarrow> running_ok e (snd (f p (a, st)))" using control_impl_keeps [OF _ _ f] st by blast
qed

interpretation ctl: strategy_target "strat_ops e" "getmem e" "\<lambda>x. env_ok e \<longrightarrow> ctl_wf e (fst x)"
  for e :: "'w env"
proof unfold_locales
  fix c p a a' and x x' :: "'w control \<times> 'w"
  assume I: "env_ok e \<longrightarrow> ctl_wf e (fst x)" and r: "strat_ops e c p (a, x) = Some (a', x')"
  then have "snd (brick_table (control_impl e no_adapt) 0 c p (a, Some x)) = Some x'"
    by (cases x) (auto simp: strat_ops_def sub_op_def split: prod.splits option.splits)
  then show "env_ok e \<longrightarrow> ctl_wf e (fst x')"
    using base.table_keeps [of e "Some x" 0 c p a] I by (auto simp: running_ok_def split_beta)
next
  fix n and x :: "'w control \<times> 'w"
  assume I: "env_ok e \<longrightarrow> ctl_wf e (fst x)"
  show "env_ok e \<longrightarrow> ctl_wf e (fst (snd (getmem e n x)))"
    using I wfr_allocs [of e "fst x" _ _ _ "Suc (allocs (fst x))"] by (auto simp: getmem_def malloc_def ctl_wf_def split_beta) blast
qed

interpretation control: brick_contract "control_brick e text_at" "\<lambda>st. env_ok e \<longrightarrow> running_ok e st"
  for e :: "'w env" and text_at
proof unfold_locales
  fix s c f p a and st :: "'w running"
  assume f: "control_brick e text_at s c = Some f" and st: "env_ok e \<longrightarrow> running_ok e st"
  have "keeps_wf e (sub_op (adapt_of e text_at))" if "env_ok e"
    using ctl.trans_keeps [of e] that unfolding keeps_wf_def adapt_of_def sub_run by fastforce
  then show "env_ok e \<longrightarrow> running_ok e (snd (f p (a, st)))"
    using control_impl_keeps [OF _ _ f [unfolded control_brick_def]] st by blast
qed

end
