(* ===== verification/Strat_Script.thy ===== *)
theory Strat_Script
  imports Adapt_Strat
begin

text \<open>
  What \<^verbatim>\<open>$trans\<close> of \<^verbatim>\<open>adapt_strat.ath\<close> does with a strategy text: it performs the commands of the text in order.
\<close>

section \<open>Scripts\<close>

text \<open>
  A script is a list of commands; \<open>show_script\<close> prints it as a strategy text and \<open>script_run\<close> says what it does:
  the operations of the commands in order, up to the first one that fails.  After a \<^verbatim>\<open>connect\<close> line the
  address in \<^verbatim>\<open>conn2\<close> is arbitrary, since the scanner has tried to read one in the next line.

  Every command has a style: the blanks before it, whether the indices of its connectors are written, and what
  follows the connector of an \<^verbatim>\<open>output\<close> line, as in \<^verbatim>\<open>output:=out{\<close>.
\<close>

datatype command = New_Brick string "string option" | Inst_Conn char conn_info | Connect_To conn_info "conn_info list"

record style =
  indent :: nat
  index_shown :: bool
  ending :: string

definition show_ref :: "style \<Rightarrow> conn_info \<Rightarrow> string" where
  "show_ref st c = (if index_shown st then show_conn c else conn_name c)"

definition show_refaddr :: "style \<Rightarrow> conn_info \<Rightarrow> string" where
  "show_refaddr st c = show_nat 16 (unat (conn_addr c)) @ '':'' @ show_ref st c"

fun show_targets :: "style \<Rightarrow> conn_info list \<Rightarrow> string" where
  "show_targets st [] = []"
| "show_targets st (t # ts) = show_refaddr st t @ (if ts = [] then [] else CHR '','' # show_targets st ts)"

fun show_command :: "style \<Rightarrow> command \<Rightarrow> string" where
  "show_command st (New_Brick nm None) = ''brick:='' @ nm @ [NL]"
| "show_command st (New_Brick nm (Some p)) = ''brick:='' @ nm @ [NL] @ ''b_param:='' @ p @ [NL]"
| "show_command st (Inst_Conn opc c) = ''output'' @ opc # ''='' @ show_ref st c @ ending st @ [NL]"
| "show_command st (Connect_To c ts) = ''connect '' @ show_ref st c @ '':='' @ show_targets st ts @ [NL]"

definition show_line :: "style \<times> command \<Rightarrow> string" where
  "show_line = (\<lambda>(st, cmd). replicate (indent st) CHR '' '' @ show_command st cmd)"

definition show_script :: "(style \<times> command) list \<Rightarrow> string" where
  "show_script cmds = concat (map show_line cmds)"

fun exec_connects :: "(op_t \<Rightarrow> 's fop) \<Rightarrow> string \<Rightarrow> conn_info list \<Rightarrow> args \<times> 's \<Rightarrow> (args \<times> 's) option" where
  "exec_connects ops param [] (a, s) = do { c2 \<leftarrow> conn2 a; Some (a, s) }"
| "exec_connects ops param (t # ts) (a, s) = do {
     c2 \<leftarrow> conn2 a;
     (a, s) \<leftarrow> call_op ops opcode_connect param
       (a\<lparr>conn2 := Some (c2\<lparr>conn_addr := conn_addr t, conn_name := conn_name t, conn_index := conn_index t\<rparr>), success := False\<rparr>, s);
     if success a then exec_connects ops param ts (a, s) else Some (a, s) }"

fun exec_command :: "(op_t \<Rightarrow> 's fop) \<Rightarrow> (nat \<Rightarrow> 's \<Rightarrow> bool \<times> 's) \<Rightarrow> string \<Rightarrow> command \<Rightarrow> args \<times> 's \<Rightarrow> (args \<times> 's) option" where
  "exec_command ops room param (New_Brick nm None) (a, s) =
     call_op ops opcode_instbrick [] (a\<lparr>args.name := nm, constr := True, destr := False\<rparr>, s)"
| "exec_command ops room param (New_Brick nm (Some p)) (a, s) = (case room (length p + 1) s of (ok, s) \<Rightarrow>
     if ok then call_op ops opcode_instbrick p (a\<lparr>args.name := nm, constr := True, destr := False\<rparr>, s)
     else Some (a\<lparr>args.name := nm\<rparr>, s))"
| "exec_command ops room param (Inst_Conn opc c) (a, s) = do {
     c1 \<leftarrow> conn1 a;
     call_op ops opcode_instconn param (a\<lparr>conn1 := Some (c1\<lparr>conn_name := conn_name c, conn_index := conn_index c\<rparr>),
       constr := (opc = CHR ''+''), destr := (opc = CHR ''-'')\<rparr>, s) }"
| "exec_command ops room param (Connect_To c ts) (a, s) = do {
     c1 \<leftarrow> conn1 a;
     exec_connects ops param ts (a\<lparr>conn1 := Some (c1\<lparr>conn_name := conn_name c, conn_index := conn_index c\<rparr>)\<rparr>, s) }"

definition readdressed :: "args \<Rightarrow> args \<Rightarrow> bool" where
  "readdressed a a' \<longleftrightarrow> (\<exists>c2 x. conn2 a = Some c2 \<and> a' = a\<lparr>conn2 := Some (c2\<lparr>conn_addr := x\<rparr>)\<rparr>)"

fun left_behind :: "command \<Rightarrow> args \<Rightarrow> args \<Rightarrow> bool" where
  "left_behind (Connect_To c ts) a a' \<longleftrightarrow> readdressed a a'"
| "left_behind cmd a a' \<longleftrightarrow> a' = a"

fun script_run :: "(op_t \<Rightarrow> 's fop) \<Rightarrow> (nat \<Rightarrow> 's \<Rightarrow> bool \<times> 's) \<Rightarrow> string \<Rightarrow> command list \<Rightarrow> args \<times> 's \<Rightarrow> (args \<times> 's) option \<Rightarrow> bool" where
  "script_run ops room param [] (a, s) r \<longleftrightarrow> r = Some (a\<lparr>success := True\<rparr>, s)"
| "script_run ops room param (cmd # cmds) (a, s) r \<longleftrightarrow> (case exec_command ops room param cmd (a\<lparr>success := False\<rparr>, s) of
     None \<Rightarrow> r = None
   | Some (a1, s1) \<Rightarrow> if success a1 then \<exists>a2. left_behind cmd a1 a2 \<and> script_run ops room param cmds (a2, s1) r else r = Some (a1, s1))"

fun has_param :: "command \<Rightarrow> bool" where
  "has_param (New_Brick nm p) \<longleftrightarrow> p \<noteq> None"
| "has_param cmd \<longleftrightarrow> False"

definition good_ref :: "style \<Rightarrow> conn_info \<Rightarrow> bool" where
  "good_ref st c \<longleftrightarrow> good_conn id_table c \<and> (\<not> index_shown st \<longrightarrow> conn_index c = 0)"

definition good_ending :: "string \<Rightarrow> bool" where
  "good_ending t \<longleftrightarrow> NL \<notin> set t \<and> \<not> id_table (peek t) \<and> peek t \<noteq> CHR ''['' \<and> peek t \<noteq> CHR '','' "

fun good_command :: "style \<Rightarrow> command \<Rightarrow> bool" where
  "good_command st (New_Brick nm p) \<longleftrightarrow> nm \<noteq> [] \<and> length nm < 24 \<and> (\<forall>x \<in> set nm. id_table x)
     \<and> (case p of None \<Rightarrow> True | Some p \<Rightarrow> NL \<notin> set p \<and> peek p \<noteq> CHR '' '')"
| "good_command st (Inst_Conn opc c) \<longleftrightarrow> opc \<in> {CHR '':'', CHR ''+'', CHR ''-''} \<and> good_ref st c \<and> good_ending (ending st)"
| "good_command st (Connect_To c ts) \<longleftrightarrow> good_ref st c \<and> ts \<noteq> [] \<and> (\<forall>t \<in> set ts. good_ref st t)"

text \<open>A brick without a parameter of its own takes the next \<^verbatim>\<open>b_param\<close> line of the text, whichever brick it belongs to.\<close>

fun good_script :: "(style \<times> command) list \<Rightarrow> bool" where
  "good_script [] \<longleftrightarrow> True"
| "good_script ((st, cmd) # cmds) \<longleftrightarrow> good_command st cmd \<and> good_script cmds
     \<and> (case cmd of New_Brick nm None \<Rightarrow> (\<forall>x \<in> set cmds. \<not> has_param (snd x)) | _ \<Rightarrow> True)"

section \<open>The scanners on printed commands\<close>

lemma good_refD: "good_ref st c \<Longrightarrow> good_conn id_table c"
  by (simp add: good_ref_def)

lemma show_ref_NL: "good_ref st c \<Longrightarrow> NL \<notin> set (show_ref st c)"
  by (auto simp: show_ref_def show_conn_def good_ref_def good_conn_def table_defs is_dec_def digit_val_def dest!: show_int_chars)

lemma show_refaddr_NL: "good_ref st c \<Longrightarrow> NL \<notin> set (show_refaddr st c)"
  using show_ref_NL [of st c] show_nat_hex [of NL "unat (conn_addr c)"] by (auto simp: show_refaddr_def is_hex_def digit_val_def)

lemma show_targets_NL: "\<forall>t \<in> set ts. good_ref st t \<Longrightarrow> NL \<notin> set (show_targets st ts)"
  by (induction ts) (auto simp: show_refaddr_NL)

text \<open>A connector is read back whether its index is written or not.\<close>

lemma scan_connstr_ref:
  assumes "good_ref st c" "\<not> id_table (peek rest)" "peek rest \<noteq> CHR ''[''"
  shows "scan_connstr (show_ref st c @ rest) d = (True, after_comma rest, d\<lparr>conn_name := conn_name c, conn_index := conn_index c\<rparr>)"
proof (cases "index_shown st")
  case True
  then show ?thesis using scan_connstr_show [of c rest d] assms by (simp add: show_ref_def good_ref_def)
next
  case False
  have blanks: "skip_blanks (conn_name c @ rest) = conn_name c @ rest"
    using assms id_table_plain by (intro skip_blanks_stop) (auto simp: good_ref_def good_conn_def peek_hd)
  have "takeWhile id_table (conn_name c @ rest) = conn_name c"
    using assms by (intro takeWhile_append_stop) (cases rest; auto simp: good_ref_def good_conn_def)+
  then have "scan_table_copy id_table (conn_name c @ rest) (conn_name d) sizeof_sname = (int (length (conn_name c)), rest, conn_name c)"
    using assms blanks by (simp add: scan_table_copy_def scan_body2_def sizeof_sname_def good_ref_def good_conn_def)
  then show ?thesis
    using assms blanks False by (auto simp: scan_connstr_def show_ref_def good_ref_def good_conn_def after_comma_def Let_def)
qed

lemma scan_connstraddr_ref:
  assumes "good_ref st c" "\<not> id_table (peek rest)" "peek rest \<noteq> CHR ''[''"
  shows "scan_connstraddr (show_refaddr st c @ rest) d =
     (True, after_comma rest, d\<lparr>conn_addr := conn_addr c, conn_name := conn_name c, conn_index := conn_index c\<rparr>)"
  using scan_connstr_ref [OF assms] by (simp add: show_refaddr_def scan_connstraddr_prefix)

lemma skip_line_append [simp]: "NL \<notin> set l \<Longrightarrow> skip_line (l @ NL # rest) = rest"
  by (induction l) auto

lemma scan_op_eq: "op_table opc \<Longrightarrow> scan_op (opc # CHR ''='' # rest) = Some (opc, rest)"
  by (simp add: scan_op_def)

lemma scan_key:
  assumes "scan_keys (l @ rest) keys 0 = Some (i, n)" "peek l \<noteq> CHR '' ''" "l \<noteq> []"
  shows "scan_multi keys (l @ rest) = (i, skip_blanks (drop n (l @ rest)))"
  using assms skip_blanks_stop [of "l @ rest"] by (subst scan_multi.simps) (simp add: Let_def)

lemma scan_single_next:
  assumes "take 7 (l @ NL # rest) \<noteq> ''b_param''" "NL \<notin> set l" "peek l \<noteq> CHR '' ''"
  shows "scan_single ''b_param'' 7 (l @ NL # rest) = scan_single ''b_param'' 7 rest"
proof -
  have b: "skip_blanks (l @ NL # rest) = l @ NL # rest" using assms(3) by (intro skip_blanks_stop) (cases l; simp)
  show ?thesis using assms b by (subst scan_single.simps) (simp add: Let_def strncmp_eq_def)
qed

text \<open>The blanks before a command make no difference.\<close>

lemma skip_indent [simp]: "skip_blanks (replicate n CHR '' '' @ s) = skip_blanks s"
  by (induction n) (simp_all add: skip_blanks_def)

lemma scan_multi_indent: "scan_multi keys (replicate n CHR '' '' @ s) = scan_multi keys s"
  by (simp only: scan_multi.simps [of keys "replicate n CHR '' '' @ s"] scan_multi.simps [of keys s] skip_indent)

lemma scan_single_indent: "scan_single k m (replicate n CHR '' '' @ s) = scan_single k m s"
  by (simp only: scan_single.simps [of k m "replicate n CHR '' '' @ s"] scan_single.simps [of k m s] skip_indent)

lemma show_command_line:
  assumes "good_command st cmd" "\<not> has_param cmd"
  obtains l where "show_command st cmd = l @ [NL]" "NL \<notin> set l" "peek l \<noteq> CHR '' ''" "\<And>rest. take 7 (l @ rest) \<noteq> ''b_param''"
proof (cases cmd)
  case (New_Brick nm p)
  then show thesis using assms by (intro that [of "''brick:='' @ nm"]) (auto simp: table_defs)
next
  case (Inst_Conn opc c)
  then show thesis using assms show_ref_NL [of st c]
    by (intro that [of "''output'' @ opc # ''='' @ show_ref st c @ ending st"]) (auto simp: good_ending_def)
next
  case (Connect_To c ts)
  then show thesis using assms show_ref_NL [of st c] show_targets_NL [of ts st]
    by (intro that [of "''connect '' @ show_ref st c @ '':='' @ show_targets st ts"]) auto
qed

lemma no_param_found:
  "\<forall>x \<in> set cmds. good_command (fst x) (snd x) \<and> \<not> has_param (snd x) \<Longrightarrow> scan_single ''b_param'' 7 (show_script cmds) = None"
proof (induction cmds)
  case Nil
  show ?case by (subst scan_single.simps) (simp add: show_script_def)
next
  case (Cons x cmds)
  obtain st cmd where x: "x = (st, cmd)" by fastforce
  obtain l where l: "show_command st cmd = l @ [NL]" "NL \<notin> set l" "peek l \<noteq> CHR '' ''" "\<And>rest. take 7 (l @ rest) \<noteq> ''b_param''"
    using show_command_line [of st cmd] Cons.prems x by auto
  then show ?case using scan_single_next [OF l(4) l(2,3)] Cons by (simp add: show_script_def show_line_def x scan_single_indent)
qed

section \<open>One command\<close>

lemma adapt_step:
  "scan_multi strat_keywords buf = (code, b) \<Longrightarrow> adapt_loop ops room param buf (a, s) =
     (case strat_cmd ops room param code b (a\<lparr>success := False\<rparr>, s) of None \<Rightarrow> None
      | Some (Return, a, s) \<Rightarrow> Some (a, s) | Some (Continue buf, a, s) \<Rightarrow> adapt_loop ops room param buf (a, s))"
  by (simp add: adapt_loop.simps)

lemma brick_name_scan:
  assumes "nm \<noteq> []" "length nm < 24" "\<forall>x \<in> set nm. id_table x"
  shows "scan_table_copy id_table (nm @ NL # rest) res 24 = (int (length nm), NL # rest, nm)"
proof -
  have "skip_blanks (nm @ NL # rest) = nm @ NL # rest"
    using assms id_table_plain [of "hd nm"] by (intro skip_blanks_stop) (auto simp: peek_hd)
  moreover have "takeWhile id_table (nm @ NL # rest) = nm"
    using assms by (intro takeWhile_append_stop) (auto simp: table_defs)
  ultimately show ?thesis using assms by (simp add: scan_table_copy_def scan_body2_def)
qed

lemma brick_param_line:
  assumes "NL \<notin> set p" "peek p \<noteq> CHR '' ''" "room (length p + 1) s = (ok, s')"
  shows "brick_param room (''b_param:='' @ p @ NL # rest) s = Some (if ok then Some (p, rest) else None, s')"
proof -
  have "scan_single ''b_param'' 7 (''b_param:='' @ p @ NL # rest) = Some ('':='' @ p @ NL # rest)"
    by (subst scan_single_here) auto
  moreover have "skip_blanks (p @ NL # rest) = p @ NL # rest" using assms(2) by (intro skip_blanks_stop) (cases p; simp)
  moreover have "takeWhile (\<lambda>c. c \<noteq> NL) (p @ NL # rest) = p" using assms(1) by (intro takeWhile_append_stop) auto
  ultimately show ?thesis using assms scan_op_eq [of "CHR '':''"] by (simp add: brick_param_def table_defs)
qed

lemma brick_line:
  assumes good: "good_command st (New_Brick nm p)" and none: "p = None \<Longrightarrow> scan_single ''b_param'' 7 rest = None" and a: "\<not> success a"
  shows "adapt_loop ops room param (show_command st (New_Brick nm p) @ rest) (a, s) =
    (case exec_command ops room param (New_Brick nm p) (a, s) of None \<Rightarrow> None
     | Some (a1, s1) \<Rightarrow> if success a1 then adapt_loop ops room param rest (a1, s1) else Some (a1, s1))"
proof -
  let ?tail = "(case p of None \<Rightarrow> [] | Some q \<Rightarrow> ''b_param:='' @ q @ [NL]) @ rest"
  have lines: "show_command st (New_Brick nm p) @ rest = ''brick:='' @ nm @ NL # ?tail" by (cases p) auto
  have key: "scan_multi strat_keywords (''brick:='' @ nm @ NL # ?tail) = (0, '':='' @ nm @ NL # ?tail)"
    by (subst scan_key [where i = 0 and n = 5]) (simp_all add: strat_keywords_def strncmp_eq_def)
  have aa: "a\<lparr>success := False\<rparr> = a" using a by simp
  have nm: "scan_table_copy id_table (nm @ NL # ?tail) (args.name a) 24 = (int (length nm), NL # ?tail, nm)"
    using good by (intro brick_name_scan) auto
  have sop: "scan_op ('':='' @ nm @ NL # ?tail) = Some (CHR '':'', nm @ NL # ?tail)"
    using scan_op_eq [of "CHR '':''"] by (simp add: table_defs)
  obtain q ok s' where q: "q = (case p of None \<Rightarrow> [] | Some p \<Rightarrow> p)" and room: "(ok, s') = (if p = None then (True, s) else room (length q + 1) s)" by (metis surj_pair)
  have par: "brick_param room ?tail s = Some (if ok then Some (q, rest) else None, s')"
  proof (cases p)
    case None
    then show ?thesis using none q room by (simp add: brick_param_def)
  next
    case (Some p')
    then show ?thesis using brick_param_line [of p' room s ok s' rest] q room good by simp
  qed
  have "strat_cmd ops room param 0 ('':='' @ nm @ NL # ?tail) (a\<lparr>success := False\<rparr>, s) = (if ok then do {
      (a, s) \<leftarrow> call_op ops opcode_instbrick q (a\<lparr>args.name := nm, constr := True, destr := False\<rparr>, s');
      Some (if success a then Continue rest else Return, a, s) } else Some (Return, a\<lparr>args.name := nm\<rparr>, s'))"
    unfolding aa using nm sop par by (simp add: strat_cmd_def brick_cmd_def)
  moreover have "exec_command ops room param (New_Brick nm p) (a, s) =
     (if ok then call_op ops opcode_instbrick q (a\<lparr>args.name := nm, constr := True, destr := False\<rparr>, s') else Some (a\<lparr>args.name := nm\<rparr>, s'))"
    using q room by (cases p) (auto split: prod.splits)
  ultimately show ?thesis
    unfolding lines adapt_step [OF key] using a by (auto split: option.splits)
qed

lemma conn_line:
  assumes good: "good_command st (Inst_Conn opc c)" and a: "\<not> success a"
  shows "adapt_loop ops room param (show_command st (Inst_Conn opc c) @ rest) (a, s) =
    (case exec_command ops room param (Inst_Conn opc c) (a, s) of None \<Rightarrow> None
     | Some (a1, s1) \<Rightarrow> if success a1 then adapt_loop ops room param rest (a1, s1) else Some (a1, s1))"
proof -
  let ?tail = "ending st @ NL # rest"
  let ?t = "opc # ''='' @ show_ref st c @ ?tail"
  have aa: "a\<lparr>success := False\<rparr> = a" using a by simp
  have opc: "opc = CHR '':'' \<or> opc = CHR ''+'' \<or> opc = CHR ''-''" and c: "good_ref st c" "good_ending (ending st)" using good by auto
  have tail: "\<not> id_table (peek ?tail)" "peek ?tail \<noteq> CHR ''[''" "peek ?tail \<noteq> CHR '',''" "skip_line ?tail = rest"
    using c(2) by (auto simp: good_ending_def table_defs)
  from opc have key: "scan_multi strat_keywords (''output'' @ ?t) = (2, ?t)"
    by (subst scan_key [where i = 2 and n = 6]) (auto simp: strat_keywords_def strncmp_eq_def)
  have sop: "scan_op ?t = Some (opc, show_ref st c @ ?tail)" using opc scan_op_eq [of opc] by (auto simp: table_defs)
  have "scan_connstr (show_ref st c @ ?tail) d = (True, ?tail, d\<lparr>conn_name := conn_name c, conn_index := conn_index c\<rparr>)" for d
    using scan_connstr_ref [OF c(1) tail(1,2)] tail(3) by (simp add: after_comma_def)
  then have "strat_cmd ops room param 2 ?t (a\<lparr>success := False\<rparr>, s) = (case exec_command ops room param (Inst_Conn opc c) (a, s) of None \<Rightarrow> None
     | Some (a1, s1) \<Rightarrow> Some (if success a1 then Continue rest else Return, a1, s1))"
    unfolding aa using sop opc tail(4) by (auto simp: strat_cmd_def conn_cmd_def test_skip_def split: option.splits bind_splits)
  then show ?thesis by (subst adapt_loop.simps) (auto simp: key [simplified] split: option.splits)
qed

lemma scan_targets_end: "\<exists>x. scan_connstraddr (NL # rest) c2 = (False, NL # rest, c2\<lparr>conn_addr := x\<rparr>)"
proof -
  have "\<exists>x. c2 = c2\<lparr>conn_addr := x\<rparr>" by (rule exI [of _ "conn_addr c2"]) simp
  then show ?thesis by (auto simp: scan_connstraddr_def scan_table_def scan_body_def table_defs Let_def split: option.splits)
qed

definition loop_end :: "string \<Rightarrow> (args \<times> 's) option \<Rightarrow> (next_step \<times> args \<times> 's) option \<Rightarrow> bool" where
  "loop_end rest x r \<longleftrightarrow> (case x of None \<Rightarrow> r = None
     | Some (a, s) \<Rightarrow> if success a then \<exists>a'. readdressed a a' \<and> r = Some (Continue rest, a', s) else r = Some (Return, a, s))"

lemma targets_loop:
  "\<forall>t \<in> set ts. good_ref st t \<Longrightarrow> success a \<or> ts \<noteq> [] \<Longrightarrow>
     loop_end rest (exec_connects ops param ts (a, s)) (connect_loop ops param (show_targets st ts @ NL # rest) (a, s))"
proof (induction ts arbitrary: a s)
  case Nil
  show ?case
  proof (cases "conn2 a")
    case (Some c2)
    obtain x where "scan_connstraddr (NL # rest) c2 = (False, NL # rest, c2\<lparr>conn_addr := x\<rparr>)" using scan_targets_end by blast
    then have "connect_loop ops param (NL # rest) (a, s) = Some (Continue rest, a\<lparr>conn2 := Some (c2\<lparr>conn_addr := x\<rparr>)\<rparr>, s)"
      using Some by (simp add: connect_loop.simps [of ops param "NL # rest"])
    moreover have "readdressed a (a\<lparr>conn2 := Some (c2\<lparr>conn_addr := x\<rparr>)\<rparr>)" using Some unfolding readdressed_def by blast
    ultimately show ?thesis using Some Nil by (simp add: loop_end_def)
  qed (simp add: connect_loop.simps loop_end_def)
next
  case (Cons t ts)
  let ?rest = "show_targets st ts @ NL # rest"
  have sc: "scan_connstraddr (show_targets st (t # ts) @ NL # rest) c2 =
      (True, ?rest, c2\<lparr>conn_addr := conn_addr t, conn_name := conn_name t, conn_index := conn_index t\<rparr>)" for c2
    using Cons.prems(1) scan_connstraddr_ref [of st t "NL # rest" c2] scan_connstraddr_ref [of st t "CHR '','' # ?rest" c2]
    by (simp add: after_comma_def table_defs)
  show ?case
  proof (cases "conn2 a")
    case None
    then show ?thesis by (simp add: connect_loop.simps loop_end_def)
  next
    case (Some c2)
    note unfold = connect_loop.simps [of ops param "show_targets st (t # ts) @ NL # rest" a s]
    let ?a = "a\<lparr>conn2 := Some (c2\<lparr>conn_addr := conn_addr t, conn_name := conn_name t, conn_index := conn_index t\<rparr>), success := False\<rparr>"
    show ?thesis
    proof (cases "call_op ops opcode_connect param (?a, s)")
      case None
      then show ?thesis using Some sc unfold by (simp add: loop_end_def)
    next
      case (Some z)
      obtain a1 s1 where z: "z = (a1, s1)" by fastforce
      let ?l = "connect_loop ops param (show_targets st (t # ts) @ NL # rest) (a, s)"
      have l: "?l = (if success a1 then connect_loop ops param ?rest (a1, s1) else Some (Return, a1, s1))"
        using Some z \<open>conn2 a = Some c2\<close> sc unfold by (auto simp del: show_targets.simps)
      moreover have "exec_connects ops param (t # ts) (a, s) = (if success a1 then exec_connects ops param ts (a1, s1) else Some (a1, s1))"
        using Some z \<open>conn2 a = Some c2\<close> by simp
      ultimately show ?thesis using Cons.IH [of a1 s1] Cons.prems
        by (cases "success a1") (simp, simp add: loop_end_def del: show_targets.simps exec_connects.simps)
    qed
  qed
qed

lemma connect_line:
  assumes good: "good_command st (Connect_To c ts)" and a: "\<not> success a"
  shows "case exec_command ops room param (Connect_To c ts) (a, s) of
      None \<Rightarrow> adapt_loop ops room param (show_command st (Connect_To c ts) @ rest) (a, s) = None
    | Some (a1, s1) \<Rightarrow> if success a1
        then \<exists>a2. left_behind (Connect_To c ts) a1 a2 \<and> adapt_loop ops room param (show_command st (Connect_To c ts) @ rest) (a, s) = adapt_loop ops room param rest (a2, s1)
        else adapt_loop ops room param (show_command st (Connect_To c ts) @ rest) (a, s) = Some (a1, s1)"
proof -
  let ?t = "show_ref st c @ '':='' @ show_targets st ts @ NL # rest"
  have c: "good_ref st c" and ts: "\<forall>t \<in> set ts. good_ref st t" "ts \<noteq> []" using good by auto
  have "peek (show_ref st c) \<noteq> CHR '' ''" using c id_table_plain [of "hd (conn_name c)"] by (auto simp: show_ref_def show_conn_def good_ref_def good_conn_def peek_hd)
  then have blanks: "skip_blanks ?t = ?t" by (intro skip_blanks_stop) (auto simp: peek_hd)
  then have key: "scan_multi strat_keywords (''connect '' @ ?t) = (3, ?t)"
    by (subst scan_key [where i = 3 and n = 7]) (auto simp: strat_keywords_def strncmp_eq_def)
  have sc: "scan_connstr ?t d = (True, '':='' @ show_targets st ts @ NL # rest, d\<lparr>conn_name := conn_name c, conn_index := conn_index c\<rparr>)" for d
    using scan_connstr_ref [OF c, of "'':='' @ show_targets st ts @ NL # rest"] by (simp add: after_comma_def table_defs)
  have sop: "scan_op ('':='' @ show_targets st ts @ NL # rest) = Some (CHR '':'', show_targets st ts @ NL # rest)"
    using scan_op_eq [of "CHR '':''"] by (simp add: table_defs)
  note unfold = adapt_loop.simps [of ops room param "show_command st (Connect_To c ts) @ rest" a s]
  have aa: "a\<lparr>success := False\<rparr> = a" using a by simp
  show ?thesis
  proof (cases "conn1 a")
    case None
    then show ?thesis using unfold key aa by (simp add: strat_cmd_def connect_cmd_def)
  next
    case (Some c1)
    let ?a = "a\<lparr>conn1 := Some (c1\<lparr>conn_name := conn_name c, conn_index := conn_index c\<rparr>)\<rparr>"
    have "strat_cmd ops room param 3 ?t (a, s) = connect_loop ops param (show_targets st ts @ NL # rest) (?a, s)"
      using Some sc sop by (simp add: strat_cmd_def connect_cmd_def)
    then have l: "adapt_loop ops room param (show_command st (Connect_To c ts) @ rest) (a, s) =
        (case connect_loop ops param (show_targets st ts @ NL # rest) (?a, s) of None \<Rightarrow> None
         | Some (Return, a, s) \<Rightarrow> Some (a, s) | Some (Continue buf, a, s) \<Rightarrow> adapt_loop ops room param buf (a, s))"
      using unfold key aa by simp
    show ?thesis
      using targets_loop [OF ts(1), where a = ?a and ops = ops and param = param and s = s and rest = rest] ts(2) Some l
      by (cases "exec_connects ops param ts (?a, s)") (auto simp: loop_end_def simp del: show_command.simps split: if_splits)
  qed
qed

section \<open>The whole text\<close>

lemma script_runs:
  "good_script cmds \<Longrightarrow> script_run ops room param (map snd cmds) (a, s) (adapt_loop ops room param (show_script cmds) (a, s))"
proof (induction cmds arbitrary: a s)
  case Nil
  have "scan_multi strat_keywords [] = (- 1, [])" by (subst scan_multi.simps) simp
  then show ?case by (simp add: adapt_loop.simps show_script_def strat_cmd_def)
next
  case (Cons x cmds)
  obtain st cmd where x: "x = (st, cmd)" by fastforce
  let ?a = "a\<lparr>success := False\<rparr>" and ?rest = "show_script cmds"
  have good: "good_command st cmd" "good_script cmds" using Cons.prems x by auto
  have same: "adapt_loop ops room param buf (a, s) = adapt_loop ops room param buf (?a, s)" for buf
    by (simp add: adapt_loop.simps)
  have all: "good_script cs \<Longrightarrow> x \<in> set cs \<Longrightarrow> good_command (fst x) (snd x)" for cs x by (induction cs) auto
  have lines: "adapt_loop ops room param (show_script ((st, cmd) # cmds)) y = adapt_loop ops room param (show_command st cmd @ ?rest) y" for y
    by (cases y) (simp add: show_script_def show_line_def adapt_loop.simps scan_multi_indent)
  show ?case
  proof (cases cmd)
    case (New_Brick nm p)
    have "p = None \<Longrightarrow> scan_single ''b_param'' 7 ?rest = None"
      using Cons.prems x New_Brick all [OF good(2)] by (intro no_param_found) auto
    then show ?thesis
      using brick_line [of st nm p ?rest ?a ops room param s] good Cons.IH New_Brick unfolding x list.map snd_conv lines same by (auto split: option.splits)
  next
    case (Inst_Conn opc c)
    then show ?thesis
      using conn_line [of st opc c ?a ops room param _ s] good Cons.IH unfolding x list.map snd_conv lines same by (auto split: option.splits)
  next
    case (Connect_To c ts)
    note line = connect_line [of st c ts ?a, where ops = ops and room = room and param = param and s = s and rest = ?rest]
    show ?thesis
    proof (cases "exec_command ops room param cmd (?a, s)")
      case None
      then show ?thesis using line good Connect_To unfolding x list.map snd_conv lines same by (simp del: exec_command.simps show_command.simps)
    next
      case (Some z)
      obtain a1 s1 where z: "z = (a1, s1)" by fastforce
      show ?thesis
      proof (cases "success a1")
        case True
        then obtain a2 where "left_behind cmd a1 a2" "adapt_loop ops room param (show_command st cmd @ ?rest) (?a, s) = adapt_loop ops room param ?rest (a2, s1)"
          using line good Connect_To Some z by (auto simp del: exec_command.simps show_command.simps left_behind.simps)
        then show ?thesis using Cons.IH [OF good(2), of a2 s1] True Some z unfolding x list.map snd_conv lines same by (auto simp del: left_behind.simps)
      next
        case False
        then show ?thesis using line good Connect_To Some z unfolding x list.map snd_conv lines same by (simp del: exec_command.simps show_command.simps)
      qed
    qed
  qed
qed


text \<open>Operations that succeed and log what they are called with.\<close>

definition log_ops :: "op_t \<Rightarrow> (op_t \<times> string \<times> string \<times> conn_info option) list fop" where
  "log_ops c param = (\<lambda>(a, l). Some (a\<lparr>success := True\<rparr>, l @ [(c, param, args.name a, conn1 a)]))"

definition sample_script :: "(style \<times> command) list" where
  "sample_script = [(\<lparr>indent = 0, index_shown = False, ending = []\<rparr>, New_Brick ''map_dummy'' (Some ''size=4'')),
     (\<lparr>indent = 1, index_shown = False, ending = ''{''\<rparr>, Inst_Conn CHR '':'' \<lparr>conn_addr = 0, conn_index = 0, conn_name = ''out''\<rparr>)]"


end
