(* ===== verification/Control_Reach.thy ===== *)
theory Control_Reach
  imports Strat_Script
begin

text \<open>
  The states that the control brick reaches from \<^verbatim>\<open>static_init\<close> on, by any sequence of its operations, strategy
  texts included, whatever the memory holds at the address of the text, between which the other bricks change
  their own state; and what holds in all of them.
\<close>

section \<open>Reachable states\<close>

inductive reached :: "'w env \<Rightarrow> 'w control \<Rightarrow> 'w \<Rightarrow> bool" for e where
  boot: "static_init e statics m w = Some (s, w') \<Longrightarrow> reached e s w'"
| operation: "reached e s w \<Longrightarrow> brick_table (control_brick e text_at) sect c p (a, Some (s, w)) = (a', Some (s', w')) \<Longrightarrow>
    reached e s' w'"
| others: "reached e s w \<Longrightarrow> reached e s w'"

lemma reached_wf: "reached e s w \<Longrightarrow> env_ok e \<Longrightarrow> control_loaded e \<Longrightarrow> ctl_wf e s"
proof (induction rule: reached.induct)
  case (boot statics m w s w')
  then show ?case using static_init_wf [of e statics m w s w'] by simp
next
  case (operation s w text_at sect c p a a' s' w')
  have "running_ok e (snd (brick_table (control_brick e text_at) sect c p (a, Some (s, w))))"
    using control.table_keeps [of e "Some (s, w)" text_at sect c p a] operation by (simp add: running_ok_def)
  then show ?case using operation(2) by (simp add: running_ok_def)
qed

lemma table_entry: "control_brick e text_at s c = Some f \<Longrightarrow> brick_table (control_brick e text_at) s c = f"
  by (simp add: brick_table_eq)


section \<open>Types\<close>

text \<open>Without assumptions on the tables the merge never accepts an output that lacks a type.\<close>

lemma type_search_sub: "type_search k want outs = (k', outs') \<Longrightarrow> set outs' \<subseteq> set outs"
  by (induction k want outs rule: type_search.induct) (auto simp: Let_def split: if_splits)

lemma type_search_found: "type_search k want outs = (0, outs') \<Longrightarrow> k < 0 \<Longrightarrow> \<exists>t \<in> set outs. str_cmp (gen_typename t) want = 0"
  by (induction k want outs rule: type_search.induct) (auto simp: Let_def split: if_splits)

lemma type_loop_sound:
  "fst (type_loop base ins outs m) \<Longrightarrow> i \<in> set ins \<Longrightarrow> \<exists>t \<in> set outs. str_cmp (gen_typename t) (gen_typename i) = 0"
proof (induction ins arbitrary: outs m)
  case (Cons j "is")
  obtain k outs' where s: "type_search (-1) (gen_typename j) outs = (k, outs')" by fastforce
  have k: "k = 0" and r: "fst (type_loop base is outs' (m(base + gen_offset j := Some (gen_table (hd outs')))))"
    using Cons.prems(1) s by (auto split: if_splits)
  show ?case
  proof (cases "i = j")
    case True
    then show ?thesis using type_search_found [of "-1" "gen_typename j" outs outs'] s k by simp
  next
    case False
    then show ?thesis using Cons.IH [OF r] Cons.prems(2) type_search_sub [OF s] by auto
  qed
qed simp

lemma find_distinct: "distinct (map f xs) \<Longrightarrow> x \<in> set xs \<Longrightarrow> find (\<lambda>y. f y = f x) xs = Some x"
  by (induction xs) (auto simp: image_iff)


section \<open>A sample system\<close>

text \<open>A control brick with one more input, for examples.\<close>

definition sample_conn :: "string \<Rightarrow> bool \<Rightarrow> int \<Rightarrow> gen_type list \<Rightarrow> unit conn_desc" where
  "sample_conn nm out i ts = \<lparr>lc_name = nm, lc_init_conn = (\<lambda>_ _ (a, w). (a\<lparr>success := True\<rparr>, w)), lc_type = out, lc_autoinit = False,
     lc_count = 1, lc_offset = 0, lc_size = 8, lc_static_info = [], lc_gen_type = ts, lc_init_code = (\<lambda>_ _ w. w), lc_export = True,
     lc_start_index = i, lc_sect_count = 1\<rparr>"

definition sample_type :: "string \<Rightarrow> nat \<Rightarrow> gen_type" where
  "sample_type nm n = \<lparr>gen_typename = nm, gen_table = n, gen_offset = 16\<rparr>"

definition sample_hook :: "unit conn_desc" where "sample_hook = sample_conn ''hook'' False 0 []"
definition sample_out :: "unit conn_desc" where "sample_out = sample_conn ''control'' True 1 [sample_type ''A'' 1, sample_type ''B'' 2]"
definition sample_in :: "unit conn_desc" where "sample_in = sample_conn ''in'' False 2 [sample_type ''B'' 3]"

definition sample_loader :: "unit brick_desc" where
  "sample_loader = \<lparr>bd_name = ''control_simple'', bd_static_info = [], bd_instance_size = 64, bd_conn_totalcount = 3,
     bd_conn = [sample_hook, sample_out, sample_in],
     bd_dynamic_init = (\<lambda>_ _ m w. (m, w)), bd_dynamic_exit = (\<lambda>_ _ w. w), bd_init_brick = (\<lambda>_ _ x. x)\<rparr>"

definition sample_env :: "unit env" where
  "sample_env = \<lparr>env_malloc = (\<lambda>n k. Some (1000 * int n)), loaders = [sample_loader], initialized = (\<lambda>_ _. True),
     root_sid = None, put_text = (\<lambda>_ _ w. w), put_infos = (\<lambda>_ w. w)\<rparr>"

lemma sample_conn_sel [simp]:
  "lc_name (sample_conn nm out i ts) = nm" "lc_type (sample_conn nm out i ts) = out" "lc_count (sample_conn nm out i ts) = 1"
  "lc_offset (sample_conn nm out i ts) = 0" "lc_size (sample_conn nm out i ts) = 8" "lc_export (sample_conn nm out i ts) = True"
  "lc_start_index (sample_conn nm out i ts) = i" "lc_init_conn (sample_conn nm out i ts) = (\<lambda>_ _ (a, w). (a\<lparr>success := True\<rparr>, w))"
  "lc_gen_type (sample_conn nm out i ts) = ts" "lc_sect_count (sample_conn nm out i ts) = 1"
  by (simp_all add: sample_conn_def)

lemmas sample_conns [simp] = sample_conn_sel [of "''hook''" False 0 "[]", folded sample_hook_def]
  sample_conn_sel [of "''control''" True 1 "[sample_type ''A'' 1, sample_type ''B'' 2]", folded sample_out_def]
  sample_conn_sel [of "''in''" False 2 "[sample_type ''B'' 3]", folded sample_in_def]

lemma sample_loader_sel [simp]:
  "bd_name sample_loader = ''control_simple''" "bd_instance_size sample_loader = 64" "bd_conn_totalcount sample_loader = 3"
  "bd_conn sample_loader = [sample_hook, sample_out, sample_in]" "bd_dynamic_init sample_loader = (\<lambda>_ _ m w. (m, w))"
  "bd_init_brick sample_loader = (\<lambda>_ _ x. x)" "bd_dynamic_exit sample_loader = (\<lambda>_ _ w. w)"
  by (simp_all add: sample_loader_def)

lemma sample_env_sel [simp]:
  "env_malloc sample_env = (\<lambda>n k. Some (1000 * int n))" "loaders sample_env = [sample_loader]" "initialized sample_env = (\<lambda>_ _. True)"
  "root_sid sample_env = None"
  by (simp_all add: sample_env_def)

lemma sample_env_ok: "env_ok sample_env" "control_loaded sample_env"
  by (simp_all add: env_ok_def inits_succeed_def tables_ok_def slots_of_def control_loaded_def find_loader_def split_beta)

definition sample_boot :: "unit control" where
  "sample_boot = empty_control\<lparr>
     l_first := [Conn (Slot 0 0) \<mapsto> Dir 0, Dir 0 \<mapsto> Conn (Slot 0 0)], l_chain := [Dir 0 \<mapsto> Dir 0],
     conn_next := [Slot 0 0 \<mapsto> Slot 0 2, Slot 0 2 \<mapsto> Slot 0 1], belonging := [Slot 0 0 \<mapsto> 0, Slot 0 2 \<mapsto> 0, Slot 0 1 \<mapsto> 0],
     c_instance := (\<lambda>_. 0)(Slot 0 0 := 128, Slot 0 2 := 128, Slot 0 1 := 128), c_param := (\<lambda>_. P_null)(Slot 0 1 := P_brick),
     h_load_conn := [Slot 0 0 \<mapsto> sample_hook, Slot 0 2 \<mapsto> sample_in, Slot 0 1 \<mapsto> sample_out],
     b_addr := (\<lambda>_. 0)(0 := 4096), b_instance := (\<lambda>_. 0)(0 := 128), b_param := [0 \<mapsto> ''self-booted-by-default-init''],
     b_loader := (b_loader empty_control)(0 := sample_loader), connectors := [0 \<mapsto> Slot 0 0], last_conn := [0 \<mapsto> Slot 0 1],
     main_name := (\<lambda>_. [])(0 := ''control''), brick_hash := [1 \<mapsto> 0], last_addr := 8192, allocs := 2\<rparr>"

lemma clear_empty: "clear_conns P (empty_control\<lparr>allocs := n\<rparr>) = empty_control\<lparr>allocs := n\<rparr>"
  by (rule control.equality) (auto simp: clear_conns_def empty_control_def fun_eq_iff split: link_ref.splits)

lemma empty_control_sel:
  "allocs empty_control = 0" "b_addr empty_control = (\<lambda>_. 0)" "hash_next empty_control = Map.empty" "connectors empty_control = Map.empty"
  "last_conn empty_control = Map.empty" "b_instance empty_control = (\<lambda>_. 0)" "b_param empty_control = Map.empty"
  "belonging empty_control = Map.empty" "h_load_conn empty_control = Map.empty" "c_index empty_control = (\<lambda>_. 0)"
  "c_instance empty_control = (\<lambda>_. 0)" "c_param empty_control = (\<lambda>_. P_null)" "conn_next empty_control = Map.empty"
  "main_name empty_control = (\<lambda>_. [])" "brick_hash empty_control = Map.empty" "l_first empty_control = Map.empty" "l_chain empty_control = Map.empty"
  by (simp_all add: empty_control_def)

lemma hash_first: "brick_hash_fn (word_of_nat REPRES_MAX) = 1" "brick_hash_fn 4096 = 1"
  by (simp_all add: brick_hash_fn_def REPRES_MAX_def BRICK_HASH_MAX_def)

lemma find_node_first: "P x \<Longrightarrow> find_node nx P (Some x) = Some (Some x)"
  by (subst find_node.simps) simp

lemma find_dir_first: "P 0 \<Longrightarrow> find P [0..<MAINDIR_MAX] = Some 0"
  by (subst upt_rec) (simp add: MAINDIR_MAX_def)

definition sample_new :: "unit control" where
  "sample_new = empty_control\<lparr>
     conn_next := [Slot 0 0 \<mapsto> Slot 0 2], belonging := [Slot 0 0 \<mapsto> 0, Slot 0 2 \<mapsto> 0],
     c_instance := (\<lambda>_. 0)(Slot 0 0 := 128, Slot 0 2 := 128), h_load_conn := [Slot 0 0 \<mapsto> sample_hook, Slot 0 2 \<mapsto> sample_in],
     b_instance := (\<lambda>_. 0)(0 := 128), b_param := [0 \<mapsto> ''self-booted-by-default-init''],
     b_loader := (b_loader empty_control)(0 := sample_loader), connectors := [0 \<mapsto> Slot 0 0], last_conn := [0 \<mapsto> Slot 0 2], allocs := 2\<rparr>"

lemma sample_new_brick:
  "new_brick sample_env ''control_simple'' ''self-booted-by-default-init'' m (empty_control, ()) = Some (Some 0, m, sample_new, ())"
  by (simp add: new_brick_def find_loader_def malloc_def Let_def create_brick_def create_conn_def
     clear_empty empty_control_sel insert_conn_def sample_new_def)
   (rule control.equality; simp add: empty_control_sel fun_upd_idem)

lemma sample_create:
  "create_conn sample_env 0 (Slot 0 1) sample_out 0 (sample_new, ()) = Some (sample_new\<lparr>belonging := (belonging sample_new)(Slot 0 1 := Some 0),
     h_load_conn := (h_load_conn sample_new)(Slot 0 1 := Some sample_out), c_instance := (c_instance sample_new)(Slot 0 1 := 128)\<rparr>, ())"
  by (simp add: create_conn_def sample_new_def empty_control_sel fun_upd_idem)

lemma sample_load: "find_load_conn 0 ''control'' sample_new = Some sample_out"
  by (simp add: find_load_conn_def sample_new_def)

lemma sample_runs: "static_init sample_env (\<lambda>w. w) 0 () = Some (sample_boot, ())"
  by (simp add: static_init_def sample_new_brick sample_load sample_create [simplified])
   (simp add: Let_def insert_conn_def ctl_instconn_def
     insert_brick_hash_def hash_first new_main_dir_def find_dir_first ctl_connect_def with_conn_def with_brick_def find_brick_hash_def
     find_node_first find_conn_def get_conn_def find_load_conn_def connect_input_def find_main_dir_def outer_connect_def sample_new_def empty_control_sel,
    rule control.equality; simp add: sample_boot_def empty_control_sel REPRES_MAX_def fun_upd_idem)

definition sample_args :: args where
  "sample_args = zero_args\<lparr>conn1 := Some \<lparr>conn_addr = 4096, conn_index = 0, conn_name = ''in''\<rparr>,
     conn2 := Some \<lparr>conn_addr = 4096, conn_index = 0, conn_name = ''control''\<rparr>, op_code := opcode_connect\<rparr>"

definition sample_joined :: "unit control" where
  "sample_joined = sample_boot\<lparr>
     l_first := (l_first sample_boot)(Conn (Slot 0 2) \<mapsto> Conn (Slot 0 1), Conn (Slot 0 1) \<mapsto> Conn (Slot 0 2)),
     in_connect := [Slot 0 2 \<mapsto> Slot 0 1], rev_chain := [Slot 0 1 \<mapsto> Slot 0 2], gen_tables := [144 \<mapsto> 2]\<rparr>"

lemma sample_boot_sel:
  "brick_hash sample_boot = [1 \<mapsto> 0]" "b_addr sample_boot = (\<lambda>_. 0)(0 := 4096)" "b_loader sample_boot 0 = sample_loader"
  "h_load_conn sample_boot = [Slot 0 0 \<mapsto> sample_hook, Slot 0 2 \<mapsto> sample_in, Slot 0 1 \<mapsto> sample_out]"
  "l_first sample_boot = [Conn (Slot 0 0) \<mapsto> Dir 0, Dir 0 \<mapsto> Conn (Slot 0 0)]" "l_chain sample_boot = [Dir 0 \<mapsto> Dir 0]"
  "c_param sample_boot = (\<lambda>_. P_null)(Slot 0 1 := P_brick)" "belonging sample_boot = [Slot 0 0 \<mapsto> 0, Slot 0 2 \<mapsto> 0, Slot 0 1 \<mapsto> 0]"
  "b_instance sample_boot 0 = 128" "rev_next sample_boot = Map.empty" "rev_chain sample_boot = Map.empty" "in_connect sample_boot = Map.empty"
  "gen_tables sample_boot = Map.empty" "main_name sample_boot = (\<lambda>_. [])(0 := ''control'')"
  by (simp_all add: sample_boot_def empty_control_def)

lemma sample_found:
  "with_conn \<lparr>conn_addr = 4096, conn_index = 0, conn_name = ''in''\<rparr> f (a, sample_boot, w) = f 0 (Slot 0 2) (a, sample_boot, w)"
  "with_conn \<lparr>conn_addr = 4096, conn_index = 0, conn_name = ''control''\<rparr> f (a, sample_boot, w) = f 0 (Slot 0 1) (a, sample_boot, w)"
  by (simp_all add: with_conn_def with_brick_def find_brick_hash_def find_node_first hash_first sample_boot_sel find_conn_def
      find_load_conn_def get_conn_def)

lemma sample_join: "join_found (Slot 0 1) (Slot 0 2) sample_boot = Some sample_joined"
  by (simp add: join_found_def type_connect_def sample_boot_sel sample_type_def inner_connect_def outer_connect_def)
    (rule control.equality; simp add: sample_joined_def sample_boot_sel fun_upd_twist fun_upd_idem)

lemma sample_connect: "ctl_connect sample_env [] (sample_args, sample_boot, ()) = Some (sample_args\<lparr>success := True\<rparr>, sample_joined, ())"
  by (simp add: ctl_connect_def sample_args_def sample_found connect_input_def connect_output_def lazy_instconn_def sample_boot_sel sample_join [simplified])

lemma sample_reached: "reached sample_env sample_joined ()"
proof (rule reached.operation [OF reached.boot [OF sample_runs]])
  have "brick_table (control_brick sample_env (\<lambda>_ _. [])) 0 opcode_connect = run_op (ctl_connect sample_env)"
    by (rule table_entry) (simp add: control_brick_def control_impl_def)
  then show "brick_table (control_brick sample_env (\<lambda>_ _. [])) 0 opcode_connect [] (sample_args, Some (sample_boot, ()))
      = (sample_args\<lparr>success := True\<rparr>, Some (sample_joined, ()))" by (simp add: run_op_def sample_connect)
qed



end
