(* ===== verification/Control_Spec.thy ===== *)
theory Control_Spec
  imports Control_Reach
begin

text \<open>
  The operations of the control brick against the graph of connections: \<^verbatim>\<open>$connect\<close> and \<^verbatim>\<open>$disconnect\<close> add and remove one
  edge, \<^verbatim>\<open>$deinstbrick\<close> removes a brick with all edges from its inputs or leaves everything as it is,
  \<^verbatim>\<open>$getconn\<close> lists the edges.
\<close>

section \<open>Generic types\<close>

text \<open>C18: The merge of the two sorted arrays decides that the output offers every generic type of the input, and
  then leaves in the instance of the brick of the input, for each of them, the table of the output's type
  of that name, and changes nothing else.\<close>
theorem type_connect_covers:
  assumes "h_load_conn s out_h = Some od" "h_load_conn s in_h = Some idc" "lc_type od" "\<not> lc_type idc"
    "belonging s in_h = Some b" "ascending (lc_gen_type idc)" "ascending (lc_gen_type od)"
    "distinct (map gen_offset (lc_gen_type idc))"
  shows "\<exists>ok m. type_connect out_h in_h s = Some (ok, s\<lparr>gen_tables := m\<rparr>)
    \<and> (ok \<longleftrightarrow> gen_typename ` set (lc_gen_type idc) \<subseteq> gen_typename ` set (lc_gen_type od))
    \<and> (ok \<longrightarrow> (\<forall>i \<in> set (lc_gen_type idc). \<exists>t \<in> set (lc_gen_type od).
          gen_typename t = gen_typename i \<and> m (b_instance s b + gen_offset i) = Some (gen_table t))
        \<and> (\<forall>a. a - b_instance s b \<notin> gen_offset ` set (lc_gen_type idc) \<longrightarrow> m a = gen_tables s a))"
  by (rule type_connect_result [OF assms])

section \<open>Connecting and disconnecting\<close>


lemma with_conn_returns:
  assumes "wfr e s G H L" "\<And>b c. f b c (a, s, w) \<noteq> None"
  shows "with_conn ci f (a, s, w) \<noteq> None"
proof -
  have h: "hash_ok s H" using assms(1) by (simp add: wfr_def)
  show ?thesis
  proof (cases "find (\<lambda>b. b_addr s b = conn_addr ci) (H (brick_hash_fn (conn_addr ci)))")
    case None
    then show ?thesis by (simp add: with_conn_def with_brick_def find_brick [OF h])
  next
    case (Some b)
    then have b: "live H b" using find_brick_live [OF h] find_brick [OF h] by metis
    have "\<exists>r. get_conn b d i s = Some r" for d i
      using wfr_listed [OF assms(1) b] find_node_linked [of "conn_next s" "connectors s b" "L b"]
      by (auto simp: get_conn_def listed_def)
    then obtain r where "find_conn b (conn_name ci) (conn_index ci) s = Some r" by (fastforce simp: find_conn_def split: option.splits)
    then show ?thesis using Some assms(2) by (simp add: with_conn_def with_brick_def find_brick [OF h] split: option.splits)
  qed
qed

text \<open>C5: \<^verbatim>\<open>$disconnect\<close> returns, and either leaves the graph alone or removes the edge of the input named by \<^verbatim>\<open>conn1\<close>.\<close>
theorem disconnect_removes_edge:
  assumes "wfr e s G H L" "conn1 a = Some c1" "\<not> success a"
  shows "\<exists>a' s' w' G'. ctl_disconnect param (a, s, w) = Some (a', s', w') \<and> wfr e s' G' H L \<and> (if success a'
    then \<exists>b c. b_addr s b = conn_addr c1 \<and> find_conn b (conn_name c1) (conn_index c1) s = Some (Some c) \<and>
           is_input s c \<and> \<not> unconnected c G \<and> G' = detach c G
    else G' = G)"
proof -
  have found: "disconnect_found b c (a, s, w) \<noteq> None" for b c
  proof (cases "is_input s c \<and> l_first s (Conn c) \<noteq> None")
    case True
    obtain s1 where "disconnect c s = Some (\<not> unconnected c G, s1)" using disconnect_keeps [OF assms(1)] True by metis
    then show ?thesis using True by (auto simp: disconnect_found_def split: option.splits)
  qed (auto simp: disconnect_found_def is_input_def split: option.splits)
  have "ctl_disconnect param (a, s, w) \<noteq> None"
    using with_conn_returns [OF assms(1), of disconnect_found a w c1] found assms(2) by (simp add: ctl_disconnect_def)
  then obtain a' s' w' where r: "ctl_disconnect param (a, s, w) = Some (a', s', w')" by auto
  from disconnect_op_keeps [OF assms(1,2) r] assms(3) r show ?thesis by auto
qed

section \<open>Deleting a brick\<close>

text \<open>A brick taken out of the brick table is not found any more, and in a consistent state no connection leads to it.\<close>

lemma removed_not_found:
  assumes "hash_ok s H" "live H b" "hash_ok s' (\<lambda>j. remove1 b (H j))" "b_addr s' = b_addr s"
  shows "find_brick_hash (b_addr s b) s' = Some None"
proof -
  let ?i = "brick_hash_fn (b_addr s b)"
  have d: "distinct (map (b_addr s) (H ?i))" "b \<in> set (H ?i)" using assms(1,2) unfolding hash_ok_def live_def by metis+
  have "b_addr s' x \<noteq> b_addr s b" if "x \<in> set (remove1 b (H ?i))" for x
  proof -
    have "x \<in> set (H ?i)" "x \<noteq> b" using that d by (auto simp: distinct_map)
    then show ?thesis using assms(4) d by (auto simp: distinct_map inj_on_def)
  qed
  then show ?thesis using find_brick [OF assms(3)] by (auto simp: find_None_iff)
qed

lemma removed_not_linked:
  assumes "hash_ok s H" "wfr e s' G (\<lambda>j. remove1 b (H j)) L" "is_input s' c" "l_first s' (Conn c) = Some l"
  shows "belonging s' c \<noteq> Some b \<and> (\<forall>oc. l = Conn oc \<longrightarrow> belonging s' oc \<noteq> Some b)"
proof -
  have lv: "\<not> live (\<lambda>j. remove1 b (H j)) b" using assms(1) by (auto simp: live_def hash_ok_def distinct_map)
  have "c \<in> set (G l)" using assms(2) outer_okD(3) [of s' G c l] assms(3,4) by (simp add: wfr_def graph_def)
  moreover have "alive_ends s' G (\<lambda>j. remove1 b (H j))" using assms(2) by (simp add: wfr_def)
  ultimately show ?thesis using lv unfolding alive_ends_def by (metis list.set_cases list.discI option.inject)
qed


section \<open>Listing connections\<close>

lemma chain_graph: "wfr e s G H L \<Longrightarrow> source s l \<Longrightarrow> chain_conns s (l_first s l) = Some (G l)"
proof -
  assume w: "wfr e s G H L" and l: "source s l"
  have "linked (l_chain s) (l_first s l) (map Conn (G l))" using outer_okD(1) [of s G l] w l by (simp add: wfr_def graph_def)
  moreover have "those (map (LINK_TO_CONN \<circ> Conn) cs) = Some cs" for cs by (induction cs) auto
  ultimately show ?thesis by (simp add: chain_conns_def visit_linked)
qed

lemma sint_word_nat: "k < 2 ^ 31 \<Longrightarrow> sint (word_of_nat k :: u32) = int k"
  by (simp add: signed_of_nat signed_take_bit_int_eq_self)

lemma those_all: "(\<And>x. x \<in> set xs \<Longrightarrow> f x \<noteq> None) \<Longrightarrow> \<exists>ys. those (map f xs) = Some ys \<and> length ys = length xs"
  by (induction xs) (auto split: option.splits)

lemma graph_infos: "wfr e s G H L \<Longrightarrow> \<exists>infos. those (map (conn_info_of s) (G l)) = Some infos \<and> length infos = length (G l)"
proof (rule those_all)
  fix c assume w: "wfr e s G H L" and c: "c \<in> set (G l)"
  then obtain b where "belonging s c = Some b" unfolding wfr_def alive_ends_def by blast
  moreover from this have "h_load_conn s c \<noteq> None" using w ownedD(1) [of s c] by (auto simp: wfr_def)
  ultimately show "conn_info_of s c \<noteq> None" by (auto simp: conn_info_of_def)
qed

text \<open>C24: \<^verbatim>\<open>$getconn\<close> on an output or on an entry of the main directory lists exactly the inputs connected to it, latest
  first, and sets \<^verbatim>\<open>conn_len\<close> to the bytes written; when they do not fit it writes those that do, leaves
  \<^verbatim>\<open>conn_len\<close> alone and reports success all the same.\<close>
theorem getconn_lists_edges:
  assumes "wfr e s G H L" "source s l" "conn1 a = Some c1" "res_conn a \<noteq> None" "0 \<le> conn_len a" "conn_len a < 2 ^ 31"
    "case l of Dir i \<Rightarrow> conn_addr c1 = 0 \<and> find_main_dir (conn_name c1) s = Some i
     | Conn c \<Rightarrow> conn_addr c1 \<noteq> 0 \<and> (\<exists>b. find_brick_hash (conn_addr c1) s = Some (Some b)
         \<and> find_conn b (conn_name c1) (conn_index c1) s = Some (Some c))"
  shows "\<exists>infos. those (map (conn_info_of s) (G l)) = Some infos \<and> ctl_getconn e param (a, s, w) =
    (if 20 * int (length (G l)) \<le> conn_len a
     then Some (a\<lparr>success := True, conn_len := 20 * int (length (G l))\<rparr>, s, put_infos e infos w)
     else Some (a\<lparr>success := True\<rparr>, s, put_infos e (take (nat (conn_len a) div 20) infos) w))"
proof -
  obtain infos where i: "those (map (conn_info_of s) (G l)) = Some infos" "length infos = length (G l)" using graph_infos [OF assms(1)] by blast
  let ?n = "length (G l)"
  have rest: "unat (word_of_int (conn_len a) :: u32) = nat (conn_len a)"
    using assms(5,6) by (simp add: unat_eq_nat_uint uint_word_of_int)
  have op: "ctl_getconn e param (a, s, w) = mk_conn_info e (l_first s l) (a\<lparr>success := True\<rparr>, s, w)"
    using assms(3,7) by (auto simp: ctl_getconn_def with_conn_def with_brick_def split: link_ref.splits)
  have fit: "nat (conn_len a) div 20 < ?n \<longleftrightarrow> \<not> 20 * int ?n \<le> conn_len a"
    using assms(5) by (auto simp: less_mult_imp_div_less nat_less_iff div_less_iff_less_mult)
  have left: "sint (word_of_nat (nat (conn_len a) - 20 * ?n) :: u32) = conn_len a - 20 * int ?n" if "20 * int ?n \<le> conn_len a"
    using that assms(5,6) sint_word_nat [of "nat (conn_len a) - 20 * ?n"] by simp
  show ?thesis
    using i assms(4) rest left fit unfolding op mk_conn_info_def chain_graph [OF assms(1,2)]
    by (intro exI [of _ infos]) (auto simp: Let_def chain_graph [OF assms(1,2)])
qed

section \<open>The sample system\<close>

lemma sample_wf: "ctl_wf sample_env sample_boot" "ctl_wf sample_env sample_joined"
  using reached_wf [OF reached.boot [OF sample_runs] sample_env_ok] reached_wf [OF sample_reached sample_env_ok] by simp_all


lemma sample_joined_sel:
  "l_first sample_joined = [Conn (Slot 0 0) \<mapsto> Dir 0, Dir 0 \<mapsto> Conn (Slot 0 0), Conn (Slot 0 2) \<mapsto> Conn (Slot 0 1), Conn (Slot 0 1) \<mapsto> Conn (Slot 0 2)]"
  "l_chain sample_joined = [Dir 0 \<mapsto> Dir 0]" "h_load_conn sample_joined = h_load_conn sample_boot" "belonging sample_joined = belonging sample_boot"
  "b_addr sample_joined = b_addr sample_boot" "brick_hash sample_joined = brick_hash sample_boot" "b_loader sample_joined = b_loader sample_boot"
  "c_index sample_joined (Slot 0 2) = 0"
  by (simp_all add: sample_joined_def sample_boot_sel) (simp add: sample_boot_def empty_control_def)

lemma sample_edges:
  "wfr sample_env sample_joined G H L \<Longrightarrow> G (Conn (Slot 0 1)) = [Slot 0 2]"
  "wfr sample_env sample_boot G H L \<Longrightarrow> G (Conn (Slot 0 1)) = []"
  using chain_graph [of sample_env sample_joined G H L "Conn (Slot 0 1)"] chain_graph [of sample_env sample_boot G H L "Conn (Slot 0 1)"]
  by (simp_all add: is_output_def sample_joined_sel sample_boot_sel chain_conns_def visit.simps)

lemma sample_find:
  "find_brick_hash 4096 sample_joined = Some (Some 0)" "find_brick_hash 4096 sample_boot = Some (Some 0)"
  by (simp_all add: find_brick_hash_def hash_first find_node_first sample_joined_sel sample_boot_sel)

theorem type_connect_covers_witness:
  "\<exists>m. type_connect (Slot 0 1) (Slot 0 2) sample_boot = Some (True, sample_boot\<lparr>gen_tables := m\<rparr>) \<and> m 144 = Some 2"
proof -
  have h: "h_load_conn sample_boot (Slot 0 1) = Some sample_out" "h_load_conn sample_boot (Slot 0 2) = Some sample_in" "lc_type sample_out"
    "\<not> lc_type sample_in" "belonging sample_boot (Slot 0 2) = Some 0" by (simp_all add: sample_boot_sel)
  have "ascending (lc_gen_type sample_in)" "ascending (lc_gen_type sample_out)" "distinct (map gen_offset (lc_gen_type sample_in))"
    by (simp_all add: ascending_def sample_type_def)
  from type_connect_covers [OF h this] show ?thesis by (auto simp: sample_type_def sample_boot_sel)
qed

theorem disconnect_removes_edge_witness:
  "\<exists>a' s' w' G' H L. ctl_disconnect [] (sample_args, sample_joined, ()) = Some (a', s', w') \<and> wfr sample_env s' G' H L"
proof -
  obtain G H L where "wfr sample_env sample_joined G H L" using sample_wf by (auto simp: ctl_wf_def)
  moreover have "conn1 sample_args = Some \<lparr>conn_addr = 4096, conn_index = 0, conn_name = ''in''\<rparr>" "\<not> success sample_args"
    by (simp_all add: sample_args_def zero_args_def)
  ultimately show ?thesis using disconnect_removes_edge [of sample_env sample_joined G H L sample_args] by blast
qed


theorem getconn_lists_edges_witness:
  "ctl_getconn sample_env [] (zero_args\<lparr>conn1 := Some \<lparr>conn_addr = 4096, conn_index = 0, conn_name = ''control''\<rparr>,
     res_conn := Some \<lparr>conn_addr = 0, conn_index = 0, conn_name = []\<rparr>, conn_len := 100\<rparr>, sample_joined, ())
   = Some (zero_args\<lparr>conn1 := Some \<lparr>conn_addr = 4096, conn_index = 0, conn_name = ''control''\<rparr>,
     res_conn := Some \<lparr>conn_addr = 0, conn_index = 0, conn_name = []\<rparr>, conn_len := 20, success := True\<rparr>, sample_joined, ())"
proof -
  let ?a = "zero_args\<lparr>conn1 := Some \<lparr>conn_addr = 4096, conn_index = 0, conn_name = ''control''\<rparr>,
     res_conn := Some \<lparr>conn_addr = 0, conn_index = 0, conn_name = []\<rparr>, conn_len := 100\<rparr>"
  obtain G H L where w: "wfr sample_env sample_joined G H L" using sample_wf by (auto simp: ctl_wf_def)
  have "find_conn 0 ''control'' 0 sample_joined = Some (Some (Slot 0 1))"
    by (simp add: find_conn_def find_load_conn_def get_conn_def sample_joined_sel sample_boot_sel)
  then show ?thesis
    using getconn_lists_edges [OF w, of "Conn (Slot 0 1)" ?a _ "[]" "()"] sample_edges(1) [OF w] sample_find
    by (simp add: is_output_def sample_joined_sel sample_boot_sel)
qed

end
