(* ===== verification/Kernel_Boot.thy ===== *)
theory Kernel_Boot
  imports Control_Reach Libc_Printf Mem_Init Seg_Tables Screen
begin

text \<open>
  The start of the system above the control brick: \<^verbatim>\<open>b_cmd\<close>, \<^verbatim>\<open>b_boot\<close> and the part of \<^verbatim>\<open>cmain\<close> of
  \<^verbatim>\<open>x86_kernel.c\<close> that sets up the first bricks, and the same for the user mode program \<^verbatim>\<open>athomux_ulinux.c\<close>.
  A step returns its result and the new state, has switched the machine off (ended the program), or is undefined.
\<close>

section \<open>Machine and kernel\<close>

text \<open>
  The memory as the start sees it: the strings at the addresses that \<^verbatim>\<open>%s\<close> is given, the text at the address of
  a strategy, the address of the local array \<^verbatim>\<open>str\<close> and what the stack holds there and in the buffer of \<^verbatim>\<open>printf\<close>.
\<close>

record 'w machine =
  m_env :: "'w env"
  m_strs :: strs
  m_text :: "paddr_t \<Rightarrow> 'w control \<times> 'w \<Rightarrow> string"
  m_str :: u32
  m_stack :: bytes
  m_line :: "nat \<Rightarrow> char"

record 'w kernel =
  k_console :: string
  k_ctl :: "'w control"
  k_world :: 'w
  k_shutdown :: bool
  k_task0 :: u32

datatype 'a outcome = Done 'a | Off

type_synonym ('a, 'w) step = "'w kernel \<Rightarrow> ('a outcome \<times> 'w kernel) option"

definition TASK_RUNNABLE :: u32 where "TASK_RUNNABLE = 1"
definition TASK_WAITING :: u32 where "TASK_WAITING = 2"

definition and_then :: "('a, 'w) step \<Rightarrow> ('a \<Rightarrow> ('b, 'w) step) \<Rightarrow> ('b, 'w) step" where
  "and_then f g k = (case f k of
     None \<Rightarrow> None | Some (Off, k) \<Rightarrow> Some (Off, k) | Some (Done x, k) \<Rightarrow> g x k)"

text \<open>An operation of the root strategy, \<^verbatim>\<open>root_strategy->ops[0][...]\<close>.\<close>

definition root_op :: "'w env \<Rightarrow> (paddr_t \<Rightarrow> 'w control \<times> 'w \<Rightarrow> string) \<Rightarrow> op_t \<Rightarrow> string \<Rightarrow> args \<times> 'w kernel \<Rightarrow> (args \<times> 'w kernel) option" where
  "root_op e text_at c param = (\<lambda>(a, k). case brick_table (control_brick e text_at) 0 c param (a, Some (k_ctl k, k_world k)) of
     (a, None) \<Rightarrow> None | (a, Some (s, w)) \<Rightarrow> Some (a, k\<lparr>k_ctl := s, k_world := w\<rparr>))"

text \<open>The memory while the array \<^verbatim>\<open>str\<close> holds a text.\<close>

definition with_text :: "'w machine \<Rightarrow> string \<Rightarrow> paddr_t \<Rightarrow> 'w control \<times> 'w \<Rightarrow> string" where
  "with_text x str = (m_text x)(ucast (m_str x) := (\<lambda>_. str))"

definition c_string :: "nat \<Rightarrow> bytes \<Rightarrow> string" where
  "c_string n m = takeWhile (\<lambda>c. c \<noteq> NUL) (map (\<lambda>i. char_of (unat (m i))) [0..<n])"

section \<open>Messages and the end of the kernel\<close>

definition kprintf :: "'w machine \<Rightarrow> string \<Rightarrow> va_list \<Rightarrow> (unit, 'w) step" where
  "kprintf x fmt va k = map_option (\<lambda>(_, c). (Done (), k\<lparr>k_console := c\<rparr>)) (vprintf (m_strs x) (m_line x) fmt va (k_console k))"

definition apm_shutdown :: "('a, 'w) step" where
  "apm_shutdown k = Some (Off, k)"

definition kernel_abort :: "'w machine \<Rightarrow> ('a, 'w) step" where
  "kernel_abort x = and_then (kprintf x (''FATAL: abort() called, Athomux shutting down...'' @ [NL]) []) (\<lambda>_. apm_shutdown)"

definition kernel_exit :: "'w machine \<Rightarrow> int \<Rightarrow> ('a, 'w) step" where
  "kernel_exit x code = and_then (kprintf x (''FATAL: exit(%i) called, Athomux shutting down...'' @ [NL]) [word_of_int code]) (\<lambda>_. apm_shutdown)"

definition athomux_shutdown :: "'w machine \<Rightarrow> (unit, 'w) step" where
  "athomux_shutdown x = and_then (kprintf x (''Shutdown requested!'' @ [NL]) [])
     (\<lambda>_ k. Some (Done (), k\<lparr>k_shutdown := True, k_task0 := TASK_RUNNABLE\<rparr>))"

section \<open>Commands to the root strategy\<close>

definition b_cmd :: "'w machine \<Rightarrow> addr_t \<Rightarrow> string \<Rightarrow> string \<Rightarrow> va_list \<Rightarrow> (bool, 'w) step" where
  "b_cmd x addr fmt param va k = (case vsnprintf (m_strs x) 0 511 fmt va (m_stack x) of
     None \<Rightarrow> None
   | Some (err, m) \<Rightarrow>
       if err = 511 then and_then (kprintf x ''Buffer overrun in b_cmd!'' []) (\<lambda>_. kernel_exit x (- 1)) k
       else let str = c_string 512 m;
                args = zero_args\<lparr>log_addr := addr, log_len := of_nat (length str), phys_addr := ucast (m_str x), direction := direct_write\<rparr>
            in map_option (\<lambda>(a, k). (Done (success a), k)) (root_op (m_env x) (with_text x str) opcode_trans param (args, k)))"

definition gadr_args :: args where
  "gadr_args = zero_args\<lparr>log_len := 4096, reader := False, exclu := True, action := action_wait, melt := True, try_len := 4096,
     op_code := opcode_gadr, success := False\<rparr>"

definition b_boot :: "'w machine \<Rightarrow> string \<Rightarrow> string \<Rightarrow> va_list \<Rightarrow> (addr_t, 'w) step" where
  "b_boot x fmt param va k = (case vsnprintf (m_strs x) 0 511 fmt va (m_stack x) of
     None \<Rightarrow> None
   | Some (err, m) \<Rightarrow>
       if err = 511 then and_then (kprintf x ''Buffer overrun in b_boot!'' []) (\<lambda>_. kernel_exit x (- 1)) k
       else let str = c_string 512 m in (case root_op (m_env x) (m_text x) opcode_gadr param (gadr_args, k) of
         None \<Rightarrow> None
       | Some (a, k) \<Rightarrow>
           if \<not> success a then and_then (kprintf x (''b_boot: gadr failed!'' @ [NL]) []) (\<lambda>_. kernel_exit x (- 1)) k
           else let a = a\<lparr>success := False, log_len := of_nat (length str), phys_addr := ucast (m_str x), direction := direct_write,
                          op_code := opcode_trans\<rparr>
                in (case root_op (m_env x) (with_text x str) opcode_trans param (a, k) of
                  None \<Rightarrow> None
                | Some (a, k) \<Rightarrow>
                    if \<not> success a
                    then and_then (kprintf (x\<lparr>m_strs := (m_strs x)(m_str x \<mapsto> str)\<rparr>) (''b_boot: trans '' @ CHR 0x27 # ''%s'' @ CHR 0x27 # '' failed!'' @ [NL]) [m_str x])
                           (\<lambda>_. kernel_exit x (- 1)) k
                    else Some (Done (log_addr a), k))))"

section \<open>The first bricks of the kernel\<close>

text \<open>\<^verbatim>\<open>cmain\<close> from the first strategy on to \<^verbatim>\<open>tasks[0].state = TASK_WAITING\<close>.\<close>

fun irq_outputs :: "'w machine \<Rightarrow> addr_t \<Rightarrow> nat list \<Rightarrow> (unit, 'w) step" where
  "irq_outputs x cpu [] k = Some (Done (), k)"
| "irq_outputs x cpu (i # is) k =
     and_then (b_cmd x cpu (''output:=irq[%i]'' @ [NL]) [] [of_nat i]) (\<lambda>_. irq_outputs x cpu is) k"

definition cpu_outputs :: "'w machine \<Rightarrow> (addr_t, 'w) step" where
  "cpu_outputs x =
     and_then (b_boot x (''brick+=cpu_x86'' @ [NL]) [] []) (\<lambda>cpu.
     and_then (irq_outputs x cpu [0..<16]) (\<lambda>_.
     and_then (b_cmd x cpu (''output:=int80'' @ [NL]) [] [16]) (\<lambda>_ k. Some (Done cpu, k))))"

text \<open>The array \<^verbatim>\<open>addr\<close> has 32 characters.\<close>

definition print_addrs :: "'w machine \<Rightarrow> addr_t \<Rightarrow> addr_t \<Rightarrow> (string, 'w) step" where
  "print_addrs x strategy cpu k = (case vsprintf (m_strs x) 0 ''%llx %llx'' (long_args strategy @ long_args cpu) (m_stack x) of
     None \<Rightarrow> None
   | Some (n, m) \<Rightarrow> if n < 32 then Some (Done (c_string 32 m), k) else None)"

definition boot_bricks :: "'w machine \<Rightarrow> (unit, 'w) step" where
  "boot_bricks x =
     and_then (b_cmd x 4096 (''output:=control'' @ [NL]) [] []) (\<lambda>_.
     and_then (b_boot x (''brick:=map_dummy'' @ NL # '' output:=out{'' @ [NL]) [] []) (\<lambda>first.
     and_then (b_boot x (''brick:=adapt_meta'' @ NL # '' connect in:=%llx:out'' @ NL # '' output:=out'' @ [NL]) [] (long_args first)) (\<lambda>meta.
     and_then (b_cmd x 0 ''output:=_root'' [] []) (\<lambda>_.
     and_then (b_cmd x meta ''connect hook:=0:_root'' [] []) (\<lambda>_.
     and_then (cpu_outputs x) (\<lambda>cpu.
     and_then (b_boot x (''brick:=fs_simple'' @ NL # '' connect strat:=%llx:control'' @ NL # '' output:=control{'' @ [NL]) ''_root'' (long_args 4096)) (\<lambda>fs.
     and_then (b_boot x (''brick:=strategy_native'' @ NL # '' connect strat:=%llx:control'' @ NL # '' connect fs:=%llx:control'') []
                 (long_args 4096 @ long_args fs @ long_args cpu)) (\<lambda>strategy.
     and_then (print_addrs x strategy cpu) (\<lambda>addr.
     and_then (b_cmd x strategy (''output:=posix'' @ [NL]) addr []) (\<lambda>_.
     and_then (b_cmd x strategy (''output:=dummy'' @ [NL]) addr []) (\<lambda>_ k.
       Some (Done (), k\<lparr>k_task0 := TASK_WAITING\<rparr>))))))))))))"

text \<open>
  \<^verbatim>\<open>cmain\<close> itself up to there.  The parts of the machine are those of the theories that model them; the console is
  the text sent to it.  \<open>statics\<close> and \<open>mand\<close> are what \<open>static_init\<close> takes.
\<close>

definition MULTIBOOT_BOOTLOADER_MAGIC :: u32 where "MULTIBOOT_BOOTLOADER_MAGIC = 0x2BADB002"

record boot_info =
  bi_mmap :: multiboot_info
  bi_flags :: u32
  bi_apm :: apm_table
  bi_gdt :: u32
  bi_exc :: u32
  bi_idt :: u32

record 'w pc =
  pc_screen :: screen
  pc_serial :: serial
  pc_pages :: mm
  pc_segs :: segs
  pc_irqs :: irqs
  pc_kernel :: "'w kernel"

datatype cmain_end_state = Returned | Waiting | Switched_Off

definition on_kernel :: "('a, 'w) step \<Rightarrow> 'w pc \<Rightarrow> ('a outcome \<times> 'w pc) option" where
  "on_kernel f p = map_option (\<lambda>(r, k). (r, p\<lparr>pc_kernel := k\<rparr>)) (f (pc_kernel p))"

definition cmain :: "'w machine \<Rightarrow> ('w \<Rightarrow> 'w) \<Rightarrow> mand_t \<Rightarrow> u32 \<Rightarrow> boot_info \<Rightarrow> 'w pc \<Rightarrow> (cmain_end_state \<times> 'w pc) option" where
  "cmain x statics mand magic bi p = do {
     let p = p\<lparr>pc_screen := cls (pc_screen p)\<rparr>;
     d \<leftarrow> ser_init (pc_serial p);
     (_, p) \<leftarrow> on_kernel (kprintf x (''Athomux starting up...'' @ [NL, NL]) []) (p\<lparr>pc_serial := d\<rparr>);
     if magic \<noteq> MULTIBOOT_BOOTLOADER_MAGIC then do {
       (_, p) \<leftarrow> on_kernel (kprintf x (''Invalid magic number: 0x%x'' @ [NL]) [magic]) p;
       Some (Returned, p) }
     else do {
       m \<leftarrow> init_memory (bi_mmap bi) (pc_pages p);
       g \<leftarrow> init_GDT (bi_flags bi) (bi_apm bi) (bi_gdt bi) (pc_segs p);
       (_, p) \<leftarrow> on_kernel (kprintf x (''GDT set up'' @ [NL]) []) (p\<lparr>pc_pages := m, pc_segs := g\<rparr>);
       q \<leftarrow> init_IDT (bi_exc bi) (bi_idt bi) (pc_irqs p);
       (_, p) \<leftarrow> on_kernel (kprintf x (''IDT set up'' @ [NL]) []) (p\<lparr>pc_irqs := q\<rparr>);
       (s, w) \<leftarrow> static_init (m_env x) statics mand (k_world (pc_kernel p));
       (r, p) \<leftarrow> on_kernel (boot_bricks x) (p\<lparr>pc_kernel := (pc_kernel p)\<lparr>k_ctl := s, k_world := w\<rparr>\<rparr>);
       Some (case r of Done _ \<Rightarrow> Waiting | Off \<Rightarrow> Switched_Off, p) } }"

text \<open>The end of \<^verbatim>\<open>cmain\<close>, once a task has called \<^verbatim>\<open>athomux_shutdown\<close>; \<open>None\<close> while the loop waits for that.\<close>

fun countdown :: "'w machine \<Rightarrow> nat \<Rightarrow> (unit, 'w) step" where
  "countdown x 0 k = Some (Done (), k)"
| "countdown x (Suc i) k = and_then (kprintf x ''%i...'' [of_nat (Suc i)]) (\<lambda>_. countdown x i) k"

definition cmain_end :: "'w machine \<Rightarrow> (unit, 'w) step" where
  "cmain_end x k = (if \<not> k_shutdown k then None
     else and_then (kprintf x ''Athomux shutting down in '' []) (\<lambda>_.
          and_then (countdown x 5) (\<lambda>_.
          and_then (kprintf x [NL] []) (\<lambda>_. apm_shutdown))) k)"

section \<open>The first bricks of the user mode program\<close>

text \<open>Here \<^verbatim>\<open>printf\<close> and \<^verbatim>\<open>sprintf\<close> are those of the host.\<close>

definition host_exit :: "string \<Rightarrow> ('a, 'w) step" where
  "host_exit text k = Some (Off, k\<lparr>k_console := k_console k @ text\<rparr>)"

definition ulinux_cmd :: "'w machine \<Rightarrow> addr_t \<Rightarrow> string \<Rightarrow> string \<Rightarrow> (bool, 'w) step" where
  "ulinux_cmd x addr str param k =
     (let args = zero_args\<lparr>log_addr := addr, log_len := of_nat (length str), phys_addr := ucast (m_str x), direction := direct_write\<rparr>
      in map_option (\<lambda>(a, k). (Done (success a), k)) (root_op (m_env x) (with_text x str) opcode_trans param (args, k)))"

definition ulinux_boot :: "'w machine \<Rightarrow> string \<Rightarrow> string \<Rightarrow> (addr_t, 'w) step" where
  "ulinux_boot x str param k = (case root_op (m_env x) (m_text x) opcode_gadr param (gadr_args, k) of
     None \<Rightarrow> None
   | Some (a, k) \<Rightarrow>
       if \<not> success a then host_exit (''!!!!! gadr failed'' @ [NL]) k
       else let a = a\<lparr>log_len := of_nat (length str), phys_addr := ucast (m_str x), direction := direct_write, op_code := opcode_trans\<rparr>
            in (case root_op (m_env x) (with_text x str) opcode_trans param (a, k) of
              None \<Rightarrow> None
            | Some (a, k) \<Rightarrow>
                if \<not> success a then host_exit (''!!!!! trans '' @ CHR 0x27 # str @ CHR 0x27 # '' failed'' @ [NL]) k
                else Some (Done (log_addr a), k)))"

abbreviation hex_addr :: "addr_t \<Rightarrow> string" where
  "hex_addr a \<equiv> show_nat 16 (unat a)"

definition ulinux_bricks :: "'w machine \<Rightarrow> (addr_t \<times> addr_t, 'w) step" where
  "ulinux_bricks x =
     and_then (ulinux_cmd x 4096 (''output:=control'' @ [NL]) []) (\<lambda>_.
     and_then (ulinux_boot x (''brick:=map_dummy'' @ NL # '' output:=out{'' @ [NL]) []) (\<lambda>first.
     and_then (ulinux_boot x (''brick:=adapt_meta'' @ NL # '' connect in:='' @ hex_addr first @ '':out'' @ NL # '' output:=out'' @ [NL]) []) (\<lambda>meta.
     and_then (ulinux_cmd x 0 ''output:=_root'' []) (\<lambda>_.
     and_then (ulinux_cmd x meta ''connect hook:=0:_root'' []) (\<lambda>_.
     and_then (ulinux_boot x (''brick:=fs_simple'' @ NL # '' connect strat:='' @ hex_addr 4096 @ '':control'' @ NL # '' output:=control{'' @ [NL]) ''_root'') (\<lambda>fs.
     and_then (ulinux_boot x (''brick:=strategy_ulinux'' @ NL # '' connect strat:='' @ hex_addr 4096 @ '':control'' @ NL #
                 '' connect fs:='' @ hex_addr fs @ '':control'' @ [NL]) []) (\<lambda>ulinux.
     and_then (ulinux_cmd x ulinux (''output:=posix'' @ [NL]) (show_int (sint ulinux))) (\<lambda>_ k.
       Some (Done (first, meta), k)))))))))"

text \<open>What \<^verbatim>\<open>main\<close> does when its sleep has ended.\<close>

definition ulinux_end :: "'w machine \<Rightarrow> addr_t \<Rightarrow> addr_t \<Rightarrow> (int, 'w) step" where
  "ulinux_end x first meta =
     and_then (ulinux_cmd x meta ''brick/=adapt_meta'' []) (\<lambda>_.
     and_then (ulinux_cmd x first ''brick/=map_dummy'' []) (\<lambda>_ k. Some (Done 0, k)))"

section \<open>The root strategy\<close>

lemma root_trans:
  assumes "direction a = direct_write"
  shows "root_op e text_at opcode_trans p (a, k) = map_option (\<lambda>(a, s, w). (a\<lparr>success := True\<rparr>, k\<lparr>k_ctl := s, k_world := w\<rparr>))
    (adapt_trans (strat_ops e) (getmem e) text_at p (a, k_ctl k, k_world k))"
proof -
  have "brick_table (control_brick e text_at) 0 opcode_trans = run_op (ctl_trans e (sub_op (adapt_of e text_at)))"
    by (rule table_entry) (simp add: control_brick_def control_impl_def)
  then show ?thesis using assms
    by (auto simp: root_op_def run_op_def ctl_trans_def adapt_of_def succeed_def split: option.splits)
qed

lemma root_gadr:
  "root_op e text_at opcode_gadr p (gadr_args, k) = Some (gadr_args\<lparr>log_addr := last_addr (k_ctl k), success := True\<rparr>,
     k\<lparr>k_ctl := (k_ctl k)\<lparr>last_addr := last_addr (k_ctl k) + 4096\<rparr>\<rparr>)"
proof -
  have "brick_table (control_brick e text_at) 0 opcode_gadr = run_op ctl_gadr"
    by (rule table_entry) (simp add: control_brick_def control_impl_def)
  then show ?thesis by (simp add: root_op_def run_op_def ctl_gadr_def gadr_args_def zero_args_def Let_def)
qed

section \<open>Formatted commands\<close>

lemma char_of_byte [simp]: "char_of (unat (of_char c :: u8)) = c"
proof -
  have b: "(of_char c :: u8) = of_nat (of_char c)" by (rule of_nat_of_char [symmetric])
  have "(of_char c :: nat) < 256" by simp
  then have "unat (of_char c :: u8) = of_char c" unfolding b by (simp add: unat_of_nat)
  then show ?thesis by simp
qed

lemma formatted:
  assumes "doprnt strs 0 fmt va = Some t" "length t < 511" "NUL \<notin> set t"
  obtains m where "vsnprintf strs 0 511 fmt va b = Some (int (length t), m)" "c_string 512 m = t"
proof
  let ?m = "\<lambda>i. if i < 0 \<or> 0 + min (length t) 511 < i then b i else if i = 0 + min (length t) 511 then 0 else of_char (t ! (i - 0))"
  show "vsnprintf strs 0 511 fmt va b = Some (int (length t), ?m)"
    using vsnprintf_stores [OF assms(1), of 511 0 b] assms(2) by simp
  have "map (\<lambda>i. char_of (unat (?m i))) [0..<length t] = t" using assms(2) by (intro nth_equalityI) simp_all
  moreover have "char_of (unat (?m (length t))) = NUL" using assms(2) by (simp add: char_of_def)
  moreover obtain d where "512 = length t + Suc d" using assms(2) less_iff_Suc_add [of "length t" 512] by auto
  then have "[0..<512] = [0..<length t] @ length t # [Suc (length t)..<512]"
    using upt_add_eq_append [of 0 "length t" "Suc d"] upt_conv_Cons [of "length t" 512] by simp
  ultimately show "c_string 512 ?m = t"
    unfolding c_string_def using assms(3) by (simp only: map_append list.map) (intro takeWhile_append_stop; auto)
qed

definition cmd_args :: "'w machine \<Rightarrow> addr_t \<Rightarrow> string \<Rightarrow> args" where
  "cmd_args x addr str = zero_args\<lparr>log_addr := addr, log_len := of_nat (length str), phys_addr := ucast (m_str x), direction := direct_write\<rparr>"

definition boot_args :: "'w machine \<Rightarrow> addr_t \<Rightarrow> string \<Rightarrow> args" where
  "boot_args x addr str = gadr_args\<lparr>log_addr := addr, success := False, log_len := of_nat (length str),
     phys_addr := ucast (m_str x), direction := direct_write, op_code := opcode_trans\<rparr>"

definition reserve :: "'w control \<Rightarrow> 'w control" where
  "reserve s = s\<lparr>last_addr := last_addr s + 4096\<rparr>"

definition written :: "'w kernel \<Rightarrow> 'w control \<times> 'w \<Rightarrow> 'w kernel" where
  "written k = (\<lambda>(s, w). k\<lparr>k_ctl := s, k_world := w\<rparr>)"

abbreviation root_trans_of :: "'w machine \<Rightarrow> string \<Rightarrow> string \<Rightarrow> args \<times> 'w control \<times> 'w \<Rightarrow> (args \<times> 'w control \<times> 'w) option" where
  "root_trans_of x t \<equiv> adapt_trans (strat_ops (m_env x)) (getmem (m_env x)) (with_text x t)"

lemma b_cmd_text:
  assumes "doprnt (m_strs x) 0 fmt va = Some t" "length t < 511" "NUL \<notin> set t"
  shows "b_cmd x addr fmt param va k =
    map_option (\<lambda>(a, y). (Done True, written k y)) (root_trans_of x t param (cmd_args x addr t, k_ctl k, k_world k))"
proof -
  obtain m where "vsnprintf (m_strs x) 0 511 fmt va (m_stack x) = Some (int (length t), m)" "c_string 512 m = t"
    using formatted [OF assms] by metis
  then show ?thesis using assms(2)
    by (simp add: b_cmd_def root_trans cmd_args_def option.map_comp o_def written_def case_prod_unfold)
qed

lemma b_boot_text:
  assumes "doprnt (m_strs x) 0 fmt va = Some t" "length t < 511" "NUL \<notin> set t"
  shows "b_boot x fmt param va k = map_option (\<lambda>(a, y). (Done (log_addr a), written k y))
    (root_trans_of x t param (boot_args x (last_addr (k_ctl k)) t, reserve (k_ctl k), k_world k))"
proof -
  obtain m where "vsnprintf (m_strs x) 0 511 fmt va (m_stack x) = Some (int (length t), m)" "c_string 512 m = t"
    using formatted [OF assms] by metis
  then show ?thesis using assms(2)
    by (simp add: b_boot_def root_gadr root_trans boot_args_def reserve_def written_def split: option.splits)
qed

section \<open>Messages\<close>

lemma kprintf_text:
  assumes "doprnt (m_strs x) 0 fmt va = Some t" "length t < 128"
  shows "kprintf x fmt va k = Some (Done (), k\<lparr>k_console := k_console k @ t\<rparr>)"
proof -
  have "vprintf (m_strs x) (m_line x) fmt va (k_console k) = Some (0, k_console k @ t)"
    using printf_reaches_console [OF assms(1)] assms(2) by force
  then show ?thesis by (simp add: kprintf_def)
qed

lemma kprintf_literal:
  assumes "CHR ''%'' \<notin> set t" "no_nul t" "length t < 128"
  shows "kprintf x t [] k = Some (Done (), k\<lparr>k_console := k_console k @ t\<rparr>)"
  using doprnt_literal [OF assms(1,2), of "m_strs x" 0 "[]" "[]"] assms(3) by (intro kprintf_text) (simp_all add: doprnt.simps)

lemma and_then_Done [simp]: "f k = Some (Done v, k') \<Longrightarrow> and_then f g k = g v k'"
  by (simp add: and_then_def)

lemma doprnt_i: "doprnt strs 0 (''%i'' @ fmt) (w # va) = map_option ((@) (show_int (sint w))) (doprnt strs 0 fmt va)"
proof -
  have "doprnt_conv strs 0 CHR ''i'' = doprnt_conv strs 0 CHR ''d''" by (simp add: doprnt_conv_def fun_eq_iff)
  moreover have "doprnt_directive (CHR ''i'' # fmt) va = Some (spec0, False, CHR ''i'' # fmt, va)" for va
    by (simp add: doprnt_directive_def doprnt_zero_def doprnt_width_def doprnt_prec_def doprnt_longlong_def isdigit_def)
  moreover have "doprnt_directive (CHR ''d'' # fmt) va = Some (spec0, False, CHR ''d'' # fmt, va)" for va
    by (simp add: doprnt_directive_def doprnt_zero_def doprnt_width_def doprnt_prec_def doprnt_longlong_def isdigit_def)
  ultimately have "doprnt strs 0 (''%i'' @ fmt) (w # va) = doprnt strs 0 (''%d'' @ fmt) (w # va)"
    by (subst (1 2) doprnt.simps) (simp split: option.split)
  also have "\<dots> = map_option ((@) (show_int (sint w))) (doprnt strs 0 fmt va)"
    using doprnt_field [of 0 strs "Dec w" 0 Right fmt va] by (simp add: width_text_def show_int_def)
  finally show ?thesis .
qed

lemma kernel_exit_text:
  "kernel_exit x (- 1) k = Some (Off, k\<lparr>k_console := k_console k @ ''FATAL: exit(-1) called, Athomux shutting down...'' @ [NL]\<rparr>)"
proof -
  let ?rest = "'') called, Athomux shutting down...'' @ [NL]"
  have "doprnt strs 0 ?rest va = Some ?rest" for strs va
    using doprnt_literal [of ?rest strs 0 "[]" va] by (simp add: doprnt.simps)
  then have "doprnt (m_strs x) 0 (''FATAL: exit('' @ ''%i'' @ ?rest) [word_of_int (- 1)] = Some (''FATAL: exit('' @ show_int (- 1) @ ?rest)"
    using doprnt_literal [of "''FATAL: exit(''" "m_strs x" 0 "''%i'' @ ?rest" "[word_of_int (- 1)]"]
    by (simp only: doprnt_i) simp
  moreover have "show_int (- 1) = ''-1''" by (simp add: show_int_def show_nat_def digits.simps)
  ultimately show ?thesis
    using kprintf_text [of x "''FATAL: exit('' @ ''%i'' @ ?rest" "[word_of_int (- 1)]" "''FATAL: exit('' @ show_int (- 1) @ ?rest" k]
    by (simp add: kernel_exit_def apm_shutdown_def)
qed

lemma vsnprintf_count:
  "doprnt strs 0 fmt va = Some t \<Longrightarrow> \<exists>m. vsnprintf strs 0 511 fmt va b = Some (int (min (length t) 511), m)"
  using vsnprintf_stores [of strs fmt va t 511 0 b] by simp

section \<open>Correctness\<close>



section \<open>Consistency\<close>

definition stays_reached :: "'w machine \<Rightarrow> ('a, 'w) step \<Rightarrow> bool" where
  "stays_reached x f \<longleftrightarrow> (\<forall>k r k'. reached (m_env x) (k_ctl k) (k_world k) \<longrightarrow> f k = Some (r, k') \<longrightarrow>
     reached (m_env x) (k_ctl k') (k_world k'))"

lemma root_op_reached:
  "root_op e t c p (a, k) = Some (a', k') \<Longrightarrow> reached e (k_ctl k) (k_world k) \<Longrightarrow> reached e (k_ctl k') (k_world k')"
  by (auto simp: root_op_def split: prod.splits option.splits intro: reached.operation)

lemma stays_reachedD: "stays_reached x f \<Longrightarrow> f k = Some (r, k') \<Longrightarrow> reached (m_env x) (k_ctl k) (k_world k) \<Longrightarrow> reached (m_env x) (k_ctl k') (k_world k')"
  unfolding stays_reached_def by blast

lemma and_then_reached [intro!]:
  assumes f: "stays_reached x f" and g: "\<And>v. stays_reached x (g v)"
  shows "stays_reached x (and_then f g)"
  unfolding stays_reached_def
proof (intro allI impI)
  fix k r k'
  assume k: "reached (m_env x) (k_ctl k) (k_world k)" and r: "and_then f g k = Some (r, k')"
  then obtain r1 k1 where 1: "f k = Some (r1, k1)" by (cases "f k") (auto simp: and_then_def)
  then have "reached (m_env x) (k_ctl k1) (k_world k1)" using stays_reachedD [OF f] k by blast
  then show "reached (m_env x) (k_ctl k') (k_world k')" using 1 r stays_reachedD [OF g] by (cases r1) (auto simp: and_then_def)
qed

lemma Done_reached [intro!]: "stays_reached x (\<lambda>k. Some (Done v, k))" "stays_reached x (\<lambda>k. Some (Done v, k\<lparr>k_task0 := t\<rparr>))"
  by (auto simp: stays_reached_def)

lemma kprintf_reached [intro!]: "stays_reached x (kprintf y fmt va)"
  by (auto simp: stays_reached_def kprintf_def)

lemma kernel_exit_reached [intro!]: "stays_reached x (kernel_exit y n)"
  unfolding kernel_exit_def by (intro and_then_reached kprintf_reached) (simp add: stays_reached_def apm_shutdown_def)

lemma message_reached: "stays_reached x (and_then (kprintf y fmt va) (\<lambda>_. kernel_exit x n))"
  by blast

lemma b_cmd_reached [intro!]: "stays_reached x (b_cmd x addr fmt param va)"
  unfolding stays_reached_def
proof (intro allI impI)
  fix k r k'
  assume k: "reached (m_env x) (k_ctl k) (k_world k)" and r: "b_cmd x addr fmt param va k = Some (r, k')"
  show "reached (m_env x) (k_ctl k') (k_world k')"
    using r k by (auto simp: b_cmd_def Let_def split: option.splits if_splits)
      (blast intro: stays_reachedD [OF message_reached] root_op_reached)+
qed

lemma b_boot_reached [intro!]: "stays_reached x (b_boot x fmt param va)"
  unfolding stays_reached_def
proof (intro allI impI)
  fix k r k'
  assume k: "reached (m_env x) (k_ctl k) (k_world k)" and r: "b_boot x fmt param va k = Some (r, k')"
  show "reached (m_env x) (k_ctl k') (k_world k')"
    using r k by (auto simp: b_boot_def Let_def split: option.splits if_splits)
      (blast intro: stays_reachedD [OF message_reached] root_op_reached)+
qed


lemma irq_outputs_reached [intro!]: "stays_reached x (irq_outputs x cpu is)"
proof (induction "is")
  case (Cons i "is")
  have "irq_outputs x cpu (i # is) = and_then (b_cmd x cpu (''output:=irq[%i]'' @ [NL]) [] [of_nat i]) (\<lambda>_. irq_outputs x cpu is)"
    by (rule ext) simp
  then show ?case using Cons by (auto simp del: irq_outputs.simps)
qed (auto simp: stays_reached_def)

lemma print_addrs_reached [intro!]: "stays_reached x (print_addrs x strategy cpu)"
  by (auto simp: stays_reached_def print_addrs_def split: option.splits if_splits)


text \<open>So \<^verbatim>\<open>cmain\<close> waits, or switches off, with a consistent control brick over the memory, segments and gates that the
  initialization routines have built, and returns only when the boot loader is not the expected one, with nothing
  done but the messages.\<close>

lemma cmain_consistent:
  assumes "env_ok (m_env x)" "control_loaded (m_env x)" "cmain x statics mand magic bi p = Some (r, p')"
    and "magic = MULTIBOOT_BOOTLOADER_MAGIC"
  shows "r \<noteq> Returned \<and> ctl_wf (m_env x) (k_ctl (pc_kernel p')) \<and> init_memory (bi_mmap bi) (pc_pages p) = Some (pc_pages p')
    \<and> init_GDT (bi_flags bi) (bi_apm bi) (bi_gdt bi) (pc_segs p) = Some (pc_segs p') \<and> init_IDT (bi_exc bi) (bi_idt bi) (pc_irqs p) = Some (pc_irqs p')"
proof -
  obtain s w w0 k1 k2 k3 r1 d m g q where st: "static_init (m_env x) statics mand w0 = Some (s, w)"
    and b: "boot_bricks x (k1\<lparr>k_ctl := s, k_world := w\<rparr>) = Some (r1, k2)"
    and p': "p' = p\<lparr>pc_screen := cls (pc_screen p), pc_serial := d, pc_pages := m, pc_segs := g, pc_irqs := q, pc_kernel := k2\<rparr>"
    and i: "init_memory (bi_mmap bi) (pc_pages p) = Some m" "init_GDT (bi_flags bi) (bi_apm bi) (bi_gdt bi) (pc_segs p) = Some g"
      "init_IDT (bi_exc bi) (bi_idt bi) (pc_irqs p) = Some q"
    and r: "r = (case r1 of Done _ \<Rightarrow> Waiting | Off \<Rightarrow> Switched_Off)"
    using assms(3,4) by (auto simp: cmain_def on_kernel_def Let_def split: bind_splits)
  have "stays_reached x (boot_bricks x)" unfolding boot_bricks_def cpu_outputs_def by blast
  from stays_reachedD [OF this b] reached.boot [OF st] have "reached (m_env x) (k_ctl k2) (k_world k2)" by simp
  then have "ctl_wf (m_env x) (k_ctl k2)" by (rule reached_wf [OF _ assms(1,2)])
  then show ?thesis using i p' r by (auto split: outcome.splits)
qed

lemma cmain_other_loader:
  assumes "cmain x statics mand magic bi p = Some (r, p')" "magic \<noteq> MULTIBOOT_BOOTLOADER_MAGIC"
  shows "r = Returned \<and> k_ctl (pc_kernel p') = k_ctl (pc_kernel p) \<and> pc_pages p' = pc_pages p \<and> pc_segs p' = pc_segs p \<and> pc_irqs p' = pc_irqs p"
  using assms by (auto simp: cmain_def on_kernel_def kprintf_def Let_def split: bind_splits)

text \<open>The user mode program keeps the control brick consistent as well, at its start and at its end.\<close>

lemma host_exit_reached: "stays_reached x (host_exit t)"
  by (auto simp: stays_reached_def host_exit_def)

lemma ulinux_cmd_reached [intro!]: "stays_reached x (ulinux_cmd x addr str param)"
  unfolding stays_reached_def by (auto simp: ulinux_cmd_def Let_def) (blast intro: root_op_reached)

lemma ulinux_boot_reached [intro!]: "stays_reached x (ulinux_boot x str param)"
  unfolding stays_reached_def
proof (intro allI impI)
  fix k r k'
  assume k: "reached (m_env x) (k_ctl k) (k_world k)" and r: "ulinux_boot x str param k = Some (r, k')"
  show "reached (m_env x) (k_ctl k') (k_world k')"
    using r k by (auto simp: ulinux_boot_def Let_def split: option.splits if_splits)
      (blast intro: stays_reachedD [OF host_exit_reached] root_op_reached)+
qed

lemma ulinux_consistent:
  assumes "env_ok (m_env x)" "control_loaded (m_env x)" "static_init (m_env x) statics mand w = Some (k_ctl k, k_world k)"
    and "and_then (ulinux_bricks x) (\<lambda>(first, meta). ulinux_end x first meta) k = Some (r, k')"
  shows "ctl_wf (m_env x) (k_ctl k')"
proof -
  have "stays_reached x (ulinux_bricks x)" "stays_reached x (ulinux_end x first meta)" for first meta
    unfolding ulinux_bricks_def ulinux_end_def by blast+
  then have "stays_reached x (and_then (ulinux_bricks x) (\<lambda>(first, meta). ulinux_end x first meta))" by (auto simp: split_beta)
  from stays_reachedD [OF this assms(4) reached.boot [OF assms(3)]] show ?thesis by (rule reached_wf [OF _ assms(1,2)])
qed

section \<open>The processor brick\<close>

lemma strat_instconn: "strat_ops e opcode_instconn = ctl_instconn e"
  by (simp add: strat_ops_def brick_table_eq control_impl_def)

abbreviation cmd_start :: "'w machine \<Rightarrow> addr_t \<Rightarrow> string \<Rightarrow> args" where
  "cmd_start x addr t \<equiv> (cmd_args x addr t)\<lparr>conn1 := Some \<lparr>conn_addr = addr, conn_index = 0, conn_name = []\<rparr>,
     conn2 := Some \<lparr>conn_addr = 0, conn_index = 0, conn_name = []\<rparr>\<rparr>"

lemma output_runs:
  assumes "good_script [(st, Inst_Conn opc c)]" "t = show_script [(st, Inst_Conn opc c)]"
    "doprnt (m_strs x) 0 fmt va = Some t" "length t < 511" "NUL \<notin> set t"
    "exec_command (strat_ops (m_env x)) (getmem (m_env x)) param (Inst_Conn opc c) (cmd_start x addr t, k_ctl k, k_world k) = Some (a, y)"
  shows "b_cmd x addr fmt param va k = Some (Done True, written k y)"
proof -
  let ?ops = "strat_ops (m_env x)" and ?room = "getmem (m_env x)" and ?y = "(k_ctl k, k_world k)"
  have run: "script_run ?ops ?room param [Inst_Conn opc c] (cmd_start x addr t, ?y) (adapt_loop ?ops ?room param t (cmd_start x addr t, ?y))"
    using script_runs [OF assms(1), of ?ops ?room param "cmd_start x addr t" ?y] unfolding assms(2) by (simp only: list.map snd_conv)
  have "(cmd_start x addr t)\<lparr>success := False\<rparr> = cmd_start x addr t" by (simp add: cmd_args_def zero_args_def)
  with run assms(6) have "\<exists>a. adapt_loop ?ops ?room param t (cmd_start x addr t, ?y) = Some (a, y)"
    by (cases y) (auto simp del: exec_command.simps split: if_splits)
  then have "\<exists>a. root_trans_of x t param (cmd_args x addr t, ?y) = Some (a, y)"
    by (simp add: adapt_trans_def cmd_args_def with_text_def)
  then show ?thesis using b_cmd_text [OF assms(3-5)] by (cases y) auto
qed

text \<open>An \<^verbatim>\<open>output\<close> line for an address without a brick does nothing.\<close>

lemma output_ignored:
  assumes "good_script [(st, Inst_Conn opc c)]" "find_brick_hash addr (k_ctl k) = Some None" "addr \<noteq> 0"
    "t = show_script [(st, Inst_Conn opc c)]" "doprnt (m_strs x) 0 fmt va = Some t" "length t < 511" "NUL \<notin> set t"
  shows "b_cmd x addr fmt param va k = Some (Done True, k)"
proof -
  have "\<exists>a. exec_command (strat_ops (m_env x)) (getmem (m_env x)) param (Inst_Conn opc c) (cmd_start x addr t, k_ctl k, k_world k)
      = Some (a, k_ctl k, k_world k)"
    using assms(2,3) by (simp add: call_op_def strat_instconn ctl_instconn_def with_brick_def cmd_args_def)
  then show ?thesis using output_runs [OF assms(1,4-7)] by (fastforce simp: written_def)
qed

definition cpu_style :: "bool \<Rightarrow> style" where "cpu_style b = \<lparr>indent = 0, index_shown = b, ending = []\<rparr>"

lemma irq_ignored:
  assumes "find_brick_hash cpu (k_ctl k) = Some None" "cpu \<noteq> 0" "i < 16"
  shows "b_cmd x cpu (''output:=irq[%i]'' @ [NL]) [] [of_nat i] k = Some (Done True, k)"
proof -
  let ?c = "\<lparr>conn_addr = 0, conn_index = int i, conn_name = ''irq''\<rparr>"
  have s: "sint (of_nat i :: u32) = int i" using assms(3) by (intro sint_of_nat_small) simp
  have t: "show_script [(cpu_style True, Inst_Conn CHR '':'' ?c)] = ''output:=irq['' @ show_int (int i) @ '']'' @ [NL]"
    by (simp add: show_script_def show_line_def show_ref_def show_conn_def cpu_style_def)
  have "doprnt (m_strs x) 0 ('']'' @ [NL]) [] = Some ('']'' @ [NL])" by (simp add: doprnt.simps)
  then have d: "doprnt (m_strs x) 0 (''output:=irq[%i]'' @ [NL]) [of_nat i] = Some (''output:=irq['' @ show_int (int i) @ '']'' @ [NL])"
    using doprnt_literal [of "''output:=irq[''" "m_strs x" 0 "''%i'' @ '']'' @ [NL]" "[of_nat i]"] doprnt_i [of "m_strs x" "'']'' @ [NL]" "of_nat i" "[]"]
    by (simp add: s)
  have "\<forall>i \<in> set [0..<16]. length (show_nat 10 i) \<le> 2" by (simp add: upt_rec show_nat_def digits.simps)
  then have l: "length (show_int (int i)) \<le> 2" using assms(3) by (simp add: show_int_def)
  have n: "NUL \<notin> set (show_int (int i))" by (auto dest!: show_int_chars simp: is_dec_def digit_val_def)
  show ?thesis
    by (rule output_ignored [where st = "cpu_style True" and opc = "CHR '':''" and c = ?c, OF _ assms(1,2) t [symmetric] d])
      (use l n assms(3) in \<open>simp_all add: cpu_style_def good_ref_def good_conn_def good_ending_def table_defs\<close>)
qed

lemma irqs_ignored:
  "find_brick_hash cpu (k_ctl k) = Some None \<Longrightarrow> cpu \<noteq> 0 \<Longrightarrow> \<forall>i \<in> set is. i < 16 \<Longrightarrow> irq_outputs x cpu is k = Some (Done (), k)"
  by (induction "is") (simp_all add: irq_ignored [simplified])

lemma int80_ignored:
  assumes "find_brick_hash cpu (k_ctl k) = Some None" "cpu \<noteq> 0"
  shows "b_cmd x cpu (''output:=int80'' @ [NL]) [] [16] k = Some (Done True, k)"
proof -
  let ?c = "\<lparr>conn_addr = 0, conn_index = 0, conn_name = ''int80''\<rparr>"
  have t: "show_script [(cpu_style False, Inst_Conn CHR '':'' ?c)] = ''output:=int80'' @ [NL]"
    by (simp add: show_script_def show_line_def show_ref_def cpu_style_def)
  have d: "doprnt (m_strs x) 0 (''output:=int80'' @ [NL]) [16] = Some (''output:=int80'' @ [NL])"
    using doprnt_literal [of "''output:=int80'' @ [NL]" "m_strs x" 0 "[]" "[16]"] by (simp add: doprnt.simps)
  show ?thesis
    by (rule output_ignored [where st = "cpu_style False" and opc = "CHR '':''" and c = ?c, OF _ assms(1,2) t [symmetric] d])
      (simp_all add: cpu_style_def good_ref_def good_conn_def good_ending_def table_defs)
qed

lemma cpu_brick_ignored:
  "b_boot x (''brick+=cpu_x86'' @ [NL]) [] [] k = Some (Done (last_addr (k_ctl k)), k\<lparr>k_ctl := reserve (k_ctl k)\<rparr>)"
proof -
  let ?t = "''brick+=cpu_x86'' @ [NL]"
  have d: "doprnt (m_strs x) 0 ?t [] = Some ?t" using doprnt_literal [of ?t "m_strs x" 0 "[]" "[]"] by (simp add: doprnt.simps)
  have key: "scan_multi strat_keywords ?t = (0, ''+=cpu_x86'' @ [NL])"
    using scan_key [of ?t "[]" strat_keywords 0 5] by (simp add: strat_keywords_def strncmp_eq_def skip_blanks_def)
  have nm: "scan_table_copy id_table (''cpu_x86'' @ [NL]) r 24 = (7, [NL], ''cpu_x86'')" for r
    by (simp add: scan_table_copy_def scan_body2_def table_defs skip_blanks_def)
  have sop: "scan_op (''+=cpu_x86'' @ [NL]) = Some (CHR ''+'', ''cpu_x86'' @ [NL])" by (simp add: scan_op_def table_defs)
  have last: "adapt_loop ops room p [] (a, s) = Some (a\<lparr>success := True\<rparr>, s)" for ops room p a s
    by (subst adapt_loop.simps) (simp add: scan_multi.simps strat_cmd_def)
  have "adapt_loop ops room p ?t (a, s) = Some (a\<lparr>success := True, args.name := ''cpu_x86''\<rparr>, s)" for ops room p a and s :: "'a control \<times> 'a"
    by (subst adapt_loop.simps) (simp only: key, simp add: strat_cmd_def brick_cmd_def sop [simplified] nm [simplified] last)
  then have "\<exists>a'. root_trans_of x ?t [] (boot_args x (last_addr (k_ctl k)) ?t, reserve (k_ctl k), k_world k) =
      Some (a', reserve (k_ctl k), k_world k) \<and> log_addr a' = last_addr (k_ctl k)"
    by (simp add: adapt_trans_def boot_args_def with_text_def)
  then show ?thesis using b_boot_text [OF d, of "[]" k] by (auto simp: written_def)
qed

lemma find_reserve [simp]: "find_brick_hash a (reserve s) = find_brick_hash a s"
  by (simp add: find_brick_hash_def reserve_def)


section \<open>The end of the kernel\<close>

lemma countdown_prints:
  "i < 100 \<Longrightarrow> countdown x i k = Some (Done (), k\<lparr>k_console := k_console k @ concat (map (\<lambda>j. show_nat 10 j @ ''...'') (rev [1..<Suc i]))\<rparr>)"
proof (induction i arbitrary: k)
  case (Suc i)
  have s: "sint (of_nat (Suc i) :: u32) = int (Suc i)" using Suc.prems by (intro sint_of_nat_small) simp
  have "doprnt (m_strs x) 0 ''...'' [] = Some ''...''" by (simp add: doprnt.simps)
  then have d: "doprnt (m_strs x) 0 ''%i...'' [of_nat (Suc i)] = Some (show_nat 10 (Suc i) @ ''...'')"
    using doprnt_i [of "m_strs x" "''...''" "of_nat (Suc i)" "[]"] unfolding s by (simp add: show_int_def nat_add_distrib)
  have "\<forall>j \<in> set [0..<100]. length (show_nat 10 j) \<le> 2" by (simp add: upt_rec show_nat_def digits.simps)
  then have "length (show_nat 10 (Suc i)) \<le> 2" using Suc.prems by simp
  then have "kprintf x ''%i...'' [of_nat (Suc i)] k = Some (Done (), k\<lparr>k_console := k_console k @ show_nat 10 (Suc i) @ ''...''\<rparr>)"
    by (intro kprintf_text d) simp
  then show ?case using Suc by simp
qed simp

lemma cmain_end_prints:
  assumes "k_shutdown k"
  shows "cmain_end x k = Some (Off, k\<lparr>k_console := k_console k @ ''Athomux shutting down in 5...4...3...2...1...'' @ [NL]\<rparr>)"
proof -
  have "concat (map (\<lambda>j. show_nat 10 j @ ''...'') (rev [1..<6])) = ''5...4...3...2...1...''"
    by (simp add: upt_conv_Cons show_nat_def digits.simps numeral_eq_Suc) (simp add: digit_char_def char_of_eq_iff take_bit_eq_mod)
  then show ?thesis
    using assms kprintf_literal [of "''Athomux shutting down in ''" x k] countdown_prints [of 5 x] kprintf_literal [of "[NL]" x]
    by (simp add: cmain_end_def apm_shutdown_def)
qed

section \<open>A sample start\<close>

text \<open>A machine that knows no brick type but the control brick.\<close>

lemma strat_instbrick: "strat_ops e opcode_instbrick = ctl_instbrick e"
  by (simp add: strat_ops_def brick_table_eq control_impl_def)

lemma unknown_brick:
  assumes "find_loader (m_env x) nm = None" "good_command st (New_Brick nm None)" "scan_single ''b_param'' 7 rest = None"
    "find_brick_hash (last_addr (k_ctl k)) (k_ctl k) = Some None" "last_addr (k_ctl k) \<noteq> 0"
    "doprnt (m_strs x) 0 fmt va = Some (show_command st (New_Brick nm None) @ rest)"
    "length (show_command st (New_Brick nm None) @ rest) < 511" "NUL \<notin> set (show_command st (New_Brick nm None) @ rest)"
  shows "b_boot x fmt param va k = Some (Done (last_addr (k_ctl k)), k\<lparr>k_ctl := reserve (k_ctl k)\<rparr>)"
proof -
  let ?t = "show_command st (New_Brick nm None) @ rest" and ?y = "(reserve (k_ctl k), k_world k)" and ?addr = "last_addr (k_ctl k)"
  let ?a = "(boot_args x ?addr ?t)\<lparr>conn1 := Some \<lparr>conn_addr = ?addr, conn_index = 0, conn_name = []\<rparr>, conn2 := Some \<lparr>conn_addr = 0, conn_index = 0, conn_name = []\<rparr>\<rparr>"
  have "\<exists>a. exec_command (strat_ops (m_env x)) (getmem (m_env x)) param (New_Brick nm None) (?a, ?y) = Some (a, ?y) \<and> \<not> success a \<and> log_addr a = ?addr"
    using assms(1,4,5) by (simp add: call_op_def strat_instbrick ctl_instbrick_def enter_brick_def new_brick_def boot_args_def)
  then obtain a where "exec_command (strat_ops (m_env x)) (getmem (m_env x)) param (New_Brick nm None) (?a, ?y) = Some (a, ?y)"
    "\<not> success a" "log_addr a = ?addr" by blast
  moreover from this have "adapt_loop (strat_ops (m_env x)) (getmem (m_env x)) param ?t (?a, ?y) = Some (a, ?y)"
    using brick_line [OF assms(2,3), of ?a "strat_ops (m_env x)" "getmem (m_env x)" param ?y]
    by (simp add: boot_args_def del: exec_command.simps show_command.simps)
  ultimately have "root_trans_of x ?t param (boot_args x ?addr ?t, ?y) = Some (a, ?y)" "log_addr a = ?addr"
    by (simp_all add: adapt_trans_def boot_args_def with_text_def del: show_command.simps)
  then show ?thesis using b_boot_text [OF assms(6-8)] by (simp add: written_def del: show_command.simps)
qed

definition sample_machine :: "unit machine" where
  "sample_machine = \<lparr>m_env = sample_env, m_strs = Map.empty, m_text = (\<lambda>_ _. []), m_str = 0x7000, m_stack = (\<lambda>_. 0), m_line = (\<lambda>_. NUL)\<rparr>"

definition sample_kernel :: "unit kernel" where
  "sample_kernel = \<lparr>k_console = [], k_ctl = sample_boot, k_world = (), k_shutdown = False, k_task0 = TASK_RUNNABLE\<rparr>"

definition alone :: "unit kernel \<Rightarrow> addr_t \<Rightarrow> bool" where
  "alone k n \<longleftrightarrow> brick_hash (k_ctl k) = [1 \<mapsto> 0] \<and> last_addr (k_ctl k) = n"

lemma alone_find: "alone k n \<Longrightarrow> brick_hash_fn a \<noteq> 1 \<Longrightarrow> find_brick_hash a (k_ctl k) = Some None"
  by (simp add: find_brick_hash_def alone_def find_node.simps)

lemma alone_kernel: "alone sample_kernel 8192"
  by (simp add: alone_def sample_kernel_def sample_boot_def)

lemma sample_first_output:
  "b_cmd sample_machine 4096 (''output:=control'' @ [NL]) [] [] sample_kernel = Some (Done True, sample_kernel)"
proof -
  let ?c = "\<lparr>conn_addr = 0, conn_index = 0, conn_name = ''control''\<rparr>" and ?t = "''output:=control'' @ [NL]"
  have t: "?t = show_script [(cpu_style False, Inst_Conn CHR '':'' ?c)]"
    by (simp add: show_script_def show_line_def show_ref_def cpu_style_def)
  have d: "doprnt (m_strs sample_machine) 0 ?t [] = Some ?t"
    using doprnt_literal [of ?t "m_strs sample_machine" 0 "[]" "[]"] by (simp add: doprnt.simps)
  have good: "good_script [(cpu_style False, Inst_Conn CHR '':'' ?c)]"
    by (simp add: cpu_style_def good_ref_def good_conn_def good_ending_def table_defs)
  have "\<exists>a. exec_command (strat_ops (m_env sample_machine)) (getmem (m_env sample_machine)) [] (Inst_Conn CHR '':'' ?c)
      (cmd_start sample_machine 4096 ?t, k_ctl sample_kernel, k_world sample_kernel) = Some (a, sample_boot, ())"
    by (simp add: call_op_def strat_instconn ctl_instconn_def with_brick_def cmd_args_def sample_machine_def sample_kernel_def
        find_brick_hash_def find_node_first hash_first sample_boot_sel inst_named_def find_load_conn_def choose_conn_def get_conn_def own_param_def
        inst_found_def alloc_param_def)
  then show ?thesis using output_runs [OF good t d] by (fastforce simp: written_def sample_kernel_def)
qed

lemma doprnt_llx: "doprnt strs 0 (''%llx'' @ fmt) (long_args w @ va) = map_option ((@) (hex_addr w)) (doprnt strs 0 fmt va)"
  using doprnt_field [of 0 strs "LongHex w" 0 Right fmt va] by (simp add: width_text_def)

definition reserved :: "unit kernel \<Rightarrow> unit kernel" where
  "reserved k = k\<lparr>k_ctl := reserve (k_ctl k)\<rparr>"

lemma alone_reserved: "alone k n \<Longrightarrow> alone (reserved k) (n + 4096)"
  by (simp add: alone_def reserved_def reserve_def)

lemma sample_unknown:
  assumes "alone k n" "brick_hash_fn n \<noteq> 1" "n \<noteq> 0" "nm \<noteq> ''control_simple''" "nm \<noteq> []" "length nm < 24" "\<forall>c \<in> set nm. id_table c"
    "doprnt Map.empty 0 fmt va = Some (''brick:='' @ nm @ NL # rest)" "scan_single ''b_param'' 7 rest = None"
    "length nm + length rest < 500" "NUL \<notin> set rest"
  shows "b_boot sample_machine fmt param va k = Some (Done n, reserved k)"
proof -
  have n: "NUL \<notin> set nm" using assms(7) by (auto simp: table_defs)
  have f: "find_loader (m_env sample_machine) nm = None" using assms(4) by (simp add: find_loader_def sample_machine_def)
  have l: "last_addr (k_ctl k) = n" using assms(1) by (simp add: alone_def)
  have d: "doprnt (m_strs sample_machine) 0 fmt va = Some (show_command (cpu_style True) (New_Brick nm None) @ rest)"
    using assms(8) by (simp add: sample_machine_def)
  have "b_boot sample_machine fmt param va k = Some (Done (last_addr (k_ctl k)), k\<lparr>k_ctl := reserve (k_ctl k)\<rparr>)"
    by (rule unknown_brick [where st = "cpu_style True", OF f _ assms(9) _ _ d])
      (use assms(3,5-7,10,11) n l alone_find [OF assms(1,2)] in simp_all)
  then show ?thesis using l by (simp add: reserved_def)
qed

lemma hash_pages: "brick_hash_fn 8192 = 2" "brick_hash_fn 12288 = 3" "brick_hash_fn 16384 = 4" "brick_hash_fn 20480 = 5" "brick_hash_fn 24576 = 6"
  by (simp_all add: brick_hash_fn_def REPRES_MAX_def BRICK_HASH_MAX_def)

lemma hex_pages: "show_nat 16 4096 = ''1000''" "show_nat 16 8192 = ''2000''" "show_nat 16 20480 = ''5000''" "show_nat 16 24576 = ''6000''" "show_nat 16 16384 = ''4000''"
  by (simp_all add: show_nat_def digits.simps)

lemmas scan_concrete = scan_single.simps skip_blanks_def strncmp_eq_def

lemma sample_map: "alone k 8192 \<Longrightarrow> b_boot sample_machine (''brick:=map_dummy'' @ NL # '' output:=out{'' @ [NL]) [] [] k = Some (Done 8192, reserved k)"
  by (rule sample_unknown [where nm = "''map_dummy''" and rest = "'' output:=out{'' @ [NL]"])
    (simp_all add: hash_pages table_defs scan_concrete doprnt_literal [where fmt = "[]", simplified] doprnt.simps)

lemma sample_meta: "alone k 12288 \<Longrightarrow>
  b_boot sample_machine (''brick:=adapt_meta'' @ NL # '' connect in:=%llx:out'' @ NL # '' output:=out'' @ [NL]) [] (long_args 8192) k = Some (Done 12288, reserved k)"
proof (rule sample_unknown [where nm = "''adapt_meta''" and rest = "'' connect in:=2000:out'' @ NL # '' output:=out'' @ [NL]"])
  let ?f = "''brick:=adapt_meta'' @ NL # '' connect in:=''" and ?e = "'':out'' @ NL # '' output:=out'' @ [NL]"
  have "doprnt Map.empty 0 ?e [] = Some ?e" by (simp add: doprnt.simps)
  then show "doprnt Map.empty 0 (''brick:=adapt_meta'' @ NL # '' connect in:=%llx:out'' @ NL # '' output:=out'' @ [NL]) (long_args 8192)
      = Some (''brick:='' @ ''adapt_meta'' @ NL # '' connect in:=2000:out'' @ NL # '' output:=out'' @ [NL])"
    using doprnt_literal [of ?f Map.empty 0 "''%llx'' @ ?e" "long_args 8192"] doprnt_llx [of Map.empty ?e 8192 "[]"] by (simp add: hex_pages)
qed (simp_all add: hash_pages table_defs scan_concrete)

lemma sample_fs: "alone k 20480 \<Longrightarrow>
  b_boot sample_machine (''brick:=fs_simple'' @ NL # '' connect strat:=%llx:control'' @ NL # '' output:=control{'' @ [NL]) ''_root'' (long_args 4096) k
    = Some (Done 20480, reserved k)"
proof (rule sample_unknown [where nm = "''fs_simple''" and rest = "'' connect strat:=1000:control'' @ NL # '' output:=control{'' @ [NL]"])
  let ?f = "''brick:=fs_simple'' @ NL # '' connect strat:=''" and ?e = "'':control'' @ NL # '' output:=control{'' @ [NL]"
  have "doprnt Map.empty 0 ?e [] = Some ?e" by (simp add: doprnt.simps)
  then show "doprnt Map.empty 0 (''brick:=fs_simple'' @ NL # '' connect strat:=%llx:control'' @ NL # '' output:=control{'' @ [NL]) (long_args 4096)
      = Some (''brick:='' @ ''fs_simple'' @ NL # '' connect strat:=1000:control'' @ NL # '' output:=control{'' @ [NL])"
    using doprnt_literal [of ?f Map.empty 0 "''%llx'' @ ?e" "long_args 4096"] doprnt_llx [of Map.empty ?e 4096 "[]"] by (simp add: hex_pages)
qed (simp_all add: hash_pages table_defs scan_concrete)

lemma sample_strategy: "alone k 24576 \<Longrightarrow>
  b_boot sample_machine (''brick:=strategy_native'' @ NL # '' connect strat:=%llx:control'' @ NL # '' connect fs:=%llx:control'') []
    (long_args 4096 @ long_args 20480 @ long_args 16384) k = Some (Done 24576, reserved k)"
proof (rule sample_unknown [where nm = "''strategy_native''" and rest = "'' connect strat:=1000:control'' @ NL # '' connect fs:=5000:control''"])
  let ?f = "''brick:=strategy_native'' @ NL # '' connect strat:=''" and ?m = "'':control'' @ NL # '' connect fs:=''" and ?e = "'':control''"
  have e: "doprnt Map.empty 0 ?e va = Some ?e" for va by (simp add: doprnt.simps)
  show "doprnt Map.empty 0 (''brick:=strategy_native'' @ NL # '' connect strat:=%llx:control'' @ NL # '' connect fs:=%llx:control'')
        (long_args 4096 @ long_args 20480 @ long_args 16384)
      = Some (''brick:='' @ ''strategy_native'' @ NL # '' connect strat:=1000:control'' @ NL # '' connect fs:=5000:control'')"
    using doprnt_literal [of ?f Map.empty 0 "''%llx'' @ ?m @ ''%llx'' @ ?e" "long_args 4096 @ long_args 20480 @ long_args 16384"]
      doprnt_llx [of Map.empty "?m @ ''%llx'' @ ?e" 4096 "long_args 20480 @ long_args 16384"]
      doprnt_literal [of ?m Map.empty 0 "''%llx'' @ ?e" "long_args 20480 @ long_args 16384"]
      doprnt_llx [of Map.empty ?e 20480 "long_args 16384"] e [of "long_args 16384"] by (simp add: hex_pages)
qed (simp_all add: hash_pages table_defs scan_concrete)

lemma sample_addrs: "\<exists>t. print_addrs sample_machine 24576 16384 k = Some (Done t, k)"
proof -
  have "doprnt Map.empty 0 ''%llx %llx'' (long_args 24576 @ long_args 16384) = Some ''6000 4000''"
    using doprnt_llx [of Map.empty "'' '' @ ''%llx''" 24576 "long_args 16384"] doprnt_llx [of Map.empty "[]" 16384 "[]"]
      doprnt_literal [of "'' ''" Map.empty 0 "''%llx''" "long_args 16384"] by (simp add: hex_pages doprnt.simps [of _ _ "[]"])
  then have "\<exists>m. vsprintf (m_strs sample_machine) 0 ''%llx %llx'' (long_args 24576 @ long_args 16384) (m_stack sample_machine) = Some (9, m)"
    by (simp add: vsprintf_def sample_machine_def savechar_def SPRINTF_UNLIMITED_def)
  then show ?thesis by (auto simp: print_addrs_def)
qed

lemma named_ignored:
  assumes "alone k n" "brick_hash_fn addr \<noteq> 1" "addr \<noteq> 0" "nm \<noteq> []" "length nm < 8" "\<forall>c \<in> set nm. id_table c"
    "doprnt (m_strs x) 0 fmt [] = Some (''output:='' @ nm @ [NL])"
  shows "b_cmd x addr fmt param [] k = Some (Done True, k)"
proof -
  have "NUL \<notin> set nm" using assms(6) by (auto simp: table_defs)
  then show ?thesis
    using assms alone_find [OF assms(1,2)]
    by (intro output_ignored [where st = "cpu_style False" and opc = "CHR '':''" and c = "\<lparr>conn_addr = 0, conn_index = 0, conn_name = nm\<rparr>", OF _ _ _ _ assms(7)])
      (simp_all add: cpu_style_def good_ref_def good_conn_def good_ending_def table_defs show_script_def show_line_def show_ref_def)
qed

lemma loop_end_text: "adapt_loop ops room p [] (a, s) = Some (a\<lparr>success := True\<rparr>, s)"
  by (subst adapt_loop.simps) (simp add: scan_multi.simps strat_cmd_def)

lemma literal_cmd: "CHR ''%'' \<notin> set t \<Longrightarrow> no_nul t \<Longrightarrow> doprnt strs 0 t va = Some t"
  using doprnt_literal [of t strs 0 "[]" va] by (simp add: doprnt.simps)

text \<open>The entry \<^verbatim>\<open>_root\<close> of the main directory is all that the start adds here.\<close>

definition rooted :: "unit kernel \<Rightarrow> unit kernel" where
  "rooted k = k\<lparr>k_ctl := (k_ctl k)\<lparr>main_name := (main_name (k_ctl k))(1 := ''_root'')\<rparr>\<rparr>"

lemma sample_root:
  assumes "main_name (k_ctl k) = (\<lambda>_. [])(0 := ''control'')"
  shows "b_cmd sample_machine 0 ''output:=_root'' [] [] k = Some (Done True, rooted k)"
proof -
  let ?t = "''output:=_root''"
  have key: "scan_multi strat_keywords ?t = (2, '':=_root'')"
    using scan_key [of ?t "[]" strat_keywords 2 6] by (simp add: strat_keywords_def strncmp_eq_def skip_blanks_def)
  have sop: "scan_op '':=_root'' = Some (CHR '':'', ''_root'')" by (simp add: scan_op_def table_defs)
  have sc: "scan_connstr ''_root'' c = (True, [], c\<lparr>conn_name := ''_root'', conn_index := 0\<rparr>)" for c
    by (simp add: scan_connstr_def scan_table_copy_def scan_body2_def skip_blanks_def table_defs sizeof_sname_def Let_def)
  have dir: "find (\<lambda>i. main_name (k_ctl k) i = []) [0..<MAINDIR_MAX] = Some 1"
    using assms by (simp add: MAINDIR_MAX_def upt_rec)
  have "\<exists>a. adapt_loop (strat_ops sample_env) (getmem sample_env) [] ?t (cmd_start sample_machine 0 ?t, k_ctl k, k_world k)
      = Some (a, (k_ctl k)\<lparr>main_name := (main_name (k_ctl k))(1 := ''_root'')\<rparr>, k_world k)"
    by (subst adapt_loop.simps)
      (simp only: key, simp add: strat_cmd_def conn_cmd_def sop sc call_op_def strat_instconn ctl_instconn_def new_main_dir_def dir test_skip_def loop_end_text cmd_args_def)
  then have "\<exists>a. root_trans_of sample_machine ?t [] (cmd_args sample_machine 0 ?t, k_ctl k, k_world k)
      = Some (a, (k_ctl k)\<lparr>main_name := (main_name (k_ctl k))(1 := ''_root'')\<rparr>, k_world k)"
    by (simp add: adapt_trans_def cmd_args_def with_text_def sample_machine_def)
  then show ?thesis
    using b_cmd_text [of sample_machine ?t "[]" ?t, OF literal_cmd] by (auto simp: written_def rooted_def)
qed

lemma strat_connect: "strat_ops e opcode_connect = ctl_connect e"
  by (simp add: strat_ops_def brick_table_eq control_impl_def)

lemma sample_hook_cmd:
  assumes "alone k n"
  shows "b_cmd sample_machine 12288 ''connect hook:=0:_root'' [] [] k = Some (Done True, k)"
proof -
  let ?t = "''connect hook:=0:_root''"
  have key: "scan_multi strat_keywords ?t = (3, ''hook:=0:_root'')"
    using scan_key [of ?t "[]" strat_keywords 3 7] by (simp add: strat_keywords_def strncmp_eq_def skip_blanks_def)
  have sop: "scan_op '':=0:_root'' = Some (CHR '':'', ''0:_root'')" by (simp add: scan_op_def table_defs)
  have sc: "scan_connstr ''hook:=0:_root'' c = (True, '':=0:_root'', c\<lparr>conn_name := ''hook'', conn_index := 0\<rparr>)"
    "scan_connstr ''_root'' c = (True, [], c\<lparr>conn_name := ''_root'', conn_index := 0\<rparr>)" for c
    by (simp_all add: scan_connstr_def scan_table_copy_def scan_body2_def skip_blanks_def table_defs sizeof_sname_def Let_def)
  have sa: "scan_connstraddr ''0:_root'' c = (True, [], c\<lparr>conn_addr := 0, conn_name := ''_root'', conn_index := 0\<rparr>)" for c
    using scan_connstraddr_prefix [of 0 "''_root''" c] sc by (simp add: show_nat_def digits.simps)
  have f: "find_brick_hash 12288 (k_ctl k) = Some None" using alone_find [OF assms] hash_pages by simp
  have "\<exists>a. adapt_loop (strat_ops sample_env) (getmem sample_env) [] ?t (cmd_start sample_machine 12288 ?t, k_ctl k, k_world k) = Some (a, k_ctl k, k_world k)"
    by (subst adapt_loop.simps)
      (simp only: key, simp add: strat_cmd_def connect_cmd_def sop sc connect_loop.simps sa call_op_def strat_connect ctl_connect_def with_conn_def with_brick_def f cmd_args_def)
  then have "\<exists>a. root_trans_of sample_machine ?t [] (cmd_args sample_machine 12288 ?t, k_ctl k, k_world k) = Some (a, k_ctl k, k_world k)"
    by (simp add: adapt_trans_def cmd_args_def with_text_def sample_machine_def)
  then show ?thesis
    using b_cmd_text [of sample_machine ?t "[]" ?t, OF literal_cmd] by (auto simp: written_def)
qed

definition sample_started :: "unit kernel" where
  "sample_started = reserved (reserved (reserved (rooted (reserved (reserved sample_kernel)))))"

lemma sample_cpu:
  assumes "alone k 16384"
  shows "cpu_outputs sample_machine k = Some (Done 16384, reserved k)"
proof -
  have "alone (reserved k) 20480" using alone_reserved [OF assms] by simp
  then have f: "find_brick_hash 16384 (k_ctl (reserved k)) = Some None" using alone_find hash_pages by simp
  have l: "last_addr (k_ctl k) = 16384" using assms by (simp add: alone_def)
  have "irq_outputs sample_machine 16384 [0..<16] (reserved k) = Some (Done (), reserved k)" by (rule irqs_ignored [OF f]) simp_all
  then show ?thesis
    using int80_ignored [OF f] cpu_brick_ignored [of sample_machine k] by (simp add: cpu_outputs_def l reserved_def)
qed

lemma sample_boots: "boot_bricks sample_machine sample_kernel = Some (Done (), sample_started\<lparr>k_task0 := TASK_WAITING\<rparr>)"
proof -
  let ?k2 = "reserved (reserved sample_kernel)"
  let ?k3 = "rooted ?k2"
  have 0: "alone sample_kernel 8192" by (rule alone_kernel)
  have 1: "alone (reserved sample_kernel) 12288" using alone_reserved [OF 0] by simp
  have 2: "alone ?k2 16384" using alone_reserved [OF 1] by simp
  then have 3: "alone ?k3 16384" by (simp add: alone_def rooted_def)
  have 4: "alone (reserved ?k3) 20480" using alone_reserved [OF 3] by simp
  have 5: "alone (reserved (reserved ?k3)) 24576" using alone_reserved [OF 4] by simp
  have 6: "alone sample_started 28672" using alone_reserved [OF 5] by (simp add: sample_started_def)
  have r: "b_cmd sample_machine 0 ''output:=_root'' [] [] ?k2 = Some (Done True, ?k3)"
    by (rule sample_root) (simp add: reserved_def reserve_def sample_kernel_def sample_boot_sel)
  obtain t where t: "print_addrs sample_machine 24576 16384 sample_started = Some (Done t, sample_started)" using sample_addrs by blast
  have o: "b_cmd sample_machine 24576 (''output:='' @ nm @ [NL]) t [] sample_started = Some (Done True, sample_started)"
    if "nm \<in> {''posix'', ''dummy''}" for nm
    using that hash_pages by (intro named_ignored [OF 6, where nm = nm] literal_cmd) (auto simp: table_defs)
  have s: "reserved (reserved (reserved ?k3)) = sample_started" by (simp add: sample_started_def)
  note steps = sample_first_output sample_map [OF 0] sample_meta [OF 1] r sample_hook_cmd [OF 3] sample_cpu [OF 3] sample_fs [OF 4]
    sample_strategy [OF 5, unfolded s] t o [of "''posix''", simplified] o [of "''dummy''", simplified]
  show ?thesis unfolding boot_bricks_def using steps by simp
qed





end
