(* ===== verification/Map_Dummy.thy ===== *)
theory Map_Dummy
  imports Nest_Ops "HOL-Library.Monad_Syntax"
begin

text \<open>
  The brick \<^verbatim>\<open>map_dummy.ath\<close>, the store that the system boots first: 1024 blocks of one transfer unit, each reached
  through a permutation, so that \<^verbatim>\<open>$move\<close> moves blocks by permuting numbers.

  The configuration is that of the file: \<^verbatim>\<open>UNIFY\<close> without \<^verbatim>\<open>PERSISTENT\<close>, \<^verbatim>\<open>DIRECT_MEM\<close>, \<^verbatim>\<open>MEM_INIT\<close> and \<^verbatim>\<open>DEBUG\<close>.  The
  state holds the memory that requests name by a physical address, and the results of \<^verbatim>\<open>malloc\<close> as a list.
  \<open>None\<close> is the end of the program: \<^verbatim>\<open>@.fatal\<close>, or an access outside an array.  \<^verbatim>\<open>@.check\<close> returns; messages are
  not state.  The usage counters count without bound; statistics at exit are not modelled.

  Shown: every operation, default ones included, keeps the arrays in order; \<^verbatim>\<open>$move\<close> moves the blocks a client sees,
  except upwards by more than the length of the range, where two blocks become one; reading returns what was written.
\<close>

section \<open>State\<close>

definition MAX_ELEMS :: nat where "MAX_ELEMS = 1024"
definition BLOCK :: nat where "BLOCK = 4096"

record map_state =
  md_used :: "bool list"
  md_permut :: "nat list"
  md_table :: "u8 list list"
  md_max :: int
  md_paddr :: "paddr_t list"
  md_forwrite :: "bool list"
  md_count :: "int list"
  md_mem :: "nat \<Rightarrow> u8"
  md_mallocs :: "paddr_t list"

type_synonym map_op = "args \<times> map_state \<Rightarrow> (args \<times> map_state) option"

definition md_init :: "(nat \<Rightarrow> u8) \<Rightarrow> paddr_t list \<Rightarrow> map_state" where
  "md_init m ms = \<lparr>md_used = replicate MAX_ELEMS False, md_permut = [0..<MAX_ELEMS], md_table = replicate MAX_ELEMS (replicate BLOCK 0),
     md_max = 0, md_paddr = replicate MAX_ELEMS 0, md_forwrite = replicate MAX_ELEMS False, md_count = replicate MAX_ELEMS 0,
     md_mem = m, md_mallocs = ms\<rparr>"

text \<open>\<^verbatim>\<open>int index = @log_addr / DEFAULT_TRANSFER\<close> with the check of its range.\<close>

definition int_blocks :: "u64 \<Rightarrow> int" where
  "int_blocks a = sint (ucast (a div of_nat BLOCK) :: u32)"

definition md_index :: "addr_t \<Rightarrow> nat option" where
  "md_index addr = (let i = int_blocks addr in if i < 0 \<or> i \<ge> int MAX_ELEMS then None else Some (nat i))"

section \<open>Transfers\<close>

definition store_block :: "nat \<Rightarrow> u8 list \<Rightarrow> (nat \<Rightarrow> u8) \<Rightarrow> nat \<Rightarrow> u8" where
  "store_block p b m = (\<lambda>i. if p \<le> i \<and> i < p + length b then b ! (i - p) else m i)"

definition load_block :: "nat \<Rightarrow> (nat \<Rightarrow> u8) \<Rightarrow> u8 list" where
  "load_block p m = map (\<lambda>i. m (p + i)) [0..<BLOCK]"

fun read_blocks :: "nat \<Rightarrow> nat \<Rightarrow> nat \<Rightarrow> map_state \<Rightarrow> map_state option" where
  "read_blocks 0 p i s = Some s"
| "read_blocks (Suc n) p i s =
     (if i \<ge> MAX_ELEMS then None
      else read_blocks n (p + BLOCK) (i + 1) (s\<lparr>md_mem := store_block p (md_table s ! (md_permut s ! i)) (md_mem s)\<rparr>))"

fun write_blocks :: "nat \<Rightarrow> nat \<Rightarrow> nat \<Rightarrow> map_state \<Rightarrow> map_state option" where
  "write_blocks 0 p i s = Some s"
| "write_blocks (Suc n) p i s =
     (if i \<ge> MAX_ELEMS then None
      else write_blocks n (p + BLOCK) (i + 1) (s\<lparr>md_table := (md_table s)[md_permut s ! i := load_block p (md_mem s)]\<rparr>))"

definition do_trans :: "nat \<Rightarrow> direction_t \<Rightarrow> map_op" where
  "do_trans i dir = (\<lambda>(a, s). do {
     let len = unat (ucast (log_len a) :: u32);
     let n = (if dir = direct_stop then 0 else len div BLOCK);
     let p = unat (phys_addr a);
     if phys_addr a = 0 then None
     else do {
       s \<leftarrow> (if dir = direct_read then read_blocks n p i s else if dir = direct_write then write_blocks n p i s else Some s);
       if len - n * BLOCK > 0 then None else Some (a\<lparr>phys_len := of_nat (n * BLOCK)\<rparr>, s) } })"

definition md_trans :: map_op where
  "md_trans = (\<lambda>(a, s). do {
     i \<leftarrow> md_index (log_addr a);
     if \<not> md_used s ! i then Some (a, s)
     else do { (a, s) \<leftarrow> do_trans i (direction a) (a, s); Some (a\<lparr>success := True\<rparr>, s) } })"

definition md_wait :: map_op where
  "md_wait = (\<lambda>(a, s). Some (a\<lparr>success := True\<rparr>, s))"

section \<open>Reservations\<close>

definition md_malloc :: "map_state \<Rightarrow> paddr_t \<times> map_state" where
  "md_malloc s = (case md_mallocs s of [] \<Rightarrow> (0, s) | p # ps \<Rightarrow> (p, s\<lparr>md_mallocs := ps\<rparr>))"

definition alloc_block :: "nat \<Rightarrow> map_state \<Rightarrow> map_state" where
  "alloc_block i s = (if md_paddr s ! i = 0
     then (case md_malloc s of (p, s) \<Rightarrow> s\<lparr>md_paddr := (md_paddr s)[i := p]\<rparr>) else s)"

definition md_get :: map_op where
  "md_get = (\<lambda>(a, s).
     if log_len a \<noteq> of_nat BLOCK then None
     else do {
       i \<leftarrow> md_index (log_addr a);
       if \<not> md_used s ! i then Some (a, s)
       else do {
         let old = md_count s ! i;
         let s = s\<lparr>md_count := (md_count s)[i := old + 1]\<rparr>;
         let s = (if old = 0 then alloc_block i s else s);
         let s = s\<lparr>md_forwrite := (md_forwrite s)[i := (md_forwrite s ! i \<or> forwrite a)]\<rparr>;
         let a = a\<lparr>phys_addr := md_paddr s ! i, log_len := of_nat BLOCK, phys_len := of_nat BLOCK, version := vers_undef\<rparr>;
         (a, s) \<leftarrow> (if op_code a = opcode_gettranswait
           then map_option (\<lambda>(a, s). (a\<lparr>version := vers_newest\<rparr>, s)) (do_trans i direct_read (a, s)) else Some (a, s));
         Some (a\<lparr>success := True\<rparr>, s) } })"

definition md_put :: map_op where
  "md_put = (\<lambda>(a, s).
     if log_len a \<noteq> of_nat BLOCK then None
     else do {
       i \<leftarrow> md_index (log_addr a);
       let a = a\<lparr>direction := direct_write\<rparr>;
       (a, s) \<leftarrow> (if op_code a = opcode_transwaitput \<or> prio a \<noteq> prio_none then do_trans i direct_write (a, s) else Some (a, s));
       let c = md_count s ! i - 1;
       let s = s\<lparr>md_count := (md_count s)[i := c]\<rparr>;
       if c < 0 then Some (a, s)
       else Some (a\<lparr>success := True\<rparr>, if c \<le> 0 then s\<lparr>md_forwrite := (md_forwrite s)[i := False]\<rparr> else s) })"

section \<open>Creation and deletion\<close>

fun create_blocks :: "bool \<Rightarrow> nat \<Rightarrow> nat \<Rightarrow> map_state \<Rightarrow> map_state option" where
  "create_blocks clr 0 i s = Some s"
| "create_blocks clr (Suc n) i s =
     (if i \<ge> MAX_ELEMS then None
      else let s = (if clr then s\<lparr>md_table := (md_table s)[md_permut s ! i := replicate BLOCK 0]\<rparr> else s)
           in create_blocks clr n (i + 1) (s\<lparr>md_used := (md_used s)[i := True]\<rparr>))"

fun delete_blocks :: "nat \<Rightarrow> nat \<Rightarrow> map_state \<Rightarrow> map_state option" where
  "delete_blocks 0 i s = Some s"
| "delete_blocks (Suc n) i s =
     (if i \<ge> MAX_ELEMS then None else delete_blocks n (i + 1) (s\<lparr>md_used := (md_used s)[i := False]\<rparr>))"

definition md_create :: map_op where
  "md_create = (\<lambda>(a, s). do {
     i \<leftarrow> md_index (log_addr a);
     let len = unat (ucast (log_len a) :: u32);
     s \<leftarrow> create_blocks (clear a) (len div BLOCK) i s;
     if len mod BLOCK > 0 then None
     else Some (a\<lparr>success := True\<rparr>, s\<lparr>md_max := max (md_max s) (int (i + len div BLOCK))\<rparr>) })"

definition md_delete :: map_op where
  "md_delete = (\<lambda>(a, s). do {
     i \<leftarrow> md_index (log_addr a);
     let len = unat (ucast (log_len a) :: u32);
     s \<leftarrow> delete_blocks (len div BLOCK) i s;
     if len mod BLOCK > 0 then None else Some (a\<lparr>success := True\<rparr>, s) })"

section \<open>Moving\<close>

text \<open>\<open>blit p ys xs\<close>: the elements \<open>ys\<close> copied into the array \<open>xs\<close> at \<open>p\<close>; \<open>excerpt p n xs\<close>: \<open>n\<close> elements from \<open>p\<close> on.\<close>

definition blit :: "nat \<Rightarrow> 'a list \<Rightarrow> 'a list \<Rightarrow> 'a list" where
  "blit p ys xs = take p xs @ ys @ drop (p + length ys) xs"

definition excerpt :: "nat \<Rightarrow> nat \<Rightarrow> 'a list \<Rightarrow> 'a list" where
  "excerpt p n xs = take n (drop p xs)"

definition MOVE1 :: "nat \<Rightarrow> nat \<Rightarrow> nat \<Rightarrow> nat \<Rightarrow> 'a list \<Rightarrow> 'a list" where
  "MOVE1 source len offs victims xs =
     (let tmp = excerpt (source + len) victims xs;
          xs = blit (source + offs) (excerpt source len xs) xs
      in blit source tmp xs)"

definition MOVE2 :: "nat \<Rightarrow> nat \<Rightarrow> nat \<Rightarrow> nat \<Rightarrow> 'a list \<Rightarrow> 'a list" where
  "MOVE2 source len offs victims xs =
     (let tmp = excerpt (source - offs) victims xs;
          xs = blit (source - offs) (excerpt source len xs) xs
      in blit (source + len - victims) tmp xs)"

definition move_up :: "nat \<Rightarrow> nat \<Rightarrow> nat \<Rightarrow> map_state \<Rightarrow> map_state" where
  "move_up source len offs s =
     (let victims = min offs len;
          used = blit (source + offs) (excerpt source len (md_used s)) (md_used s)
      in s\<lparr>md_max := max (md_max s) (int (source + len + offs)),
           md_used := blit source (replicate victims False) used,
           md_permut := MOVE1 source len offs victims (md_permut s),
           md_paddr := MOVE1 source len offs victims (md_paddr s),
           md_forwrite := MOVE1 source len offs victims (md_forwrite s),
           md_count := MOVE1 source len offs victims (md_count s)\<rparr>)"

definition move_down :: "nat \<Rightarrow> nat \<Rightarrow> nat \<Rightarrow> map_state \<Rightarrow> map_state" where
  "move_down source len offs s =
     (let victims = min offs len;
          used = blit (source - offs) (excerpt source len (md_used s)) (md_used s)
      in s\<lparr>md_used := blit (source + len - victims) (replicate victims False) used,
           md_permut := MOVE2 source len offs victims (md_permut s),
           md_paddr := MOVE2 source len offs victims (md_paddr s),
           md_forwrite := MOVE2 source len offs victims (md_forwrite s),
           md_count := MOVE2 source len offs victims (md_count s)\<rparr>)"

text \<open>The numbers are \<^verbatim>\<open>int\<close>s; a negative length is the size of no array, and moving down checks no lower bound.\<close>

definition md_move :: map_op where
  "md_move = (\<lambda>(a, s).
     let off = sint (offset a); len = int_blocks (log_len a); source = int_blocks (log_addr a) in
     if sint (offset_max a) < off \<or> log_len a mod of_nat BLOCK \<noteq> 0 then None
     else if off > 0 then
       (let offs = int_blocks (offset a); top = source + len + offs in
        if source < 0 \<or> top \<ge> int MAX_ELEMS \<or> len < 0 \<or> offs < 0 then None
        else Some (a\<lparr>success := True\<rparr>, move_up (nat source) (nat len) (nat offs) s))
     else if off < 0 then
       (let offs = int_blocks (- offset a) in
        if source < 0 \<or> source + len \<ge> int MAX_ELEMS \<or> len < 0 \<or> offs < 0 \<or> source - offs < 0 then None
        else Some (a\<lparr>success := True\<rparr>, move_down (nat source) (nat len) (nat offs) s))
     else Some (a\<lparr>success := True\<rparr>, s))"

section \<open>The table of the output\<close>

text \<open>As operations of a table they act on the state of a running program, \<open>None\<close> when it has ended.\<close>

definition md_run :: "map_op \<Rightarrow> map_state option operation" where
  "md_run f p = (\<lambda>(a, st). case st of
     None \<Rightarrow> (a, None)
   | Some s \<Rightarrow> (case f (a, s) of None \<Rightarrow> (a, None) | Some (a, s) \<Rightarrow> (a, Some s)))"

definition map_impl :: "map_state option brick_impl" where
  "map_impl sect c = map_option md_run (case c of
     opcode_trans \<Rightarrow> Some md_trans | opcode_transwait \<Rightarrow> Some md_trans
   | opcode_wait \<Rightarrow> Some md_wait
   | opcode_get \<Rightarrow> Some md_get | opcode_gettranswait \<Rightarrow> Some md_get
   | opcode_put \<Rightarrow> Some md_put | opcode_transwaitput \<Rightarrow> Some md_put | opcode_putwait \<Rightarrow> Some md_put
   | opcode_create \<Rightarrow> Some md_create | opcode_delete \<Rightarrow> Some md_delete
   | opcode_move \<Rightarrow> Some md_move
   | _ \<Rightarrow> None)"

section \<open>Arrays\<close>

lemma length_blit [simp]: "p + length ys \<le> length xs \<Longrightarrow> length (blit p ys xs) = length xs"
  by (simp add: blit_def)

lemma nth_blit:
  "p + length ys \<le> length xs \<Longrightarrow> i < length xs \<Longrightarrow> blit p ys xs ! i = (if p \<le> i \<and> i < p + length ys then ys ! (i - p) else xs ! i)"
  by (auto simp: blit_def nth_append min_def)

lemma length_excerpt [simp]: "p + n \<le> length xs \<Longrightarrow> length (excerpt p n xs) = n"
  by (simp add: excerpt_def)

lemma nth_excerpt [simp]: "p + n \<le> length xs \<Longrightarrow> i < n \<Longrightarrow> excerpt p n xs ! i = xs ! (p + i)"
  by (simp add: excerpt_def)

lemma set_blit: "set ys \<subseteq> A \<Longrightarrow> set xs \<subseteq> A \<Longrightarrow> set (blit p ys xs) \<subseteq> A"
  by (auto simp: blit_def dest: in_set_takeD in_set_dropD)

lemma set_excerpt: "set xs \<subseteq> A \<Longrightarrow> set (excerpt p n xs) \<subseteq> A"
  by (auto simp: excerpt_def dest: in_set_takeD in_set_dropD)

lemma set_MOVE: "set (MOVE1 source len offs n xs) \<subseteq> set xs" "set (MOVE2 source len offs n xs) \<subseteq> set xs"
  by (simp_all add: MOVE1_def MOVE2_def Let_def set_blit set_excerpt)

text \<open>Where the elements come from.  Moving down exchanges blocks for every distance; moving up does so only as long as the
  distance is not greater than the length.\<close>

definition up_from :: "nat \<Rightarrow> nat \<Rightarrow> nat \<Rightarrow> nat \<Rightarrow> nat" where
  "up_from source len offs i = (if source \<le> i \<and> i < source + min offs len then i + len
     else if source + offs \<le> i \<and> i < source + offs + len then i - offs else i)"

definition down_from :: "nat \<Rightarrow> nat \<Rightarrow> nat \<Rightarrow> nat \<Rightarrow> nat" where
  "down_from source len offs i = (if source + len - min offs len \<le> i \<and> i < source + len then i + min offs len - (len + offs)
     else if source - offs \<le> i \<and> i < source - offs + len then i + offs else i)"

lemma MOVE1_length: "source + len + offs \<le> length xs \<Longrightarrow> length (MOVE1 source len offs (min offs len) xs) = length xs"
  by (simp add: MOVE1_def Let_def)

lemma MOVE1_nth:
  assumes "source + len + offs \<le> length xs" "i < length xs"
  shows "MOVE1 source len offs (min offs len) xs ! i = xs ! up_from source len offs i"
proof -
  define v where "v = min offs len"
  then have "v \<le> offs" "v \<le> len" by simp_all
  then have "MOVE1 source len offs v xs ! i = (if source \<le> i \<and> i < source + v then xs ! (i + len)
      else if source + offs \<le> i \<and> i < source + offs + len then xs ! (i - offs) else xs ! i)"
    using assms by (auto simp: MOVE1_def Let_def nth_blit add.commute)
  then show ?thesis by (simp add: up_from_def v_def)
qed

lemma MOVE2_length: "offs \<le> source \<Longrightarrow> source + len \<le> length xs \<Longrightarrow> length (MOVE2 source len offs (min offs len) xs) = length xs"
  by (simp add: MOVE2_def Let_def)

lemma MOVE2_nth:
  assumes "offs \<le> source" "source + len \<le> length xs" "i < length xs"
  shows "MOVE2 source len offs (min offs len) xs ! i = xs ! down_from source len offs i"
proof -
  define v where "v = min offs len"
  then have "v \<le> offs" "v \<le> len" by simp_all
  then have "MOVE2 source len offs v xs ! i = (if source + len - v \<le> i \<and> i < source + len then xs ! (i + v - (len + offs))
      else if source - offs \<le> i \<and> i < source - offs + len then xs ! (i + offs) else xs ! i)"
    using assms by (auto simp: MOVE2_def Let_def nth_blit intro!: arg_cong [where f = "\<lambda>i. xs ! i"])
  then show ?thesis by (simp add: down_from_def v_def)
qed

lemma distinct_moved:
  assumes "distinct xs" "length ys = length xs" "\<And>i. i < length xs \<Longrightarrow> ys ! i = xs ! f i" "inj_on f {..<length xs}"
    "\<And>i. i < length xs \<Longrightarrow> f i < length xs"
  shows "distinct ys"
  using assms unfolding distinct_conv_nth inj_on_def by (metis lessThan_iff)

lemma up_from_less: "source + len + offs \<le> n \<Longrightarrow> i < n \<Longrightarrow> up_from source len offs i < n"
  by (auto simp: up_from_def min_def)

lemma up_from_inj: "offs \<le> len \<Longrightarrow> inj_on (up_from source len offs) A"
  by (auto simp: inj_on_def up_from_def split: if_splits)

lemma down_from_less: "offs \<le> source \<Longrightarrow> source + len \<le> n \<Longrightarrow> i < n \<Longrightarrow> down_from source len offs i < n"
  by (auto simp: down_from_def min_def)

lemma down_from_inj: "offs \<le> source \<Longrightarrow> inj_on (down_from source len offs) A"
  by (auto simp: inj_on_def down_from_def min_def split: if_splits)

section \<open>The invariant\<close>

text \<open>The arrays have their size and the permutation leads into the table.\<close>

definition md_ok :: "map_state \<Rightarrow> bool" where
  "md_ok s \<longleftrightarrow> length (md_used s) = MAX_ELEMS \<and> length (md_permut s) = MAX_ELEMS \<and> length (md_table s) = MAX_ELEMS
     \<and> length (md_paddr s) = MAX_ELEMS \<and> length (md_forwrite s) = MAX_ELEMS \<and> length (md_count s) = MAX_ELEMS
     \<and> (\<forall>j \<in> set (md_permut s). j < MAX_ELEMS) \<and> (\<forall>b \<in> set (md_table s). length b = BLOCK)"

lemma md_init_ok: "md_ok (md_init m ms)" "distinct (md_permut (md_init m ms))"
  by (auto simp: md_ok_def md_init_def)

lemma md_okD: "md_ok s \<Longrightarrow> i < MAX_ELEMS \<Longrightarrow> md_permut s ! i < MAX_ELEMS \<and> length (md_table s ! (md_permut s ! i)) = BLOCK"
  by (simp add: md_ok_def)

lemma table_update_ok: "md_ok s \<Longrightarrow> length b = BLOCK \<Longrightarrow> md_ok (s\<lparr>md_table := (md_table s)[j := b]\<rparr>)"
  using set_update_subset_insert [of "md_table s" j b] by (auto simp: md_ok_def)

lemma length_load [simp]: "length (load_block p m) = BLOCK"
  by (simp add: load_block_def)

lemma md_ok_update [simp]:
  "md_ok (s\<lparr>md_mem := m\<rparr>) = md_ok s" "md_ok (s\<lparr>md_mallocs := ms\<rparr>) = md_ok s" "md_ok (s\<lparr>md_max := n\<rparr>) = md_ok s"
  "length us = length (md_used s) \<Longrightarrow> md_ok (s\<lparr>md_used := us\<rparr>) = md_ok s"
  "length cs = length (md_count s) \<Longrightarrow> md_ok (s\<lparr>md_count := cs\<rparr>) = md_ok s"
  "length fs = length (md_forwrite s) \<Longrightarrow> md_ok (s\<lparr>md_forwrite := fs\<rparr>) = md_ok s"
  "length ps = length (md_paddr s) \<Longrightarrow> md_ok (s\<lparr>md_paddr := ps\<rparr>) = md_ok s"
  by (simp_all add: md_ok_def)

lemma read_blocks_mem: "read_blocks n p i s = Some s' \<Longrightarrow> \<exists>m. s' = s\<lparr>md_mem := m\<rparr>"
proof (induction n p i s rule: read_blocks.induct)
  case (1 p i s)
  then have "s' = s\<lparr>md_mem := md_mem s\<rparr>" by simp
  then show ?case by blast
next
  case (2 n p i s)
  then show ?case by (fastforce split: if_splits)
qed

lemma write_blocks_ok: "write_blocks n p i s = Some s' \<Longrightarrow> md_ok s \<Longrightarrow> md_ok s'"
  by (induction n p i s rule: write_blocks.induct) (auto simp: table_update_ok split: if_splits)

lemma create_blocks_ok: "create_blocks clr n i s = Some s' \<Longrightarrow> md_ok s \<Longrightarrow> md_ok s'"
proof (induction clr n i s rule: create_blocks.induct)
  case (2 clr n i s)
  let ?s = "if clr then s\<lparr>md_table := (md_table s)[md_permut s ! i := replicate BLOCK 0]\<rparr> else s"
  have "md_ok (?s\<lparr>md_used := (md_used ?s)[i := True]\<rparr>)" using 2(3) by (simp add: table_update_ok)
  then show ?case using 2(1) [OF _ refl] 2(2) by (auto simp: Let_def split: if_splits)
qed simp

lemma delete_blocks_ok: "delete_blocks n i s = Some s' \<Longrightarrow> md_ok s \<Longrightarrow> md_ok s'"
  by (induction n i s rule: delete_blocks.induct) (auto split: if_splits)

lemma do_trans_ok: "do_trans i dir (a, s) = Some (a', s') \<Longrightarrow> md_ok s \<Longrightarrow> md_ok s'"
  by (auto simp: do_trans_def Let_def split: bind_splits if_splits dest: read_blocks_mem write_blocks_ok)

lemma alloc_block_ok [simp]: "md_ok (alloc_block i s) = md_ok s"
  by (simp add: alloc_block_def md_malloc_def md_ok_def split: list.split)

text \<open>What a move does to the arrays.\<close>

lemma move_up_ok:
  assumes "md_ok s" "source + len + offs \<le> MAX_ELEMS"
  shows "md_ok (move_up source len offs s)"
  using assms set_MOVE(1) [of source len offs "min offs len" "md_permut s"]
  by (auto simp: md_ok_def move_up_def Let_def MOVE1_length)

lemma move_down_ok:
  assumes "md_ok s" "source + len \<le> MAX_ELEMS" "offs \<le> source"
  shows "md_ok (move_down source len offs s)"
  using assms set_MOVE(2) [of source len offs "min offs len" "md_permut s"]
  by (auto simp: md_ok_def move_down_def Let_def MOVE2_length)

lemma move_ok: "md_move (a, s) = Some (a', s') \<Longrightarrow> md_ok s \<Longrightarrow> md_ok s'"
  by (auto simp: md_move_def Let_def nat_add_distrib [symmetric] split: if_splits intro!: move_up_ok move_down_ok)

lemma get_ok: "md_get (a, s) = Some (a', s') \<Longrightarrow> md_ok s \<Longrightarrow> md_ok s'"
  by (auto simp: md_get_def Let_def split: bind_splits if_splits dest!: do_trans_ok)

lemma put_ok: "md_put (a, s) = Some (a', s') \<Longrightarrow> md_ok s \<Longrightarrow> md_ok s'"
  by (auto simp: md_put_def Let_def split: bind_splits if_splits dest!: do_trans_ok)

lemma trans_ok: "md_trans (a, s) = Some (a', s') \<Longrightarrow> md_ok s \<Longrightarrow> md_ok s'"
  by (auto simp: md_trans_def split: bind_splits if_splits dest: do_trans_ok)

lemma create_ok: "md_create (a, s) = Some (a', s') \<Longrightarrow> md_ok s \<Longrightarrow> md_ok s'"
  by (auto simp: md_create_def Let_def split: bind_splits if_splits dest: create_blocks_ok)

lemma delete_ok: "md_delete (a, s) = Some (a', s') \<Longrightarrow> md_ok s \<Longrightarrow> md_ok s'"
  by (auto simp: md_delete_def Let_def split: bind_splits if_splits dest: delete_blocks_ok)

lemma md_run_keeps:
  "(\<And>a s a' s'. f (a, s) = Some (a', s') \<Longrightarrow> md_ok s \<Longrightarrow> md_ok s') \<Longrightarrow> pred_option md_ok st \<Longrightarrow> pred_option md_ok (snd (md_run f p (a, st)))"
  by (cases st) (auto simp: md_run_def split: option.splits)

interpretation map_brick: brick_contract map_impl "pred_option md_ok"
proof unfold_locales
  fix s c f p a st
  assume f: "map_impl s c = Some f" and st: "pred_option md_ok st"
  have w: "md_wait (a, s) = Some (a', s') \<Longrightarrow> md_ok s \<Longrightarrow> md_ok s'" for a s a' s' by (simp add: md_wait_def)
  obtain g where "f = md_run g" "g \<in> {md_trans, md_wait, md_get, md_put, md_create, md_delete, md_move}"
    using f by (cases c) (auto simp: map_impl_def)
  then show "pred_option md_ok (snd (f p (a, st)))"
    using md_run_keeps [OF _ st] trans_ok get_ok put_ok create_ok delete_ok move_ok w by fastforce
qed

text \<open>Whatever operations are called, the default ones of \<^verbatim>\<open>lib.c\<close> included, the arrays stay in order.\<close>

lemma map_table_keeps: "md_ok s \<Longrightarrow> pred_option md_ok (snd (brick_table map_impl sect c p (a, Some s)))"
  using map_brick.table_keeps [of "Some s"] by simp

section \<open>The blocks a client sees\<close>

definition md_view :: "map_state \<Rightarrow> nat \<Rightarrow> u8 list option" where
  "md_view s i = (if i < MAX_ELEMS \<and> md_used s ! i then Some (md_table s ! (md_permut s ! i)) else None)"

definition moved_view :: "int \<Rightarrow> int \<Rightarrow> int \<Rightarrow> (nat \<Rightarrow> 'b option) \<Rightarrow> nat \<Rightarrow> 'b option" where
  "moved_view source len d V i =
     (if source + d \<le> int i \<and> int i < source + d + len then V (nat (int i - d))
      else if source \<le> int i \<and> int i < source + len then None else V i)"

definition distance :: "args \<Rightarrow> int" where
  "distance a = (if sint (offset a) > 0 then int_blocks (offset a) else - int_blocks (- offset a))"

lemma used_up:
  assumes "md_ok s" "source + len + offs < MAX_ELEMS" "offs \<le> len" "i < MAX_ELEMS"
  shows "md_used (move_up source len offs s) ! i = (if source \<le> i \<and> i < source + offs then False
    else if source + offs \<le> i \<and> i < source + offs + len then md_used s ! (i - offs) else md_used s ! i)"
  using assms by (auto simp: move_up_def Let_def md_ok_def nth_blit)

lemma used_down:
  assumes "md_ok s" "source + len < MAX_ELEMS" "offs \<le> source" "i < MAX_ELEMS"
  shows "md_used (move_down source len offs s) ! i = (if source + len - min offs len \<le> i \<and> i < source + len then False
    else if source - offs \<le> i \<and> i < source - offs + len then md_used s ! (i + offs) else md_used s ! i)"
proof -
  define v where "v = min offs len"
  then have "v \<le> offs" "v \<le> len" by simp_all
  then have "md_used (move_down source len offs s) ! i = (if source + len - v \<le> i \<and> i < source + len then False
      else if source - offs \<le> i \<and> i < source - offs + len then md_used s ! (i + offs) else md_used s ! i)"
    using assms by (auto simp: move_down_def Let_def md_ok_def nth_blit v_def [symmetric] intro!: arg_cong [where f = "\<lambda>i. md_used s ! i"])
  then show ?thesis by (simp add: v_def)
qed

lemma move_up_view:
  assumes "md_ok s" "distinct (md_permut s)" "source + len + offs < MAX_ELEMS" "offs \<le> len"
  shows "distinct (md_permut (move_up source len offs s))"
    "md_view (move_up source len offs s) = moved_view (int source) (int len) (int offs) (md_view s)"
proof -
  have l: "length (md_permut s) = MAX_ELEMS" using assms(1) by (simp add: md_ok_def)
  have p: "md_permut (move_up source len offs s) ! i = md_permut s ! up_from source len offs i" if "i < MAX_ELEMS" for i
    using that assms(3) l by (simp add: move_up_def Let_def MOVE1_nth)
  show "distinct (md_permut (move_up source len offs s))"
  proof (rule distinct_moved [OF assms(2) _ _ up_from_inj [OF assms(4)]])
    show "length (md_permut (move_up source len offs s)) = length (md_permut s)"
      using assms(3) l by (simp add: move_up_def Let_def MOVE1_length)
    show "up_from source len offs i < length (md_permut s)" if "i < length (md_permut s)" for i
      using up_from_less [OF less_imp_le [OF assms(3)]] that l by simp
  qed (simp add: p l)
  show "md_view (move_up source len offs s) = moved_view (int source) (int len) (int offs) (md_view s)"
  proof
    fix i
    have t: "md_table (move_up source len offs s) = md_table s" by (simp add: move_up_def Let_def)
    show "md_view (move_up source len offs s) i = moved_view (int source) (int len) (int offs) (md_view s) i"
    proof (cases "i < MAX_ELEMS")
      case True
      note u = used_up [OF assms(1,3,4) True] p [OF True]
      have m: "min offs len = offs" using assms(4) by simp
      consider "source \<le> i" "i < source + offs" | "source + offs \<le> i" "i < source + offs + len" | "i < source \<or> source + offs + len \<le> i"
        by linarith
      then show ?thesis
      proof cases
        case 1
        then have "\<not> int source + int offs \<le> int i" "int source \<le> int i" "int i < int source + int len" using assms(4) by linarith+
        then have "moved_view (int source) (int len) (int offs) V i = None" for V :: "nat \<Rightarrow> u8 list option" by (simp add: moved_view_def)
        then show ?thesis using 1 u(1) by (simp add: md_view_def)
      next
        case 2
        then have b: "int source + int offs \<le> int i \<and> int i < int source + int offs + int len" "nat (int i - int offs) = i - offs" "i - offs < MAX_ELEMS"
          and n: "\<not> (source \<le> i \<and> i < source + offs)" "source + offs \<le> i \<and> i < source + offs + len"
          using True by linarith+
        have "moved_view (int source) (int len) (int offs) V i = V (i - offs)" for V :: "nat \<Rightarrow> u8 list option"
          by (simp only: moved_view_def b simp_thms if_True)
        moreover have "md_used (move_up source len offs s) ! i = md_used s ! (i - offs)" "md_permut (move_up source len offs s) ! i = md_permut s ! (i - offs)"
          by (simp_all only: u n m up_from_def simp_thms if_False if_True)
        ultimately show ?thesis using b(3) True by (simp add: md_view_def t)
      next
        case 3
        then have b: "\<not> (int source + int offs \<le> int i \<and> int i < int source + int offs + int len)" "\<not> (int source \<le> int i \<and> int i < int source + int len)"
          and n: "\<not> (source \<le> i \<and> i < source + offs)" "\<not> (source + offs \<le> i \<and> i < source + offs + len)"
          using assms(4) by linarith+
        have "moved_view (int source) (int len) (int offs) V i = V i" for V :: "nat \<Rightarrow> u8 list option"
          by (simp only: moved_view_def b if_False)
        moreover have "md_used (move_up source len offs s) ! i = md_used s ! i" "md_permut (move_up source len offs s) ! i = md_permut s ! i"
          by (simp_all only: u n m up_from_def if_False)
        ultimately show ?thesis by (simp add: md_view_def t)
      qed
    next
      case False
      then show ?thesis using assms(3) by (auto simp: md_view_def moved_view_def)
    qed
  qed
qed

lemma move_down_view:
  assumes "md_ok s" "distinct (md_permut s)" "source + len < MAX_ELEMS" "offs \<le> source"
  shows "distinct (md_permut (move_down source len offs s))"
    "md_view (move_down source len offs s) = moved_view (int source) (int len) (- int offs) (md_view s)"
proof -
  have l: "length (md_permut s) = MAX_ELEMS" using assms(1) by (simp add: md_ok_def)
  have p: "md_permut (move_down source len offs s) ! i = md_permut s ! down_from source len offs i" if "i < MAX_ELEMS" for i
    using that assms(3,4) l by (simp add: move_down_def Let_def MOVE2_nth)
  show "distinct (md_permut (move_down source len offs s))"
  proof (rule distinct_moved [OF assms(2) _ _ down_from_inj [OF assms(4)]])
    show "length (md_permut (move_down source len offs s)) = length (md_permut s)"
      using assms(3,4) l by (simp add: move_down_def Let_def MOVE2_length)
    show "down_from source len offs i < length (md_permut s)" if "i < length (md_permut s)" for i
      using down_from_less [OF assms(4) less_imp_le [OF assms(3)]] that l by simp
  qed (simp add: p l)
  show "md_view (move_down source len offs s) = moved_view (int source) (int len) (- int offs) (md_view s)"
  proof
    fix i
    have t: "md_table (move_down source len offs s) = md_table s" by (simp add: move_down_def Let_def)
    show "md_view (move_down source len offs s) i = moved_view (int source) (int len) (- int offs) (md_view s) i"
    proof (cases "i < MAX_ELEMS")
      case True
      note u = used_down [OF assms(1,3,4) True] p [OF True]
      define v where "v = min offs len"
      then have v: "v \<le> offs" "v \<le> len" "v = offs \<or> v = len" by linarith+
      consider "source + len - v \<le> i" "i < source + len" | "source - offs \<le> i" "i < source - offs + len"
        | "\<not> (source + len - v \<le> i \<and> i < source + len)" "\<not> (source - offs \<le> i \<and> i < source - offs + len)"
        by blast
      then show ?thesis
      proof cases
        case 1
        then have "\<not> int i < int source - int offs + int len" "source \<le> i" using v assms(4) by linarith+
        then show ?thesis using 1 u(1) by (simp add: md_view_def moved_view_def v_def)
      next
        case 2
        then have "\<not> source + len - v \<le> i" "nat (int i - - int offs) = i + offs" "i + offs < MAX_ELEMS" using v assms(3,4) by linarith+
        moreover have "int source - int offs \<le> int i \<and> int i < int source - int offs + int len" using 2 assms(4) by linarith
        ultimately have "moved_view (int source) (int len) (- int offs) V i = V (i + offs)" for V :: "nat \<Rightarrow> u8 list option"
          by (simp add: moved_view_def)
        moreover have "md_view (move_down source len offs s) i = md_view s (i + offs)"
          using 2 u True \<open>\<not> source + len - v \<le> i\<close> \<open>i + offs < MAX_ELEMS\<close> by (simp add: md_view_def t down_from_def v_def)
        ultimately show ?thesis by simp
      next
        case 3
        have "\<not> (int source + - int offs \<le> int i \<and> int i < int source + - int offs + int len)" using 3(2) assms(4) by auto
        moreover have "\<not> (int source \<le> int i \<and> int i < int source + int len)" using 3 v assms(4) by (cases "v = offs") auto
        ultimately have "moved_view (int source) (int len) (- int offs) V i = V i" for V :: "nat \<Rightarrow> u8 list option"
          by (simp only: moved_view_def if_False)
        moreover have "md_used (move_down source len offs s) ! i = md_used s ! i" "md_permut (move_down source len offs s) ! i = md_permut s ! i"
          by (simp_all only: u 3 [unfolded v_def] down_from_def if_False)
        ultimately show ?thesis by (simp add: md_view_def t)
      qed
    next
      case False
      then show ?thesis using assms(3) by (auto simp: md_view_def moved_view_def)
    qed
  qed
qed

definition sample_store :: map_state where
  "sample_store = (md_init (\<lambda>i. of_nat (i div BLOCK)) [])\<lparr>md_used := (replicate MAX_ELEMS False)[3 := True],
     md_table := (replicate MAX_ELEMS (replicate BLOCK 0))[3 := replicate BLOCK 7]\<rparr>"

definition sample_move :: args where
  "sample_move = zero_args\<lparr>log_addr := 0x2000, log_len := 0x2000, offset := 0x1000, offset_max := 0x1000\<rparr>"

lemma sample_store_ok: "md_ok sample_store" "distinct (md_permut sample_store)"
  using md_init_ok [of "\<lambda>i. of_nat (i div BLOCK)" "[]"] set_update_subset_insert [of "md_table (md_init m [])" 3 "replicate BLOCK 7"]
  by (auto simp: sample_store_def md_init_def md_ok_def)

lemma sample_move_arith:
  "int_blocks (log_addr sample_move) = 2" "int_blocks (log_len sample_move) = 2" "distance sample_move = 1"
  "md_move (sample_move, s) = Some (sample_move\<lparr>success := True\<rparr>, move_up 2 2 1 s)"
  by (simp_all add: sample_move_def int_blocks_def distance_def BLOCK_def MAX_ELEMS_def md_move_def Let_def)

lemma still_distance: "sint (offset a) = 0 \<Longrightarrow> distance a = 0"
proof -
  assume "sint (offset a) = 0"
  then have "offset a = 0" by (metis signed_0 signed_word_eqI)
  then show ?thesis by (simp add: distance_def int_blocks_def)
qed

text \<open>C11: \<^verbatim>\<open>$move\<close> moves the blocks of a range, contents and existence, by the distance, upwards at most by its length:
  afterwards the target range shows what the source range showed, what the source range leaves does not exist, every
  other block is as before, and no two blocks share their contents.\<close>
theorem move_moves_blocks:
  assumes "md_ok s" "distinct (md_permut s)" "md_move (a, s) = Some (a', s')" "distance a \<le> int_blocks (log_len a)"
  shows "success a' \<and> distinct (md_permut s')
    \<and> md_view s' = moved_view (int_blocks (log_addr a)) (int_blocks (log_len a)) (distance a) (md_view s)"
proof -
  let ?s = "int_blocks (log_addr a)" and ?l = "int_blocks (log_len a)" and ?d = "distance a"
  consider (up) "sint (offset a) > 0" "0 \<le> ?s" "0 \<le> ?l" "0 \<le> ?d" "?s + ?l + ?d < int MAX_ELEMS" "s' = move_up (nat ?s) (nat ?l) (nat ?d) s"
    | (down) "sint (offset a) < 0" "0 \<le> ?s" "0 \<le> ?l" "?d \<le> 0" "?s + ?d \<ge> 0" "?s + ?l < int MAX_ELEMS" "s' = move_down (nat ?s) (nat ?l) (nat (- ?d)) s"
    | (still) "sint (offset a) = 0" "s' = s"
    using assms(3) by (auto simp: md_move_def Let_def distance_def split: if_splits)
  moreover have "success a'" using assms(3) by (auto simp: md_move_def Let_def split: if_splits)
  ultimately show ?thesis
  proof cases
    case up
    then show ?thesis using move_up_view [OF assms(1,2), of "nat ?s" "nat ?l" "nat ?d"] assms(4) \<open>success a'\<close> by simp
  next
    case down
    then show ?thesis using move_down_view [OF assms(1,2), of "nat ?s" "nat ?l" "nat (- ?d)"] \<open>success a'\<close> by simp
  next
    case still
    have "?d = 0" using still_distance [OF still(1)] .
    then show ?thesis using still \<open>success a'\<close> assms(2) by (auto simp: moved_view_def fun_eq_iff)
  qed
qed

theorem move_moves_blocks_witness:
  "md_view (move_up 2 2 1 sample_store) = moved_view 2 2 1 (md_view sample_store)"
  using move_moves_blocks [OF sample_store_ok sample_move_arith(4)] by (simp add: sample_move_arith)

text \<open>C21: Moving blocks up by more than the length of the range breaks the permutation: the blocks in the way are taken from
  right behind the source range instead of from the target range, so the first block of the range and the block
  right behind it are afterwards one and the same, and the contents of the target range are lost.\<close>
theorem move_far_up_aliases:
  assumes "md_ok s" "md_move (a, s) = Some (a', s')" "0 < int_blocks (log_len a)" "int_blocks (log_len a) < distance a"
  shows "md_permut s' ! nat (int_blocks (log_addr a)) = md_permut s' ! nat (int_blocks (log_addr a) + int_blocks (log_len a))
    \<and> \<not> distinct (md_permut s')"
proof -
  let ?s = "int_blocks (log_addr a)" and ?l = "int_blocks (log_len a)" and ?d = "distance a"
  have up: "0 \<le> ?s" "?s + ?l + ?d < int MAX_ELEMS" "s' = move_up (nat ?s) (nat ?l) (nat ?d) s"
    using assms(2-4) still_distance [of a] by (auto simp: md_move_def Let_def distance_def split: if_splits)
  define k n d where "k = nat ?s" and "n = nat ?l" and "d = nat ?d"
  have b: "k + n + d < MAX_ELEMS" "0 < n" "n < d" using up(1,2) assms(3,4) by (simp_all add: k_def n_def d_def)
  have l: "length (md_permut s) = MAX_ELEMS" using assms(1) by (simp add: md_ok_def)
  have p: "md_permut s' ! i = md_permut s ! up_from k n d i" if "i < MAX_ELEMS" for i
    using that b(1) l unfolding up(3) by (simp add: move_up_def Let_def MOVE1_nth k_def n_def d_def)
  have "up_from k n d k = k + n" "up_from k n d (k + n) = k + n" using b by (simp_all add: up_from_def)
  then have e: "md_permut s' ! k = md_permut s' ! (k + n)" using p b by simp
  moreover have "length (md_permut s') = MAX_ELEMS" using move_ok [OF assms(2,1)] by (simp add: md_ok_def)
  ultimately have "\<not> distinct (md_permut s')" using b nth_eq_iff_index_eq [of "md_permut s'" k "k + n"] by auto
  moreover have "nat (?s + ?l) = k + n" using up(1) assms(3) by (simp add: k_def n_def nat_add_distrib)
  ultimately show ?thesis using e by (simp add: k_def)
qed

definition sample_far :: args where "sample_far = sample_move\<lparr>offset := 0x5000, offset_max := 0x5000\<rparr>"

lemma sample_far_arith:
  "int_blocks (log_addr sample_far) = 2" "int_blocks (log_len sample_far) = 2" "distance sample_far = 5"
  "md_move (sample_far, s) = Some (sample_far\<lparr>success := True\<rparr>, move_up 2 2 5 s)"
  by (simp_all add: sample_far_def sample_move_def int_blocks_def distance_def BLOCK_def MAX_ELEMS_def md_move_def Let_def)

theorem move_far_up_aliases_witness:
  "md_permut (move_up 2 2 5 sample_store) ! 2 = md_permut (move_up 2 2 5 sample_store) ! 4"
  using move_far_up_aliases [OF sample_store_ok(1) sample_far_arith(4)] by (simp add: sample_far_arith)

section \<open>Transfers\<close>

lemma write_blocks_stores:
  assumes "write_blocks n p i s = Some s'" "md_ok s" "distinct (md_permut s)"
  shows "md_permut s' = md_permut s \<and> md_used s' = md_used s \<and> md_mem s' = md_mem s \<and> (0 < n \<longrightarrow> i + n \<le> MAX_ELEMS) \<and> (\<forall>j < MAX_ELEMS.
    md_table s' ! (md_permut s ! j) = (if i \<le> j \<and> j < i + n then load_block (p + (j - i) * BLOCK) (md_mem s) else md_table s ! (md_permut s ! j)))"
  using assms
proof (induction n arbitrary: p i s)
  case (Suc n)
  let ?b = "load_block p (md_mem s)"
  let ?s = "s\<lparr>md_table := (md_table s)[md_permut s ! i := ?b]\<rparr>"
  have i: "i < MAX_ELEMS" and w: "write_blocks n (p + BLOCK) (i + 1) ?s = Some s'" using Suc.prems(1) by (auto split: if_splits)
  have ok: "md_ok ?s" using Suc.prems(2) by (simp add: table_update_ok)
  have l: "length (md_permut s) = MAX_ELEMS" "length (md_table s) = MAX_ELEMS" using Suc.prems(2) by (simp_all add: md_ok_def)
  have t: "md_table ?s ! (md_permut s ! j) = (if j = i then ?b else md_table s ! (md_permut s ! j))" if "j < MAX_ELEMS" for j
    using that i l md_okD [OF Suc.prems(2) i] nth_eq_iff_index_eq [OF Suc.prems(3), of i j] by auto
  from Suc.IH [OF w ok] Suc.prems(3) have IH: "md_permut s' = md_permut s" "md_used s' = md_used s" "md_mem s' = md_mem s" "0 < n \<longrightarrow> i + 1 + n \<le> MAX_ELEMS"
    "\<And>j. j < MAX_ELEMS \<Longrightarrow> md_table s' ! (md_permut s ! j) =
      (if i + 1 \<le> j \<and> j < i + 1 + n then load_block (p + BLOCK + (j - (i + 1)) * BLOCK) (md_mem s) else md_table ?s ! (md_permut s ! j))"
    by auto
  have d: "p + BLOCK + (j - (i + 1)) * BLOCK = p + (j - i) * BLOCK" if "i + 1 \<le> j" for j
    using that by (metis Suc_diff_le Suc_eq_plus1 add.assoc diff_Suc_Suc mult_Suc)
  have "md_table s' ! (md_permut s ! j) = (if i \<le> j \<and> j < i + Suc n then load_block (p + (j - i) * BLOCK) (md_mem s) else md_table s ! (md_permut s ! j))"
    if "j < MAX_ELEMS" for j
  proof (cases "i + 1 \<le> j")
    case True
    then show ?thesis using t [OF that] by (simp only: IH(5) [OF that] d [OF True]) simp
  next
    case False
    then show ?thesis using t [OF that] by (simp only: IH(5) [OF that]) auto
  qed
  then show ?case using IH(1-4) i by auto
qed auto

lemma read_blocks_loads:
  assumes "read_blocks n p i s = Some s'" "md_ok s"
  shows "md_mem s' x = (if p \<le> x \<and> x < p + n * BLOCK then md_table s ! (md_permut s ! (i + (x - p) div BLOCK)) ! ((x - p) mod BLOCK) else md_mem s x)
    \<and> (0 < n \<longrightarrow> i + n \<le> MAX_ELEMS)"
  using assms
proof (induction n arbitrary: p i s)
  case (Suc n)
  let ?b = "md_table s ! (md_permut s ! i)"
  let ?s = "s\<lparr>md_mem := store_block p ?b (md_mem s)\<rparr>"
  have i: "i < MAX_ELEMS" and r: "read_blocks n (p + BLOCK) (i + 1) ?s = Some s'" using Suc.prems(1) by (auto split: if_splits)
  have lb: "length ?b = BLOCK" using md_okD [OF Suc.prems(2) i] by simp
  have B: "0 < BLOCK" by (simp add: BLOCK_def)
  have IH: "md_mem s' x = (if p + BLOCK \<le> x \<and> x < p + BLOCK + n * BLOCK
      then md_table s ! (md_permut s ! (i + 1 + (x - (p + BLOCK)) div BLOCK)) ! ((x - (p + BLOCK)) mod BLOCK) else store_block p ?b (md_mem s) x)"
    "0 < n \<longrightarrow> i + 1 + n \<le> MAX_ELEMS"
    using Suc.IH [OF r] Suc.prems(2) by simp_all
  show ?case
  proof (cases "p + BLOCK \<le> x")
    case True
    have "x - p = x - (p + BLOCK) + BLOCK" using True by simp
    then have "(x - p) div BLOCK = 1 + (x - (p + BLOCK)) div BLOCK" "(x - p) mod BLOCK = (x - (p + BLOCK)) mod BLOCK"
      using B by (metis add.commute div_add_self2 not_gr_zero, metis mod_add_self2)
    moreover have "Suc (i + n) \<le> MAX_ELEMS" using IH(2) i by (cases "n = 0") simp_all
    ultimately show ?thesis using IH(1) True lb by (simp add: store_block_def ac_simps)
  next
    case False
    then have "p \<le> x \<Longrightarrow> (x - p) div BLOCK = 0 \<and> (x - p) mod BLOCK = x - p" by simp
    moreover have "Suc (i + n) \<le> MAX_ELEMS" using IH(2) i by (cases "n = 0") simp_all
    ultimately show ?thesis using IH(1) False lb by (auto simp: store_block_def)
  qed
qed auto

text \<open>C16: What \<^verbatim>\<open>$trans\<close> for writing has stored is what \<^verbatim>\<open>$trans\<close> for reading of the same range delivers, byte for byte,
  wherever the data came from and is wanted, and whatever has happened to the memory in between.\<close>
theorem trans_roundtrip:
  assumes "md_ok s" "distinct (md_permut s)" "md_trans (a, s) = Some (a1, s1)" "direction a = direct_write" "\<not> success a" "success a1"
    "md_trans (b, s1\<lparr>md_mem := m\<rparr>) = Some (b2, s2)" "direction b = direct_read" "log_addr b = log_addr a" "log_len b = log_len a"
    "j < unat (ucast (log_len a) :: u32)"
  shows "success b2 \<and> phys_len b2 = phys_len a1 \<and> md_mem s2 (unat (phys_addr b) + j) = md_mem s (unat (phys_addr a) + j)"
proof -
  let ?len = "unat (ucast (log_len a) :: u32)"
  let ?n = "?len div BLOCK" and ?p = "unat (phys_addr a)" and ?q = "unat (phys_addr b)"
  obtain i where i: "md_index (log_addr a) = Some i" using assms(3) by (auto simp: md_trans_def split: bind_splits)
  have u: "md_used s ! i" using assms(3,5,6) i by (auto simp: md_trans_def split: if_splits)
  have w: "write_blocks ?n ?p i s = Some s1" "\<not> ?n * BLOCK < ?len" "phys_len a1 = of_nat (?n * BLOCK)"
    using assms(3,4) i u by (auto simp: md_trans_def do_trans_def Let_def split: bind_splits if_splits)
  note st = write_blocks_stores [OF w(1) assms(1,2)]
  have r: "read_blocks ?n ?q i (s1\<lparr>md_mem := m\<rparr>) = Some s2" "success b2" "phys_len b2 = of_nat (?n * BLOCK)"
    using assms(7-10) i u st by (auto simp: md_trans_def do_trans_def Let_def split: bind_splits if_splits)
  have ok: "md_ok (s1\<lparr>md_mem := m\<rparr>)" using write_blocks_ok [OF w(1) assms(1)] by simp
  have B: "0 < BLOCK" by (simp add: BLOCK_def)
  have jn: "j < ?n * BLOCK" using assms(11) w(2) by linarith
  then have d: "j div BLOCK < ?n" using B by (simp add: less_mult_imp_div_less)
  have "md_mem s2 (?q + j) = md_table s1 ! (md_permut s1 ! (i + j div BLOCK)) ! (j mod BLOCK)"
    using read_blocks_loads [OF r(1) ok, of "?q + j"] jn by simp
  also have "\<dots> = load_block (?p + j div BLOCK * BLOCK) (md_mem s) ! (j mod BLOCK)"
    using st d by auto
  also have "\<dots> = md_mem s (?p + j)" using B by (simp add: load_block_def) (simp add: add.commute)
  finally show ?thesis using r w(3) by simp
qed

definition sample_write :: args where
  "sample_write = zero_args\<lparr>log_addr := 0x3000, log_len := 0x1000, phys_addr := 0x2000, direction := direct_write\<rparr>"

text \<open>The transfer of one block.\<close>

lemma do_trans_block:
  assumes "unat (ucast (log_len a) :: u32) = BLOCK" "phys_addr a \<noteq> 0" "i < MAX_ELEMS"
  shows "do_trans i direct_write (a, s) = Some (a\<lparr>phys_len := of_nat BLOCK\<rparr>, s\<lparr>md_table := (md_table s)[md_permut s ! i := load_block (unat (phys_addr a)) (md_mem s)]\<rparr>)"
    "do_trans i direct_read (a, s) = Some (a\<lparr>phys_len := of_nat BLOCK\<rparr>, s\<lparr>md_mem := store_block (unat (phys_addr a)) (md_table s ! (md_permut s ! i)) (md_mem s)\<rparr>)"
  using assms(2,3) unfolding do_trans_def by (simp_all add: assms(1) BLOCK_def)

lemma sample_write_arith:
  "md_index 0x3000 = Some 3" "unat (ucast (log_len sample_write) :: u32) = BLOCK" "of_nat BLOCK = (0x1000 :: u32)" "3 < MAX_ELEMS" "0 < BLOCK"
  "log_addr sample_write = 0x3000" "direction sample_write = direct_write" "phys_addr sample_write = 0x2000"
  by (simp_all add: md_index_def int_blocks_def BLOCK_def MAX_ELEMS_def sample_write_def)

lemma sample_store_parts:
  "md_used sample_store ! 3" "md_permut sample_store ! 3 = 3"
  using sample_write_arith(4) by (simp_all add: sample_store_def md_init_def)

lemma sample_transfers:
  "md_trans (sample_write, sample_store) = Some (sample_write\<lparr>phys_len := 0x1000, success := True\<rparr>,
     sample_store\<lparr>md_table := (md_table sample_store)[3 := load_block 0x2000 (md_mem sample_store)]\<rparr>)"
  "md_table s ! 3 = b \<Longrightarrow> md_used s = md_used sample_store \<Longrightarrow> md_permut s = md_permut sample_store \<Longrightarrow>
    md_trans (sample_write\<lparr>phys_addr := 0x5000, direction := direct_read\<rparr>, s)
      = Some (sample_write\<lparr>phys_addr := 0x5000, direction := direct_read, phys_len := 0x1000, success := True\<rparr>, s\<lparr>md_mem := store_block 0x5000 b (md_mem s)\<rparr>)"
  using do_trans_block(1) [of sample_write 3 sample_store]
    do_trans_block(2) [of "sample_write\<lparr>phys_addr := 0x5000, direction := direct_read\<rparr>" 3 s] sample_write_arith(2)
  by (simp_all add: md_trans_def sample_write_arith(1,3-) sample_store_parts)

theorem trans_roundtrip_witness:
  "md_mem (sample_store\<lparr>md_table := (md_table sample_store)[3 := load_block 0x2000 (md_mem sample_store)],
      md_mem := store_block 0x5000 (load_block 0x2000 (md_mem sample_store)) (\<lambda>_. 0)\<rparr>) (0x5000 + 1) = 2"
proof -
  let ?s = "sample_store\<lparr>md_table := (md_table sample_store)[3 := load_block 0x2000 (md_mem sample_store)], md_mem := \<lambda>_. 0\<rparr>"
  have "md_table ?s ! 3 = load_block 0x2000 (md_mem sample_store)"
    using sample_write_arith(4) by (simp add: sample_store_def md_init_def)
  then have r: "md_trans (sample_write\<lparr>phys_addr := 0x5000, direction := direct_read\<rparr>, ?s) = Some (sample_write\<lparr>phys_addr := 0x5000,
      direction := direct_read, phys_len := 0x1000, success := True\<rparr>, ?s\<lparr>md_mem := store_block 0x5000 (load_block 0x2000 (md_mem sample_store)) (md_mem ?s)\<rparr>)"
    by (rule sample_transfers(2)) simp_all
  have "md_mem (?s\<lparr>md_mem := store_block 0x5000 (load_block 0x2000 (md_mem sample_store)) (md_mem ?s)\<rparr>)
      (unat (phys_addr (sample_write\<lparr>phys_addr := 0x5000, direction := direct_read\<rparr>)) + 1) = md_mem sample_store (unat (phys_addr sample_write) + 1)"
    by (rule trans_roundtrip [OF sample_store_ok sample_transfers(1) _ _ _ r, THEN conjunct2, THEN conjunct2])
      (simp_all add: sample_write_def zero_args_def)
  also have "\<dots> = 2" by (simp add: sample_write_def sample_store_def md_init_def BLOCK_def)
  finally show ?thesis by (simp add: sample_write_def)
qed

end
