(* ===== verification/Spec2Isabelle.thy ===== *)
theory Spec2Isabelle
  imports Math64 Bin_Print Pointer_Cache Libc_Random Mem_Init Libc_Scanf Param_Scanner Seg_Tables Screen Static_Loader Control_Spec Kernel_Boot Map_Dummy
begin

text \<open>
  Athomux is an operating system built from bricks.  A brick has inputs and outputs, the connectors; over a
  connector its neighbour calls a fixed set of elementary operations on an address space (\<^verbatim>\<open>get\<close>, \<^verbatim>\<open>put\<close>,
  \<^verbatim>\<open>trans\<close>, \<^verbatim>\<open>wait\<close>, \<^verbatim>\<open>create\<close>, ...) with one argument structure, and combined operations that default to
  sequences of elementary ones.  Which bricks exist and how they are wired is described by strategy
  texts, which the strategy level reads, converts into linked records and prints again.  The same
  bricks run as a Linux process, as a Linux module and on the bare PC, where a small kernel with its own
  C library carries them.  All paths below are relative to \<^verbatim>\<open>src/trunk/src\<close>.

  \<^bold>\<open>Bricks and their operations.\<close>
  \<^item> \<open>Common_Types\<close> has the types of \<^verbatim>\<open>common.h\<close>: the enumerations, the operation codes and \<^verbatim>\<open>struct args\<close>.
  \<^item> \<open>Nest_Ops\<close> has the default operations of \<^verbatim>\<open>lib.c\<close> (the \<^verbatim>\<open>missing_\<close> stubs and the fourteen combined
    operations) over a table of operations.  It shows which sequences of elementary operations a
    combined operation performs, whatever the brick does, and where the operation code handed on is wrong.
  \<^item> \<open>Brick_Init\<close> has the initialization of connectors and instances by the loader tables of \<^verbatim>\<open>lib.c\<close>:
    order, completeness and early stop.
  \<^item> \<open>Buffer_Brick\<close> is the brick \<^verbatim>\<open>buffer_dummy_linux.ath\<close> with its hash table, completed by the defaults of
    \<open>Nest_Ops\<close>: every operation, default ones included, keeps the table well-formed, \<^verbatim>\<open>put\<close> undoes
    \<^verbatim>\<open>get\<close>, and the undo of a failed combined operation leaks a write reservation.
  \<^item> \<open>Map_Dummy\<close> is the store \<^verbatim>\<open>map_dummy.ath\<close>: a table of blocks reached through a permutation, completed by the defaults
    of \<open>Nest_Ops\<close>.  Every operation keeps the arrays in order, \<^verbatim>\<open>$trans\<close> reads what it has written, and \<^verbatim>\<open>$move\<close>
    moves blocks as an address space should, except upwards by more than the length of the range, where
    the permutation is broken.  The size is that of the source, 1024 blocks of 4096 bytes.
  \<^item> \<open>Pointer_Cache\<close> has \<^verbatim>\<open>_PC_GET\<close>, \<^verbatim>\<open>_PC_PUT\<close> and \<^verbatim>\<open>_PC_ALL_PUT\<close> of \<^verbatim>\<open>lib.c\<close>, run over the buffer brick.

  \<^bold>\<open>The control brick\<close>, \<^verbatim>\<open>control_simple.ath\<close>, which creates, connects and deletes all bricks.
  \<^item> \<open>Linked\<close> has lists linked through pointers; \<open>Control_Graph\<close> has the data of the brick and its routines for connecting
    and disconnecting, which refine adding and removing edges of a graph; \<open>Control_Simple\<close> has the other
    routines and the operations.
  \<^item> \<open>Control_Inv\<close>, \<open>Control_Bricks\<close> and \<open>Control_Ops\<close> have the invariant, that brick table, connector lists and graph are
    well-formed and agree, and that each operation keeps it and \<^verbatim>\<open>static_init\<close> establishes it.
  \<^item> \<open>Adapt_Strat\<close> has \<^verbatim>\<open>adapt_strat.ath\<close>, the interpreter of strategy texts inside the control brick, and \<open>Strat_Script\<close> that it
    performs the commands of a text in order.
  \<^item> \<open>Control_Reach\<close> has the states reached by any sequence of operations, with the typing of connections, and
    \<open>Control_Spec\<close> what the single operations do to the graph.

  \<^bold>\<open>The strategy level.\<close>
  \<^item> \<open>Strat_Scan\<close> has the scanners of \<^verbatim>\<open>strat.c\<close>, old and new; the scanner finds the first keyword line, and
    printed connectors are read back.
  \<^item> \<open>Bin_Strat\<close>, \<open>Bin_Records\<close>, \<open>Bin_Bricks\<close> and \<open>Bin_Print\<close> have \<^verbatim>\<open>binstrat.c\<close> on an explicit store of
    record fields and characters: the conversion terminates on every text and writes only from its
    position on, the records represent the printed brick, and printing them gives the text again.
  \<^item> \<open>Ath_Stdio\<close> has the formatted output of \<^verbatim>\<open>ath_stdio.c\<close>: what fits is written exactly, nothing is written
    beyond the buffer.  \<open>Bin_Print\<close> prints with it.
  \<^item> \<open>Param_Scanner\<close> has \<^verbatim>\<open>param_scanner.c\<close>: the search for an option of a parameter line.

  \<^bold>\<open>The kernel for the PC.\<close>
  \<^item> \<open>Phys_Mem\<close>, \<open>Page_Trees\<close> and \<open>Mem_Init\<close> have \<^verbatim>\<open>x86_mem.c\<close>: the page allocator, whose free list stays the
    list of exactly the unused pages under all interleavings of its operations, the page tables
    (mapping, copy in copy-on-write mode, release) on top of it, and the start, which builds the first
    tables and the pool from the memory map of the boot loader.
  \<^item> \<open>Seg_Tables\<close> has the descriptor tables of \<^verbatim>\<open>x86_kernel.c\<close> and \<^verbatim>\<open>x86_irq.c\<close>, read the way the processor
    reads them.
  \<^item> \<open>Screen\<close> has the text screen and the serial port of \<^verbatim>\<open>x86_lib.c\<close>: no write leaves the video memory, a
    character changes only its cell except for scrolling, and \<^verbatim>\<open>ser_putchar\<close> returns when the port gets ready.
  \<^item> \<open>Math64\<close> has the 64 bit division of \<^verbatim>\<open>x86_math64.c\<close>, proved against division of natural numbers.
  \<^item> \<open>Kernel_Boot\<close> has the rest of \<^verbatim>\<open>x86_kernel.c\<close>: \<^verbatim>\<open>cmain\<close>, composed of the parts above, and the commands \<^verbatim>\<open>b_cmd\<close> and
    \<^verbatim>\<open>b_boot\<close> with which it sets up the first bricks through \<^verbatim>\<open>vsnprintf\<close>, the interpreter and the control brick; also
    the same for the program \<^verbatim>\<open>athomux_ulinux.c\<close>.  The start keeps the control brick consistent and performs the
    commands of its texts, but sees none of their failures, such as that of its processor brick.

  \<^bold>\<open>Loaders.\<close>
  \<^item> \<open>Static_Loader\<close> has \<^verbatim>\<open>static_loader.c\<close>: the ELF headers it reads back, the sequence of \<^verbatim>\<open>mmap\<close> and \<^verbatim>\<open>memset\<close> calls
    of a segment, and that they produce the image of the segment.

  \<^bold>\<open>The C library of the kernel\<close> (\<^verbatim>\<open>libc/\<close>).
  \<^item> \<open>Libc_Random\<close> has \<^verbatim>\<open>random.c\<close> as a refinement of the recurrence it documents.
  \<^item> \<open>Libc_Num\<close> and \<open>Libc_String\<close> have \<^verbatim>\<open>ctype.c\<close>, the number conversions and the string and memory
    routines, with those of \<^verbatim>\<open>x86_mem.c\<close>.
  \<^item> \<open>Libc_Printf\<close> has \<^verbatim>\<open>doprnt.c\<close> and the routines built on it; a reference rendering of formats says what it
    prints, and further lemmas where the characters go.  \<open>Libc_Scanf\<close> has \<^verbatim>\<open>doscan.c\<close> and \<^verbatim>\<open>sscanf.c\<close>: what
    \<open>Libc_Printf\<close> prints is read back.

  \<open>Prelude\<close> and \<open>Numerals\<close> hold what the others share: names for machine words, the reading of texts through
  pointers, positional notation, and the \<^verbatim>\<open>sscanf\<close> of a hosted C library.

  \<^bold>\<open>Interfaces.\<close>  The locales state what a client relies on, and each is interpreted on the definitions that
  provide it: the operations of a brick that keep an invariant (on the buffer brick, the control brick and the store), the brick
  behind the strategy interpreter (on the control brick), the frame of a
  converter (on the attribute and connector converters), a source of pages (on the page allocator, for
  the page trees), and the search of an option (on both searches of the parameter scanner).

  \<^bold>\<open>Conventions.\<close>  A text is a list of 7 bit characters without its NUL, a pointer into it the suffix
  from there on.  Sizes, offsets and integer widths are those of the i386; words wrap around where the C
  type is unsigned, and signed overflow is either excluded by a hypothesis or the value \<open>None\<close>.
  \<open>None\<close> as the result of an operation stands for what has no result: a failed assertion, an access
  outside an object, a division by zero, an endless loop.  Loops that end by a measure are total
  functions with a termination proof; those that depend on memory (strings without end, the list of
  connectors in memory, the memory map) are partial functions over options, and theorems about them say
  that they return.  No fuel is used, except that the buffer of 64 digits of \<^verbatim>\<open>_doprnt\<close> is itself the
  bound of the recursion, which suffices for every 64 bit number in base 2.  Physical memory of the page
  allocator is a function from addresses to 32 bit words, memory of the string routines a function from
  addresses to bytes.  Devices, memory allocation and the operations of neighbouring bricks are arguments.

  \<^bold>\<open>Not modelled.\<close>  Bricks are written in the \<^verbatim>\<open>.ath\<close> language, which a Perl program translates; the C code it
  generates is not part of the repository.  Four of them are modelled, with the translation of calls and
  argument structures written out.  \<^verbatim>\<open>x86_malloc.c\<close>, \<^verbatim>\<open>env/\<close> and the OSKit headers are third-party
  code, \<^verbatim>\<open>randomdata.c\<close> is data.  The loaders and the other main programs for Linux, and
  the preparations of \<^verbatim>\<open>athomux_ulinux.c\<close>, consist of calls to the host system; the listing routines of
  \<^verbatim>\<open>x86_irq.c\<close> and \<^verbatim>\<open>x86_lib.c\<close> only print.
  Messages are state only in \<open>Kernel_Boot\<close>.
\<close>

end
